(* ===== verification/Prelude.thy ===== *)
theory Prelude
  imports Main "HOL-Library.Word"
begin

unbundle bit_operations_syntax

text \<open>
  Shared vocabulary of the development: the C integer types as machine words, the byte-addressed
  memory of the RV32 target, little-endian assembly of bytes, the C string as the prefix of a
  character buffer before its NUL, and the simplification collections the component theories
  extend. Nothing here is specific to one component.
\<close>

section \<open>Machine integers and collections\<close>

type_synonym u8 = "8 word"
type_synonym u16 = "16 word"
type_synonym u32 = "32 word"
type_synonym u64 = "64 word"
type_synonym mem = "u32 \<Rightarrow> u8"

named_theorems le_simps \<open>taking words apart into bytes and back\<close>
named_theorems window_defs \<open>the address windows of a target\<close>
named_theorems frame_rules \<open>what an operation leaves alone\<close>

section \<open>Little-endian words\<close>

definition le16 :: "u8 \<Rightarrow> u8 \<Rightarrow> u32" where
  "le16 b0 b1 = ucast b0 OR push_bit 8 (ucast b1)"

definition le32 :: "u8 \<Rightarrow> u8 \<Rightarrow> u8 \<Rightarrow> u8 \<Rightarrow> u32" where
  "le32 b0 b1 b2 b3 =
     ucast b0 OR push_bit 8 (ucast b1) OR push_bit 16 (ucast b2) OR push_bit 24 (ucast b3)"

definition byte_at :: "nat \<Rightarrow> u32 \<Rightarrow> u8" where
  "byte_at k w = ucast (drop_bit (8 * k) w)"

lemma bit_le32:
  "bit (le32 b0 b1 b2 b3) n \<longleftrightarrow>
     (if n < 8 then bit b0 n else if n < 16 then bit b1 (n - 8)
      else if n < 24 then bit b2 (n - 16) else if n < 32 then bit b3 (n - 24) else False)"
  by (auto simp: le32_def bit_simps dest: bit_imp_le_length)

lemma bit_le16:
  "bit (le16 b0 b1) n \<longleftrightarrow>
     (if n < 8 then bit b0 n else if n < 16 then bit b1 (n - 8) else False)"
  by (auto simp: le16_def bit_simps dest: bit_imp_le_length)

lemma bit_byte_at: "bit (byte_at k w) n \<longleftrightarrow> n < 8 \<and> bit w (8 * k + n)"
  by (auto simp: byte_at_def bit_simps add.commute)

lemma le32_byte_at [le_simps]:
  "le32 (byte_at 0 w) (byte_at (Suc 0) w) (byte_at 2 w) (byte_at 3 w) = w"
  by (rule bit_word_eqI) (auto simp: bit_le32 bit_byte_at)

lemma byte_at_le32 [le_simps]:
  "byte_at 0 (le32 b0 b1 b2 b3) = b0"
  "byte_at (Suc 0) (le32 b0 b1 b2 b3) = b1"
  "byte_at 2 (le32 b0 b1 b2 b3) = b2"
  "byte_at 3 (le32 b0 b1 b2 b3) = b3"
  by (rule bit_word_eqI, simp add: bit_le32 bit_byte_at)+

lemma le16_byte_at [le_simps]: "le16 (byte_at 0 w) (byte_at (Suc 0) w) = take_bit 16 w"
  by (rule bit_word_eqI) (auto simp: bit_le16 bit_byte_at bit_simps)

section \<open>Intervals of addresses\<close>

lemma word_interval:
  fixes a n k :: "'a::len word"
  assumes "a \<le> a + n - 1" and "k < n"
  shows "a \<le> a + k" and "a + k \<le> a + n - 1"
proof -
  have "n \<noteq> 0" using assms(2) by auto
  then have k: "k \<le> n - 1"
    using assms(2) by (simp add: word_le_nat_alt word_less_nat_alt unat_minus_one)
  have n: "a \<le> a + (n - 1)" using assms(1) by (simp add: algebra_simps)
  then have "uint a + uint (n - 1) < 2 ^ LENGTH('a)" by (simp add: no_olen_add)
  then have "uint a + uint k < 2 ^ LENGTH('a)" using k by (simp add: word_le_def)
  then show "a \<le> a + k" by (simp add: no_olen_add)
  have "a + k \<le> a + (n - 1)" using k n by (rule word_plus_mono_right)
  then show "a + k \<le> a + n - 1" by (simp add: algebra_simps)
qed

section \<open>C strings\<close>

text \<open>A C string is read up to its terminating NUL; \<open>c_str\<close> is what \<open>strlen\<close> sees of a buffer.\<close>

abbreviation NUL :: char where "NUL \<equiv> CHR 0x00"

definition c_str :: "string \<Rightarrow> string" where
  "c_str = takeWhile (\<lambda>c. c \<noteq> NUL)"

lemma c_str_id [simp]: "NUL \<notin> set s \<Longrightarrow> c_str s = s"
  by (auto simp: c_str_def)

lemma c_str_no_NUL [simp]: "NUL \<notin> set (c_str s)"
  by (auto simp: c_str_def dest: set_takeWhileD)

lemma c_str_Nil [simp]: "c_str [] = []"
  by (simp add: c_str_def)

end
