(* ===== verification/Platform.thy ===== *)
theory Platform
  imports Prelude
begin

text \<open>
  The compile-time memory map of a target (\<^verbatim>\<open>targets/*/target_platform.h\<close>, read through
  \<^verbatim>\<open>hal/regs.h\<close>), as a record, with the three targets of the repository as constants. The
  component theories take the target as a parameter, as the C code takes the header.
\<close>

definition OF_PLATFORM_POCKET :: u32 where "OF_PLATFORM_POCKET = 1"
definition OF_PLATFORM_MISTER :: u32 where "OF_PLATFORM_MISTER = 2"
definition OF_PLATFORM_SIM :: u32 where "OF_PLATFORM_SIM = 255"

record target =
  platform_id :: u32
  cpu_freq_hz :: u32
  bram_base :: u32
  bram_size :: u32
  app_bram_base :: u32
  app_bram_end :: u32
  sdram_base :: u32
  sdram_size :: u32
  sdram_uncached_base :: u32
  fb0_base :: u32
  fb1_base :: u32
  fb2_base :: u32
  fb_count :: u32
  fb_width :: u32
  fb_height :: u32
  fb_stride :: u32
  term_fb_base :: u32
  dma_chunk_size :: u32
  cram0_dma_chunk_size :: u32
  interact_base :: u32
  interact_uncached :: u32
  interact_max_vars :: u32
  cram0_base :: u32
  cram_size :: u32
  tex_fast_size :: u32
  cram0_bridge :: u32
  cram0_os_offset :: u32
  cram0_presave_offset :: u32
  cram0_save_offset :: u32
  cram0_scratch_offset :: u32
  cram0_app_dma_offset :: u32
  cram0_app_dma_size :: u32
  runtime_stack_top :: u32
  runtime_stack_size :: u32
  file_cache_size :: u32
  file_cache_block_size :: u32
  audio_stream_size :: u32
  audio_reserve_align :: u32
  app_stack_top :: u32
  presave_slot_size :: u32
  save_slot_size :: u32
  save_max_slots :: u32
  save_writeback_chunk_size :: u32
  gpu_base :: u32

definition file_cache_base :: "target \<Rightarrow> u32" where
  "file_cache_base T = runtime_stack_top T - runtime_stack_size T - file_cache_size T"

definition app_static_end :: "target \<Rightarrow> u32" where
  "app_static_end T = app_stack_top T - audio_stream_size T - runtime_stack_size T"

definition cram0_async_bounce_offset :: "target \<Rightarrow> u32" where
  "cram0_async_bounce_offset T = cram0_scratch_offset T + cram0_dma_chunk_size T"

definition save_region_addr :: "target \<Rightarrow> u32" where
  "save_region_addr T = cram0_base T + cram0_save_offset T"

definition pocket :: target where
  "pocket = \<lparr>
     platform_id = OF_PLATFORM_POCKET,
     cpu_freq_hz = 100000000,
     bram_base = 0,
     bram_size = 32 * 1024,
     app_bram_base = 0x4000,
     app_bram_end = 0x7800,
     sdram_base = 0x10000000,
     sdram_size = 64 * 1024 * 1024,
     sdram_uncached_base = 0x50000000,
     fb0_base = 0x10000000,
     fb1_base = 0x10100000,
     fb2_base = 0x10200000,
     fb_count = 3,
     fb_width = 320,
     fb_height = 240,
     fb_stride = 320,
     term_fb_base = 0x50300000,
     dma_chunk_size = 32 * 1024,
     cram0_dma_chunk_size = 64 * 1024,
     interact_base = 0x103FE000,
     interact_uncached = 0x503FE000,
     interact_max_vars = 64,
     cram0_base = 0x30000000,
     cram_size = 16 * 1024 * 1024,
     tex_fast_size = 16 * 1024 * 1024,
     cram0_bridge = 0x20000000,
     cram0_os_offset = 0,
     cram0_presave_offset = 0x000C0000,
     cram0_save_offset = 0x00100000,
     cram0_scratch_offset = 0x00400000,
     cram0_app_dma_offset = 0x00500000,
     cram0_app_dma_size = 0x00100000,
     runtime_stack_top = 0x13F80000,
     runtime_stack_size = 512 * 1024,
     file_cache_size = 4 * 1024 * 1024,
     file_cache_block_size = 32 * 1024,
     audio_stream_size = 0x00080000,
     audio_reserve_align = 0x1000,
     app_stack_top = 0x13F80000 - 512 * 1024 - 4 * 1024 * 1024,
     presave_slot_size = 0x00040000,
     save_slot_size = 0x00040000,
     save_max_slots = 10,
     save_writeback_chunk_size = 0x2000,
     gpu_base = 0x4A000000 \<rparr>"

definition mister :: target where
  "mister = \<lparr>
     platform_id = OF_PLATFORM_MISTER,
     cpu_freq_hz = 100000000,
     bram_base = 0,
     bram_size = 32 * 1024,
     app_bram_base = 0x4000,
     app_bram_end = 0x7800,
     sdram_base = 0x10000000,
     sdram_size = 64 * 1024 * 1024,
     sdram_uncached_base = 0x50000000,
     fb0_base = 0x10000000,
     fb1_base = 0x10100000,
     fb2_base = 0x10200000,
     fb_count = 3,
     fb_width = 320,
     fb_height = 240,
     fb_stride = 320,
     term_fb_base = 0x50300000,
     dma_chunk_size = 32 * 1024,
     cram0_dma_chunk_size = 32 * 1024,
     interact_base = 0x103FE000,
     interact_uncached = 0x503FE000,
     interact_max_vars = 64,
     cram0_base = 0x13300000,
     cram_size = 8 * 1024 * 1024,
     tex_fast_size = 0,
     cram0_bridge = 0x13300000 - 0x10000000,
     cram0_os_offset = 0,
     cram0_presave_offset = 0x000C0000,
     cram0_save_offset = 0x000C0000,
     cram0_scratch_offset = 0x00100000,
     cram0_app_dma_offset = 0x00120000,
     cram0_app_dma_size = 0x00100000,
     runtime_stack_top = 0x13F80000,
     runtime_stack_size = 512 * 1024,
     file_cache_size = 4 * 1024 * 1024,
     file_cache_block_size = 32 * 1024,
     audio_stream_size = 0x00010000,
     audio_reserve_align = 0x1000,
     app_stack_top = 0x13300000,
     presave_slot_size = 0x00040000,
     save_slot_size = 0x00040000,
     save_max_slots = 10,
     save_writeback_chunk_size = 0x8000,
     gpu_base = 0x4A000000 \<rparr>"

definition sim :: target where
  "sim = \<lparr>
     platform_id = OF_PLATFORM_SIM,
     cpu_freq_hz = 100000000,
     bram_base = 0,
     bram_size = 32 * 1024,
     app_bram_base = 0x4000,
     app_bram_end = 0x7800,
     sdram_base = 0x10000000,
     sdram_size = 64 * 1024 * 1024,
     sdram_uncached_base = 0x50000000,
     fb0_base = 0x50000000,
     fb1_base = 0x50100000,
     fb2_base = 0x50200000,
     fb_count = 3,
     fb_width = 320,
     fb_height = 240,
     fb_stride = 320,
     term_fb_base = 0x50300000,
     dma_chunk_size = 512 * 1024,
     cram0_dma_chunk_size = 512 * 1024,
     interact_base = 0x103FE000,
     interact_uncached = 0x503FE000,
     interact_max_vars = 64,
     cram0_base = 0x30000000,
     cram_size = 16 * 1024 * 1024,
     tex_fast_size = 16 * 1024 * 1024,
     cram0_bridge = 0x20000000,
     cram0_os_offset = 0,
     cram0_presave_offset = 0x000C0000,
     cram0_save_offset = 0x00100000,
     cram0_scratch_offset = 0x00400000,
     cram0_app_dma_offset = 0x00500000,
     cram0_app_dma_size = 0x00100000,
     runtime_stack_top = 0x13F80000,
     runtime_stack_size = 512 * 1024,
     file_cache_size = 4 * 1024 * 1024,
     file_cache_block_size = 512 * 1024,
     audio_stream_size = 0x00004000,
     audio_reserve_align = 0x1000,
     app_stack_top = 0x13F80000 - 512 * 1024 - 4 * 1024 * 1024,
     presave_slot_size = 0x00040000,
     save_slot_size = 0x00040000,
     save_max_slots = 10,
     save_writeback_chunk_size = 0x2000,
     gpu_base = 0x4B000000 \<rparr>"

lemmas target_consts = pocket_def mister_def sim_def

text \<open>
  What the proofs use of a target: the memory windows are intervals that do not wrap the 32-bit
  address space, the app's BRAM window lies inside BRAM, and BRAM and SDRAM, and the SDRAM alias,
  do not meet. Every target of the repository satisfies it.
\<close>

definition wf_target :: "target \<Rightarrow> bool" where
  "wf_target T \<longleftrightarrow>
     unat (bram_base T) + unat (bram_size T) \<le> unat (sdram_base T) \<and>
     unat (bram_base T) + unat (bram_size T) \<le> unat (cram0_base T) \<and>
     bram_base T \<le> app_bram_base T \<and> app_bram_base T \<le> app_bram_end T \<and>
     app_bram_end T \<le> bram_base T + bram_size T \<and>
     unat (sdram_base T) + unat (sdram_size T) \<le> unat (sdram_uncached_base T) \<and>
     unat (cram0_base T) + unat (cram_size T) \<le> unat (sdram_uncached_base T) \<and>
     unat (sdram_uncached_base T) + unat (sdram_size T) < 2 ^ 32"

lemma wf_targets: "wf_target pocket" "wf_target mister" "wf_target sim"
  by (simp_all add: wf_target_def target_consts)

lemma platform_ids:
  "platform_id pocket \<noteq> OF_PLATFORM_SIM" "platform_id mister \<noteq> OF_PLATFORM_SIM" "platform_id sim = OF_PLATFORM_SIM"
  "platform_id pocket \<noteq> OF_PLATFORM_MISTER" "platform_id mister = OF_PLATFORM_MISTER" "platform_id sim \<noteq> OF_PLATFORM_MISTER"
  by (simp_all add: target_consts OF_PLATFORM_POCKET_def OF_PLATFORM_MISTER_def OF_PLATFORM_SIM_def)

end
