(* ===== verification/BitFields.thy ===== *)
theory BitFields
  imports Prelude
begin

text \<open>
  Bit fields of a 32-bit word the way an instruction-set manual writes them, \<open>field hi lo w\<close>, and
  the lemmas that turn the shift-and-mask expressions of the C code into fields: contiguous masks,
  the scattered offsets of the compressed loads and stores, and the two sign-extended immediates.
\<close>

definition field :: "nat \<Rightarrow> nat \<Rightarrow> u32 \<Rightarrow> u32" where
  "field hi lo w = take_bit (hi - lo + 1) (drop_bit lo w)"

lemma bit_field: "bit (field hi lo w) n \<longleftrightarrow> n < hi - lo + 1 \<and> bit w (lo + n)"
  by (auto simp: field_def bit_simps add.commute dest: bit_imp_le_length)

definition bit_range :: "nat \<Rightarrow> nat \<Rightarrow> u32" where
  "bit_range lo n = push_bit lo (mask n)"

lemma bit_and_range:
  "bit (x AND bit_range lo k) n \<longleftrightarrow> bit x n \<and> lo \<le> n \<and> n < lo + k"
  by (auto simp: bit_range_def bit_simps dest: bit_imp_le_length)

lemma range_consts:
  "0x3 = bit_range 0 2" "0x7 = bit_range 0 3" "0x1F = bit_range 0 5" "0x7F = bit_range 0 7"
  "0xFF = bit_range 0 8" "0x4 = bit_range 2 1" "0x38 = bit_range 3 3" "0x40 = bit_range 6 1"
  "0x1C = bit_range 2 3" "0x20 = bit_range 5 1" "0xC0 = bit_range 6 2" "0x3C = bit_range 2 4"
  "0xFFFFFFE0 = bit_range 5 27"
  by (simp_all add: bit_range_def mask_eq_exp_minus_1 push_bit_eq_mult)

lemmas bit_fields = bit_field bit_and_range bit_or_iff bit_drop_bit_eq o_apply bit_push_bit_iff

lemma and_fields:
  "w AND 0x3 = field 1 0 w" "w AND 0x7F = field 6 0 w"
  "drop_bit 13 w AND 0x7 = field 15 13 w" "drop_bit 12 w AND 0x7 = field 14 12 w"
  "drop_bit 7 w AND 0x7 = field 9 7 w" "drop_bit 2 w AND 0x7 = field 4 2 w"
  "drop_bit 7 w AND 0x1F = field 11 7 w" "drop_bit 2 w AND 0x1F = field 6 2 w"
  "drop_bit 15 w AND 0x1F = field 19 15 w" "drop_bit 20 w AND 0x1F = field 24 20 w"
  unfolding range_consts
  by (rule bit_word_eqI, simp only: bit_fields, force)+

lemma low_byte_eqI:
  assumes "bit (a::u32) 0 = bit b 0" "bit a 1 = bit b 1" "bit a 2 = bit b 2" "bit a 3 = bit b 3"
    "bit a 4 = bit b 4" "bit a 5 = bit b 5" "bit a 6 = bit b 6" "bit a 7 = bit b 7"
    and "\<And>n. 8 \<le> n \<Longrightarrow> \<not> bit a n" and "\<And>n. 8 \<le> n \<Longrightarrow> \<not> bit b n"
  shows "a = b"
proof (rule bit_word_eqI)
  fix n :: nat
  have "n \<in> {0, 1, 2, 3, 4, 5, 6, 7} \<or> 8 \<le> n" by auto
  then show "bit a n = bit b n" using assms by auto
qed

lemma compressed_offsets:
  "(drop_bit 4 i AND 0x4) OR (drop_bit 7 i AND 0x38) OR (push_bit 1 i AND 0x40) =
     push_bit 6 (field 5 5 i) OR push_bit 3 (field 12 10 i) OR push_bit 2 (field 6 6 i)"
  "(drop_bit 2 i AND 0x1C) OR (drop_bit 7 i AND 0x20) OR (push_bit 4 i AND 0xC0) =
     push_bit 6 (field 3 2 i) OR push_bit 5 (field 12 12 i) OR push_bit 2 (field 6 4 i)"
  "(drop_bit 7 i AND 0x3C) OR (drop_bit 1 i AND 0xC0) =
     push_bit 6 (field 8 7 i) OR push_bit 2 (field 12 9 i)"
  unfolding range_consts
  by (rule low_byte_eqI, simp_all only: bit_fields, simp_all, (auto; fail)?)+

lemma sign_imm_i: "signed_drop_bit 20 i = signed_take_bit 11 (field 31 20 (i::u32))"
proof (rule bit_word_eqI)
  fix n :: nat assume "n < LENGTH(32)"
  then show "bit (signed_drop_bit 20 i) n = bit (signed_take_bit 11 (field 31 20 i)) n"
    by (cases "n = 11") (auto simp: bit_simps bit_field min_def)
qed

lemma sign_imm_s:
  "(drop_bit 7 i AND 0x1F) OR (signed_drop_bit 20 i AND 0xFFFFFFE0) =
     signed_take_bit 11 (push_bit 5 (field 31 25 i) OR field 11 7 i)"
  unfolding range_consts
proof (rule bit_word_eqI)
  fix n :: nat assume n: "n < LENGTH(32)"
  show "bit (drop_bit 7 i AND bit_range 0 5 OR signed_drop_bit 20 i AND bit_range 5 27) n =
    bit (signed_take_bit 11 (push_bit 5 (field 31 25 i) OR field 11 7 i)) n"
    using n
    by (cases "n = 11")
      (auto simp: bit_and_range bit_signed_drop_bit_iff bit_signed_take_bit_iff bit_or_iff
        bit_push_bit_iff bit_field bit_drop_bit_eq min_def)
qed
end
