(* ===== verification/Misaligned.thy ===== *)
theory Misaligned
  imports Platform BitFields
begin

text \<open>
  The misaligned-access trap handler (\<^verbatim>\<open>kernel/misaligned.c\<close>): the address guard, the
  byte-wise loads and stores, the fetch of the trapping instruction, and the decoder for the
  compressed and the standard encodings. The trap frame is the record the assembly entry saves;
  memory is the byte function of the prelude, and the frame is kept outside it (the handler runs on
  the saved copy). A handled trap returns \<open>True\<close> with the new frame and memory.
\<close>

section \<open>The trap frame and the address guard\<close>

record trap_frame =
  regs :: "u32 list"
  mepc :: u32
  mcause :: u32
  mtval :: u32
  fregs :: "u32 list"

definition wf_frame :: "trap_frame \<Rightarrow> bool" where
  "wf_frame f \<longleftrightarrow> length (regs f) = 32 \<and> length (fregs f) = 32"

definition OPCODE_LOAD :: u32 where "OPCODE_LOAD = 0x03"
definition OPCODE_STORE :: u32 where "OPCODE_STORE = 0x23"
definition OPCODE_FLW :: u32 where "OPCODE_FLW = 0x07"
definition OPCODE_FSW :: u32 where "OPCODE_FSW = 0x27"
definition FUNCT3_LH :: u32 where "FUNCT3_LH = 1"
definition FUNCT3_LW :: u32 where "FUNCT3_LW = 2"
definition FUNCT3_LHU :: u32 where "FUNCT3_LHU = 5"
definition FUNCT3_SH :: u32 where "FUNCT3_SH = 1"
definition FUNCT3_SW :: u32 where "FUNCT3_SW = 2"
definition CAUSE_LOAD_MISALIGNED :: u32 where "CAUSE_LOAD_MISALIGNED = 4"
definition CAUSE_STORE_MISALIGNED :: u32 where "CAUSE_STORE_MISALIGNED = 6"

lemmas rv_consts = OPCODE_LOAD_def OPCODE_STORE_def OPCODE_FLW_def OPCODE_FSW_def
  FUNCT3_LH_def FUNCT3_LW_def FUNCT3_LHU_def FUNCT3_SH_def FUNCT3_SW_def
  CAUSE_LOAD_MISALIGNED_def CAUSE_STORE_MISALIGNED_def

definition addr_valid :: "target \<Rightarrow> u32 \<Rightarrow> u32 \<Rightarrow> bool" where
  "addr_valid T addr len =
     (let e = addr + len - 1 in
      if e < addr then False
      else if app_bram_base T \<le> addr \<and> e < app_bram_end T then True
      else if sdram_base T \<le> addr \<and> e < sdram_base T + sdram_size T then True
      else if cram0_base T \<le> addr \<and> e < cram0_base T + cram_size T then True
      else if sdram_uncached_base T \<le> addr \<and> e < sdram_uncached_base T + sdram_size T then True
      else False)"

section \<open>Byte-wise accesses\<close>

definition emulate_load :: "mem \<Rightarrow> u32 \<Rightarrow> u32 \<Rightarrow> u32" where
  "emulate_load m addr funct3 =
     (if funct3 = FUNCT3_LH then scast (ucast (le16 (m addr) (m (addr + 1))) :: u16)
      else if funct3 = FUNCT3_LHU then le16 (m addr) (m (addr + 1))
      else if funct3 = FUNCT3_LW then
        le32 (m addr) (m (addr + 1)) (m (addr + 2)) (m (addr + 3))
      else 0)"

definition emulate_store :: "mem \<Rightarrow> u32 \<Rightarrow> u32 \<Rightarrow> u32 \<Rightarrow> mem" where
  "emulate_store m addr val funct3 =
     (if funct3 = FUNCT3_SH then
        m(addr := ucast (val AND 0xFF), addr + 1 := ucast (drop_bit 8 val AND 0xFF))
      else if funct3 = FUNCT3_SW then
        m(addr := ucast (val AND 0xFF), addr + 1 := ucast (drop_bit 8 val AND 0xFF),
          addr + 2 := ucast (drop_bit 16 val AND 0xFF),
          addr + 3 := ucast (drop_bit 24 val AND 0xFF))
      else m)"

definition read_instr :: "mem \<Rightarrow> u32 \<Rightarrow> u32" where
  "read_instr m pc =
     (let lo = le16 (m pc) (m (pc + 1)) in
      if lo AND 3 \<noteq> 3 then lo
      else lo OR push_bit 16 (ucast (m (pc + 2))) OR push_bit 24 (ucast (m (pc + 3))))"

section \<open>Decoding and executing the trapped instruction\<close>

type_synonym trap_result = "bool \<times> trap_frame \<times> mem"

definition handle_compressed :: "target \<Rightarrow> u32 \<Rightarrow> trap_frame \<Rightarrow> mem \<Rightarrow> trap_result" where
  "handle_compressed T instr f m =
     (let cfunct3 = drop_bit 13 instr AND 0x7; cop = instr AND 0x3 in
      if cop = 0 \<and> (cfunct3 = 2 \<or> cfunct3 = 6 \<or> cfunct3 = 3 \<or> cfunct3 = 7) then
        (let rs1c = unat (8 + (drop_bit 7 instr AND 0x7));
             rd_rs2c = unat (8 + (drop_bit 2 instr AND 0x7));
             imm_val = (drop_bit 4 instr AND 0x4) OR (drop_bit 7 instr AND 0x38)
                         OR (push_bit 1 instr AND 0x40);
             addr = regs f ! rs1c + imm_val
         in if \<not> addr_valid T addr 4 then (False, f, m)
            else if cfunct3 = 2 then
              (True, f\<lparr>regs := (regs f)[rd_rs2c := emulate_load m addr FUNCT3_LW],
                       mepc := mepc f + 2\<rparr>, m)
            else if cfunct3 = 6 then
              (True, f\<lparr>mepc := mepc f + 2\<rparr>, emulate_store m addr (regs f ! rd_rs2c) FUNCT3_SW)
            else if cfunct3 = 3 then
              (True, f\<lparr>fregs := (fregs f)[rd_rs2c := emulate_load m addr FUNCT3_LW],
                       mepc := mepc f + 2\<rparr>, m)
            else
              (True, f\<lparr>mepc := mepc f + 2\<rparr>, emulate_store m addr (fregs f ! rd_rs2c) FUNCT3_SW))
      else if cop = 2 \<and> (cfunct3 = 2 \<or> cfunct3 = 3) then
        (let rd_reg = unat (drop_bit 7 instr AND 0x1F);
             imm_val = (drop_bit 2 instr AND 0x1C) OR (drop_bit 7 instr AND 0x20)
                         OR (push_bit 4 instr AND 0xC0);
             addr = regs f ! 2 + imm_val
         in if \<not> addr_valid T addr 4 then (False, f, m)
            else if cfunct3 = 2 then
              (True, (if rd_reg \<noteq> 0
                      then f\<lparr>regs := (regs f)[rd_reg := emulate_load m addr FUNCT3_LW]\<rparr>
                      else f)\<lparr>mepc := mepc f + 2\<rparr>, m)
            else
              (True, f\<lparr>fregs := (fregs f)[rd_reg := emulate_load m addr FUNCT3_LW],
                       mepc := mepc f + 2\<rparr>, m))
      else if cop = 2 \<and> (cfunct3 = 6 \<or> cfunct3 = 7) then
        (let rs2_reg = unat (drop_bit 2 instr AND 0x1F);
             imm_val = (drop_bit 7 instr AND 0x3C) OR (drop_bit 1 instr AND 0xC0);
             addr = regs f ! 2 + imm_val
         in if \<not> addr_valid T addr 4 then (False, f, m)
            else if cfunct3 = 6 then
              (True, f\<lparr>mepc := mepc f + 2\<rparr>, emulate_store m addr (regs f ! rs2_reg) FUNCT3_SW)
            else
              (True, f\<lparr>mepc := mepc f + 2\<rparr>, emulate_store m addr (fregs f ! rs2_reg) FUNCT3_SW))
      else (False, f, m))"

definition handle_standard :: "target \<Rightarrow> u32 \<Rightarrow> trap_frame \<Rightarrow> mem \<Rightarrow> trap_result" where
  "handle_standard T instr f m =
     (let opcode = instr AND 0x7F; funct3 = drop_bit 12 instr AND 0x7;
          rd = unat (drop_bit 7 instr AND 0x1F); rs1 = unat (drop_bit 15 instr AND 0x1F);
          rs2 = unat (drop_bit 20 instr AND 0x1F);
          imm_i = signed_drop_bit 20 instr;
          imm_s = (drop_bit 7 instr AND 0x1F) OR (signed_drop_bit 20 instr AND 0xFFFFFFE0)
      in
      if opcode = OPCODE_LOAD then
        (let addr = regs f ! rs1 + imm_i;
             access_len = (if funct3 = FUNCT3_LW then 4
                           else if funct3 = FUNCT3_LH \<or> funct3 = FUNCT3_LHU then 2 else 1)
         in if \<not> addr_valid T addr access_len then (False, f, m)
            else (let val = emulate_load m addr funct3 in
              (True, (if rd \<noteq> 0 then f\<lparr>regs := (regs f)[rd := val]\<rparr> else f)
                       \<lparr>mepc := mepc f + 4\<rparr>, m)))
      else if opcode = OPCODE_STORE then
        (let addr = regs f ! rs1 + imm_s;
             access_len = (if funct3 = FUNCT3_SW then 4 else if funct3 = FUNCT3_SH then 2 else 1)
         in if \<not> addr_valid T addr access_len then (False, f, m)
            else (True, f\<lparr>mepc := mepc f + 4\<rparr>, emulate_store m addr (regs f ! rs2) funct3))
      else if opcode = OPCODE_FLW then
        (let addr = regs f ! rs1 + imm_i
         in if \<not> addr_valid T addr 4 then (False, f, m)
            else (True, f\<lparr>fregs := (fregs f)[rd := emulate_load m addr FUNCT3_LW],
                          mepc := mepc f + 4\<rparr>, m))
      else if opcode = OPCODE_FSW then
        (let addr = regs f ! rs1 + imm_s
         in if \<not> addr_valid T addr 4 then (False, f, m)
            else (True, f\<lparr>mepc := mepc f + 4\<rparr>, emulate_store m addr (fregs f ! rs2) FUNCT3_SW))
      else (False, f, m))"

definition handle_misaligned :: "target \<Rightarrow> trap_frame \<Rightarrow> mem \<Rightarrow> trap_result" where
  "handle_misaligned T f m =
     (if mcause f \<noteq> CAUSE_LOAD_MISALIGNED \<and> mcause f \<noteq> CAUSE_STORE_MISALIGNED
      then (False, f, m)
      else (let instr = read_instr m (mepc f) in
            if instr AND 3 \<noteq> 3 then handle_compressed T instr f m
            else handle_standard T instr f m))"

section \<open>The instruction set's view\<close>

datatype width = Half | HalfU | Word

datatype mem_op =
    IntLoad nat nat u32 width
  | IntStore nat nat u32 width
  | FloatLoad nat nat u32
  | FloatStore nat nat u32

definition reg_field :: "nat \<Rightarrow> nat \<Rightarrow> u32 \<Rightarrow> nat" where
  "reg_field hi lo w = unat (field hi lo w)"

definition c_off :: "u32 \<Rightarrow> u32" where
  "c_off w = push_bit 6 (field 5 5 w) OR push_bit 3 (field 12 10 w) OR push_bit 2 (field 6 6 w)"

definition c_lwsp_off :: "u32 \<Rightarrow> u32" where
  "c_lwsp_off w = push_bit 6 (field 3 2 w) OR push_bit 5 (field 12 12 w) OR push_bit 2 (field 6 4 w)"

definition c_swsp_off :: "u32 \<Rightarrow> u32" where
  "c_swsp_off w = push_bit 6 (field 8 7 w) OR push_bit 2 (field 12 9 w)"

definition i_imm :: "u32 \<Rightarrow> u32" where
  "i_imm w = signed_take_bit 11 (field 31 20 w)"

definition s_imm :: "u32 \<Rightarrow> u32" where
  "s_imm w = signed_take_bit 11 (push_bit 5 (field 31 25 w) OR field 11 7 w)"

definition isa_decode :: "u32 \<Rightarrow> (mem_op \<times> u32) option" where
  "isa_decode w =
     (let c_rd = 8 + reg_field 4 2 w; c_rs1 = 8 + reg_field 9 7 w;
          rd = reg_field 11 7 w; rs1 = reg_field 19 15 w; rs2 = reg_field 24 20 w;
          c_rs2 = reg_field 6 2 w; f3 = field 14 12 w
      in case (field 1 0 w, field 15 13 w) of (q, cf) \<Rightarrow>
       if q = 0 then
         (if cf = 2 then Some (IntLoad c_rd c_rs1 (c_off w) Word, 2)
          else if cf = 3 then Some (FloatLoad c_rd c_rs1 (c_off w), 2)
          else if cf = 6 then Some (IntStore c_rd c_rs1 (c_off w) Word, 2)
          else if cf = 7 then Some (FloatStore c_rd c_rs1 (c_off w), 2)
          else None)
       else if q = 2 then
         (if cf = 2 then Some (IntLoad rd 2 (c_lwsp_off w) Word, 2)
          else if cf = 3 then Some (FloatLoad rd 2 (c_lwsp_off w), 2)
          else if cf = 6 then Some (IntStore c_rs2 2 (c_swsp_off w) Word, 2)
          else if cf = 7 then Some (FloatStore c_rs2 2 (c_swsp_off w), 2)
          else None)
       else if q = 3 then
         (if field 6 0 w = 0x03 then
            (if f3 = 1 then Some (IntLoad rd rs1 (i_imm w) Half, 4)
             else if f3 = 5 then Some (IntLoad rd rs1 (i_imm w) HalfU, 4)
             else if f3 = 2 then Some (IntLoad rd rs1 (i_imm w) Word, 4)
             else None)
          else if field 6 0 w = 0x23 then
            (if f3 = 1 then Some (IntStore rs2 rs1 (s_imm w) Half, 4)
             else if f3 = 2 then Some (IntStore rs2 rs1 (s_imm w) Word, 4)
             else None)
          else if field 6 0 w = 0x07 \<and> f3 = 2 then Some (FloatLoad rd rs1 (i_imm w), 4)
          else if field 6 0 w = 0x27 \<and> f3 = 2 then Some (FloatStore rs2 rs1 (s_imm w), 4)
          else None)
       else None)"

definition mem_read :: "mem \<Rightarrow> u32 \<Rightarrow> width \<Rightarrow> u32" where
  "mem_read m a wd = (case wd of
      Half \<Rightarrow> signed_take_bit 15 (le16 (m a) (m (a + 1)))
    | HalfU \<Rightarrow> le16 (m a) (m (a + 1))
    | Word \<Rightarrow> le32 (m a) (m (a + 1)) (m (a + 2)) (m (a + 3)))"

definition mem_write :: "mem \<Rightarrow> u32 \<Rightarrow> width \<Rightarrow> u32 \<Rightarrow> mem" where
  "mem_write m a wd v =
     (if wd = Word then m(a := byte_at 0 v, a + 1 := byte_at 1 v, a + 2 := byte_at 2 v, a + 3 := byte_at 3 v)
      else m(a := byte_at 0 v, a + 1 := byte_at 1 v))"

fun op_addr :: "trap_frame \<Rightarrow> mem_op \<Rightarrow> u32" where
  "op_addr f (IntLoad _ b off _) = regs f ! b + off"
| "op_addr f (IntStore _ b off _) = regs f ! b + off"
| "op_addr f (FloatLoad _ b off) = regs f ! b + off"
| "op_addr f (FloatStore _ b off) = regs f ! b + off"

fun op_bytes :: "mem_op \<Rightarrow> u32" where
  "op_bytes (IntLoad _ _ _ w) = (if w = Word then 4 else 2)"
| "op_bytes (IntStore _ _ _ w) = (if w = Word then 4 else 2)"
| "op_bytes (FloatLoad _ _ _) = 4"
| "op_bytes (FloatStore _ _ _) = 4"

definition write_reg :: "nat \<Rightarrow> u32 \<Rightarrow> trap_frame \<Rightarrow> trap_frame" where
  "write_reg r v f = (if r = 0 then f else f\<lparr>regs := (regs f)[r := v]\<rparr>)"

fun isa_exec :: "mem_op \<Rightarrow> trap_frame \<Rightarrow> mem \<Rightarrow> trap_frame \<times> mem" where
  "isa_exec (IntLoad rd b off w) f m = (write_reg rd (mem_read m (regs f ! b + off) w) f, m)"
| "isa_exec (IntStore rs b off w) f m = (f, mem_write m (regs f ! b + off) w (regs f ! rs))"
| "isa_exec (FloatLoad rd b off) f m =
     (f\<lparr>fregs := (fregs f)[rd := mem_read m (regs f ! b + off) Word]\<rparr>, m)"
| "isa_exec (FloatStore rs b off) f m = (f, mem_write m (regs f ! b + off) Word (fregs f ! rs))"

definition isa_step :: "target \<Rightarrow> mem_op \<Rightarrow> u32 \<Rightarrow> trap_frame \<Rightarrow> mem \<Rightarrow> trap_result" where
  "isa_step T op len f m =
     (if addr_valid T (op_addr f op) (op_bytes op) then
        (case isa_exec op f m of (f', m') \<Rightarrow> (True, f'\<lparr>mepc := mepc f + len\<rparr>, m'))
      else (False, f, m))"

lemma store_byte: "(ucast (w AND 0xFF) :: u8) = byte_at 0 w"
  "(ucast (drop_bit 8 w AND 0xFF) :: u8) = byte_at 1 w"
  "(ucast (drop_bit 16 w AND 0xFF) :: u8) = byte_at 2 w"
  "(ucast (drop_bit 24 w AND 0xFF) :: u8) = byte_at 3 w" for w :: u32
  unfolding range_consts
  by (rule bit_word_eqI, simp add: bit_byte_at bit_and_range bit_drop_bit_eq bit_unsigned_iff)+

lemma emulate_store_eq:
  "emulate_store m a v FUNCT3_SW = mem_write m a Word v"
  "emulate_store m a v FUNCT3_SH = mem_write m a Half v"
  unfolding emulate_store_def mem_write_def store_byte(2-4)
  unfolding store_byte(1) by (simp_all add: rv_consts)

lemma sext16: "(scast (ucast (w::u32) :: u16) :: u32) = signed_take_bit 15 w"
  by (rule bit_word_eqI) (auto simp: bit_simps min_def)

lemma emulate_load_eq:
  "emulate_load m a FUNCT3_LW = mem_read m a Word"
  "emulate_load m a FUNCT3_LH = mem_read m a Half"
  "emulate_load m a FUNCT3_LHU = mem_read m a HalfU"
  by (simp_all add: emulate_load_def mem_read_def sext16 rv_consts)


lemma unat_field_lt: "unat (field hi lo w) < 2 ^ (hi - lo + 1)"
proof -
  have "field hi lo w = take_bit (hi - lo + 1) (drop_bit lo w)" by (simp add: field_def)
  then have "unat (field hi lo w) = take_bit (hi - lo + 1) (unat (drop_bit lo w))"
    by (simp only: unsigned_take_bit_eq)
  then show ?thesis by (simp only: take_bit_nat_less_exp)
qed

lemma reg_field_lt: "reg_field 4 2 w < 8" "reg_field 9 7 w < 8" "reg_field 11 7 w < 32"
  "reg_field 19 15 w < 32" "reg_field 24 20 w < 32" "reg_field 6 2 w < 32"
  using unat_field_lt [of 4 2 w] unat_field_lt [of 9 7 w] unat_field_lt [of 11 7 w]
    unat_field_lt [of 19 15 w] unat_field_lt [of 24 20 w] unat_field_lt [of 6 2 w]
  by (simp_all add: reg_field_def)

lemma c_reg: "unat (8 + field 9 7 w) = 8 + reg_field 9 7 w" "unat (8 + field 4 2 w) = 8 + reg_field 4 2 w"
  using reg_field_lt(1,2) [of w] by (simp_all add: reg_field_def unat_word_ariths)

lemma isa_decode_compressed:
  assumes "isa_decode w = Some (op, len)" and "field 1 0 w \<noteq> 3"
  shows "len = 2 \<and>
    (field 1 0 w = 0 \<and> field 15 13 w = 2 \<and>
       op = IntLoad (8 + reg_field 4 2 w) (8 + reg_field 9 7 w) (c_off w) Word \<or>
     field 1 0 w = 0 \<and> field 15 13 w = 3 \<and>
       op = FloatLoad (8 + reg_field 4 2 w) (8 + reg_field 9 7 w) (c_off w) \<or>
     field 1 0 w = 0 \<and> field 15 13 w = 6 \<and>
       op = IntStore (8 + reg_field 4 2 w) (8 + reg_field 9 7 w) (c_off w) Word \<or>
     field 1 0 w = 0 \<and> field 15 13 w = 7 \<and>
       op = FloatStore (8 + reg_field 4 2 w) (8 + reg_field 9 7 w) (c_off w) \<or>
     field 1 0 w = 2 \<and> field 15 13 w = 2 \<and> op = IntLoad (reg_field 11 7 w) 2 (c_lwsp_off w) Word \<or>
     field 1 0 w = 2 \<and> field 15 13 w = 3 \<and> op = FloatLoad (reg_field 11 7 w) 2 (c_lwsp_off w) \<or>
     field 1 0 w = 2 \<and> field 15 13 w = 6 \<and> op = IntStore (reg_field 6 2 w) 2 (c_swsp_off w) Word \<or>
     field 1 0 w = 2 \<and> field 15 13 w = 7 \<and> op = FloatStore (reg_field 6 2 w) 2 (c_swsp_off w))"
  using assms by (auto simp: isa_decode_def Let_def split: if_splits)

lemma isa_decode_standard:
  assumes "isa_decode w = Some (op, len)" and "field 1 0 w = 3"
  shows "len = 4 \<and>
    (field 6 0 w = 0x03 \<and> field 14 12 w = 1 \<and>
       op = IntLoad (reg_field 11 7 w) (reg_field 19 15 w) (i_imm w) Half \<or>
     field 6 0 w = 0x03 \<and> field 14 12 w = 5 \<and>
       op = IntLoad (reg_field 11 7 w) (reg_field 19 15 w) (i_imm w) HalfU \<or>
     field 6 0 w = 0x03 \<and> field 14 12 w = 2 \<and>
       op = IntLoad (reg_field 11 7 w) (reg_field 19 15 w) (i_imm w) Word \<or>
     field 6 0 w = 0x23 \<and> field 14 12 w = 1 \<and>
       op = IntStore (reg_field 24 20 w) (reg_field 19 15 w) (s_imm w) Half \<or>
     field 6 0 w = 0x23 \<and> field 14 12 w = 2 \<and>
       op = IntStore (reg_field 24 20 w) (reg_field 19 15 w) (s_imm w) Word \<or>
     field 6 0 w = 0x07 \<and> field 14 12 w = 2 \<and>
       op = FloatLoad (reg_field 11 7 w) (reg_field 19 15 w) (i_imm w) \<or>
     field 6 0 w = 0x27 \<and> field 14 12 w = 2 \<and>
       op = FloatStore (reg_field 24 20 w) (reg_field 19 15 w) (s_imm w))"
  using assms by (auto simp: isa_decode_def Let_def split: if_splits)

lemmas decode_folds = c_off_def [symmetric] c_lwsp_off_def [symmetric] c_swsp_off_def [symmetric]
  i_imm_def [symmetric] s_imm_def [symmetric] reg_field_def [symmetric]

lemma handle_compressed_isa:
  assumes "isa_decode i = Some (op, len)" and "i AND 3 \<noteq> 3"
  shows "handle_compressed T i f m = isa_step T op len f m"
proof -
  have q: "field 1 0 i \<noteq> 3" using assms(2) unfolding and_fields .
  show ?thesis
    unfolding handle_compressed_def and_fields compressed_offsets Let_def c_reg
    using isa_decode_compressed [OF assms(1) q]
    by (elim disjE conjE)
      (simp_all add: decode_folds emulate_load_eq emulate_store_eq isa_step_def write_reg_def)
qed

lemma handle_standard_isa:
  assumes "isa_decode i = Some (op, len)" and "i AND 3 = 3"
  shows "handle_standard T i f m = isa_step T op len f m"
proof -
  have q: "field 1 0 i = 3" using assms(2) unfolding and_fields .
  show ?thesis
    unfolding handle_standard_def Let_def sign_imm_s
    unfolding sign_imm_i and_fields
    using isa_decode_standard [OF assms(1) q]
    by (elim disjE conjE)
      (simp_all add: decode_folds rv_consts emulate_load_eq [unfolded rv_consts]
        emulate_store_eq [unfolded rv_consts] isa_step_def write_reg_def)
qed


text \<open>A window in terms of addresses: what an emulated access may touch.\<close>

definition emul_window :: "target \<Rightarrow> u32 \<Rightarrow> bool" where
  "emul_window T a \<longleftrightarrow>
     (app_bram_base T \<le> a \<and> a < app_bram_end T) \<or>
     (sdram_base T \<le> a \<and> a < sdram_base T + sdram_size T) \<or>
     (cram0_base T \<le> a \<and> a < cram0_base T + cram_size T) \<or>
     (sdram_uncached_base T \<le> a \<and> a < sdram_uncached_base T + sdram_size T)"

lemma addr_valid_window:
  assumes "addr_valid T a n" and "k < n"
  shows "emul_window T (a + k)"
proof -
  have "a \<le> a + n - 1" using assms(1) by (auto simp: addr_valid_def Let_def split: if_splits)
  note k = word_interval [OF this assms(2)]
  show ?thesis
    using assms(1) k by (auto simp: addr_valid_def emul_window_def Let_def split: if_splits
        intro: order_trans le_less_trans)
qed


definition os_bram :: "target \<Rightarrow> u32 \<Rightarrow> bool" where
  "os_bram T a \<longleftrightarrow> bram_base T \<le> a \<and> a < bram_base T + bram_size T \<and>
     \<not> (app_bram_base T \<le> a \<and> a < app_bram_end T)"

lemma mem_write_other:
  assumes "mem_write m a wd v x \<noteq> m x"
  shows "\<exists>k < (if wd = Word then 4 else 2). x = a + k"
  using assms unfolding mem_write_def
  by (cases "x = a"; cases "x = a + 1"; cases "x = a + 2"; cases "x = a + 3")
     (auto split: if_splits intro: exI [of _ 0] exI [of _ 1] exI [of _ 2] exI [of _ 3])

lemma emulate_store_other:
  assumes "emulate_store m a v f3 x \<noteq> m x"
  shows "(f3 = FUNCT3_SW \<and> (\<exists>k < 4. x = a + k)) \<or> (f3 = FUNCT3_SH \<and> (\<exists>k < 2. x = a + k))"
proof -
  have "f3 = FUNCT3_SW \<or> f3 = FUNCT3_SH"
    using assms by (auto simp: emulate_store_def split: if_splits)
  then show ?thesis
    using assms mem_write_other [of m a Word v x] mem_write_other [of m a Half v x]
    by (auto simp: emulate_store_eq)
qed

lemma f3_distinct [simp]: "FUNCT3_SH \<noteq> FUNCT3_SW" "FUNCT3_SW \<noteq> FUNCT3_SH"
  by (simp_all add: rv_consts)

lemma emulate_store_window:
  assumes "emulate_store m a v f3 x \<noteq> m x" and "addr_valid T a n"
    and "f3 = FUNCT3_SW \<Longrightarrow> n = 4" and "f3 = FUNCT3_SH \<Longrightarrow> n = 2"
  shows "emul_window T x"
  using emulate_store_other [OF assms(1)]
proof (elim disjE conjE exE)
  fix k assume "f3 = FUNCT3_SW" "k < 4" "x = a + k"
  then show ?thesis using assms(3) addr_valid_window [OF assms(2), of k] by simp
next
  fix k assume "f3 = FUNCT3_SH" "k < 2" "x = a + k"
  then show ?thesis using assms(4) addr_valid_window [OF assms(2), of k] by simp
qed

text \<open>What a trap may do to memory: nothing, or one guarded store.\<close>

definition mem_step :: "target \<Rightarrow> mem \<Rightarrow> mem \<Rightarrow> bool" where
  "mem_step T m m' \<longleftrightarrow> (\<forall>x. m' x \<noteq> m x \<longrightarrow> emul_window T x)"

lemma mem_step_refl [intro, simp]: "mem_step T m m"
  by (simp add: mem_step_def)

lemma mem_step_word [intro]:
  "addr_valid T a 4 \<Longrightarrow> mem_step T m (emulate_store m a v FUNCT3_SW)"
  unfolding mem_step_def using emulate_store_window [of m a v FUNCT3_SW] by force

lemma mem_step_store [intro]:
  "addr_valid T a (if f3 = FUNCT3_SW then 4 else if f3 = FUNCT3_SH then 2 else 1) \<Longrightarrow>
     mem_step T m (emulate_store m a v f3)"
  unfolding mem_step_def using emulate_store_window [of m a v f3] by force

lemma handle_compressed_mem: "mem_step T m (snd (snd (handle_compressed T i f m)))"
  unfolding handle_compressed_def Let_def by (simp add: mem_step_word)

lemma handle_standard_mem: "mem_step T m (snd (snd (handle_standard T i f m)))"
  unfolding handle_standard_def Let_def
  by (simp only: if_distrib [of snd] snd_conv split: if_split,
      intro conjI impI mem_step_refl mem_step_word mem_step_store,
      simp_all only: simp_thms split: if_split)

lemma emul_window_not_os:
  assumes "wf_target T" and "emul_window T a"
  shows "\<not> os_bram T a"
  using assms unfolding wf_target_def emul_window_def os_bram_def
  by (simp add: word_le_nat_alt word_less_nat_alt unat_word_ariths) linarith

lemma handle_compressed_frame:
  assumes "handle_compressed T i f m = (r, f', m')"
  shows "if r then mepc f' = mepc f + 2 \<and> mcause f' = mcause f \<and> mtval f' = mtval f \<and>
      length (regs f') = length (regs f) \<and> length (fregs f') = length (fregs f) \<and>
      regs f' ! 0 = regs f ! 0
    else f' = f \<and> m' = m"
  using assms unfolding handle_compressed_def Let_def and_fields c_reg
  by (auto split: if_splits)

lemma handle_standard_frame:
  assumes "handle_standard T i f m = (r, f', m')"
  shows "if r then mepc f' = mepc f + 4 \<and> mcause f' = mcause f \<and> mtval f' = mtval f \<and>
      length (regs f') = length (regs f) \<and> length (fregs f') = length (fregs f) \<and>
      regs f' ! 0 = regs f ! 0
    else f' = f \<and> m' = m"
  using assms unfolding handle_standard_def Let_def
  by (auto split: if_splits)

lemma handle_misaligned_isa:
  assumes "mcause f = CAUSE_LOAD_MISALIGNED \<or> mcause f = CAUSE_STORE_MISALIGNED"
    and "isa_decode (read_instr m (mepc f)) = Some (op, len)"
  shows "handle_misaligned T f m = isa_step T op len f m"
  using assms by (auto simp: handle_misaligned_def Let_def handle_compressed_isa handle_standard_isa)

definition demo_frame :: trap_frame where
  "demo_frame = \<lparr>regs = (replicate 32 0)[6 := 0x10000000], mepc = 0x4000,
     mcause = CAUSE_LOAD_MISALIGNED, mtval = 0x10000001, fregs = replicate 32 0\<rparr>"

definition demo_mem :: mem where
  "demo_mem = (\<lambda>_. 0x11)(0x4000 := 0x83, 0x4001 := 0x22, 0x4002 := 0x13, 0x4003 := 0x00)"

lemma demo_instr: "read_instr demo_mem (mepc demo_frame) = 0x00132283"
  by (simp add: demo_mem_def demo_frame_def read_instr_def le16_def)

definition demo_store :: trap_frame where
  "demo_store = demo_frame\<lparr>regs := (replicate 32 0)[5 := 0xAABBCCDD, 6 := 0x10000000],
     mcause := CAUSE_STORE_MISALIGNED\<rparr>"

definition demo_store_mem :: mem where
  "demo_store_mem = (\<lambda>_. 0x11)(0x4000 := 0xA3, 0x4001 := 0x20, 0x4002 := 0x53, 0x4003 := 0x00)"

lemma demo_store_step:
  "handle_misaligned pocket demo_store demo_store_mem =
     (True, demo_store\<lparr>mepc := 0x4004\<rparr>, mem_write demo_store_mem 0x10000001 Word 0xAABBCCDD)"
proof -
  have i: "read_instr demo_store_mem (mepc demo_store) = 0x005320A3"
    by (simp add: demo_store_mem_def demo_store_def demo_frame_def read_instr_def le16_def)
  have d: "isa_decode (read_instr demo_store_mem (mepc demo_store)) = Some (IntStore 5 6 1 Word, 4)"
    unfolding i by code_simp
  have "handle_misaligned pocket demo_store demo_store_mem =
      isa_step pocket (IntStore 5 6 1 Word) 4 demo_store demo_store_mem"
    by (rule handle_misaligned_isa [OF _ d]) (simp add: demo_store_def)
  then show ?thesis
    by (simp add: isa_step_def demo_store_def demo_frame_def addr_valid_def pocket_def)
qed


section \<open>Properties\<close>

text \<open>
  C1: the trap handler implements the instruction set. Whatever misaligned load or store the
  instruction word encodes (C.LW, C.SW, C.FLW, C.FSW and their sp-relative forms, LH, LHU, LW, SH,
  SW, FLW, FSW), the handler performs exactly the architectural step of that instruction at its
  effective address and advances the pc by its length, or, when the address guard rejects the
  access, reports the trap unhandled with frame and memory untouched.
\<close>

theorem misaligned_refines_isa:
  assumes "mcause f = CAUSE_LOAD_MISALIGNED \<or> mcause f = CAUSE_STORE_MISALIGNED"
    and "isa_decode (read_instr m (mepc f)) = Some (op, len)"
  shows "handle_misaligned T f m = isa_step T op len f m"
  by (rule handle_misaligned_isa) (rule assms)+

theorem misaligned_refines_isa_witness:
  "handle_misaligned pocket demo_frame demo_mem =
     isa_step pocket (IntLoad 5 6 1 Word) 4 demo_frame demo_mem"
proof (rule misaligned_refines_isa)
  show "mcause demo_frame = CAUSE_LOAD_MISALIGNED \<or> mcause demo_frame = CAUSE_STORE_MISALIGNED"
    by (simp add: demo_frame_def)
  show "isa_decode (read_instr demo_mem (mepc demo_frame)) = Some (IntLoad 5 6 1 Word, 4)"
    unfolding demo_instr by code_simp
qed

text \<open>
  C2: a trap changes memory only inside the windows an app may use, and never in the operating
  system's own BRAM (boot code, trap vectors, kernel trap state), whatever the app's registers and
  the trapping instruction are.
\<close>

theorem misaligned_store_confined:
  assumes "wf_target T" and "handle_misaligned T f m = (r, f', m')" and "m' a \<noteq> m a"
  shows "emul_window T a \<and> \<not> os_bram T a"
proof -
  have "mem_step T m (snd (snd (handle_misaligned T f m)))"
    by (simp add: handle_misaligned_def Let_def handle_compressed_mem handle_standard_mem)
  then have "emul_window T a" using assms(2,3) by (simp add: mem_step_def)
  with assms(1) show ?thesis by (blast dest: emul_window_not_os)
qed

theorem misaligned_store_confined_witness:
  "mem_write demo_store_mem 0x10000001 Word 0xAABBCCDD 0x10000002 \<noteq> demo_store_mem 0x10000002 \<and>
   emul_window pocket 0x10000002 \<and> \<not> os_bram pocket 0x10000002"
proof -
  have d: "mem_write demo_store_mem 0x10000001 Word 0xAABBCCDD 0x10000002 \<noteq> demo_store_mem 0x10000002"
    by (simp add: mem_write_def demo_store_mem_def byte_at_def)
  show ?thesis using d misaligned_store_confined [OF wf_targets(1) demo_store_step d] by blast
qed

text \<open>
  the trap frame stays well formed: the register x0, the cause and the faulting address keep
  their values, an unhandled trap changes nothing at all, and a handled one advances the pc by the
  length of the instruction that trapped (two bytes for a compressed encoding, four otherwise).
\<close>

lemma misaligned_frame:
  assumes "handle_misaligned T f m = (r, f', m')" and "wf_frame f"
  shows "wf_frame f' \<and> regs f' ! 0 = regs f ! 0 \<and> mcause f' = mcause f \<and> mtval f' = mtval f \<and>
    (if r then mepc f' = mepc f + (if read_instr m (mepc f) AND 3 = 3 then 4 else 2)
     else f' = f \<and> m' = m)"
  using assms handle_compressed_frame [of T "read_instr m (mepc f)" f m r f' m']
    handle_standard_frame [of T "read_instr m (mepc f)" f m r f' m']
  by (auto simp: handle_misaligned_def wf_frame_def Let_def split: if_splits)

text \<open>
  the byte-wise store and load agree: a word stored at any address, aligned or not, is the word
  loaded back, a stored half-word is loaded back zero-extended by LHU and sign-extended by LH.
\<close>

lemma misaligned_roundtrip:
  "emulate_load (emulate_store m a v FUNCT3_SW) a FUNCT3_LW = v \<and>
   emulate_load (emulate_store m a v FUNCT3_SH) a FUNCT3_LHU = take_bit 16 v \<and>
   emulate_load (emulate_store m a v FUNCT3_SH) a FUNCT3_LH = signed_take_bit 15 v"
  unfolding emulate_load_eq emulate_store_eq
  by (simp add: mem_read_def mem_write_def le_simps signed_take_bit_take_bit)


end
