(* ===== verification/Crc.thy ===== *)
theory Crc
  imports Prelude
begin

text \<open>
  Checksums as folds of a step over a stream of symbols. The locale states what a CRC step promises
  its clients (it loses neither the state nor the symbol), and proves once what follows: a
  checksum determines the state it started from, and it changes whenever exactly one symbol of the
  stream changes. The reflected CRC-32 of the text guard is interpreted here; the CRC-16 of the PHDP
  link is interpreted where it is defined.
\<close>

locale checksum =
  fixes step :: "'s \<Rightarrow> 'b \<Rightarrow> 's"
  assumes step_state: "step s b = step t b \<Longrightarrow> s = t"
    and step_symbol: "step s b = step s c \<Longrightarrow> b = c"
begin

definition digest :: "'s \<Rightarrow> 'b list \<Rightarrow> 's" where
  "digest s bs = foldl step s bs"

lemma digest_state: "digest s bs = digest t bs \<Longrightarrow> s = t"
  unfolding digest_def by (induction bs arbitrary: s t) (auto dest: step_state)

lemma digest_append: "digest s (as @ bs) = digest (digest s as) bs"
  by (simp add: digest_def)

lemma digest_single_change:
  assumes "length bs = length cs" and "i < length bs" and "bs ! i \<noteq> cs ! i"
    and "\<And>j. j < length bs \<Longrightarrow> j \<noteq> i \<Longrightarrow> bs ! j = cs ! j"
  shows "digest s bs \<noteq> digest s cs"
proof
  assume eq: "digest s bs = digest s cs"
  have b: "bs = take i bs @ bs ! i # drop (Suc i) bs" using assms(2) by (rule id_take_nth_drop)
  have c: "cs = take i cs @ cs ! i # drop (Suc i) cs" using assms(1,2) id_take_nth_drop by metis
  have t: "take i cs = take i bs" using assms by (auto intro: nth_equalityI)
  have d: "drop (Suc i) cs = drop (Suc i) bs" using assms by (auto intro: nth_equalityI)
  have "digest (step (digest s (take i bs)) (bs ! i)) (drop (Suc i) bs) =
        digest (step (digest s (take i bs)) (cs ! i)) (drop (Suc i) bs)"
    using eq b c t d by (metis digest_append digest_def foldl_Cons)
  then show False using assms(3) by (blast dest: digest_state step_symbol)
qed

end

section \<open>The reflected CRC-32 step\<close>

definition crc32_bit :: "u32 \<Rightarrow> u32" where
  "crc32_bit crc = drop_bit 1 crc XOR (0xEDB88320 AND - (crc AND 1))"

definition crc32_byte :: "u32 \<Rightarrow> u32 \<Rightarrow> u32" where
  "crc32_byte crc v = (crc32_bit ^^ 8) (crc XOR (v AND 0xFF))"

definition crc32_word :: "u32 \<Rightarrow> u32 \<Rightarrow> u32" where
  "crc32_word crc v =
     crc32_byte (crc32_byte (crc32_byte (crc32_byte crc v) (drop_bit 8 v)) (drop_bit 16 v)) (drop_bit 24 v)"

lemma crc32_bit_if: "crc32_bit c = drop_bit 1 c XOR (if bit c 0 then 0xEDB88320 else 0)"
proof -
  have "c AND 1 = (if bit c 0 then 1 else 0)" by (simp add: and_one_eq odd_iff_mod_2_eq_one bit_0)
  then show ?thesis by (simp add: crc32_bit_def)
qed

lemma crc32_bit_top: "bit (crc32_bit c) 31 = bit c 0"
proof -
  have "bit (0xEDB88320 :: u32) 31" by simp
  then show ?thesis by (auto simp: crc32_bit_if bit_xor_iff bit_drop_bit_eq dest: bit_imp_le_length)
qed

lemma crc32_bit_inj: "crc32_bit c = crc32_bit d \<Longrightarrow> c = d"
proof -
  assume eq: "crc32_bit c = crc32_bit d"
  then have 0: "bit c 0 = bit d 0" using crc32_bit_top by metis
  have cancel: "x = y" if "x XOR z = y XOR z" for x y z :: u32
    using arg_cong [OF that, of "\<lambda>w. w XOR z"] by (simp add: xor.assoc)
  have "drop_bit 1 c = drop_bit 1 d"
    by (rule cancel [of _ "if bit d 0 then 0xEDB88320 else 0"]) (use eq 0 in \<open>simp only: crc32_bit_if\<close>)
  then have s: "bit c (Suc n) = bit d (Suc n)" for n by (metis bit_drop_bit_eq plus_1_eq_Suc o_apply)
  show "c = d" using 0 s by (intro bit_word_eqI) (metis not0_implies_Suc)
qed

lemma crc32_bits_inj: "(crc32_bit ^^ n) c = (crc32_bit ^^ n) d \<Longrightarrow> c = d"
  by (induction n) (auto dest: crc32_bit_inj)

lemma crc32_bit_xor: "\<not> bit y 0 \<Longrightarrow> crc32_bit (x XOR y) = crc32_bit x XOR drop_bit 1 y"
  by (simp add: crc32_bit_if bit_xor_iff drop_bit_xor xor.assoc xor.commute xor.left_commute)

lemma crc32_bits_xor:
  "(\<And>k. k < n \<Longrightarrow> \<not> bit y k) \<Longrightarrow> (crc32_bit ^^ n) (x XOR y) = (crc32_bit ^^ n) x XOR drop_bit n y"
proof (induction n arbitrary: x y)
  case (Suc n)
  have "(crc32_bit ^^ Suc n) (x XOR y) = (crc32_bit ^^ n) (crc32_bit x XOR drop_bit 1 y)"
    using Suc.prems [of 0] by (simp add: funpow_Suc_right crc32_bit_xor del: funpow.simps)
  also have "\<dots> = (crc32_bit ^^ n) (crc32_bit x) XOR drop_bit n (drop_bit 1 y)"
    using Suc.prems by (intro Suc.IH) (simp add: bit_drop_bit_eq)
  also have "\<dots> = (crc32_bit ^^ Suc n) x XOR drop_bit (Suc n) y"
    by (simp add: funpow_Suc_right drop_bit_drop_bit del: funpow.simps)
  finally show ?case .
qed simp

lemma crc32_byte_xor: "crc32_byte crc v XOR drop_bit 8 v = (crc32_bit ^^ 8) (crc XOR v)"
proof -
  have split: "v = (v AND 0xFF) XOR (v AND NOT 0xFF)"
    by (rule bit_word_eqI) (auto simp: bit_simps)
  have m: "(0xFF :: u32) = mask 8" by (simp add: mask_eq_exp_minus_1)
  have "(crc32_bit ^^ 8) ((crc XOR (v AND 0xFF)) XOR (v AND NOT 0xFF)) =
      (crc32_bit ^^ 8) (crc XOR (v AND 0xFF)) XOR drop_bit 8 (v AND NOT 0xFF)"
    unfolding m by (rule crc32_bits_xor) (simp add: bit_simps)
  moreover have "drop_bit 8 (v AND NOT 0xFF) = drop_bit 8 v"
    unfolding m by (rule bit_word_eqI) (auto simp: bit_simps dest: bit_imp_le_length)
  ultimately show ?thesis
    using split by (simp add: crc32_byte_def xor.assoc)
qed

lemma crc32_word_eq: "crc32_word crc v = (crc32_bit ^^ 32) (crc XOR v)"
proof -
  have x: "crc32_byte c w = (crc32_bit ^^ 8) (c XOR w) XOR drop_bit 8 w" for c w
    using crc32_byte_xor [of c w] by (metis xor.assoc xor.right_neutral xor_self_eq)
  have z: "drop_bit 32 v = 0" by (rule bit_word_eqI) (simp add: bit_drop_bit_eq)
  have f: "(crc32_bit ^^ 8) ((crc32_bit ^^ n) y) = (crc32_bit ^^ (n + 8)) y" for n y
    by (simp add: funpow_add add.commute [of n])
  show ?thesis
    unfolding crc32_word_def x
    by (simp add: xor.assoc drop_bit_drop_bit f z del: funpow.simps)
qed

lemma crc32_word_inj:
  "crc32_word s v = crc32_word t v \<Longrightarrow> s = t" "crc32_word s v = crc32_word s w \<Longrightarrow> v = w"
  unfolding crc32_word_eq by (drule crc32_bits_inj, metis xor.assoc xor.left_neutral xor.right_neutral xor_self_eq)+

interpretation crc32: checksum crc32_word
  by unfold_locales (auto dest: crc32_word_inj)

end
