(* ===== verification/TextGuard.thy ===== *)
theory TextGuard
  imports Crc Platform
begin

text \<open>
  The integrity guard of the kernel's code (\<^verbatim>\<open>os_textguard_baseline\<close> and
  \<^verbatim>\<open>os_textguard_check\<close> in \<^verbatim>\<open>kernel/misaligned.c\<close>): one CRC-32 per 1 KB block of the
  text section, read through the uncached alias. The linker symbols \<^verbatim>\<open>__text_start\<close> and
  \<^verbatim>\<open>__text_end\<close> are parameters. A check that finds a corrupt block does not return in C (it reports
  and halts); here it returns the index of the block it reports. The simulator takes no baseline.
\<close>

record textguard =
  tg_block_crc :: "u32 list"
  tg_nblocks :: nat
  tg_valid :: bool

definition TEXTGUARD_BLOCK :: u32 where "TEXTGUARD_BLOCK = 1024"
definition TEXTGUARD_MAXBLK :: u32 where "TEXTGUARD_MAXBLK = 256"

definition load_word :: "mem \<Rightarrow> u32 \<Rightarrow> u32" where
  "load_word m a = le32 (m a) (m (a + 1)) (m (a + 2)) (m (a + 3))"

definition block_words :: "mem \<Rightarrow> u32 \<Rightarrow> nat \<Rightarrow> u32 list" where
  "block_words m a n = map (\<lambda>w. load_word m (a + 4 * of_nat w)) [0..<n]"

definition tg_crc_uncached :: "mem \<Rightarrow> u32 \<Rightarrow> u32 \<Rightarrow> u32" where
  "tg_crc_uncached m uc_addr len =
     foldl crc32_word 0xFFFFFFFF (block_words m uc_addr (unat (drop_bit 2 len))) XOR 0xFFFFFFFF"

definition text_uc :: "target \<Rightarrow> u32 \<Rightarrow> u32" where
  "text_uc T text_start = text_start - sdram_base T + sdram_uncached_base T"

definition tg_blocks :: "u32 \<Rightarrow> u32" where
  "tg_blocks tot =
     (let nb = (tot + TEXTGUARD_BLOCK - 1) div TEXTGUARD_BLOCK in
      if TEXTGUARD_MAXBLK < nb then TEXTGUARD_MAXBLK else nb)"

definition tg_block_len :: "u32 \<Rightarrow> nat \<Rightarrow> u32" where
  "tg_block_len tot i =
     (let len = tot - of_nat i * TEXTGUARD_BLOCK in
      (if TEXTGUARD_BLOCK < len then TEXTGUARD_BLOCK else len) AND NOT 3)"

definition tg_crc_of :: "target \<Rightarrow> u32 \<Rightarrow> u32 \<Rightarrow> mem \<Rightarrow> nat \<Rightarrow> u32" where
  "tg_crc_of T text_start text_end m i =
     (let tot = text_end - text_start in
      tg_crc_uncached m (text_uc T text_start + of_nat i * TEXTGUARD_BLOCK) (tg_block_len tot i))"

definition os_textguard_baseline :: "target \<Rightarrow> u32 \<Rightarrow> u32 \<Rightarrow> mem \<Rightarrow> textguard \<Rightarrow> textguard" where
  "os_textguard_baseline T text_start text_end m g =
     (if platform_id T = OF_PLATFORM_SIM then g
      else let nb = unat (tg_blocks (text_end - text_start)) in
      g\<lparr>tg_block_crc := map (tg_crc_of T text_start text_end m) [0..<nb] @ drop nb (tg_block_crc g),
        tg_nblocks := nb, tg_valid := True\<rparr>)"

definition os_textguard_check :: "target \<Rightarrow> u32 \<Rightarrow> u32 \<Rightarrow> mem \<Rightarrow> textguard \<Rightarrow> nat option" where
  "os_textguard_check T text_start text_end m g =
     (if \<not> tg_valid g then None
      else find (\<lambda>i. tg_crc_of T text_start text_end m i \<noteq> tg_block_crc g ! i) [0..<tg_nblocks g])"

text \<open>
  The detection guarantee. Two memories agree on a block when they give the same words; they differ
  there in exactly one word when one position of the block's words differs and no other does.
\<close>

definition words_of :: "target \<Rightarrow> u32 \<Rightarrow> u32 \<Rightarrow> mem \<Rightarrow> nat \<Rightarrow> u32 list" where
  "words_of T text_start text_end m i =
     block_words m (text_uc T text_start + of_nat i * TEXTGUARD_BLOCK)
       (unat (drop_bit 2 (tg_block_len (text_end - text_start) i)))"

definition one_word_changed :: "u32 list \<Rightarrow> u32 list \<Rightarrow> bool" where
  "one_word_changed xs ys \<longleftrightarrow> length xs = length ys \<and>
     length (filter (\<lambda>k. xs ! k \<noteq> ys ! k) [0..<length xs]) = 1"

lemma length_block_words [simp]: "length (block_words m a n) = n"
  by (simp add: block_words_def)

lemma tg_crc_of_words:
  "tg_crc_of T s e m i = crc32.digest 0xFFFFFFFF (words_of T s e m i) XOR 0xFFFFFFFF"
  by (simp add: tg_crc_of_def tg_crc_uncached_def words_of_def crc32.digest_def Let_def)

lemma one_word_changed_digest:
  assumes "one_word_changed xs ys"
  shows "crc32.digest s xs \<noteq> crc32.digest s ys"
proof -
  obtain k where k: "filter (\<lambda>k. xs ! k \<noteq> ys ! k) [0..<length xs] = [k]"
    using assms by (auto simp: one_word_changed_def length_Suc_conv)
  have mem: "j = k \<longleftrightarrow> j < length xs \<and> xs ! j \<noteq> ys ! j" for j
    using arg_cong [OF k, of set] by auto
  show ?thesis
    by (rule crc32.digest_single_change [of _ _ k])
      (use mem assms in \<open>auto simp: one_word_changed_def\<close>)
qed

lemma xor_ones_inj: "(a::u32) XOR c = b XOR c \<Longrightarrow> a = b"
  using arg_cong [of _ _ "\<lambda>w. w XOR c"] by (metis xor.assoc xor.right_neutral xor_self_eq)

lemma find_upt_first:
  "i < n \<Longrightarrow> P i \<Longrightarrow> (\<And>j. j < i \<Longrightarrow> \<not> P j) \<Longrightarrow> find P [0..<n] = Some i"
  by (auto simp: find_Some_iff intro!: exI [of _ i])

lemma baseline_fields:
  "platform_id T \<noteq> OF_PLATFORM_SIM \<Longrightarrow> tg_valid (os_textguard_baseline T s e m g)"
  "platform_id T \<noteq> OF_PLATFORM_SIM \<Longrightarrow> tg_nblocks (os_textguard_baseline T s e m g) = unat (tg_blocks (e - s))"
  "platform_id T \<noteq> OF_PLATFORM_SIM \<Longrightarrow> i < unat (tg_blocks (e - s)) \<Longrightarrow>
     tg_block_crc (os_textguard_baseline T s e m g) ! i = tg_crc_of T s e m i"
  by (simp_all add: os_textguard_baseline_def Let_def nth_append)

lemma check_intact:
  assumes "platform_id T \<noteq> OF_PLATFORM_SIM"
    and "\<And>i. i < unat (tg_blocks (e - s)) \<Longrightarrow> words_of T s e m' i = words_of T s e m i"
  shows "os_textguard_check T s e m' (os_textguard_baseline T s e m g) = None"
  using assms
  by (auto simp: os_textguard_check_def baseline_fields find_None_iff tg_crc_of_words)

lemma check_detects:
  assumes p: "platform_id T \<noteq> OF_PLATFORM_SIM" and i: "i < unat (tg_blocks (e - s))"
    and same: "\<And>j. j < i \<Longrightarrow> words_of T s e m' j = words_of T s e m j"
    and changed: "one_word_changed (words_of T s e m i) (words_of T s e m' i)"
  shows "os_textguard_check T s e m' (os_textguard_baseline T s e m g) = Some i"
proof -
  have "tg_crc_of T s e m' i \<noteq> tg_crc_of T s e m i"
    using one_word_changed_digest [OF changed] xor_ones_inj unfolding tg_crc_of_words by metis
  then show ?thesis
    using i same unfolding os_textguard_check_def
    by (simp add: baseline_fields [OF p]) (rule find_upt_first; auto simp: baseline_fields [OF p] tg_crc_of_words)
qed

lemma tg_blocks_bound: "unat (tg_blocks tot) \<le> 256"
  by (auto simp: tg_blocks_def Let_def TEXTGUARD_MAXBLK_def word_le_nat_alt word_less_nat_alt)

section \<open>Properties\<close>

text \<open>
  C4: The guard detects the overwrite of a code word, on every target but the simulator, which takes
  no baseline. If, since the baseline, exactly one 32-bit word of block \<open>i\<close> of the text section has
  changed to any other value (any burst inside the word), and the blocks before it are intact, the
  check reports corruption and names block \<open>i\<close>.
\<close>

theorem textguard_detects:
  assumes "platform_id T \<noteq> OF_PLATFORM_SIM" and "i < unat (tg_blocks (text_end - text_start))"
    and "\<And>j. j < i \<Longrightarrow>
      words_of T text_start text_end m' j = words_of T text_start text_end m j"
    and "one_word_changed (words_of T text_start text_end m i) (words_of T text_start text_end m' i)"
  shows "os_textguard_check T text_start text_end m'
      (os_textguard_baseline T text_start text_end m g) = Some i"
  by (rule check_detects) (use assms in blast)+

theorem textguard_detects_witness:
  "os_textguard_check pocket 0x10320000 0x10320008 ((\<lambda>_. 0)(0x50320005 := 1))
     (os_textguard_baseline pocket 0x10320000 0x10320008 (\<lambda>_. 0)
       \<lparr>tg_block_crc = replicate 256 0, tg_nblocks = 0, tg_valid = False\<rparr>) = Some 0"
proof (rule textguard_detects [OF platform_ids(1)])
  show "0 < unat (tg_blocks (0x10320008 - 0x10320000))"
    by (simp add: tg_blocks_def TEXTGUARD_BLOCK_def TEXTGUARD_MAXBLK_def Let_def)
  show "one_word_changed (words_of pocket 0x10320000 0x10320008 (\<lambda>_. 0) 0)
      (words_of pocket 0x10320000 0x10320008 ((\<lambda>_. 0)(0x50320005 := 1)) 0)"
    by (simp add: one_word_changed_def words_of_def tg_block_len_def TEXTGUARD_BLOCK_def
        block_words_def load_word_def le32_def text_uc_def pocket_def Let_def upt_rec)
qed simp

text \<open>
  the guard raises no false alarm: as long as every block of the text section still reads
  as it did at the baseline, the check stays silent, and without a baseline (never taken, or on the
  simulator) it never reports.
\<close>

lemma textguard_silent:
  "os_textguard_check T text_start text_end m (g\<lparr>tg_valid := False\<rparr>) = None \<and>
   (platform_id T = OF_PLATFORM_SIM \<longrightarrow> os_textguard_check T text_start text_end m'
      (os_textguard_baseline T text_start text_end m (g\<lparr>tg_valid := False\<rparr>)) = None) \<and>
   (platform_id T \<noteq> OF_PLATFORM_SIM \<and> (\<forall>i < unat (tg_blocks (text_end - text_start)).
       words_of T text_start text_end m' i = words_of T text_start text_end m i) \<longrightarrow>
    os_textguard_check T text_start text_end m'
      (os_textguard_baseline T text_start text_end m g) = None)"
  using check_intact [of T text_end text_start m' m g] by (simp add: os_textguard_check_def os_textguard_baseline_def)

end
