(* ===== verification/TrapDump.thy ===== *)
theory TrapDump
  imports Misaligned
begin

text \<open>
  The crash dump of \<^verbatim>\<open>kernel/misaligned.c\<close>: the UART transmitter with its bounded ready-poll, the
  hexadecimal printers, the address classifiers and the dump of bytes, words and registers that
  \<^verbatim>\<open>fatal_trap\<close> sends. The device state records the bytes written to the UART and every memory
  address the dump dereferences, so that the safety of a dump taken in an arbitrary machine state
  can be stated.
\<close>

section \<open>The UART and the printers\<close>

record dump =
  ust :: "nat \<Rightarrow> u32"
  polls :: nat
  sent :: "u32 list"
  derefs :: "u32 list"

fun poll_ready :: "nat \<Rightarrow> dump \<Rightarrow> dump" where
  "poll_ready 0 u = u"
| "poll_ready (Suc n) u =
     (let u' = u\<lparr>polls := polls u + 1\<rparr> in
      if ust u (polls u) AND 2 \<noteq> 0 then u' else poll_ready n u')"

definition trap_uart_putb :: "u32 \<Rightarrow> dump \<Rightarrow> dump" where
  "trap_uart_putb c u = (let u' = poll_ready 8000 u in u'\<lparr>sent := sent u' @ [c]\<rparr>)"

definition run_all :: "('s \<Rightarrow> 's) list \<Rightarrow> 's \<Rightarrow> 's" where
  "run_all fs = fold (\<lambda>f. f) fs"

definition hex_digit :: "u32 \<Rightarrow> u32" where
  "hex_digit n = (if n < 10 then 48 + n else 97 + n - 10)"

definition trap_uart_hex :: "u32 \<Rightarrow> dump \<Rightarrow> dump" where
  "trap_uart_hex v = run_all (map (\<lambda>i. trap_uart_putb (hex_digit (drop_bit i v AND 0xF)))
     [28, 24, 20, 16, 12, 8, 4, 0])"

definition trap_uart_puts :: "string \<Rightarrow> dump \<Rightarrow> dump" where
  "trap_uart_puts s = run_all (map (\<lambda>c. trap_uart_putb (of_char c)) (c_str s))"

definition trap_uart_hex8 :: "u32 \<Rightarrow> dump \<Rightarrow> dump" where
  "trap_uart_hex8 v = run_all
     [trap_uart_putb (hex_digit (drop_bit 4 v AND 0xF)), trap_uart_putb (hex_digit (v AND 0xF))]"

section \<open>Address classification\<close>

definition trap_addr_range_valid :: "target \<Rightarrow> u32 \<Rightarrow> u32 \<Rightarrow> bool" where
  "trap_addr_range_valid T addr len =
     (let e = addr + len - 1 in
      if len = 0 \<or> e < addr then False
      else if e < bram_base T + bram_size T then True
      else if sdram_base T \<le> addr \<and> e < sdram_base T + sdram_size T then True
      else if sdram_uncached_base T \<le> addr \<and> e < sdram_uncached_base T + sdram_size T then True
      else if cram0_base T \<le> addr \<and> e < cram0_base T + cram_size T then True
      else False)"

definition trap_sdram_alias :: "target \<Rightarrow> u32 \<Rightarrow> (u32 \<times> u32) option" where
  "trap_sdram_alias T addr =
     (if sdram_base T \<le> addr \<and> addr < sdram_base T + sdram_size T then
        (let off = addr - sdram_base T in Some (sdram_base T + off, sdram_uncached_base T + off))
      else if sdram_uncached_base T \<le> addr \<and> addr < sdram_uncached_base T + sdram_size T then
        (let off = addr - sdram_uncached_base T in
           Some (sdram_base T + off, sdram_uncached_base T + off))
      else None)"

definition trap_uart_region :: "target \<Rightarrow> u32 \<Rightarrow> dump \<Rightarrow> dump" where
  "trap_uart_region T addr =
     (if addr < bram_base T + bram_size T then trap_uart_puts ''bram''
      else if sdram_base T \<le> addr \<and> addr < sdram_base T + sdram_size T then trap_uart_puts ''sdram''
      else if sdram_uncached_base T \<le> addr \<and> addr < sdram_uncached_base T + sdram_size T
        then trap_uart_puts ''sdram_uc''
      else if cram0_base T \<le> addr \<and> addr < cram0_base T + cram_size T then trap_uart_puts ''cram0''
      else if 0x40000000 \<le> addr \<and> addr < 0x50000000 then trap_uart_puts ''mmio''
      else trap_uart_puts ''unknown'')"

section \<open>Reads and dumps\<close>

definition touch :: "u32 list \<Rightarrow> dump \<Rightarrow> dump" where
  "touch as u = u\<lparr>derefs := derefs u @ as\<rparr>"

definition hex8_at :: "mem \<Rightarrow> u32 \<Rightarrow> dump \<Rightarrow> dump" where
  "hex8_at m a = run_all [touch [a], trap_uart_hex8 (ucast (m a))]"

definition trap_read_u16_le :: "mem \<Rightarrow> u32 \<Rightarrow> u32" where
  "trap_read_u16_le m a = le16 (m a) (m (a + 1))"

definition trap_read_u32_le :: "mem \<Rightarrow> u32 \<Rightarrow> u32" where
  "trap_read_u32_le m a = le32 (m a) (m (a + 1)) (m (a + 2)) (m (a + 3))"

definition hex_u16_at :: "mem \<Rightarrow> u32 \<Rightarrow> dump \<Rightarrow> dump" where
  "hex_u16_at m a = run_all [touch [a, a + 1], trap_uart_hex (trap_read_u16_le m a)]"

definition hex_u32_at :: "mem \<Rightarrow> u32 \<Rightarrow> dump \<Rightarrow> dump" where
  "hex_u32_at m a = run_all [touch [a, a + 1, a + 2, a + 3], trap_uart_hex (trap_read_u32_le m a)]"

definition four_bytes :: "mem \<Rightarrow> u32 \<Rightarrow> dump \<Rightarrow> dump" where
  "four_bytes m a = run_all
     [hex8_at m a, trap_uart_putb 32, hex8_at m (a + 1), trap_uart_putb 32,
      hex8_at m (a + 2), trap_uart_putb 32, hex8_at m (a + 3)]"

definition trap_dump_bytes :: "target \<Rightarrow> mem \<Rightarrow> string \<Rightarrow> u32 \<Rightarrow> dump \<Rightarrow> dump" where
  "trap_dump_bytes T m label addr = run_all
     [trap_uart_puts label, trap_uart_puts ''='', trap_uart_hex addr, trap_uart_puts '' '',
      trap_uart_region T addr,
      (if trap_addr_range_valid T addr 4 then run_all
         [trap_uart_puts '' b='', four_bytes m addr, trap_uart_puts '' h='', hex_u16_at m addr,
          trap_uart_puts '' w='', hex_u32_at m addr]
       else trap_uart_puts '' unreadable''),
      (case trap_sdram_alias T addr of None \<Rightarrow> id
       | Some (ca, ua) \<Rightarrow>
           if trap_addr_range_valid T ua 4 then run_all
             [trap_uart_puts '' uc_b='', four_bytes m ua, trap_uart_puts '' uc_w='', hex_u32_at m ua,
              (if ca \<noteq> addr \<and> trap_addr_range_valid T ca 4
               then run_all [trap_uart_puts '' c_w='', hex_u32_at m ca] else id)]
           else id),
      trap_uart_puts [CHR 0x0A]]"

definition dump_word_row :: "target \<Rightarrow> mem \<Rightarrow> u32 \<Rightarrow> dump \<Rightarrow> dump" where
  "dump_word_row T m base = run_all (map (\<lambda>a.
     if trap_addr_range_valid T a 4 then run_all [trap_uart_puts '' '', hex_u32_at m a] else id)
     [base - 8, base - 4, base, base + 4, base + 8, base + 12])"

definition trap_dump_words :: "target \<Rightarrow> mem \<Rightarrow> string \<Rightarrow> u32 \<Rightarrow> dump \<Rightarrow> dump" where
  "trap_dump_words T m label addr = run_all
     [trap_uart_puts label, trap_uart_puts '' cached:'', dump_word_row T m (addr AND NOT 3),
      trap_uart_puts [CHR 0x0A],
      (case trap_sdram_alias T addr of None \<Rightarrow> id
       | Some (ca, ua) \<Rightarrow> run_all
           [trap_uart_puts label, trap_uart_puts '' uncached:'', dump_word_row T m (ua AND NOT 3),
            trap_uart_puts [CHR 0x0A]])]"

definition trap_decode_word :: "string \<Rightarrow> u32 \<Rightarrow> dump \<Rightarrow> dump" where
  "trap_decode_word label instr =
     (let opcode = instr AND 0x7F; rd = drop_bit 7 instr AND 0x1F; funct3 = drop_bit 12 instr AND 0x7;
          rs1 = drop_bit 15 instr AND 0x1F; rs2 = drop_bit 20 instr AND 0x1F;
          imm_i = signed_drop_bit 20 instr;
          imm_s = (drop_bit 7 instr AND 0x1F) OR (signed_drop_bit 20 instr AND NOT 0x1F)
      in run_all
        [trap_uart_puts label, trap_uart_puts '' op='', trap_uart_hex opcode,
         trap_uart_puts '' f3='', trap_uart_hex funct3, trap_uart_puts '' rd='', trap_uart_hex rd,
         trap_uart_puts '' rs1='', trap_uart_hex rs1, trap_uart_puts '' rs2='', trap_uart_hex rs2,
         trap_uart_puts '' immI='', trap_uart_hex imm_i, trap_uart_puts '' immS='', trap_uart_hex imm_s,
         trap_uart_puts [CHR 0x0A]])"

definition decode_at :: "target \<Rightarrow> mem \<Rightarrow> string \<Rightarrow> u32 \<Rightarrow> dump \<Rightarrow> dump" where
  "decode_at T m label a =
     (if trap_addr_range_valid T a 4
      then run_all [touch [a, a + 1, a + 2, a + 3], trap_decode_word label (trap_read_u32_le m a)]
      else id)"

text \<open>
  The UART part of \<^verbatim>\<open>fatal_trap\<close>. The status CSR and the four GPU registers it prints are arguments;
  its display programming and the terminal flush before it are MMIO and not modelled.
\<close>

record gpu_regs =
  gpu_status :: u32
  gpu_rdptr :: u32
  gpu_wrptr :: u32
  gpu_fence :: u32

definition dump_stack :: "mem \<Rightarrow> u32 \<Rightarrow> dump \<Rightarrow> dump" where
  "dump_stack m sp =
     (if 0x10000000 \<le> sp \<and> sp < 0x14000000 \<and> sp AND 3 = 0 then
        (let max_words = drop_bit 2 (0x14000000 - sp);
             n = (if 64 < max_words then 64 else max_words)
         in run_all ([trap_uart_puts ''stk:''] @
              map (\<lambda>i. run_all
                [(if i mod 4 = 0 then trap_uart_puts [CHR 0x0A, CHR '' ''] else id),
                 hex_u32_at m (sp + 4 * of_nat i), trap_uart_puts '' '']) [0..<unat n] @
              [trap_uart_puts [CHR 0x0A]]))
      else id)"

definition dump_regs :: "trap_frame \<Rightarrow> dump \<Rightarrow> dump" where
  "dump_regs f = run_all ([trap_uart_puts ''regs:''] @
     map (\<lambda>i. run_all
       [(if i mod 4 = 0 then run_all [trap_uart_puts [CHR 0x0A, CHR '' '', CHR ''x''],
            trap_uart_hex (of_nat i), trap_uart_puts '':''] else id),
        trap_uart_puts '' '', trap_uart_hex (regs f ! i)]) [0..<32] @
     [trap_uart_puts ([CHR 0x0A] @ ''==END=='' @ [CHR 0x0A])])"

definition fatal_trap_dump :: "target \<Rightarrow> mem \<Rightarrow> u32 \<Rightarrow> gpu_regs \<Rightarrow> trap_frame \<Rightarrow> dump \<Rightarrow> dump" where
  "fatal_trap_dump T m mstatus_v g f =
     (let pc = mepc f; ra = regs f ! 1; fs = drop_bit 13 mstatus_v AND 3 in run_all
       [trap_uart_puts ([CHR 0x0A] @ ''==TRAP=='' @ [CHR 0x0A] @ ''mcause=''), trap_uart_hex (mcause f),
        trap_uart_puts '' mepc='', trap_uart_hex pc, trap_uart_puts '' mtval='', trap_uart_hex (mtval f),
        trap_uart_puts '' mstatus='', trap_uart_hex mstatus_v, trap_uart_puts '' FS='',
        trap_uart_putb (48 + fs), trap_uart_puts ([CHR 0x0A] @ ''sp=''), trap_uart_hex (regs f ! 2),
        trap_uart_puts '' ra='', trap_uart_hex ra, trap_uart_puts [CHR 0x0A],
        trap_dump_bytes T m ''insn@mepc'' pc, decode_at T m ''dec@mepc'' pc,
        (if 2 \<le> pc then trap_dump_bytes T m ''insn@mepc-2'' (pc - 2) else id),
        (if 4 \<le> pc then trap_dump_bytes T m ''insn@mepc-4'' (pc - 4) else id),
        trap_dump_words T m ''words@mepc'' pc,
        (if 4 \<le> ra then run_all [trap_dump_bytes T m ''insn@ra-4'' (ra - 4),
            decode_at T m ''dec@ra-4'' (ra - 4)] else id),
        (if 2 \<le> ra then trap_dump_bytes T m ''insn@ra-2'' (ra - 2) else id),
        trap_dump_bytes T m ''insn@ra'' ra, trap_dump_words T m ''words@ra'' ra,
        trap_uart_puts ''gpu_status='', trap_uart_hex (gpu_status g),
        trap_uart_puts '' state='', trap_uart_hex (drop_bit 8 (gpu_status g) AND 0x3F),
        trap_uart_puts '' fbss='', trap_uart_hex (drop_bit 14 (gpu_status g) AND 0x1F),
        trap_uart_puts '' pipe='', trap_uart_hex (drop_bit 19 (gpu_status g) AND 0x1FFF),
        trap_uart_puts '' rdptr='', trap_uart_hex (gpu_rdptr g),
        trap_uart_puts '' wrptr='', trap_uart_hex (gpu_wrptr g),
        trap_uart_puts '' fence='', trap_uart_hex (gpu_fence g), trap_uart_puts [CHR 0x0A],
        dump_stack m (regs f ! 2), dump_regs f])"

section \<open>What a dump may do\<close>

definition trap_readable :: "target \<Rightarrow> u32 \<Rightarrow> bool" where
  "trap_readable T a \<longleftrightarrow> a < bram_base T + bram_size T \<or>
     (sdram_base T \<le> a \<and> a < sdram_base T + sdram_size T) \<or>
     (sdram_uncached_base T \<le> a \<and> a < sdram_uncached_base T + sdram_size T) \<or>
     (cram0_base T \<le> a \<and> a < cram0_base T + cram_size T)"

definition dump_ok :: "target \<Rightarrow> (dump \<Rightarrow> dump) \<Rightarrow> bool" where
  "dump_ok T f \<longleftrightarrow> (\<forall>u.
     set (derefs (f u)) \<subseteq> set (derefs u) \<union> {a. trap_readable T a} \<and>
     (\<exists>bs. sent (f u) = sent u @ bs \<and> polls (f u) \<le> polls u + 8000 * length bs))"

named_theorems dump_rules \<open>the dump's building blocks keep the dump contract\<close>

lemma dump_okD:
  assumes "dump_ok T f"
  shows "set (derefs (f u)) \<subseteq> set (derefs u) \<union> {a. trap_readable T a}"
    and "\<exists>bs. sent (f u) = sent u @ bs \<and> polls (f u) \<le> polls u + 8000 * length bs"
  using assms by (auto simp: dump_ok_def)

lemma dump_ok_id [dump_rules]: "dump_ok T id"
  by (auto simp: dump_ok_def)

lemma dump_ok_comp:
  assumes "dump_ok T f" and "dump_ok T g"
  shows "dump_ok T (\<lambda>u. g (f u))"
  unfolding dump_ok_def
proof (intro allI conjI)
  fix u
  show "set (derefs (g (f u))) \<subseteq> set (derefs u) \<union> {a. trap_readable T a}"
    using dump_okD(1) [OF assms(1), of u] dump_okD(1) [OF assms(2), of "f u"] by blast
  obtain bs cs where "sent (f u) = sent u @ bs" "polls (f u) \<le> polls u + 8000 * length bs"
    "sent (g (f u)) = sent (f u) @ cs" "polls (g (f u)) \<le> polls (f u) + 8000 * length cs"
    using dump_okD(2) [OF assms(1), of u] dump_okD(2) [OF assms(2), of "f u"] by blast
  then show "\<exists>ds. sent (g (f u)) = sent u @ ds \<and> polls (g (f u)) \<le> polls u + 8000 * length ds"
    by (intro exI [of _ "bs @ cs"]) simp
qed

lemma dump_ok_run [dump_rules]: "(\<And>f. f \<in> set fs \<Longrightarrow> dump_ok T f) \<Longrightarrow> dump_ok T (run_all fs)"
proof (induction fs)
  case Nil
  show ?case using dump_ok_id by (simp add: run_all_def id_def)
next
  case (Cons f fs)
  have "dump_ok T (\<lambda>u. run_all fs (f u))"
    by (rule dump_ok_comp) (use Cons in auto)
  then show ?case by (simp add: run_all_def comp_def)
qed

lemma poll_ready_sent [simp]: "sent (poll_ready n u) = sent u"
  by (induction n u rule: poll_ready.induct) (auto simp: Let_def)

lemma poll_ready_derefs [simp]: "derefs (poll_ready n u) = derefs u"
  by (induction n u rule: poll_ready.induct) (auto simp: Let_def)

lemma poll_ready_polls: "polls (poll_ready n u) \<le> polls u + n"
  by (induction n u rule: poll_ready.induct) (auto simp: Let_def)

lemma dump_ok_putb [dump_rules]: "dump_ok T (trap_uart_putb c)"
  using poll_ready_polls [of 8000] by (auto simp: dump_ok_def trap_uart_putb_def Let_def)

lemma dump_ok_hex [dump_rules]:
  "dump_ok T (trap_uart_hex v)" "dump_ok T (trap_uart_hex8 v)" "dump_ok T (trap_uart_puts s)"
  "dump_ok T (trap_uart_region T a)"
  unfolding trap_uart_hex_def trap_uart_hex8_def trap_uart_region_def trap_uart_puts_def
  by (auto intro!: dump_rules)

lemma dump_ok_touch [dump_rules]: "(\<And>a. a \<in> set as \<Longrightarrow> trap_readable T a) \<Longrightarrow> dump_ok T (touch as)"
  by (auto simp: dump_ok_def touch_def)

lemma dump_ok_if [dump_rules]:
  "(b \<Longrightarrow> dump_ok T f) \<Longrightarrow> (\<not> b \<Longrightarrow> dump_ok T g) \<Longrightarrow> dump_ok T (if b then f else g)"
  by simp

lemma range_valid_readable:
  assumes "trap_addr_range_valid T a n" and "k < n"
  shows "trap_readable T (a + k)"
proof -
  have "a \<le> a + n - 1" using assms(1) by (auto simp: trap_addr_range_valid_def Let_def split: if_splits)
  note k = word_interval [OF this assms(2)]
  show ?thesis
    using assms(1) k by (auto simp: trap_addr_range_valid_def trap_readable_def Let_def
        split: if_splits intro: order_trans le_less_trans)
qed

lemma readable4:
  assumes "trap_addr_range_valid T a 4"
  shows "trap_readable T a" "trap_readable T (a + 1)" "trap_readable T (a + 2)" "trap_readable T (a + 3)"
  using range_valid_readable [OF assms, of 0] range_valid_readable [OF assms, of 1]
    range_valid_readable [OF assms, of 2] range_valid_readable [OF assms, of 3] by simp_all

lemma dump_ok_reads [dump_rules]:
  assumes "trap_addr_range_valid T a 4"
  shows "dump_ok T (four_bytes m a)" "dump_ok T (hex_u16_at m a)" "dump_ok T (hex_u32_at m a)"
  unfolding four_bytes_def hex8_at_def hex_u16_at_def hex_u32_at_def
  by (auto intro!: dump_rules simp: readable4 [OF assms])

lemma dump_ok_decode_word [dump_rules]: "dump_ok T (trap_decode_word l i)"
  unfolding trap_decode_word_def Let_def by (rule dump_ok_run) (auto intro!: dump_rules)

lemma dump_ok_decode_at [dump_rules]: "dump_ok T (decode_at T m l a)"
  unfolding decode_at_def by (auto intro!: dump_rules simp: readable4)

lemma dump_ok_bytes [dump_rules]: "dump_ok T (trap_dump_bytes T m l a)"
  unfolding trap_dump_bytes_def
  by (rule dump_ok_run) (auto intro!: dump_rules split: option.splits prod.splits)

lemma dump_ok_words [dump_rules]: "dump_ok T (trap_dump_words T m l a)"
  unfolding trap_dump_words_def dump_word_row_def
  by (rule dump_ok_run) (auto intro!: dump_rules split: option.splits prod.splits)

lemma dump_ok_regs [dump_rules]: "dump_ok T (dump_regs f)"
  unfolding dump_regs_def by (rule dump_ok_run) (auto intro!: dump_rules)

text \<open>The stack dump relies on the SDRAM window being the 64 MB at \<open>0x10000000\<close>, as on every target.\<close>

definition sdram_64m :: "target \<Rightarrow> bool" where
  "sdram_64m T \<longleftrightarrow> sdram_base T = 0x10000000 \<and> sdram_size T = 0x4000000"

lemma stack_word_readable:
  assumes "sdram_64m T" and "0x10000000 \<le> sp" and "sp < 0x14000000" and "sp AND 3 = 0"
    and "i < unat (drop_bit 2 (0x14000000 - sp))" and "k < 4"
  shows "trap_readable T (sp + 4 * of_nat i + of_nat k)"
proof -
  have u: "unat (0x14000000 - sp) = 0x14000000 - unat sp"
    using assms(3) by (simp add: unat_sub word_le_nat_alt word_less_nat_alt)
  have "unat (drop_bit 2 (0x14000000 - sp)) = unat (0x14000000 - sp) div 4"
    by (simp add: drop_bit_eq_div unat_div)
  then have i: "4 * i + 4 \<le> 0x14000000 - unat sp"
    using assms(5) u by linarith
  have l: "unat (sp + 4 * of_nat i + of_nat k) = unat sp + 4 * i + k"
    using i assms(2,3,6) by (simp add: unat_word_ariths word_less_nat_alt unat_of_nat take_bit_eq_mod)
  have "0x10000000 \<le> unat sp + 4 * i + k \<and> unat sp + 4 * i + k < 0x14000000"
    using i assms(2,3,6) by (simp add: word_le_nat_alt word_less_nat_alt)
  then show ?thesis
    using assms(1) by (simp add: trap_readable_def sdram_64m_def word_le_nat_alt word_less_nat_alt l)
qed

text \<open>One word of the stack dump, and the dump as its rows.\<close>

abbreviation stack_row :: "mem \<Rightarrow> u32 \<Rightarrow> nat \<Rightarrow> dump \<Rightarrow> dump" where
  "stack_row m sp i \<equiv> run_all
     [(if i mod 4 = 0 then trap_uart_puts [CHR 0x0A, CHR '' ''] else id),
      hex_u32_at m (sp + 4 * of_nat i), trap_uart_puts '' '']"

lemma dump_ok_row:
  assumes "sdram_64m T" and "0x10000000 \<le> sp" and "sp < 0x14000000" and "sp AND 3 = 0"
    and "i < unat (drop_bit 2 (0x14000000 - sp))"
  shows "dump_ok T (stack_row m sp i)"
proof -
  have "dump_ok T (hex_u32_at m (sp + 4 * of_nat i))"
    unfolding hex_u32_at_def
    using stack_word_readable [OF assms, of 0] stack_word_readable [OF assms, of 1]
      stack_word_readable [OF assms, of 2] stack_word_readable [OF assms, of 3]
    by (auto intro!: dump_rules)
  then show ?thesis by (intro dump_ok_run) (auto simp: dump_ok_hex dump_ok_id)
qed

lemma dump_ok_rows:
  assumes "\<And>i. i < n \<Longrightarrow> dump_ok T (r i)" and "dump_ok T f" and "dump_ok T g"
  shows "dump_ok T (run_all ([f] @ map r [0..<n] @ [g]))"
  by (rule dump_ok_run) (use assms in auto)

lemma dump_ok_stack [dump_rules]:
  assumes "sdram_64m T"
  shows "dump_ok T (dump_stack m sp)"
proof (cases "0x10000000 \<le> sp \<and> sp < 0x14000000 \<and> sp AND 3 = 0")
  case True
  let ?w = "drop_bit 2 (0x14000000 - sp)"
  have n: "unat (if 64 < ?w then 64 else ?w) \<le> unat ?w" by (simp add: word_less_nat_alt)
  show ?thesis
    unfolding dump_stack_def if_P [OF True] Let_def
    by (rule dump_ok_rows, rule dump_ok_row)
      (use True n assms in \<open>simp_all only: dump_ok_hex simp_thms, (blast dest: less_le_trans)?\<close>)
next
  case False
  then have "dump_stack m sp = id" by (auto simp: dump_stack_def)
  then show ?thesis by (simp add: dump_ok_id)
qed

lemma dump_ok_fatal:
  assumes "sdram_64m T"
  shows "dump_ok T (fatal_trap_dump T m mstatus_v g f)"
  unfolding fatal_trap_dump_def Let_def
  by (rule dump_ok_run) (auto intro!: dump_rules assms)

section \<open>Hexadecimal output reads back\<close>

definition digit_val :: "u32 \<Rightarrow> u32" where
  "digit_val c = (if c < 58 then c - 48 else c - 87)"

definition hex_value :: "u32 list \<Rightarrow> u32" where
  "hex_value = foldl (\<lambda>a c. push_bit 4 a OR digit_val c) 0"

lemma digit_val_hex: "n < 16 \<Longrightarrow> digit_val (hex_digit n) = n"
  by (auto simp: digit_val_def hex_digit_def word_less_nat_alt unat_word_ariths)

lemma nibble_lt: "(v::u32) AND 0xF < 16"
proof -
  have "v AND 0xF \<le> 0xF" by (rule word_and_le1)
  then show ?thesis by (simp add: word_le_nat_alt word_less_nat_alt)
qed

lemma nibble_step: "push_bit 4 (drop_bit (k + 4) v) OR (drop_bit k v AND 0xF) = drop_bit k (v::u32)"
proof -
  have m: "(0xF :: u32) = mask 4" by (simp add: mask_eq_exp_minus_1)
  show ?thesis unfolding m
    by (rule bit_word_eqI) (auto simp: bit_simps not_less algebra_simps)
qed

lemma sent_run_putb: "sent (run_all (map (\<lambda>i. trap_uart_putb (g i)) is) u) = sent u @ map g is"
  by (induction "is" arbitrary: u) (simp_all add: run_all_def trap_uart_putb_def Let_def)

lemma trap_uart_hex_sent:
  "sent (trap_uart_hex v u) =
     sent u @ map (\<lambda>i. hex_digit (drop_bit i v AND 0xF)) [28, 24, 20, 16, 12, 8, 4, 0]"
  unfolding trap_uart_hex_def by (rule sent_run_putb)

lemma drop32: "drop_bit 32 (v::u32) = 0"
  by (rule bit_word_eqI) (simp add: bit_simps)

lemma hex_value_digits:
  "hex_value (map (\<lambda>i. hex_digit (drop_bit i v AND 0xF)) [28, 24, 20, 16, 12, 8, 4, 0]) = v"
proof -
  have z: "push_bit 4 0 OR (drop_bit 28 v AND 0xF) = drop_bit 28 v"
    using nibble_step [of 28 v] by (simp add: drop32)
  have d: "digit_val (hex_digit (drop_bit i v AND 0xF)) = drop_bit i v AND 0xF" for i
    by (simp only: digit_val_hex nibble_lt)
  have e: "push_bit 4 (drop_bit 4 v) OR (v AND 0xF) = v"
    using nibble_step [of 0 v] by (simp only: add_0 drop_bit_0 id_apply)
  note s = nibble_step [of 24 v] nibble_step [of 20 v] nibble_step [of 16 v]
    nibble_step [of 12 v] nibble_step [of 8 v] nibble_step [of 4 v]
  show ?thesis
    using s unfolding hex_value_def list.map foldl.simps d z by (simp only: e numeral_plus_numeral add_num_simps drop_bit_0 id_apply)
qed

section \<open>Properties\<close>

text \<open>
  C3: a crash dump cannot itself fault, and it ends. Whatever the trap frame holds (wild pc, ra and
  sp included), the dump of \<^verbatim>\<open>fatal_trap\<close> dereferences only addresses inside BRAM, SDRAM, its
  uncached alias or CRAM0, and it polls a UART that never becomes ready at most 8000 times for each
  byte it sends.
\<close>

theorem fatal_dump_safe:
  assumes "sdram_64m T"
  shows "set (derefs (fatal_trap_dump T m mstatus_v g f u)) \<subseteq>
      set (derefs u) \<union> {a. trap_readable T a} \<and>
    (\<exists>bs. sent (fatal_trap_dump T m mstatus_v g f u) = sent u @ bs \<and>
      polls (fatal_trap_dump T m mstatus_v g f u) \<le> polls u + 8000 * length bs)"
  using dump_okD [OF dump_ok_fatal [OF assms, of m mstatus_v g f], of u] by blast

theorem fatal_dump_safe_witness:
  "set (derefs (fatal_trap_dump pocket (\<lambda>_. 0) 0x1800 (gpu_regs.make 0 0 0 0)
     (trap_frame.make (replicate 32 0) 0x10000002 4 0x10000001 (replicate 32 0)) (dump.make (\<lambda>_. 0) 0 [] [])))
   \<subseteq> {a. trap_readable pocket a}"
proof -
  have "sdram_64m pocket" by (simp add: sdram_64m_def pocket_def)
  from fatal_dump_safe [where u = "dump.make (\<lambda>_. 0) 0 [] []", OF this]
  show ?thesis by (simp add: dump.make_def)
qed

text \<open>
  what the dump prints is what it saw: the eight characters \<^verbatim>\<open>trap_uart_hex\<close> transmits for a
  32-bit value, read as a hexadecimal numeral, give the value back, whatever the UART's status
  register returns while they are sent.
\<close>

lemma trap_hex_reads_back:
  "\<exists>ds. sent (trap_uart_hex v u) = sent u @ ds \<and> length ds = 8 \<and> hex_value ds = v"
  using trap_uart_hex_sent hex_value_digits by fastforce

end
