(* ===== verification/Memory.thy ===== *)
theory Memory
  imports Prelude "HOL-Library.Multiset"
begin

text \<open>
  Shared pieces below the kernel services: the Linux error numbers the syscalls return, filling and
  copying ranges of the byte memory, folds that keep an invariant, and multisets of lists updated by
  index.
\<close>

section \<open>Error numbers\<close>

datatype errno = EPERM | ENOENT | EIO | EBADF | ENOMEM | EACCES | EFAULT | EBUSY | EEXIST | ENOTDIR
  | EISDIR | EINVAL | EMFILE | ENOTTY | EFBIG | ENOSPC | ESPIPE | EROFS | ERANGE | ENAMETOOLONG | ENOSYS

section \<open>Ranges of memory\<close>

definition in_range :: "u32 \<Rightarrow> u32 \<Rightarrow> u32 \<Rightarrow> bool" where
  "in_range a n x \<longleftrightarrow> x - a < n"

definition mem_fill :: "u32 \<Rightarrow> u8 \<Rightarrow> u32 \<Rightarrow> mem \<Rightarrow> mem" where
  "mem_fill a b n m = (\<lambda>x. if in_range a n x then b else m x)"

definition mem_bytes :: "mem \<Rightarrow> u32 \<Rightarrow> nat \<Rightarrow> u8 list" where
  "mem_bytes m a n = map (\<lambda>i. m (a + of_nat i)) [0..<n]"

definition mem_store :: "u32 \<Rightarrow> u8 list \<Rightarrow> mem \<Rightarrow> mem" where
  "mem_store a bs m = (\<lambda>x. if unat (x - a) < length bs then bs ! unat (x - a) else m x)"

lemma unat_lt_2p32: "unat (x::u32) < 2 ^ 32"
  using unsigned_less [of x] by simp

lemma in_range_nat:
  assumes "unat a + unat n \<le> 2 ^ 32"
  shows "in_range a n x \<longleftrightarrow> unat a \<le> unat x \<and> unat x < unat a + unat n"
proof (cases "a \<le> x")
  case True
  then have "unat (x - a) = unat x - unat a" by (simp add: unat_sub word_le_nat_alt)
  then show ?thesis using True by (auto simp: in_range_def word_less_nat_alt word_le_nat_alt)
next
  case False
  then have lt: "unat x < unat a" by (simp add: word_le_nat_alt)
  then have "unat (x - a) = 2 ^ 32 + unat x - unat a"
    by (simp add: unat_sub_if')
  then show ?thesis
    using assms lt unat_lt_2p32 [of a] by (simp add: in_range_def word_less_nat_alt)
qed

lemma mem_fill_at: "mem_fill a b n m x = (if in_range a n x then b else m x)"
  by (simp add: mem_fill_def)

lemma length_mem_bytes [simp]: "length (mem_bytes m a n) = n"
  by (simp add: mem_bytes_def)

lemma nth_mem_bytes [simp]: "i < n \<Longrightarrow> mem_bytes m a n ! i = m (a + of_nat i)"
  by (simp add: mem_bytes_def)

lemma mem_bytes_store:
  assumes "length bs = n" and "n \<le> 2 ^ 32"
  shows "mem_bytes (mem_store a bs m) a n = bs"
  using assms
  by (intro nth_equalityI) (auto simp: mem_store_def unat_of_nat take_bit_eq_mod)

lemma mem_store_at: "mem_store a bs m x = (if unat (x - a) < length bs then bs ! unat (x - a) else m x)"
  by (simp add: mem_store_def)

lemma unat_shift:
  assumes "unat (x - (a :: u32)) < n" and "l + n \<le> 2 ^ 32"
  shows "unat (x - a + of_nat l) = unat (x - a) + l"
  using assms by (simp add: unat_word_ariths unat_of_nat take_bit_eq_mod)

lemma mem_store_append:
  assumes "length xs + length ys \<le> 2 ^ 32"
  shows "mem_store (a + of_nat (length xs)) ys (mem_store a xs m) = mem_store a (xs @ ys) m"
proof
  fix x
  let ?n = "length xs" and ?b = "a + of_nat (length xs)"
  show "mem_store ?b ys (mem_store a xs m) x = mem_store a (xs @ ys) m x"
  proof (cases "unat (x - ?b) < length ys")
    case True
    have "x - a = x - ?b + of_nat ?n" by simp
    then have "unat (x - a) = unat (x - ?b) + ?n" using unat_shift [of x ?b "length ys" ?n] True assms by simp
    then show ?thesis using True by (simp add: mem_store_at nth_append)
  next
    case False
    have "unat (x - a) < ?n \<or> \<not> unat (x - a) < ?n + length ys"
    proof (rule ccontr)
      assume "\<not> ?thesis"
      then have r: "?n \<le> unat (x - a)" "unat (x - a) < ?n + length ys" by auto
      have lt: "?n < 2 ^ 32" using r(1) unat_lt_2p32 [of "x - a"] by linarith
      have le: "of_nat ?n \<le> x - a"
        using r(1) lt by (simp add: word_le_nat_alt unat_of_nat take_bit_eq_mod)
      have e: "x - ?b = (x - a) - of_nat ?n" by simp
      have "unat (of_nat ?n :: u32) = ?n" using lt by (simp add: unat_of_nat take_bit_eq_mod)
      then have "unat (x - ?b) = unat (x - a) - ?n"
        unfolding e using unat_sub [OF le] by simp
      then show False using False r by linarith
    qed
    then show ?thesis using False by (auto simp: mem_store_at nth_append)
  qed
qed

section \<open>Loops\<close>

lemma fold_keeps:
  assumes "P s" and "\<And>x s. x \<in> set xs \<Longrightarrow> P s \<Longrightarrow> P (f x s)"
  shows "P (fold f xs s)"
  using assms by (induction xs arbitrary: s) auto

section \<open>Lists updated by index, as multisets\<close>

lemma mset_nth_update:
  assumes "i < length xs"
  obtains N where "mset xs = add_mset (xs ! i) N" and "\<And>y. mset (xs[i := y]) = add_mset y N"
    and "\<And>j. j < length xs \<Longrightarrow> j \<noteq> i \<Longrightarrow> xs ! j \<in># N"
proof -
  let ?N = "mset (take i xs @ drop (Suc i) xs)"
  have "xs ! j \<in> set (take i xs @ drop (Suc i) xs)" if "j < length xs" "j \<noteq> i" for j
  proof (cases "j < i")
    case True
    then have "take i xs ! j = xs ! j" by simp
    with True that show ?thesis by (metis UnI1 length_take min_less_iff_conj nth_mem set_append)
  next
    case False
    then have "drop (Suc i) xs ! (j - Suc i) = xs ! j" using that assms by simp
    with False that assms show ?thesis by (metis (no_types, lifting) UnI2 diff_less_mono length_drop
          not_less_eq_eq not_le_imp_less nth_mem order_le_imp_less_or_eq set_append Suc_leI)
  qed
  then show thesis
    by (intro that [of ?N]) (simp_all add: upd_conv_take_nth_drop assms
        arg_cong [OF id_take_nth_drop [OF assms], of mset])
qed

lemma mset_nth_update2:
  assumes "i < length xs" and "j < length xs" and "i \<noteq> j"
  obtains N where "mset xs = add_mset (xs ! i) (add_mset (xs ! j) N)"
    and "\<And>y z. mset (xs[i := y, j := z]) = add_mset y (add_mset z N)"
proof -
  obtain N1 where N1: "mset xs = add_mset (xs ! i) N1" "\<And>y. mset (xs[i := y]) = add_mset y N1"
    "xs ! j \<in># N1"
    using mset_nth_update [OF assms(1)] assms(2,3) by metis
  then obtain N where N: "N1 = add_mset (xs ! j) N" by (metis insert_DiffM)
  have "mset (xs[i := y, j := z]) = add_mset y (add_mset z N)" for y z
  proof -
    have "mset (xs[i := y, j := z]) = add_mset z (add_mset y N1 - {#xs ! j#})"
      using assms by (simp add: mset_update N1)
    then show ?thesis using N by simp
  qed
  with N1 N show thesis by (intro that [of N]) simp_all
qed

end
