(* ===== verification/Mmap.thy ===== *)
theory Mmap
  imports Memory Platform
begin

text \<open>
  The app's address space (\<^verbatim>\<open>kernel/syscall.c\<close>): the break, the mmap arena that grows down towards
  it, and the table of carved regions with its reuse, splitting, merging and coalescing. The table
  has \<^verbatim>\<open>MMAP_SLOTS\<close> entries after \<^verbatim>\<open>syscall_init\<close>; every statement is about a table of any length.
\<close>

section \<open>State\<close>

record mmap_slot =
  s_base :: u32
  s_len :: u32
  s_free :: bool

record vm =
  slots :: "mmap_slot list"
  slots_used :: int
  mmap_bottom :: u32
  brk_base :: u32
  current_brk :: u32
  warned_slots_full :: bool
  ram :: mem

definition MMAP_SLOTS :: nat where "MMAP_SLOTS = 4096"
definition MMAP_MIN_SPLIT :: u32 where "MMAP_MIN_SPLIT = 4096"

abbreviation no_slot :: mmap_slot where
  "no_slot \<equiv> \<lparr>s_base = 0, s_len = 0, s_free = False\<rparr>"

definition set_slot :: "nat \<Rightarrow> mmap_slot \<Rightarrow> vm \<Rightarrow> vm" where
  "set_slot i s v = v\<lparr>slots := (slots v)[i := s]\<rparr>"

section \<open>The break\<close>

definition sys_brk :: "u32 \<Rightarrow> vm \<Rightarrow> u32 \<times> vm" where
  "sys_brk addr v =
     (if addr = 0 then (current_brk v, v)
      else if addr < brk_base v then (current_brk v, v)
      else if mmap_bottom v < addr then (current_brk v, v)
      else let m = (if current_brk v < addr
                    then mem_fill (current_brk v) 0 (addr - current_brk v) (ram v) else ram v)
           in (addr, v\<lparr>current_brk := addr, ram := m\<rparr>))"

section \<open>Coalescing and merging free regions\<close>

definition coalescible :: "vm \<Rightarrow> nat \<Rightarrow> bool" where
  "coalescible v i \<longleftrightarrow> (let s = slots v ! i in
     s_base s \<noteq> 0 \<and> s_free s \<and> s_base s = mmap_bottom v)"

definition release_slot :: "nat \<Rightarrow> vm \<Rightarrow> vm" where
  "release_slot i v = (set_slot i no_slot v)\<lparr>slots_used := slots_used v - 1\<rparr>"

definition coalesce_at :: "nat \<Rightarrow> vm \<Rightarrow> vm" where
  "coalesce_at i v =
     (let s = slots v ! i in release_slot i (v\<lparr>mmap_bottom := s_base s + s_len s\<rparr>))"

definition coalesce_pass :: "vm \<Rightarrow> vm \<times> bool" where
  "coalesce_pass v =
     fold (\<lambda>i (v, changed). if coalescible v i then (coalesce_at i v, True) else (v, changed))
       [0..<length (slots v)] (v, False)"

definition mergeable :: "vm \<Rightarrow> nat \<Rightarrow> nat \<Rightarrow> bool" where
  "mergeable v i j \<longleftrightarrow> (let s = slots v ! i; t = slots v ! j in
     \<not> (i = j \<or> s_base t = 0 \<or> \<not> s_free t) \<and> s_base s + s_len s = s_base t)"

definition merge_at :: "nat \<Rightarrow> nat \<Rightarrow> vm \<Rightarrow> vm" where
  "merge_at i j v =
     (let s = slots v ! i; t = slots v ! j in
      release_slot j (set_slot i (s\<lparr>s_len := s_len s + s_len t\<rparr>) v))"

definition merge_into :: "nat \<Rightarrow> vm \<times> bool \<Rightarrow> vm \<times> bool" where
  "merge_into i st =
     fold (\<lambda>j (v, changed). if mergeable v i j then (merge_at i j v, True) else (v, changed))
       [0..<length (slots (fst st))] st"

definition merge_pass :: "vm \<Rightarrow> vm \<times> bool" where
  "merge_pass v =
     fold (\<lambda>i st. let s = slots (fst st) ! i in
         if s_base s = 0 \<or> \<not> s_free s then st else merge_into i st)
       [0..<length (slots v)] (v, False)"

text \<open>Both loops repeat their pass while it changes something; every change empties a slot.\<close>

definition occupied :: "vm \<Rightarrow> nat" where
  "occupied v = size (filter_mset (\<lambda>s. s_base s \<noteq> 0) (mset (slots v)))"

lemma slots_set_slot [simp]: "slots (set_slot i s v) = (slots v)[i := s]"
  by (simp add: set_slot_def)

lemma vm_set_slot [simp]:
  "slots_used (set_slot i s v) = slots_used v" "mmap_bottom (set_slot i s v) = mmap_bottom v"
  "brk_base (set_slot i s v) = brk_base v" "current_brk (set_slot i s v) = current_brk v"
  "ram (set_slot i s v) = ram v" "warned_slots_full (set_slot i s v) = warned_slots_full v"
  by (simp_all add: set_slot_def)

lemma slots_coalesce_at: "slots (coalesce_at i v) = (slots v)[i := no_slot]"
  by (simp add: coalesce_at_def release_slot_def Let_def)

lemma slots_merge_at:
  "slots (merge_at i j v) =
     (slots v)[i := (slots v ! i)\<lparr>s_len := s_len (slots v ! i) + s_len (slots v ! j)\<rparr>, j := no_slot]"
  by (simp add: merge_at_def release_slot_def Let_def)

lemma occupied_coalesce:
  assumes "i < length (slots v)" and "coalescible v i"
  shows "occupied (coalesce_at i v) < occupied v"
  using assms
  by (auto elim!: mset_nth_update [of i "slots v"]
      simp: occupied_def slots_coalesce_at coalescible_def Let_def)

lemma occupied_merge:
  assumes "i < length (slots v)" and "j < length (slots v)" and "mergeable v i j"
  shows "occupied (merge_at i j v) < occupied v"
proof -
  have "i \<noteq> j" using assms(3) by (auto simp: mergeable_def Let_def)
  then obtain N where "mset (slots v) = add_mset (slots v ! i) (add_mset (slots v ! j) N)"
    "\<And>y z. mset ((slots v)[i := y, j := z]) = add_mset y (add_mset z N)"
    using mset_nth_update2 [OF assms(1,2)] by metis
  then show ?thesis
    using assms(3) by (simp add: occupied_def slots_merge_at mergeable_def Let_def)
qed

text \<open>What one pass keeps: anything its single step keeps.\<close>

lemma coalesce_pass_keeps:
  assumes "Q v False"
    and "\<And>v c i. Q v c \<Longrightarrow> i < length (slots v) \<Longrightarrow> coalescible v i \<Longrightarrow> Q (coalesce_at i v) True"
  shows "case coalesce_pass v of (v', c) \<Rightarrow> Q v' c"
proof -
  have "(\<lambda>(v', c). Q v' c \<and> length (slots v') = length (slots v)) (coalesce_pass v)"
    unfolding coalesce_pass_def
    by (rule fold_keeps) (use assms in \<open>auto simp: slots_coalesce_at split: if_splits\<close>)
  then show ?thesis by auto
qed

definition merge_closed :: "(vm \<Rightarrow> bool \<Rightarrow> bool) \<Rightarrow> bool" where
  "merge_closed Q \<longleftrightarrow> (\<forall>v c i j. Q v c \<longrightarrow> i < length (slots v) \<longrightarrow> j < length (slots v) \<longrightarrow>
     s_base (slots v ! i) \<noteq> 0 \<and> s_free (slots v ! i) \<longrightarrow> mergeable v i j \<longrightarrow> Q (merge_at i j v) True)"

lemma merge_at_keeps_i:
  assumes "mergeable v i j" and "i < length (slots v)"
  shows "s_base (slots (merge_at i j v) ! i) = s_base (slots v ! i)"
    and "s_free (slots (merge_at i j v) ! i) = s_free (slots v ! i)"
    and "length (slots (merge_at i j v)) = length (slots v)"
proof -
  have "i \<noteq> j" using assms(1) by (auto simp: mergeable_def Let_def)
  then show "s_base (slots (merge_at i j v) ! i) = s_base (slots v ! i)"
    "s_free (slots (merge_at i j v) ! i) = s_free (slots v ! i)"
    "length (slots (merge_at i j v)) = length (slots v)"
    using assms(2) by (simp_all add: slots_merge_at)
qed

lemma merge_into_keeps:
  assumes "Q (fst st) (snd st)" and "i < length (slots (fst st))" and "merge_closed Q"
    and "s_base (slots (fst st) ! i) \<noteq> 0" and "s_free (slots (fst st) ! i)"
  shows "Q (fst (merge_into i st)) (snd (merge_into i st)) \<and>
    length (slots (fst (merge_into i st))) = length (slots (fst st))"
proof -
  let ?I = "\<lambda>st'. Q (fst st') (snd st') \<and> length (slots (fst st')) = length (slots (fst st)) \<and>
      s_base (slots (fst st') ! i) \<noteq> 0 \<and> s_free (slots (fst st') ! i)"
  have step: "?I (case st' of (v, changed) \<Rightarrow>
      if mergeable v i j then (merge_at i j v, True) else (v, changed))"
    if "j < length (slots (fst st))" "?I st'" for j st'
  proof (cases "mergeable (fst st') i j")
    case True
    have "Q (merge_at i j (fst st')) True"
      using assms(2,3) that True unfolding merge_closed_def by metis
    then show ?thesis using True that assms(2) by (simp add: split_beta merge_at_keeps_i)
  qed (use that in \<open>simp add: split_beta\<close>)
  have "?I (merge_into i st)"
    unfolding merge_into_def by (rule fold_keeps) (use assms step in simp_all)
  then show ?thesis by simp
qed

lemma merge_pass_keeps:
  assumes "Q v False" and "merge_closed Q"
  shows "case merge_pass v of (v', c) \<Rightarrow> Q v' c"
proof -
  have "(\<lambda>st. Q (fst st) (snd st) \<and> length (slots (fst st)) = length (slots v)) (merge_pass v)"
    unfolding merge_pass_def
    by (rule fold_keeps)
      (use assms merge_into_keeps [where Q = Q, OF _ _ assms(2)] in \<open>auto simp: Let_def\<close>)
  then show ?thesis by auto
qed

lemma coalesce_pass_progress:
  assumes "coalesce_pass v = (v', True)"
  shows "occupied v' < occupied v"
proof -
  let ?Q = "\<lambda>v' c. occupied v' \<le> occupied v \<and> (c \<longrightarrow> occupied v' < occupied v)"
  have step: "?Q (coalesce_at i w) True" if "?Q w c" "i < length (slots w)" "coalescible w i" for w c i
    using occupied_coalesce [OF that(2,3)] that(1) by linarith
  have "case coalesce_pass v of (v', c) \<Rightarrow> ?Q v' c"
    by (rule coalesce_pass_keeps [where Q = ?Q]) (use step in \<open>blast+\<close>)
  then show ?thesis using assms by simp
qed

lemma merge_pass_progress:
  assumes "merge_pass v = (v', True)"
  shows "occupied v' < occupied v"
proof -
  let ?Q = "\<lambda>v' c. occupied v' \<le> occupied v \<and> (c \<longrightarrow> occupied v' < occupied v)"
  have "?Q (merge_at i j w) True"
    if "?Q w c" "i < length (slots w)" "j < length (slots w)" "mergeable w i j" for w c i j
    using occupied_merge [OF that(2-4)] that(1) by linarith
  then have "merge_closed ?Q" unfolding merge_closed_def by blast
  then have "case merge_pass v of (v', c) \<Rightarrow> ?Q v' c"
    by (intro merge_pass_keeps [where Q = ?Q]) auto
  then show ?thesis using assms by simp
qed

function mmap_coalesce_bottom :: "vm \<Rightarrow> vm" where
  "mmap_coalesce_bottom v =
     (case coalesce_pass v of (v', changed) \<Rightarrow> if changed then mmap_coalesce_bottom v' else v')"
  by pat_completeness auto
termination
  by (relation "measure occupied") (auto dest: coalesce_pass_progress [OF sym])

function mmap_merge_free :: "vm \<Rightarrow> vm" where
  "mmap_merge_free v =
     (case merge_pass v of (v', changed) \<Rightarrow> if changed then mmap_merge_free v' else v')"
  by pat_completeness auto
termination
  by (relation "measure occupied") (auto dest: merge_pass_progress [OF sym])

declare mmap_coalesce_bottom.simps [simp del] mmap_merge_free.simps [simp del]

lemma coalesce_keeps:
  assumes "P v" and "\<And>v i. P v \<Longrightarrow> i < length (slots v) \<Longrightarrow> coalescible v i \<Longrightarrow> P (coalesce_at i v)"
  shows "P (mmap_coalesce_bottom v)"
  using assms(1)
proof (induction v rule: mmap_coalesce_bottom.induct)
  case (1 v)
  have "case coalesce_pass v of (v', c) \<Rightarrow> P v'"
    by (rule coalesce_pass_keeps [of "\<lambda>v' c. P v'" v, OF 1(2)]) (rule assms(2))
  then show ?case
    using 1(1) by (subst mmap_coalesce_bottom.simps) (auto split: prod.splits)
qed

lemma merge_keeps:
  assumes "P v" and "\<And>v i j. P v \<Longrightarrow> i < length (slots v) \<Longrightarrow> j < length (slots v) \<Longrightarrow>
      s_base (slots v ! i) \<noteq> 0 \<Longrightarrow> s_free (slots v ! i) \<Longrightarrow> mergeable v i j \<Longrightarrow> P (merge_at i j v)"
  shows "P (mmap_merge_free v)"
  using assms(1)
proof (induction v rule: mmap_merge_free.induct)
  case (1 v)
  have "case merge_pass v of (v', c) \<Rightarrow> P v'"
    by (rule merge_pass_keeps [of "\<lambda>v' c. P v'" v, OF 1(2)])
      (use assms(2) in \<open>unfold merge_closed_def, blast\<close>)
  then show ?case
    using 1(1) by (subst mmap_merge_free.simps) (auto split: prod.splits)
qed

section \<open>Allocation\<close>

definition better_fit :: "u32 \<Rightarrow> vm \<Rightarrow> nat \<Rightarrow> nat option \<Rightarrow> nat option" where
  "better_fit want_len v i best =
     (let s = slots v ! i in
      if s_base s = 0 \<or> \<not> s_free s \<or> s_len s < want_len then best
      else case best of None \<Rightarrow> Some i
        | Some b \<Rightarrow> if s_len s < s_len (slots v ! b) then Some i else best)"

definition mmap_alloc_slot :: "vm \<Rightarrow> nat option" where
  "mmap_alloc_slot v = find (\<lambda>i. s_base (slots v ! i) = 0) [0..<length (slots v)]"

definition split_slot :: "nat \<Rightarrow> nat \<Rightarrow> u32 \<Rightarrow> vm \<Rightarrow> vm" where
  "split_slot best extra want_len v =
     (let s = slots v ! best; excess = s_len s - want_len in
      (set_slot best (s\<lparr>s_len := want_len\<rparr>)
        (set_slot extra \<lparr>s_base = s_base s + want_len, s_len = excess, s_free = True\<rparr> v))
        \<lparr>slots_used := slots_used v + 1\<rparr>)"

definition mmap_find_reusable :: "u32 \<Rightarrow> vm \<Rightarrow> nat option \<times> vm" where
  "mmap_find_reusable want_len v =
     (case fold (better_fit want_len v) [0..<length (slots v)] None of
        None \<Rightarrow> (None, v)
      | Some best \<Rightarrow>
          let s = slots v ! best; excess = s_len s - want_len in
          if MMAP_MIN_SPLIT \<le> excess then
            (case mmap_alloc_slot v of
               Some extra \<Rightarrow> (Some best, split_slot best extra want_len v)
             | None \<Rightarrow> (Some best, v))
          else (Some best, v))"

definition hand_out :: "nat \<Rightarrow> vm \<Rightarrow> (errno + u32) \<times> vm" where
  "hand_out i v =
     (let s = slots v ! i in
      (Inr (s_base s),
       (set_slot i (s\<lparr>s_free := False\<rparr>) v)\<lparr>ram := mem_fill (s_base s) 0 (s_len s) (ram v)\<rparr>))"

definition carve :: "nat \<Rightarrow> u32 \<Rightarrow> u32 \<Rightarrow> vm \<Rightarrow> (errno + u32) \<times> vm" where
  "carve slot base len v =
     (Inr base,
      (set_slot slot \<lparr>s_base = base, s_len = len, s_free = False\<rparr> v)
        \<lparr>ram := mem_fill base 0 len (ram v), mmap_bottom := base, slots_used := slots_used v + 1\<rparr>)"

definition page_align :: "u32 \<Rightarrow> u32" where
  "page_align n = (n + 4095) AND NOT 4095"

definition sys_mmap2 :: "u32 \<Rightarrow> vm \<Rightarrow> (errno + u32) \<times> vm" where
  "sys_mmap2 len v =
     (if sint len \<le> 0 then (Inl EINVAL, v)
      else let len_aligned = page_align len in
      if len_aligned < len then (Inl ENOMEM, v)
      else case mmap_find_reusable len_aligned (mmap_coalesce_bottom v) of
        (Some i, v) \<Rightarrow> hand_out i v
      | (None, v) \<Rightarrow>
          let mb = mmap_bottom v; cb = current_brk v; base = mb - len_aligned; e = base + len_aligned in
          if mb < len_aligned then (Inl ENOMEM, v)
          else if base < cb then (Inl ENOMEM, v)
          else if e < base then (Inl ENOMEM, v)
          else if mb < e then (Inl ENOMEM, v)
          else if base < 0x10000000 \<or> 0x40000000 < e then (Inl ENOMEM, v)
          else case mmap_alloc_slot v of
            Some slot \<Rightarrow> carve slot base len_aligned v
          | None \<Rightarrow>
              (case mmap_find_reusable len_aligned (mmap_merge_free v) of
                 (Some i, v) \<Rightarrow> hand_out i v
               | (None, v) \<Rightarrow>
                   (case mmap_alloc_slot v of
                      Some slot \<Rightarrow> carve slot base len_aligned v
                    | None \<Rightarrow> (Inl ENOMEM, v\<lparr>warned_slots_full := True\<rparr>))))"

definition syscall_alloc_app_mmap :: "u32 \<Rightarrow> vm \<Rightarrow> u32 \<times> vm" where
  "syscall_alloc_app_mmap n v =
     (case sys_mmap2 n v of (Inl _, v') \<Rightarrow> (0, v') | (Inr p, v') \<Rightarrow> (p, v'))"

definition find_live :: "u32 \<Rightarrow> vm \<Rightarrow> nat option" where
  "find_live base v =
     find (\<lambda>i. \<not> (s_base (slots v ! i) \<noteq> base \<or> s_free (slots v ! i))) [0..<length (slots v)]"

definition sys_munmap :: "u32 \<Rightarrow> u32 \<Rightarrow> vm \<Rightarrow> vm" where
  "sys_munmap addr len v =
     (if addr = 0 \<or> sint len \<le> 0 then v
      else case find_live addr v of
        None \<Rightarrow> v
      | Some i \<Rightarrow>
          let s = slots v ! i in
          if addr = mmap_bottom v then
            mmap_coalesce_bottom (release_slot i (v\<lparr>mmap_bottom := addr + s_len s\<rparr>))
          else set_slot i (s\<lparr>s_free := True\<rparr>) v)"

definition reset_slots :: "vm \<Rightarrow> vm" where
  "reset_slots v = v\<lparr>slots := replicate (length (slots v)) no_slot, slots_used := 0\<rparr>"

definition syscall_set_app_stack_top :: "target \<Rightarrow> u32 \<Rightarrow> vm \<Rightarrow> int \<times> vm" where
  "syscall_set_app_stack_top T stack_top v =
     (let top = stack_top AND NOT 15 in
      if top < runtime_stack_size T then (-1, v)
      else let bottom = top - runtime_stack_size T in
      if bottom < current_brk v then (-1, v)
      else (0, reset_slots (v\<lparr>mmap_bottom := bottom\<rparr>)))"

definition syscall_init_vm :: "target \<Rightarrow> u32 \<Rightarrow> mem \<Rightarrow> bool \<Rightarrow> vm" where
  "syscall_init_vm T heap_start m warned =
     \<lparr>slots = replicate MMAP_SLOTS no_slot, slots_used = 0,
      mmap_bottom = app_stack_top T - runtime_stack_size T,
      brk_base = heap_start, current_brk = heap_start, warned_slots_full = warned, ram = m\<rparr>"

end
