(* ===== verification/MmapInv.thy ===== *)
theory MmapInv
  imports Mmap
begin

text \<open>
  The contract of the app's address space. Every address of the arena, from the bottom to the
  ceiling the stack reserve set, belongs to exactly one region of the table: nothing overlaps and
  nothing leaks. The regions in use form a multiset of (base, length) pairs, the abstract state of
  an allocator; the locale states what such an allocator promises its clients, and the syscalls of
  \<^theory_text>\<open>Mmap\<close> are its interpretation.
\<close>

section \<open>The arena invariant\<close>

definition covers :: "mmap_slot \<Rightarrow> nat \<Rightarrow> bool" where
  "covers s a \<longleftrightarrow> s_base s \<noteq> 0 \<and> unat (s_base s) \<le> a \<and> a < unat (s_base s) + unat (s_len s)"

definition slot_ok :: "mmap_slot \<Rightarrow> bool" where
  "slot_ok s \<longleftrightarrow> (s_base s \<noteq> 0 \<longrightarrow> s_len s \<noteq> 0 \<and> 0x10000000 \<le> unat (s_base s) \<and>
     unat (s_base s) + unat (s_len s) \<le> 0x40000000)"

definition cover_count :: "mmap_slot multiset \<Rightarrow> nat \<Rightarrow> nat" where
  "cover_count M a = size (filter_mset (\<lambda>s. covers s a) M)"

definition arena :: "mmap_slot multiset \<Rightarrow> nat \<Rightarrow> nat \<Rightarrow> bool" where
  "arena M lo hi \<longleftrightarrow> lo \<le> hi \<and> (\<forall>s \<in># M. slot_ok s) \<and>
     (\<forall>a. cover_count M a = of_bool (lo \<le> a \<and> a < hi))"

definition region :: "mmap_slot \<Rightarrow> u32 \<times> u32" where
  "region s = (s_base s, s_len s)"

definition regions_of :: "mmap_slot multiset \<Rightarrow> (u32 \<times> u32) multiset" where
  "regions_of M = image_mset region (filter_mset (\<lambda>s. s_base s \<noteq> 0 \<and> \<not> s_free s) M)"

definition live :: "vm \<Rightarrow> (u32 \<times> u32) multiset" where
  "live v = regions_of (mset (slots v))"

definition vm_inv :: "nat \<Rightarrow> vm \<Rightarrow> bool" where
  "vm_inv hi v \<longleftrightarrow> arena (mset (slots v)) (unat (mmap_bottom v)) hi \<and>
     slots_used v = int (occupied v) \<and>
     brk_base v \<le> current_brk v \<and> current_brk v \<le> mmap_bottom v"

lemma cover_count_add [simp]:
  "cover_count (add_mset s M) a = of_bool (covers s a) + cover_count M a"
  by (simp add: cover_count_def)

lemma regions_of_add [simp]:
  "regions_of (add_mset s M) =
     (if s_base s \<noteq> 0 \<and> \<not> s_free s then add_mset (region s) (regions_of M) else regions_of M)"
  by (simp add: regions_of_def)

lemma covers_empty [simp]: "s_base s = 0 \<Longrightarrow> \<not> covers s a"
  by (simp add: covers_def)

lemma slot_ok_empty [simp]: "s_base s = 0 \<Longrightarrow> slot_ok s"
  by (simp add: slot_ok_def)

lemma arena_transfer:
  assumes "arena M lo hi" and "\<And>s. s \<in># M' \<Longrightarrow> slot_ok s"
    and "\<And>a. cover_count M' a = cover_count M a"
  shows "arena M' lo hi"
  using assms by (simp add: arena_def)

lemma arena_ok:
  assumes "arena M lo hi" and "s \<in># M"
  shows "slot_ok s"
  using assms by (simp add: arena_def)

lemma arena_slot_range:
  assumes "arena (add_mset s M) lo hi" and "s_base s \<noteq> 0"
  shows "lo \<le> unat (s_base s)" and "unat (s_base s) + unat (s_len s) \<le> hi"
    and "0 < unat (s_len s)"
proof -
  have ok: "slot_ok s" using assms(1) by (simp add: arena_def)
  then show pos: "0 < unat (s_len s)" using assms(2) by (simp add: slot_ok_def unat_gt_0)
  have in_arena: "lo \<le> a \<and> a < hi" if "covers s a" for a
  proof -
    have "cover_count (add_mset s M) a = of_bool (lo \<le> a \<and> a < hi)"
      using assms(1) by (simp only: arena_def)
    then show ?thesis using that by (simp split: if_splits add: of_bool_def)
  qed
  have "covers s (unat (s_base s))" using assms(2) pos by (simp add: covers_def)
  then show "lo \<le> unat (s_base s)" using in_arena by blast
  have "covers s (unat (s_base s) + unat (s_len s) - 1)"
    using assms(2) pos by (simp add: covers_def)
  then show "unat (s_base s) + unat (s_len s) \<le> hi" using in_arena by fastforce
qed

text \<open>The five changes the operations make to the table.\<close>

lemma arena_release_bottom:
  assumes "arena (add_mset s M) (unat (s_base s)) hi" and "s_base s \<noteq> 0" and "s_base z = 0"
  shows "arena (add_mset z M) (unat (s_base s) + unat (s_len s)) hi"
proof -
  note r = arena_slot_range [OF assms(1,2)]
  have "cover_count M a = of_bool (unat (s_base s) + unat (s_len s) \<le> a \<and> a < hi)" for a
  proof -
    have "of_bool (covers s a) + cover_count M a = (of_bool (unat (s_base s) \<le> a \<and> a < hi) :: nat)"
      using assms(1) by (simp add: arena_def)
    then show ?thesis using r assms(2) by (auto simp: covers_def split: if_splits)
  qed
  then show ?thesis using assms r by (simp add: arena_def)
qed

lemma arena_merge:
  assumes "arena (add_mset s (add_mset t M)) lo hi" and "s_base s \<noteq> 0" and "s_base t \<noteq> 0"
    and "s_base s + s_len s = s_base t" and "s_base z = 0"
  shows "arena (add_mset (s\<lparr>s_len := s_len s + s_len t\<rparr>) (add_mset z M)) lo hi"
proof -
  have ok: "slot_ok s" "slot_ok t" using assms(1) by (simp_all add: arena_def)
  have adj: "unat (s_base s) + unat (s_len s) = unat (s_base t)"
    using ok(1) assms(2) by (simp add: assms(4)[symmetric] slot_ok_def unat_word_ariths)
  have len: "unat (s_len s + s_len t) = unat (s_len s) + unat (s_len t)"
    using ok assms(2,3) adj by (simp add: slot_ok_def unat_word_ariths)
  let ?u = "s\<lparr>s_len := s_len s + s_len t\<rparr>"
  have ge: "0 < unat (s_len s)" using ok(1) assms(2) by (simp add: slot_ok_def unat_gt_0)
  have "slot_ok ?u"
    using ok assms(2,3) adj len ge by (auto simp: slot_ok_def word_unat_eq_iff)
  moreover have "(of_bool (covers ?u a) :: nat) = of_bool (covers s a) + of_bool (covers t a)" for a
    using assms(2,3) adj len by (auto simp: covers_def)
  ultimately show ?thesis
    using assms(5) ok arena_ok [OF assms(1)]
    by (intro arena_transfer [OF assms(1)]) auto
qed

lemma arena_split:
  assumes "arena (add_mset s (add_mset z M)) lo hi" and "s_base s \<noteq> 0" and "s_base z = 0"
    and "want \<noteq> 0" and "want < s_len s"
  shows "arena (add_mset (s\<lparr>s_len := want\<rparr>)
    (add_mset \<lparr>s_base = s_base s + want, s_len = s_len s - want, s_free = True\<rparr> M)) lo hi"
    and "s_base s + want \<noteq> 0"
proof -
  have ok: "slot_ok s" using assms(1) by (simp add: arena_def)
  have w: "unat want < unat (s_len s)" "0 < unat want"
    using assms(4,5) by (simp_all add: word_less_nat_alt unat_gt_0)
  have b: "unat (s_base s + want) = unat (s_base s) + unat want"
    using ok assms(2) w by (simp add: slot_ok_def unat_word_ariths)
  have l: "unat (s_len s - want) = unat (s_len s) - unat want"
    using w by (simp add: unat_sub word_le_nat_alt)
  show nz: "s_base s + want \<noteq> 0" using b w by (metis add_is_0 less_numeral_extra(3) unat_0)
  let ?u = "s\<lparr>s_len := want\<rparr>"
  let ?t = "\<lparr>s_base = s_base s + want, s_len = s_len s - want, s_free = True\<rparr>"
  have "slot_ok ?u" "slot_ok ?t"
    using ok assms(2,4) w b l by (auto simp: slot_ok_def word_unat_eq_iff)
  moreover have "(of_bool (covers s a) :: nat) = of_bool (covers ?u a) + of_bool (covers ?t a)" for a
    using assms(2) nz w b l by (auto simp: covers_def)
  ultimately show "arena (add_mset ?u (add_mset ?t M)) lo hi"
    using assms(3) arena_ok [OF assms(1)]
    by (intro arena_transfer [OF assms(1)]) auto
qed

lemma arena_carve:
  assumes "arena (add_mset z M) lo hi" and "s_base z = 0" and "n \<noteq> 0"
    and "unat base + unat n = lo" and "0x10000000 \<le> unat base" and "lo \<le> 0x40000000"
  shows "arena (add_mset \<lparr>s_base = base, s_len = n, s_free = f\<rparr> M) (unat base) hi"
proof -
  have nz: "base \<noteq> 0" using assms(5) by auto
  have "(of_bool (unat base \<le> a \<and> a < hi) :: nat) =
      of_bool (covers \<lparr>s_base = base, s_len = n, s_free = f\<rparr> a) + of_bool (lo \<le> a \<and> a < hi)" for a
    using assms(1,4) nz by (auto simp: covers_def arena_def)
  then show ?thesis
    using assms nz by (auto simp: arena_def slot_ok_def)
qed

lemma arena_set_free:
  assumes "arena (add_mset s M) lo hi"
  shows "arena (add_mset (s\<lparr>s_free := f\<rparr>) M) lo hi"
  using assms by (simp add: arena_def slot_ok_def covers_def)


section \<open>What the operations keep\<close>

definition kept :: "vm \<Rightarrow> vm \<Rightarrow> bool" where
  "kept v v' \<longleftrightarrow> live v' = live v \<and> ram v' = ram v \<and> current_brk v' = current_brk v \<and>
     brk_base v' = brk_base v \<and> mmap_bottom v \<le> mmap_bottom v' \<and>
     length (slots v') = length (slots v)"

lemma kept_refl [simp]: "kept v v"
  by (simp add: kept_def)

lemma kept_trans: "kept u v \<Longrightarrow> kept v w \<Longrightarrow> kept u w"
  by (auto simp: kept_def)

lemma vm_inv_slotE:
  assumes "vm_inv hi v" and "i < length (slots v)"
  obtains N where "mset (slots v) = add_mset (slots v ! i) N"
    and "\<And>y. mset ((slots v)[i := y]) = add_mset y N"
    and "arena (add_mset (slots v ! i) N) (unat (mmap_bottom v)) hi"
  using assms mset_nth_update [OF assms(2)] by (metis vm_inv_def)

lemma bottom_plus:
  assumes "slot_ok s" and "s_base s \<noteq> 0"
  shows "unat (s_base s + s_len s) = unat (s_base s) + unat (s_len s)"
  using assms by (simp add: slot_ok_def unat_word_ariths)

lemma release_bottom_inv:
  assumes inv: "vm_inv hi v" and i: "i < length (slots v)"
    and s: "s_base (slots v ! i) \<noteq> 0" "s_base (slots v ! i) = mmap_bottom v"
  shows "vm_inv hi (coalesce_at i v)"
proof -
  obtain N where N: "mset (slots v) = add_mset (slots v ! i) N"
    "\<And>y. mset ((slots v)[i := y]) = add_mset y N"
    "arena (add_mset (slots v ! i) N) (unat (mmap_bottom v)) hi"
    using vm_inv_slotE [OF inv i] by blast
  let ?s = "slots v ! i"
  have ok: "slot_ok ?s" using arena_ok [OF N(3)] by simp
  note plus = bottom_plus [OF ok s(1)]
  have "arena (add_mset no_slot N) (unat (s_base ?s + s_len ?s)) hi"
    unfolding plus using arena_release_bottom [of ?s N hi no_slot] N(3) s by simp
  moreover have "mmap_bottom v \<le> s_base ?s + s_len ?s"
    using plus s(2) by (simp add: word_le_nat_alt)
  ultimately show ?thesis
    using inv N s unfolding vm_inv_def
    by (auto simp: coalesce_at_def release_slot_def occupied_def Let_def)
qed

lemma coalescibleD:
  assumes "coalescible v i"
  shows "s_base (slots v ! i) \<noteq> 0" "s_base (slots v ! i) = mmap_bottom v" "s_free (slots v ! i)"
  using assms unfolding coalescible_def Let_def by blast+

lemma coalesce_at_kept:
  assumes inv: "vm_inv hi v" and i: "i < length (slots v)" and c: "coalescible v i"
  shows "kept v (coalesce_at i v)"
proof -
  have s: "s_base (slots v ! i) \<noteq> 0" "s_free (slots v ! i)" "s_base (slots v ! i) = mmap_bottom v"
    using coalescibleD [OF c] by blast+
  obtain N where N: "mset (slots v) = add_mset (slots v ! i) N"
    "\<And>y. mset ((slots v)[i := y]) = add_mset y N"
    "arena (add_mset (slots v ! i) N) (unat (mmap_bottom v)) hi"
    using vm_inv_slotE [OF inv i] by blast
  have "mmap_bottom v \<le> s_base (slots v ! i) + s_len (slots v ! i)"
    using bottom_plus [OF arena_ok [OF N(3)], of "slots v ! i"] s by (simp add: word_le_nat_alt)
  then show ?thesis
    using N s by (simp add: kept_def live_def coalesce_at_def release_slot_def Let_def)
qed

lemma merge_at_inv:
  assumes inv: "vm_inv hi v" and i: "i < length (slots v)" and j: "j < length (slots v)"
    and s: "s_base (slots v ! i) \<noteq> 0" "s_free (slots v ! i)" and m: "mergeable v i j"
  shows "vm_inv hi (merge_at i j v)" and "kept v (merge_at i j v)"
proof -
  have t: "i \<noteq> j" "s_base (slots v ! j) \<noteq> 0" "s_free (slots v ! j)"
    "s_base (slots v ! i) + s_len (slots v ! i) = s_base (slots v ! j)"
    using m by (auto simp: mergeable_def Let_def)
  obtain N where N: "mset (slots v) = add_mset (slots v ! i) (add_mset (slots v ! j) N)"
    "\<And>y z. mset ((slots v)[i := y, j := z]) = add_mset y (add_mset z N)"
    using mset_nth_update2 [OF i j t(1)] by blast
  have "arena (add_mset (slots v ! i) (add_mset (slots v ! j) N)) (unat (mmap_bottom v)) hi"
    using inv N(1) by (simp add: vm_inv_def)
  from arena_merge [OF this s(1) t(2,4), of no_slot]
  show "vm_inv hi (merge_at i j v)" "kept v (merge_at i j v)"
    using inv N s t
    by (simp_all add: vm_inv_def kept_def live_def merge_at_def release_slot_def occupied_def Let_def)
qed

lemma coalesce_inv:
  assumes "vm_inv hi v"
  shows "vm_inv hi (mmap_coalesce_bottom v)" and "kept v (mmap_coalesce_bottom v)"
proof -
  have "vm_inv hi (mmap_coalesce_bottom v) \<and> kept v (mmap_coalesce_bottom v)"
    by (rule coalesce_keeps)
      (use assms in \<open>auto dest: coalescibleD intro: release_bottom_inv kept_trans [OF _ coalesce_at_kept]\<close>)
  then show "vm_inv hi (mmap_coalesce_bottom v)" "kept v (mmap_coalesce_bottom v)" by blast+
qed

lemma merge_inv:
  assumes "vm_inv hi v"
  shows "vm_inv hi (mmap_merge_free v)" and "kept v (mmap_merge_free v)"
proof -
  have "vm_inv hi (mmap_merge_free v) \<and> kept v (mmap_merge_free v)"
    by (rule merge_keeps) (use assms in \<open>auto intro: merge_at_inv kept_trans\<close>)
  then show "vm_inv hi (mmap_merge_free v)" "kept v (mmap_merge_free v)" by blast+
qed


lemma merge_bottom: "mmap_bottom (mmap_merge_free v) = mmap_bottom v"
  by (rule merge_keeps [of "\<lambda>u. mmap_bottom u = mmap_bottom v"])
    (simp_all add: merge_at_def release_slot_def Let_def)

section \<open>Best fit\<close>

definition fits :: "u32 \<Rightarrow> vm \<Rightarrow> nat \<Rightarrow> bool" where
  "fits want v i \<longleftrightarrow> s_base (slots v ! i) \<noteq> 0 \<and> s_free (slots v ! i) \<and> want \<le> s_len (slots v ! i)"

lemma best_fit:
  "case fold (better_fit want v) [0..<n] None of
     None \<Rightarrow> \<forall>i<n. \<not> fits want v i
   | Some b \<Rightarrow> b < n \<and> fits want v b \<and> (\<forall>i<n. fits want v i \<longrightarrow> s_len (slots v ! b) \<le> s_len (slots v ! i))"
proof (induction n)
  case 0
  show ?case by simp
next
  case (Suc n)
  then show ?case
    by (auto simp: better_fit_def fits_def Let_def less_Suc_eq not_less not_le split: option.splits
        intro: order.strict_implies_order order.trans)
qed

lemma alloc_slot:
  "mmap_alloc_slot v = Some i \<Longrightarrow> i < length (slots v) \<and> s_base (slots v ! i) = 0"
  "mmap_alloc_slot v = None \<longleftrightarrow> (\<forall>i < length (slots v). s_base (slots v ! i) \<noteq> 0)"
  by (auto simp: mmap_alloc_slot_def find_Some_iff find_None_iff)

lemma split_slot_inv:
  assumes inv: "vm_inv hi v" and b: "b < length (slots v)" and e: "e < length (slots v)"
    and s: "s_base (slots v ! b) \<noteq> 0" "s_free (slots v ! b)" and z: "s_base (slots v ! e) = 0"
    and w: "want \<noteq> 0" "want < s_len (slots v ! b)"
  shows "vm_inv hi (split_slot b e want v)" and "kept v (split_slot b e want v)"
proof -
  have ne: "e \<noteq> b" using s z by auto
  obtain N where N: "mset (slots v) = add_mset (slots v ! e) (add_mset (slots v ! b) N)"
    "\<And>y z. mset ((slots v)[e := y, b := z]) = add_mset y (add_mset z N)"
    using mset_nth_update2 [OF e b ne] by blast
  have a: "arena (add_mset (slots v ! b) (add_mset (slots v ! e) N)) (unat (mmap_bottom v)) hi"
    using inv N(1) by (simp add: vm_inv_def add_mset_commute)
  show "vm_inv hi (split_slot b e want v)" "kept v (split_slot b e want v)"
    using inv N s z arena_split [OF a s(1) z w]
    by (simp_all add: vm_inv_def kept_def live_def split_slot_def occupied_def Let_def add_mset_commute)
qed

lemma find_reusable:
  assumes inv: "vm_inv hi v" and w: "want \<noteq> 0" and r: "mmap_find_reusable want v = (r, v')"
  shows "vm_inv hi v'" and "kept v v'"
    and "r = Some b \<Longrightarrow> b < length (slots v') \<and> fits want v' b"
    and "r = None \<longleftrightarrow> (\<forall>i < length (slots v). \<not> fits want v i)"
    and "r = None \<Longrightarrow> v' = v"
proof -
  consider "r = None" "v' = v" "\<forall>i < length (slots v). \<not> fits want v i"
    | b where "r = Some b" "v' = v" "b < length (slots v)" "fits want v b"
    | b e where "r = Some b" "v' = split_slot b e want v" "b < length (slots v)" "fits want v b"
        "mmap_alloc_slot v = Some e" "MMAP_MIN_SPLIT \<le> s_len (slots v ! b) - want"
  proof (cases "fold (better_fit want v) [0..<length (slots v)] None")
    case None
    then show ?thesis
      using that(1) r best_fit [where want = want and v = v and n = "length (slots v)"]
      by (simp add: mmap_find_reusable_def)
  next
    case (Some b)
    then have b: "b < length (slots v)" "fits want v b"
      using best_fit [where want = want and v = v and n = "length (slots v)"] by simp_all
    show ?thesis
    proof (cases "MMAP_MIN_SPLIT \<le> s_len (slots v ! b) - want \<and> mmap_alloc_slot v \<noteq> None")
      case True
      then obtain e where e: "mmap_alloc_slot v = Some e" "MMAP_MIN_SPLIT \<le> s_len (slots v ! b) - want"
        by blast
      then have "r = Some b" "v' = split_slot b e want v"
        using r Some by (simp_all add: mmap_find_reusable_def Let_def)
      then show ?thesis using that(3) b e by blast
    next
      case False
      then have "r = Some b \<and> v' = v"
        using r Some by (auto simp: mmap_find_reusable_def Let_def split: if_splits)
      then show ?thesis using that(2) b by simp
    qed
  qed
  then have "vm_inv hi v' \<and> kept v v' \<and> (\<forall>b. r = Some b \<longrightarrow> b < length (slots v') \<and> fits want v' b) \<and>
    (r = None \<longleftrightarrow> (\<forall>i < length (slots v). \<not> fits want v i)) \<and> (r = None \<longrightarrow> v' = v)"
  proof cases
    case (3 b e)
    have e: "e < length (slots v)" "s_base (slots v ! e) = 0" using alloc_slot(1) [OF 3(5)] by auto
    have "want \<noteq> s_len (slots v ! b)" using 3(6) by (auto simp: MMAP_MIN_SPLIT_def)
    then have lt: "want < s_len (slots v ! b)" using 3(4) by (simp add: fits_def order.strict_iff_order)
    have "e \<noteq> b" using e(2) 3(4) by (auto simp: fits_def)
    then have "fits want (split_slot b e want v) b"
      using 3(3,4) e(1) by (simp add: fits_def split_slot_def Let_def)
    moreover have "length (slots (split_slot b e want v)) = length (slots v)"
      by (simp add: split_slot_def Let_def)
    ultimately show ?thesis
      using 3 split_slot_inv [OF inv 3(3) e(1) _ _ e(2) w lt] by (auto simp: fits_def)
  qed (use inv in auto)
  then show "vm_inv hi v'" "kept v v'" "r = Some b \<Longrightarrow> b < length (slots v') \<and> fits want v' b"
    "r = None \<longleftrightarrow> (\<forall>i < length (slots v). \<not> fits want v i)" "r = None \<Longrightarrow> v' = v" by blast+
qed

section \<open>Granting and releasing a region\<close>

definition granted :: "u32 \<Rightarrow> vm \<Rightarrow> u32 \<Rightarrow> vm \<Rightarrow> bool" where
  "granted want v p v' \<longleftrightarrow> (\<exists>n. want \<le> n \<and> live v' = add_mset (p, n) (live v) \<and>
     ram v' = mem_fill p 0 n (ram v) \<and> current_brk v' = current_brk v \<and> brk_base v' = brk_base v)"

lemma granted_kept: "kept u v \<Longrightarrow> granted want v p v' \<Longrightarrow> granted want u p v'"
  by (auto simp: kept_def granted_def)

lemma hand_out:
  assumes inv: "vm_inv hi v" and i: "i < length (slots v)" and f: "fits want v i"
    and r: "hand_out i v = (Inr p, v')"
  shows "vm_inv hi v'" and "granted want v p v'"
proof -
  obtain N where N: "mset (slots v) = add_mset (slots v ! i) N"
    "\<And>y. mset ((slots v)[i := y]) = add_mset y N"
    "arena (add_mset (slots v ! i) N) (unat (mmap_bottom v)) hi"
    using vm_inv_slotE [OF inv i] by blast
  have v': "p = s_base (slots v ! i)"
    "v' = (set_slot i ((slots v ! i)\<lparr>s_free := False\<rparr>) v)
       \<lparr>ram := mem_fill (s_base (slots v ! i)) 0 (s_len (slots v ! i)) (ram v)\<rparr>"
    using r by (auto simp: hand_out_def Let_def)
  show "vm_inv hi v'"
    using inv N arena_set_free [OF N(3)] by (simp add: v' vm_inv_def occupied_def)
  show "granted want v p v'"
    using f N unfolding granted_def fits_def
    by (intro exI [of _ "s_len (slots v ! i)"]) (simp add: v' live_def region_def)
qed

lemma carve:
  assumes inv: "vm_inv hi v" and i: "i < length (slots v)" "s_base (slots v ! i) = 0"
    and n: "n \<noteq> 0" "n \<le> mmap_bottom v" and b: "b = mmap_bottom v - n" "current_brk v \<le> b"
      "0x10000000 \<le> b" "mmap_bottom v \<le> 0x40000000"
    and r: "carve i b n v = (Inr p, v')"
  shows "vm_inv hi v'" and "granted n v p v'" and "p = b"
proof -
  obtain N where N: "mset (slots v) = add_mset (slots v ! i) N"
    "\<And>y. mset ((slots v)[i := y]) = add_mset y N"
    "arena (add_mset (slots v ! i) N) (unat (mmap_bottom v)) hi"
    using vm_inv_slotE [OF inv i(1)] by blast
  have "unat b = unat (mmap_bottom v) - unat n" using n(2) by (simp add: b(1) unat_sub)
  then have sum: "unat b + unat n = unat (mmap_bottom v)" using n(2) by (simp add: word_le_nat_alt)
  have v': "p = b" "v' = (set_slot i \<lparr>s_base = b, s_len = n, s_free = False\<rparr> v)
       \<lparr>ram := mem_fill b 0 n (ram v), mmap_bottom := b, slots_used := slots_used v + 1\<rparr>"
    using r by (auto simp: carve_def)
  then show "p = b" by simp
  have nz: "b \<noteq> 0" using b(3) by (auto simp: word_le_nat_alt)
  have "arena (add_mset \<lparr>s_base = b, s_len = n, s_free = False\<rparr> N) (unat b) hi"
    using arena_carve [OF N(3) i(2) n(1) sum] b(3,4) by (simp add: word_le_nat_alt)
  then show "vm_inv hi v'"
    using inv N i b nz by (simp add: v' vm_inv_def occupied_def)
  show "granted n v p v'"
    using N i nz unfolding granted_def
    by (intro exI [of _ n]) (simp add: v' live_def region_def)
qed


section \<open>Whole calls\<close>

lemma page_align_ge:
  assumes "\<not> page_align n < n" and "0 < sint n"
  shows "n \<le> page_align n" and "page_align n \<noteq> 0"
proof -
  show le: "n \<le> page_align n" using assms(1) by simp
  have "n \<noteq> 0" using assms(2) by auto
  then show "page_align n \<noteq> 0" using le by auto
qed

lemma granted_mono: "want \<le> want' \<Longrightarrow> granted want' v p v' \<Longrightarrow> granted want v p v'"
  unfolding granted_def by (blast intro: order.trans)

lemma mmap2_granted:
  assumes inv: "vm_inv hi v" and r: "sys_mmap2 n v = (Inr p, v')"
  shows "vm_inv hi v' \<and> granted n v p v'"
proof -
  define want where "want = page_align n"
  define v1 where "v1 = mmap_coalesce_bottom v"
  have pos: "0 < sint n" "\<not> want < n"
    using r by (auto simp: sys_mmap2_def Let_def want_def split: if_splits)
  note w = page_align_ge [OF pos(2) [unfolded want_def] pos(1), folded want_def]
  have v1: "vm_inv hi v1" "kept v v1" using coalesce_inv [OF inv] by (simp_all add: v1_def)
  obtain r2 v2 where f: "mmap_find_reusable want v1 = (r2, v2)" by fastforce
  note f1 = find_reusable [OF v1(1) w(2) f]
  have k2: "kept v v2" using kept_trans v1(2) f1(2) by blast
  show ?thesis
  proof (cases r2)
    case (Some i)
    then have "hand_out i v2 = (Inr p, v')"
      using r pos f by (simp add: sys_mmap2_def Let_def want_def v1_def)
    with hand_out [OF f1(1)] f1(3) Some show ?thesis
      using granted_kept [OF k2] granted_mono [OF w(1)] by blast
  next
    case None
    define base where "base = mmap_bottom v2 - want"
    have g: "\<not> mmap_bottom v2 < want" "current_brk v2 \<le> base" "0x10000000 \<le> base"
        "mmap_bottom v2 \<le> 0x40000000"
      and body: "(case mmap_alloc_slot v2 of
            Some slot \<Rightarrow> carve slot base want v2
          | None \<Rightarrow>
              (case mmap_find_reusable want (mmap_merge_free v2) of
                 (Some i, v) \<Rightarrow> hand_out i v
               | (None, v) \<Rightarrow>
                   (case mmap_alloc_slot v of
                      Some slot \<Rightarrow> carve slot base want v
                    | None \<Rightarrow> (Inl ENOMEM, v\<lparr>warned_slots_full := True\<rparr>)))) = (Inr p, v')"
      unfolding base_def using r pos f None
      by (auto simp: sys_mmap2_def Let_def want_def [symmetric] v1_def [symmetric] not_less
          split: if_splits)
    show ?thesis
    proof (cases "mmap_alloc_slot v2")
      case (Some e)
      then have "carve e base want v2 = (Inr p, v')" using body by simp
      from carve [OF f1(1) _ _ w(2) _ base_def g(2-4) this] alloc_slot(1) [OF Some] g(1)
      show ?thesis using granted_kept [OF k2] granted_mono [OF w(1)] by auto
    next
      case no: None
      note m = merge_inv [OF f1(1)]
      obtain r3 v3 where f3: "mmap_find_reusable want (mmap_merge_free v2) = (r3, v3)" by fastforce
      note f2 = find_reusable [OF m(1) w(2) f3]
      have k3: "kept v v3" using kept_trans k2 m(2) f2(2) by blast
      show ?thesis
      proof (cases r3)
        case (Some i)
        then have "hand_out i v3 = (Inr p, v')" using body no f3 by simp
        with hand_out [OF f2(1)] f2(3) Some show ?thesis
          using granted_kept [OF k3] granted_mono [OF w(1)] by blast
      next
        case none: None
        then obtain e where e: "mmap_alloc_slot v3 = Some e" "carve e base want v3 = (Inr p, v')"
          using body no f3 by (auto split: option.splits)
        have same: "mmap_bottom v3 = mmap_bottom v2" "current_brk v3 = current_brk v2"
          using merge_bottom [of v2] f2(5) none m(2) by (simp_all add: kept_def)
        have "vm_inv hi v' \<and> granted want v3 p v'"
          using carve [OF f2(1) _ _ w(2) _ _ _ _ _ e(2)] alloc_slot(1) [OF e(1)] g
          by (simp add: same base_def)
        then show ?thesis using granted_kept [OF k3] granted_mono [OF w(1)] by blast
      qed
    qed
  qed
qed


lemma carve_ok: "\<exists>w. carve e b n v = (Inr b, w)"
  by (simp add: carve_def)

lemma mmap2_refused:
  assumes inv: "vm_inv hi v" and r: "sys_mmap2 n v = (Inl err, v')"
  shows "vm_inv hi v' \<and> kept v v'"
proof -
  define want where "want = page_align n"
  define v1 where "v1 = mmap_coalesce_bottom v"
  have v1: "vm_inv hi v1" "kept v v1" using coalesce_inv [OF inv] by (simp_all add: v1_def)
  obtain r2 v2 where f: "mmap_find_reusable want v1 = (r2, v2)" by fastforce
  obtain r3 v3 where f3: "mmap_find_reusable want (mmap_merge_free v2) = (r3, v3)" by fastforce
  consider "v' = v" | "0 < sint n" "\<not> want < n" "v' = v2"
    | "0 < sint n" "\<not> want < n" "v' = v3\<lparr>warned_slots_full := True\<rparr>"
  proof (cases "0 < sint n \<and> \<not> want < n")
    case True
    then show ?thesis
      using r f f3 that(2,3)
      by (auto simp: sys_mmap2_def Let_def want_def [symmetric] v1_def [symmetric] hand_out_def carve_def
          split: if_splits option.splits prod.splits)
  next
    case False
    then show ?thesis using r that(1)
      by (auto simp: sys_mmap2_def Let_def want_def [symmetric] split: if_splits)
  qed
  then show ?thesis
  proof cases
    case 2
    with find_reusable(1,2) [OF v1(1) _ f] page_align_ge [of n] kept_trans v1(2) show ?thesis
      unfolding want_def by blast
  next
    case 3
    have w: "want \<noteq> 0" using 3 page_align_ge [of n] unfolding want_def by blast
    note f2 = find_reusable(1,2) [OF v1(1) w f]
    note m = merge_inv [OF f2(1)]
    note f4 = find_reusable(1,2) [OF m(1) w f3]
    have "kept v v3" using v1(2) f2(2) m(2) f4(2) kept_trans by blast
    then show ?thesis
      using f4(1) 3 by (simp add: vm_inv_def kept_def live_def occupied_def)
  qed (use inv in simp)
qed

section \<open>Regions in use\<close>

lemma regions_ofE:
  assumes "regions_of M = add_mset x L"
  obtains s N where "M = add_mset s N" and "s_base s \<noteq> 0" and "\<not> s_free s" and "region s = x"
    and "regions_of N = L"
proof -
  obtain s where s: "s \<in># M" "s_base s \<noteq> 0" "\<not> s_free s" "region s = x"
    using assms by (metis (mono_tags, lifting) mem_Collect_eq image_iff regions_of_def set_image_mset
        set_mset_filter union_single_eq_member)
  then obtain N where "M = add_mset s N" by (metis insert_DiffM)
  with s that assms show thesis by simp
qed

lemma live_slot:
  assumes "vm_inv hi v" and "(p, n) \<in># live v"
  shows "p \<noteq> 0" and "mmap_bottom v \<le> p" and "unat p + unat n \<le> hi" and "0 < unat n"
    and "0x10000000 \<le> unat p" and "unat p + unat n \<le> 0x40000000"
proof -
  obtain L where "live v = add_mset (p, n) L" using assms(2) by (metis insert_DiffM)
  then obtain s N where s: "mset (slots v) = add_mset s N" "s_base s \<noteq> 0" "region s = (p, n)"
    unfolding live_def by (elim regions_ofE)
  have a: "arena (add_mset s N) (unat (mmap_bottom v)) hi" using assms(1) s(1) by (simp add: vm_inv_def)
  have r: "s_base s = p" "s_len s = n" using s(3) by (simp_all add: region_def)
  show "p \<noteq> 0" "mmap_bottom v \<le> p" "unat p + unat n \<le> hi" "0 < unat n"
    using s(2) arena_slot_range [OF a s(2)] by (simp_all add: r word_le_nat_alt)
  show "0x10000000 \<le> unat p" "unat p + unat n \<le> 0x40000000"
    using arena_ok [OF a, of s] s(2) by (simp_all add: slot_ok_def r)
qed

lemma live_apart:
  assumes inv: "vm_inv hi v" and l: "live v = add_mset (p, n) (add_mset (q, m) L)"
  shows "unat p + unat n \<le> unat q \<or> unat q + unat m \<le> unat p"
proof (rule ccontr)
  obtain s N where s: "mset (slots v) = add_mset s N" "s_base s \<noteq> 0" "region s = (p, n)"
    "regions_of N = add_mset (q, m) L"
    using l [unfolded live_def] by (rule regions_ofE) blast
  obtain t K where t: "N = add_mset t K" "s_base t \<noteq> 0" "region t = (q, m)"
    using s(4) by (rule regions_ofE) blast
  have a: "arena (add_mset s (add_mset t K)) (unat (mmap_bottom v)) hi"
    using inv s(1) t(1) by (simp add: vm_inv_def)
  have "0 < unat n" "0 < unat m" using live_slot(4) [OF inv] l by auto
  moreover assume "\<not> ?thesis"
  ultimately have "covers s (max (unat p) (unat q))" "covers t (max (unat p) (unat q))"
    using s t by (auto simp: covers_def region_def)
  then have "2 \<le> cover_count (add_mset s (add_mset t K)) (max (unat p) (unat q))" by simp
  moreover have "cover_count (add_mset s (add_mset t K)) (max (unat p) (unat q)) \<le> 1"
    using a by (simp only: arena_def of_bool_def) simp
  ultimately show False by simp
qed

lemma live_unique:
  assumes "vm_inv hi v" and "(p, n) \<in># live v" and "(p, m) \<in># live v"
  shows "n = m"
proof (rule ccontr)
  assume "n \<noteq> m"
  then obtain L where "live v = add_mset (p, n) (add_mset (p, m) L)"
    using assms(2,3) by (metis Pair_inject insert_DiffM insert_noteq_member)
  then show False
    using live_apart [OF assms(1)] live_slot(4) [OF assms(1)] assms(2,3) by fastforce
qed

lemma find_live:
  assumes "addr \<noteq> 0"
  shows "find_live addr v = Some i \<Longrightarrow> i < length (slots v) \<and> s_base (slots v ! i) = addr \<and>
      \<not> s_free (slots v ! i)"
    and "find_live addr v = None \<Longrightarrow> (addr, n) \<notin># live v"
proof -
  show "find_live addr v = Some i \<Longrightarrow> i < length (slots v) \<and> s_base (slots v ! i) = addr \<and>
      \<not> s_free (slots v ! i)"
    by (auto simp: find_live_def find_Some_iff)
  assume "find_live addr v = None"
  then have "\<forall>s \<in> set (slots v). s_base s = addr \<longrightarrow> s_free s"
    by (auto simp: find_live_def find_None_iff in_set_conv_nth)
  then show "(addr, n) \<notin># live v" by (auto simp: live_def regions_of_def region_def)
qed

definition released :: "u32 \<Rightarrow> vm \<Rightarrow> vm \<Rightarrow> bool" where
  "released p v v' \<longleftrightarrow> (\<exists>n. live v = add_mset (p, n) (live v')) \<and> ram v' = ram v \<and>
     current_brk v' = current_brk v \<and> brk_base v' = brk_base v"

lemma munmap_released:
  assumes inv: "vm_inv hi v" and i: "find_live addr v = Some i" and c: "addr \<noteq> 0" "0 < sint n"
  shows "vm_inv hi (sys_munmap addr n v)" and "released addr v (sys_munmap addr n v)"
proof -
  note l = find_live(1) [OF c(1) i]
  let ?s = "slots v ! i"
  obtain N where N: "mset (slots v) = add_mset ?s N" "\<And>y. mset ((slots v)[i := y]) = add_mset y N"
    "arena (add_mset ?s N) (unat (mmap_bottom v)) hi"
    using vm_inv_slotE [OF inv, of i] l by blast
  have "vm_inv hi (sys_munmap addr n v) \<and> released addr v (sys_munmap addr n v)"
  proof (cases "addr = mmap_bottom v")
    case True
    let ?w = "coalesce_at i v"
    have w: "sys_munmap addr n v = mmap_coalesce_bottom ?w"
      using True c i l by (simp add: sys_munmap_def coalesce_at_def Let_def)
    have wi: "vm_inv hi ?w" using release_bottom_inv [OF inv] l c(1) True by blast
    have "released addr v ?w"
      using N l c(1) by (simp add: released_def live_def slots_coalesce_at region_def)
        (simp add: coalesce_at_def release_slot_def Let_def)
    then show ?thesis using coalesce_inv [OF wi] w by (simp add: released_def kept_def)
  next
    case False
    then have w: "sys_munmap addr n v = set_slot i (?s\<lparr>s_free := True\<rparr>) v"
      using c i by (simp add: sys_munmap_def Let_def)
    then show ?thesis
      using inv N l c(1) arena_set_free [OF N(3), of True]
      by (simp add: vm_inv_def released_def live_def occupied_def region_def)
  qed
  then show "vm_inv hi (sys_munmap addr n v)" "released addr v (sys_munmap addr n v)" by blast+
qed

lemma munmap_noop:
  assumes "addr = 0 \<or> sint n \<le> 0 \<or> find_live addr v = None"
  shows "sys_munmap addr n v = v"
  using assms by (auto simp: sys_munmap_def)


section \<open>The break\<close>

lemma brk_inv:
  assumes inv: "vm_inv hi v" and r: "sys_brk addr v = (b, v')"
  shows "vm_inv hi v'" and "live v' = live v" and "b = current_brk v'"
    and "x < current_brk v \<or> mmap_bottom v \<le> x \<Longrightarrow> ram v' x = ram v x"
    and "current_brk v \<le> x \<Longrightarrow> x < current_brk v' \<Longrightarrow> ram v' x = 0"
proof -
  have r': "b = current_brk v'" "v' = v \<or> brk_base v \<le> addr \<and> addr \<le> mmap_bottom v \<and>
      v' = v\<lparr>current_brk := addr, ram := (if current_brk v < addr
         then mem_fill (current_brk v) 0 (addr - current_brk v) (ram v) else ram v)\<rparr>"
    using r by (auto simp: sys_brk_def Let_def split: if_splits)
  then show "b = current_brk v'" by blast
  show "vm_inv hi v'" "live v' = live v" using r'(2) inv by (auto simp: vm_inv_def live_def occupied_def)
  have rng: "in_range (current_brk v) (addr - current_brk v) x \<longleftrightarrow> current_brk v \<le> x \<and> x < addr"
    if "current_brk v < addr"
  proof -
    have e: "unat (addr - current_brk v) = unat addr - unat (current_brk v)"
      using that by (simp add: unat_sub word_less_nat_alt word_le_nat_alt)
    have "unat (current_brk v) + unat (addr - current_brk v) \<le> 2 ^ 32"
      using that unat_lt_2p32 [of addr] by (simp add: e word_less_nat_alt)
    from in_range_nat [OF this, of x] show ?thesis
      using that e by (simp add: word_le_nat_alt word_less_nat_alt)
  qed
  show "x < current_brk v \<or> mmap_bottom v \<le> x \<Longrightarrow> ram v' x = ram v x"
    using r'(2) rng by (auto simp: mem_fill_at)
  show "current_brk v \<le> x \<Longrightarrow> x < current_brk v' \<Longrightarrow> ram v' x = 0"
    using r'(2) rng by (auto simp: mem_fill_at)
qed

section \<open>A freed region can be allocated again\<close>

definition avail :: "u32 \<Rightarrow> u32 \<Rightarrow> vm \<Rightarrow> bool" where
  "avail p n v \<longleftrightarrow> (\<exists>i < length (slots v).
     (s_base (slots v ! i) = p \<and> s_len (slots v ! i) = n \<and> s_free (slots v ! i)) \<or>
     (s_base (slots v ! i) = 0 \<and> unat p + unat n \<le> unat (mmap_bottom v)))"

lemma avail_coalesce_at:
  assumes inv: "vm_inv hi v" and i: "i < length (slots v)" and c: "coalescible v i" and a: "avail p n v"
  shows "avail p n (coalesce_at i v)"
proof -
  note ci = coalescibleD [OF c]
  obtain N where "arena (add_mset (slots v ! i) N) (unat (mmap_bottom v)) hi"
    using vm_inv_slotE [OF inv i] by blast
  then have ok: "slot_ok (slots v ! i)" by (simp add: arena_def)
  have b: "unat (mmap_bottom (coalesce_at i v)) = unat (s_base (slots v ! i)) + unat (s_len (slots v ! i))"
    using bottom_plus [OF ok ci(1)] by (simp add: coalesce_at_def release_slot_def Let_def)
  obtain k where k: "k < length (slots v)"
    "(s_base (slots v ! k) = p \<and> s_len (slots v ! k) = n \<and> s_free (slots v ! k)) \<or>
     (s_base (slots v ! k) = 0 \<and> unat p + unat n \<le> unat (mmap_bottom v))"
    using a by (auto simp: avail_def)
  show ?thesis
  proof (cases "k = i")
    case True
    then show ?thesis
      using k i ci b unfolding avail_def by (intro exI [of _ i]) (auto simp: slots_coalesce_at)
  next
    case False
    then show ?thesis
      using k i ci b unfolding avail_def by (intro exI [of _ k]) (auto simp: slots_coalesce_at)
  qed
qed

lemma avail_coalesce:
  assumes "vm_inv hi v" and "avail p n v"
  shows "avail p n (mmap_coalesce_bottom v)"
proof -
  have "vm_inv hi (mmap_coalesce_bottom v) \<and> avail p n (mmap_coalesce_bottom v)"
    by (rule coalesce_keeps)
      (use assms in \<open>auto dest: coalescibleD intro: release_bottom_inv avail_coalesce_at\<close>)
  then show ?thesis by blast
qed

lemma avail_munmap:
  assumes inv: "vm_inv hi v" and l: "(p, n) \<in># live v" and j: "0 < sint j"
  shows "avail p n (sys_munmap p j v)"
proof -
  have p: "p \<noteq> 0" using live_slot(1) [OF inv l] .
  obtain i where i: "find_live p v = Some i"
    using find_live(2) [OF p] l by (cases "find_live p v") auto
  note f = find_live(1) [OF p i]
  obtain N where N: "mset (slots v) = add_mset (slots v ! i) N"
    "arena (add_mset (slots v ! i) N) (unat (mmap_bottom v)) hi"
    using vm_inv_slotE [OF inv, of i] f by blast
  have "(p, s_len (slots v ! i)) \<in># live v" using f N p by (simp add: live_def region_def)
  then have n: "s_len (slots v ! i) = n" using live_unique [OF inv] l by blast
  show ?thesis
  proof (cases "p = mmap_bottom v")
    case True
    have w: "sys_munmap p j v = mmap_coalesce_bottom (coalesce_at i v)"
      using True p j i f by (simp add: sys_munmap_def coalesce_at_def Let_def)
    have wi: "vm_inv hi (coalesce_at i v)" using release_bottom_inv [OF inv] f p True by blast
    have "unat (p + n) = unat p + unat n"
      using bottom_plus [OF arena_ok [OF N(2)], of "slots v ! i"] f p n by simp
    then have "avail p n (coalesce_at i v)"
      using f n unfolding avail_def
      by (intro exI [of _ i]) (simp add: slots_coalesce_at, simp add: coalesce_at_def release_slot_def Let_def)
    then show ?thesis using avail_coalesce [OF wi] w by simp
  next
    case False
    then have w: "sys_munmap p j v = set_slot i ((slots v ! i)\<lparr>s_free := True\<rparr>) v"
      using p j i by (simp add: sys_munmap_def Let_def)
    show ?thesis using f n unfolding avail_def w by (intro exI [of _ i]) simp
  qed
qed

lemma arena_ceiling:
  assumes "arena M lo hi" and "lo < hi"
  shows "hi \<le> 0x40000000"
proof -
  have "cover_count M (hi - 1) = 1" using assms by (auto simp: arena_def)
  then obtain s where "s \<in># M" "covers s (hi - 1)"
    unfolding cover_count_def by (metis (mono_tags, lifting) mem_Collect_eq multiset_nonemptyE set_mset_filter
        size_empty zero_neq_one)
  then show ?thesis using assms by (auto simp: arena_def slot_ok_def covers_def)
qed

lemma mmap2_after_munmap:
  assumes inv: "vm_inv hi v" and l: "(p, n) \<in># live v" and j: "0 < sint j"
    and k: "0 < sint k" "k \<le> page_align k" "page_align k \<le> n"
  shows "\<exists>q v'. sys_mmap2 k (sys_munmap p j v) = (Inr q, v')"
proof -
  define w where "w = mmap_coalesce_bottom (sys_munmap p j v)"
  have p: "p \<noteq> 0" using live_slot(1) [OF inv l] .
  obtain i where i: "find_live p v = Some i"
    using find_live(2) [OF p] l by (cases "find_live p v") auto
  note u = munmap_released [OF inv i p j]
  have w: "vm_inv hi w" "kept (sys_munmap p j v) w" using coalesce_inv [OF u(1)] by (simp_all add: w_def)
  have brk: "current_brk w = current_brk v" using u(2) w(2) by (simp add: released_def kept_def)
  have av: "avail p n w" unfolding w_def by (rule avail_coalesce [OF u(1) avail_munmap [OF inv l j]])
  have nz: "page_align k \<noteq> 0" using k(1,2) by auto
  obtain r w' where f: "mmap_find_reusable (page_align k) w = (r, w')" by fastforce
  show ?thesis
  proof (cases r)
    case (Some i)
    then show ?thesis
      using k f by (simp add: sys_mmap2_def Let_def w_def [symmetric] hand_out_def not_less)
  next
    case None
    note fr = find_reusable(4,5) [OF w(1) nz f]
    obtain e where e: "e < length (slots w)" "s_base (slots w ! e) = 0"
        "unat p + unat n \<le> unat (mmap_bottom w)"
      using av fr(1) None k(3) p unfolding avail_def fits_def by blast
    obtain s where s: "mmap_alloc_slot w = Some s" using e alloc_slot(2) [of w] by (cases "mmap_alloc_slot w") auto
    let ?b = "mmap_bottom w - page_align k"
    have le: "page_align k \<le> mmap_bottom w"
      using e(3) k(3) by (simp add: word_le_nat_alt)
    then have ub: "unat ?b = unat (mmap_bottom w) - unat (page_align k)" by (simp add: unat_sub)
    have pb: "unat p \<le> unat ?b" using e(3) k(3) ub by (simp add: word_le_nat_alt)
    have "current_brk v \<le> p" using inv live_slot(2) [OF inv l] by (auto simp: vm_inv_def)
    then have c1: "\<not> ?b < current_brk w" using pb brk by (simp add: word_le_nat_alt word_less_nat_alt)
    have c2: "\<not> ?b < 0x10000000" using live_slot(5) [OF inv l] pb by (simp add: word_less_nat_alt)
    have "unat (mmap_bottom v) < hi" using live_slot(2,3,4) [OF inv l] by (simp add: word_le_nat_alt)
    then have "hi \<le> 0x40000000" using arena_ceiling inv unfolding vm_inv_def by blast
    moreover have "unat (mmap_bottom w) \<le> hi" using w(1) by (simp add: vm_inv_def arena_def)
    ultimately have c3: "\<not> 0x40000000 < mmap_bottom w" by (simp add: word_less_nat_alt)
    have c4: "\<not> mmap_bottom w < ?b" using ub by (simp add: word_less_nat_alt)
    show ?thesis
      using k f None fr(2) s le c1 c2 c3 c4
      by (simp add: sys_mmap2_def Let_def w_def [symmetric] carve_def not_less)
  qed
qed

end
