(* ===== verification/MmapSpec.thy ===== *)
theory MmapSpec
  imports MmapInv
begin

text \<open>
  The interface between the app and its address space, as a locale: what a client that holds
  regions may rely on, whatever calls it makes next. The syscalls interpret it, and the properties
  of the break and of mmap follow.
\<close>

section \<open>The interface\<close>

definition inside :: "u32 \<times> u32 \<Rightarrow> u32 \<Rightarrow> bool" where
  "inside r x \<longleftrightarrow> unat (fst r) \<le> unat x \<and> unat x < unat (fst r) + unat (snd r)"

datatype space_op = Take u32 | Give u32 u32 | Break u32

fun gives :: "u32 \<Rightarrow> space_op \<Rightarrow> bool" where
  "gives p (Give q n) \<longleftrightarrow> p = q"
| "gives p _ \<longleftrightarrow> False"

locale app_space =
  fixes inv :: "'v \<Rightarrow> bool" and held :: "'v \<Rightarrow> (u32 \<times> u32) multiset" and bytes :: "'v \<Rightarrow> mem"
    and alloc :: "u32 \<Rightarrow> 'v \<Rightarrow> ('e + u32) \<times> 'v" and release :: "u32 \<Rightarrow> u32 \<Rightarrow> 'v \<Rightarrow> 'v"
    and set_break :: "u32 \<Rightarrow> 'v \<Rightarrow> u32 \<times> 'v"
  assumes apart: "inv v \<Longrightarrow> held v = add_mset (p, n) (add_mset (q, m) H) \<Longrightarrow>
      unat p + unat n \<le> unat q \<or> unat q + unat m \<le> unat p"
    and extent: "inv v \<Longrightarrow> (p, n) \<in># held v \<Longrightarrow> unat p + unat n \<le> 2 ^ 32"
    and alloc_some: "inv v \<Longrightarrow> alloc n v = (Inr p, v') \<Longrightarrow> inv v' \<and> (\<exists>m. n \<le> m \<and>
      held v' = add_mset (p, m) (held v) \<and> bytes v' = mem_fill p 0 m (bytes v))"
    and alloc_none: "inv v \<Longrightarrow> alloc n v = (Inl e, v') \<Longrightarrow>
      inv v' \<and> held v' = held v \<and> bytes v' = bytes v"
    and release: "inv v \<Longrightarrow> inv (release p n v) \<and> bytes (release p n v) = bytes v \<and>
      (held (release p n v) = held v \<or> (\<exists>m. held v = add_mset (p, m) (held (release p n v))))"
    and break_inv: "inv v \<Longrightarrow> set_break a v = (b, v') \<Longrightarrow> inv v' \<and> held v' = held v"
    and break_bytes: "inv v \<Longrightarrow> set_break a v = (b, v') \<Longrightarrow> r \<in># held v \<Longrightarrow> inside r x \<Longrightarrow>
      bytes v' x = bytes v x"
begin

fun step :: "space_op \<Rightarrow> 'v \<Rightarrow> 'v" where
  "step (Take n) v = snd (alloc n v)"
| "step (Give p n) v = release p n v"
| "step (Break a) v = snd (set_break a v)"

lemma fresh:
  assumes "inv v" and "alloc n v = (Inr p, v')" and "r \<in># held v"
  obtains m where "n \<le> m" and "held v' = add_mset (p, m) (held v)"
    and "\<And>x. inside r x \<Longrightarrow> \<not> inside (p, m) x"
    and "\<And>x. inside r x \<Longrightarrow> bytes v' x = bytes v x"
    and "\<And>x. inside (p, m) x \<Longrightarrow> bytes v' x = 0"
proof -
  obtain m where m: "inv v'" "n \<le> m" "held v' = add_mset (p, m) (held v)"
    "bytes v' = mem_fill p 0 m (bytes v)"
    using alloc_some [OF assms(1,2)] by blast
  obtain q k where r: "r = (q, k)" by fastforce
  obtain H where "held v = add_mset (q, k) H" using assms(3) r by (metis insert_DiffM)
  then have d: "unat p + unat m \<le> unat q \<or> unat q + unat k \<le> unat p"
    using apart [OF m(1)] m(3) by simp
  then have d': "inside r x \<Longrightarrow> \<not> inside (p, m) x" for x by (auto simp: inside_def r)
  have e: "unat p + unat m \<le> 2 ^ 32" using extent [OF m(1)] m(3) by simp
  have "bytes v' x = (if inside (p, m) x then 0 else bytes v x)" for x
    using in_range_nat [OF e] by (simp add: m(4) mem_fill_at inside_def)
  then show thesis using that [OF m(2,3)] d' by simp
qed

lemma step_stable:
  assumes "inv v" and "r \<in># held v" and "\<not> gives (fst r) op"
  shows "inv (step op v) \<and> r \<in># held (step op v) \<and>
    (\<forall>x. inside r x \<longrightarrow> bytes (step op v) x = bytes v x)"
proof (cases op)
  case (Take n)
  obtain res v' where res: "alloc n v = (res, v')" by fastforce
  show ?thesis
  proof (cases res)
    case (Inl e)
    then show ?thesis using alloc_none [OF assms(1)] res Take assms(2) by simp
  next
    case (Inr p)
    with res have a: "alloc n v = (Inr p, v')" by simp
    then have "inv v'" using alloc_some [OF assms(1)] by blast
    with fresh [OF assms(1) a assms(2)] a assms(2) Take show ?thesis
      by (metis snd_conv step.simps(1) union_iff add_mset_add_single)
  qed
next
  case (Give p n)
  then have "p \<noteq> fst r" using assms(3) by auto
  then show ?thesis using release [OF assms(1), of p n] assms(2) Give
    by auto
next
  case (Break a)
  then show ?thesis
    using break_inv [OF assms(1)] break_bytes [OF assms(1) _ assms(2)] assms(2)
    by (metis prod.collapse step.simps(3))
qed

lemma stable:
  assumes "inv v" and "r \<in># held v" and "\<And>op. op \<in> set ops \<Longrightarrow> \<not> gives (fst r) op"
  shows "inv (fold step ops v) \<and> r \<in># held (fold step ops v) \<and>
    (\<forall>x. inside r x \<longrightarrow> bytes (fold step ops v) x = bytes v x)"
  using assms
proof (induction ops arbitrary: v)
  case (Cons op ops)
  have s: "inv (step op v)" "r \<in># held (step op v)"
    "\<forall>x. inside r x \<longrightarrow> bytes (step op v) x = bytes v x"
    using step_stable [OF Cons.prems(1,2)] Cons.prems(3) by auto
  show ?case using Cons.IH [OF s(1,2)] Cons.prems(3) s(3) by auto
qed auto

end

section \<open>The syscalls provide it\<close>

interpretation app: app_space "vm_inv hi" live ram sys_mmap2 sys_munmap sys_brk for hi
proof unfold_locales
  fix v v' :: vm and p n q m :: u32 and H e a b x r
  show "unat p + unat n \<le> unat q \<or> unat q + unat m \<le> unat p"
    if "vm_inv hi v" "live v = add_mset (p, n) (add_mset (q, m) H)"
    using live_apart that by blast
  show "unat p + unat n \<le> 2 ^ 32" if "vm_inv hi v" "(p, n) \<in># live v"
    using live_slot(6) [OF that] by simp
  show "vm_inv hi v' \<and> (\<exists>m. n \<le> m \<and> live v' = add_mset (p, m) (live v) \<and>
      ram v' = mem_fill p 0 m (ram v))"
    if "vm_inv hi v" "sys_mmap2 n v = (Inr p, v')"
    using mmap2_granted [OF that] by (auto simp: granted_def)
  show "vm_inv hi v' \<and> live v' = live v \<and> ram v' = ram v"
    if "vm_inv hi v" "sys_mmap2 n v = (Inl e, v')"
    using mmap2_refused [OF that] by (simp add: kept_def)
  show "vm_inv hi (sys_munmap p n v) \<and> ram (sys_munmap p n v) = ram v \<and>
      (live (sys_munmap p n v) = live v \<or> (\<exists>m. live v = add_mset (p, m) (live (sys_munmap p n v))))"
    if "vm_inv hi v"
  proof (cases "p = 0 \<or> sint n \<le> 0 \<or> find_live p v = None")
    case True
    then show ?thesis using munmap_noop that by simp
  next
    case False
    then obtain i where "find_live p v = Some i" "p \<noteq> 0" "0 < sint n" by auto
    then show ?thesis using munmap_released [OF that] by (auto simp: released_def)
  qed
  show "vm_inv hi v' \<and> live v' = live v" if "vm_inv hi v" "sys_brk a v = (b, v')"
    using brk_inv(1,2) [OF that] by blast
  show "ram v' x = ram v x"
    if "vm_inv hi v" "sys_brk a v = (b, v')" "r \<in># live v" "inside r x"
  proof -
    have "mmap_bottom v \<le> fst r" using live_slot(2) [OF that(1)] that(3) by (cases r) auto
    then have "mmap_bottom v \<le> x" using that(4) by (simp add: inside_def word_le_nat_alt)
    then show ?thesis using brk_inv(4) [OF that(1,2)] by blast
  qed
qed


section \<open>Runs of the address space\<close>

fun vm_step :: "space_op \<Rightarrow> vm \<Rightarrow> vm" where
  "vm_step (Take n) v = snd (sys_mmap2 n v)"
| "vm_step (Give p n) v = sys_munmap p n v"
| "vm_step (Break a) v = snd (sys_brk a v)"

lemma app_step: "app_space.step sys_mmap2 sys_munmap sys_brk = vm_step"
proof (intro ext)
  fix op v
  show "app_space.step sys_mmap2 sys_munmap sys_brk op v = vm_step op v"
    by (cases op) (simp_all add: app.step.simps)
qed

inductive vm_reachable :: "target \<Rightarrow> vm \<Rightarrow> bool" for T where
  init: "heap \<le> app_stack_top T - runtime_stack_size T \<Longrightarrow>
    vm_reachable T (syscall_init_vm T heap m w)"
| step: "vm_reachable T v \<Longrightarrow> vm_reachable T (vm_step op v)"
| stack_top: "vm_reachable T v \<Longrightarrow> vm_reachable T (snd (syscall_set_app_stack_top T top v))"

lemma arena_empty: "arena (mset (replicate n no_slot)) lo lo"
proof -
  have "cover_count (mset (replicate n no_slot)) a = 0" for a
    by (induction n) (simp_all add: cover_count_def)
  then show ?thesis by (auto simp: arena_def)
qed

lemma step_inv:
  assumes "vm_inv hi v"
  shows "vm_inv hi (vm_step op v)"
proof (cases op)
  case (Take n)
  obtain r v' where r: "sys_mmap2 n v = (r, v')" by fastforce
  then have "vm_inv hi v'"
    using mmap2_granted [OF assms] mmap2_refused [OF assms] by (cases r) blast+
  then show ?thesis using r Take by simp
next
  case (Give p n)
  then show ?thesis using app.release [OF assms] by simp
next
  case (Break a)
  obtain b v' where "sys_brk a v = (b, v')" by fastforce
  then show ?thesis using brk_inv(1) [OF assms] Break by simp
qed

lemma fresh_table_inv:
  "brk_base v \<le> current_brk v \<Longrightarrow> current_brk v \<le> mmap_bottom v \<Longrightarrow>
   vm_inv (unat (mmap_bottom v)) (reset_slots v)"
  using arena_empty by (simp add: vm_inv_def reset_slots_def occupied_def)

lemma stack_top_inv:
  assumes "vm_inv hi v"
  shows "\<exists>hi. vm_inv hi (snd (syscall_set_app_stack_top T top v))"
proof -
  let ?b = "(top AND NOT 15) - runtime_stack_size T"
  have "vm_inv hi v \<or> \<not> ?b < current_brk v" using assms by blast
  moreover have "brk_base v \<le> current_brk v" using assms by (simp add: vm_inv_def)
  ultimately show ?thesis
    using assms fresh_table_inv [of "v\<lparr>mmap_bottom := ?b\<rparr>"]
    by (auto simp: syscall_set_app_stack_top_def Let_def not_less)
qed

lemma reachable_inv:
  assumes "vm_reachable T v"
  shows "\<exists>hi. vm_inv hi v"
  using assms
proof induction
  case (init heap m w)
  have "vm_inv (unat (mmap_bottom (syscall_init_vm T heap m w)))
      (reset_slots (syscall_init_vm T heap m w))"
    using init by (intro fresh_table_inv) (simp_all add: syscall_init_vm_def)
  moreover have "reset_slots (syscall_init_vm T heap m w) = syscall_init_vm T heap m w"
    by (simp add: reset_slots_def syscall_init_vm_def)
  ultimately show ?case by auto
qed (auto intro: step_inv stack_top_inv)

section \<open>Properties\<close>

text \<open>The state of the witnesses: a small table, one region already mapped.\<close>

definition demo_vm :: vm where
  "demo_vm = \<lparr>slots = [\<lparr>s_base = 0x13000000, s_len = 0x2000, s_free = False\<rparr>, no_slot, no_slot],
     slots_used = 1, mmap_bottom = 0x13000000, brk_base = 0x11000000, current_brk = 0x11000000,
     warned_slots_full = False, ram = (\<lambda>_. 7)\<rparr>"

lemma demo_vm_inv: "vm_inv 0x13002000 demo_vm"
  by (auto simp: vm_inv_def demo_vm_def arena_def slot_ok_def covers_def occupied_def cover_count_def)

lemma demo_vm_live: "live demo_vm = {#(0x13000000, 0x2000)#}"
  by (simp add: demo_vm_def live_def region_def regions_of_def)

text \<open>
  C5: no call the app makes loses or corrupts a region it holds. From any state in which the arena
  invariant holds, whatever sequence of brk, mmap2 and munmap calls follows, a mapped region stays
  recorded with its length and its bytes are those it had, unless some munmap names its base.
\<close>

theorem mapped_region_isolated:
  assumes "vm_inv hi v" and "(p, n) \<in># live v" and "\<And>op. op \<in> set ops \<Longrightarrow> \<not> gives p op"
  shows "(p, n) \<in># live (fold vm_step ops v) \<and>
    (\<forall>x. inside (p, n) x \<longrightarrow> ram (fold vm_step ops v) x = ram v x)"
  using app.stable [OF assms(1,2), of ops] assms(3) by (simp add: app_step)

theorem mapped_region_isolated_witness:
  "(0x13000000, 0x2000) \<in># live (fold vm_step [Take 4096, Break 0x12000000, Give 0x12FFF000 4096] demo_vm)"
proof -
  have l: "(0x13000000, 0x2000) \<in># live demo_vm" by (simp add: demo_vm_live)
  show ?thesis
    by (rule conjunct1 [OF mapped_region_isolated [OF demo_vm_inv l]]) auto
qed

text \<open>
  C6: a successful mmap2 returns memory nobody else holds. The region is at least as long as asked,
  filled with zero bytes, lies between the break and the ceiling and inside the RAM window
  [0x10000000, 0x40000000), and no region held before shares an address with it or loses a byte.
\<close>

theorem mmap2_fresh:
  assumes "vm_inv hi v" and "sys_mmap2 n v = (Inr p, v')"
  shows "\<exists>m. n \<le> m \<and> live v' = add_mset (p, m) (live v) \<and> current_brk v' \<le> p \<and>
    0x10000000 \<le> unat p \<and> unat p + unat m \<le> hi \<and> unat p + unat m \<le> 0x40000000 \<and>
    (\<forall>x. inside (p, m) x \<longrightarrow> ram v' x = 0) \<and>
    (\<forall>r x. r \<in># live v \<longrightarrow> inside r x \<longrightarrow> \<not> inside (p, m) x \<and> ram v' x = ram v x)"
proof -
  obtain m where m: "vm_inv hi v'" "n \<le> m" "live v' = add_mset (p, m) (live v)"
    "ram v' = mem_fill p 0 m (ram v)"
    using mmap2_granted [OF assms] by (auto simp: granted_def)
  have l: "(p, m) \<in># live v'" using m(3) by simp
  note s = live_slot [OF m(1) l]
  have e: "unat p + unat m \<le> 2 ^ 32" using s(6) by simp
  have z: "ram v' x = (if inside (p, m) x then 0 else ram v x)" for x
    using in_range_nat [OF e] by (simp add: m(4) mem_fill_at inside_def)
  have d: "\<not> inside (p, m) x" if rl: "r \<in># live v" and ri: "inside r x" for r x
  proof -
    obtain q k where r: "r = (q, k)" by (cases r)
    obtain H where "live v = add_mset (q, k) H"
      using multi_member_split [OF rl] by (auto simp: r)
    then have "live v' = add_mset (p, m) (add_mset (q, k) H)" using m(3) by simp
    from live_apart [OF m(1) this] show ?thesis using ri by (auto simp: r inside_def)
  qed
  have "current_brk v' \<le> p" using m(1) s(2) by (auto simp: vm_inv_def)
  then show ?thesis using m s z d by (intro exI [of _ m]) auto
qed

theorem mmap2_fresh_witness:
  "\<exists>m. 5000 \<le> m \<and> live (snd (sys_mmap2 5000 demo_vm)) = add_mset (0x12FFE000, m) (live demo_vm)"
proof -
  have "sys_mmap2 5000 demo_vm = (Inr 0x12FFE000, snd (sys_mmap2 5000 demo_vm))"
    by code_simp
  from mmap2_fresh [OF demo_vm_inv this] show ?thesis by blast
qed

text \<open>
  C7: what is unmapped can be mapped again. After a munmap of a held region, a mmap2 of any length
  whose page-rounded size does not exceed the region's succeeds: neither a full table nor a region
  in the middle of the arena makes memory unusable.
\<close>

theorem munmap_then_mmap_succeeds:
  assumes "vm_inv hi v" and "(p, n) \<in># live v" and "0 < sint j"
    and "0 < sint k" and "k \<le> page_align k" and "page_align k \<le> n"
  shows "\<exists>q v'. sys_mmap2 k (sys_munmap p j v) = (Inr q, v')"
  by (rule mmap2_after_munmap [OF assms])

theorem munmap_then_mmap_succeeds_witness:
  "\<exists>q v'. sys_mmap2 4096 (sys_munmap 0x13000000 4096 demo_vm) = (Inr q, v')"
proof -
  have l: "(0x13000000, 0x2000) \<in># live demo_vm" by (simp add: demo_vm_live)
  show ?thesis
    by (rule munmap_then_mmap_succeeds [OF demo_vm_inv l]) (code_simp+)
qed

text \<open>
  C8: in every state the kernel can reach, the arena between the mmap bottom and the ceiling is tiled
  exactly by the regions of the table (no overlap, nothing leaked), the table's count is right, and
  the break stays between its base and the mmap bottom.
\<close>

theorem reachable_arena:
  assumes "vm_reachable T v"
  shows "\<exists>hi. vm_inv hi v"
  by (rule reachable_inv [OF assms])

theorem reachable_arena_witness: "\<exists>hi. vm_inv hi (snd (sys_brk 0x10900000 (syscall_init_vm pocket 0x10800000 (\<lambda>_. 0) False)))"
proof -
  have "vm_reachable pocket (syscall_init_vm pocket 0x10800000 (\<lambda>_. 0) False)"
    by (rule vm_reachable.init) (simp add: pocket_def)
  from vm_reachable.step [OF this, of "Break 0x10900000"]
  have "vm_reachable pocket (snd (sys_brk 0x10900000 (syscall_init_vm pocket 0x10800000 (\<lambda>_. 0) False)))"
    by simp
  then show ?thesis by (rule reachable_arena)
qed

end
