(* ===== verification/IoCache.thy ===== *)
theory IoCache
  imports Memory Platform
begin

text \<open>
  The always-on file read cache of \<^verbatim>\<open>kernel/syscall.c\<close>: lookup through the most-recently-used entry,
  the hash hint and the full scan, eviction, fill, and the read path \<^verbatim>\<open>slot_read_cached\<close>. The driver
  below it (\<^verbatim>\<open>of_file_read\<close>, \<^verbatim>\<open>of_file_size64\<close>, which drive the host's data-slot hardware) is a
  parameter; what the cache needs of it is the predicate \<open>driver_meets\<close>.
\<close>

section \<open>State and driver\<close>

record io_entry =
  e_slot :: u32
  e_off :: u32
  e_valid :: u32
  e_lru :: u32

record io_cache =
  io_entries :: "io_entry list"
  io_lru_counter :: u32
  io_mru :: "nat option"
  io_hint :: "nat list"
  io_store :: mem

record 'd driver =
  dev :: 'd
  dev_read :: "'d \<Rightarrow> u32 \<Rightarrow> u32 \<Rightarrow> nat \<Rightarrow> int \<times> u8 list \<times> 'd"
  dev_size :: "u32 \<Rightarrow> int"

text \<open>\<^verbatim>\<open>of_file_size\<close> saturates the driver's 64-bit size to a positive \<^verbatim>\<open>long\<close>.\<close>

definition of_file_size :: "('d, 'x) driver_scheme \<Rightarrow> u32 \<Rightarrow> int" where
  "of_file_size d i = (let z = dev_size d i in if z \<le> 0 then -1 else min z 0x7FFFFFFF)"

datatype io_error = Sys errno | Driver int

definition IO_CACHE_ENTRIES :: "target \<Rightarrow> nat" where
  "IO_CACHE_ENTRIES T = unat (file_cache_size T div file_cache_block_size T)"

definition IO_CACHE_HINTS :: u32 where "IO_CACHE_HINTS = 256"

definition io_cache_hash :: "target \<Rightarrow> u32 \<Rightarrow> u32 \<Rightarrow> nat" where
  "io_cache_hash T slot_id aligned_off =
     unat (((slot_id * 2654435761) XOR (aligned_off div file_cache_block_size T)) AND
           (IO_CACHE_HINTS - 1))"

definition io_cache_entry_is :: "io_cache \<Rightarrow> nat \<Rightarrow> u32 \<Rightarrow> u32 \<Rightarrow> bool" where
  "io_cache_entry_is c i slot_id aligned_off \<longleftrightarrow>
     0 < e_valid (io_entries c ! i) \<and> e_slot (io_entries c ! i) = slot_id \<and>
     e_off (io_entries c ! i) = aligned_off"

definition io_cache_data :: "target \<Rightarrow> nat \<Rightarrow> u32" where
  "io_cache_data T entry = file_cache_base T + of_nat entry * file_cache_block_size T"

section \<open>Lookup, eviction, fill\<close>

definition io_cache_hit :: "target \<Rightarrow> nat \<Rightarrow> u32 \<Rightarrow> u32 \<Rightarrow> io_cache \<Rightarrow> io_cache" where
  "io_cache_hit T i slot_id aligned_off c =
     (let n = io_lru_counter c + 1 in
      c\<lparr>io_lru_counter := n, io_entries := (io_entries c)[i := (io_entries c ! i)\<lparr>e_lru := n\<rparr>],
        io_mru := Some i, io_hint := (io_hint c)[io_cache_hash T slot_id aligned_off := i mod 256]\<rparr>)"

definition io_cache_find :: "target \<Rightarrow> u32 \<Rightarrow> u32 \<Rightarrow> io_cache \<Rightarrow> nat option" where
  "io_cache_find T slot_id aligned_off c =
     (let h = io_hint c ! io_cache_hash T slot_id aligned_off in
      if (case io_mru c of Some i \<Rightarrow> io_cache_entry_is c i slot_id aligned_off | None \<Rightarrow> False)
      then io_mru c
      else if h < length (io_entries c) \<and> io_cache_entry_is c h slot_id aligned_off then Some h
      else find (\<lambda>i. io_cache_entry_is c i slot_id aligned_off) [0..<length (io_entries c)])"

definition io_cache_lookup :: "target \<Rightarrow> u32 \<Rightarrow> u32 \<Rightarrow> io_cache \<Rightarrow> nat option \<times> io_cache" where
  "io_cache_lookup T slot_id aligned_off c =
     (case io_cache_find T slot_id aligned_off c of
        None \<Rightarrow> (None, c)
      | Some i \<Rightarrow> (Some i, io_cache_hit T i slot_id aligned_off c))"

text \<open>The eviction scan: the first free entry after entry 0, else the least recently used one.\<close>

fun evict_scan :: "io_entry list \<Rightarrow> nat \<Rightarrow> nat \<Rightarrow> u32 \<Rightarrow> nat" where
  "evict_scan [] i best oldest = best"
| "evict_scan (e # es) i best oldest =
     (if e_valid e = 0 then i
      else if e_lru e < oldest then evict_scan es (i + 1) i (e_lru e)
      else evict_scan es (i + 1) best oldest)"

definition io_cache_evict :: "io_cache \<Rightarrow> nat" where
  "io_cache_evict c = evict_scan (drop 1 (io_entries c)) 1 0 (e_lru (io_entries c ! 0))"

definition io_cache_fill ::
  "target \<Rightarrow> nat \<Rightarrow> u32 \<Rightarrow> u32 \<Rightarrow> u32 \<Rightarrow> 'd driver \<Rightarrow> io_cache \<Rightarrow>
     (io_error + unit) \<times> 'd driver \<times> io_cache" where
  "io_cache_fill T entry slot_id aligned_off n d c =
     (if n = 0 then (Inl (Sys EIO), d, c)
      else case dev_read d (dev d) slot_id aligned_off (unat n) of (rc, bs, dv) \<Rightarrow>
        let c1 = c\<lparr>io_store := mem_store (io_cache_data T entry) bs (io_store c)\<rparr>; d1 = d\<lparr>dev := dv\<rparr> in
        if rc < 0 then (Inl (Driver rc), d1, c1)
        else let l = io_lru_counter c1 + 1 in
          (Inr (), d1, c1\<lparr>io_lru_counter := l,
             io_entries := (io_entries c1)[entry :=
               \<lparr>e_slot = slot_id, e_off = aligned_off, e_valid = n, e_lru = l\<rparr>]\<rparr>))"

section \<open>The read path\<close>

text \<open>
  One miss: the entry to evict, the size of the slot (asked once per call) and the length to fetch.
  \<open>fetch_len\<close> returns None for the offset past the end that \<^verbatim>\<open>slot_read_cached\<close> refuses.
\<close>

definition fetch_len :: "target \<Rightarrow> int \<Rightarrow> u32 \<Rightarrow> u32 option" where
  "fetch_len T sz aligned_off =
     (let n = file_cache_block_size T in
      if 0 < sz then
        if sz \<le> uint aligned_off then None
        else if sz < uint aligned_off + uint n then Some (word_of_int (sz - uint aligned_off))
        else Some n
      else Some n)"

definition load_block ::
  "target \<Rightarrow> u32 \<Rightarrow> u32 \<Rightarrow> 'd driver \<Rightarrow> io_cache \<Rightarrow> (io_error + nat) \<times> 'd driver \<times> io_cache" where
  "load_block T slot_id aligned_off d c =
     (case io_cache_lookup T slot_id aligned_off c of
        (Some i, c1) \<Rightarrow> (Inr i, d, c1)
      | (None, c1) \<Rightarrow>
          let entry = io_cache_evict c1 in
          (case fetch_len T (dev_size d slot_id) aligned_off of
             None \<Rightarrow> (Inl (Sys EIO), d, c1)
           | Some n \<Rightarrow>
               (case io_cache_fill T entry slot_id aligned_off n d c1 of
                  (Inl e, d2, c2) \<Rightarrow> (Inl e, d2, c2)
                | (Inr _, d2, c2) \<Rightarrow> (Inr entry, d2, c2))))"

lemma rd_progress:
  fixes rd len n :: u32
  assumes "rd < len" and "n \<le> len - rd" and "n \<noteq> 0"
  shows "unat len - unat (rd + n) < unat len - unat rd" and "unat (rd + n) = unat rd + unat n"
    and "rd + n \<le> len"
proof -
  have d: "unat (len - rd) = unat len - unat rd"
    using assms(1) by (simp add: unat_sub word_less_nat_alt word_le_nat_alt)
  then have n: "unat n \<le> unat len - unat rd" using assms(2) by (simp add: word_le_nat_alt)
  then show e: "unat (rd + n) = unat rd + unat n"
    using assms(1) unat_lt_2p32 [of len] by (simp add: unat_word_ariths word_less_nat_alt)
  show "rd + n \<le> len" using e n assms(1) by (simp add: word_le_nat_alt word_less_nat_alt)
  show "unat len - unat (rd + n) < unat len - unat rd"
    using e n assms by (simp add: unat_gt_0 [symmetric] word_less_nat_alt unat_eq_0)
qed

function slot_read_from ::
  "target \<Rightarrow> u32 \<Rightarrow> u32 \<Rightarrow> u32 \<Rightarrow> u32 \<Rightarrow> u8 list \<Rightarrow> 'd driver \<Rightarrow> io_cache \<Rightarrow>
     io_error option \<times> u8 list \<times> 'd driver \<times> io_cache" where
  "slot_read_from T slot_id off len rd out d c =
     (if \<not> rd < len then (None, out, d, c)
      else if 0xFFFFFFFF - off < rd then (Some (Sys EINVAL), out, d, c)
      else
        let cur = off + rd; aligned_off = cur AND NOT (file_cache_block_size T - 1);
            buf_off = cur - aligned_off in
        (case load_block T slot_id aligned_off d c of
           (Inl e, d1, c1) \<Rightarrow> (Some e, out, d1, c1)
         | (Inr entry, d1, c1) \<Rightarrow>
             let valid = e_valid (io_entries c1 ! entry) in
             if valid \<le> buf_off then (Some (Sys EIO), out, d1, c1)
             else
               let n = min (len - rd) (valid - buf_off) in
               if n = 0 then (Some (Sys EIO), out, d1, c1)
               else slot_read_from T slot_id off len (rd + n)
                      (out @ mem_bytes (io_store c1) (io_cache_data T entry + buf_off) (unat n)) d1 c1))"
  by pat_completeness auto

termination
  by (relation "measure (\<lambda>(_, _, _, len, rd, _). unat len - unat rd)")
    (auto simp: Let_def intro: rd_progress(1))

declare slot_read_from.simps [simp del]

definition slot_read_cached ::
  "target \<Rightarrow> u32 \<Rightarrow> u32 \<Rightarrow> u32 \<Rightarrow> 'd driver \<Rightarrow> io_cache \<Rightarrow>
     io_error option \<times> u8 list \<times> 'd driver \<times> io_cache" where
  "slot_read_cached T slot_id off len d c = slot_read_from T slot_id off len 0 [] d c"

definition io_cache_reset :: "target \<Rightarrow> io_cache \<Rightarrow> io_cache" where
  "io_cache_reset T c =
     c\<lparr>io_entries := replicate (IO_CACHE_ENTRIES T) \<lparr>e_slot = 0, e_off = 0, e_valid = 0, e_lru = 0\<rparr>,
       io_lru_counter := 0\<rparr>"

end
