(* ===== verification/IoCacheInv.thy ===== *)
theory IoCacheInv
  imports IoCache
begin

text \<open>
  What the read cache promises: it is invisible. A reader sees the bytes of the file whatever the
  cache holds and however its hints and eviction behave. The promise is stated as the locale
  \<open>slot_reader\<close>, which the ISO 9660 layer builds on. A driver that stores bytes before it fails
  breaks it for one block, the one the failing read was to replace: the invariant is therefore stated
  up to a set of spoiled blocks.
\<close>

section \<open>The interface\<close>

definition agrees :: "u8 list \<Rightarrow> nat \<Rightarrow> u8 list \<Rightarrow> bool" where
  "agrees f off bs \<longleftrightarrow> (\<forall>k < length bs. off + k < length f \<longrightarrow> bs ! k = f ! (off + k))"

lemma agrees_Nil [simp]: "agrees f off []"
  by (simp add: agrees_def)

lemma agrees_append:
  assumes "agrees f off xs" and "agrees f (off + length xs) ys"
  shows "agrees f off (xs @ ys)"
  unfolding agrees_def
proof (intro allI impI)
  fix k
  assume k: "k < length (xs @ ys)" "off + k < length f"
  show "(xs @ ys) ! k = f ! (off + k)"
  proof (cases "k < length xs")
    case True
    then show ?thesis using assms(1) k by (simp add: agrees_def nth_append)
  next
    case False
    then obtain j where "k = length xs + j" by (metis le_add_diff_inverse not_less)
    then show ?thesis using assms(2) k by (simp add: agrees_def nth_append add.assoc)
  qed
qed

lemma agrees_part:
  assumes "agrees f off bs" and "k + length cs \<le> length bs"
    and "\<And>j. j < length cs \<Longrightarrow> cs ! j = bs ! (k + j)"
  shows "agrees f (off + k) cs"
  using assms by (auto simp: agrees_def add.assoc)

lemma agrees_exact: "agrees f off bs \<Longrightarrow> off + length bs \<le> length f \<Longrightarrow> bs = take (length bs) (drop off f)"
  by (intro nth_equalityI) (auto simp: agrees_def)

locale slot_state =
  fixes inv :: "'s \<Rightarrow> bool"
    and read :: "u32 \<Rightarrow> u32 \<Rightarrow> u32 \<Rightarrow> 's \<Rightarrow> 'e option \<times> u8 list \<times> 's"
  assumes read_inv: "inv s \<Longrightarrow> read slot off n s = (r, bs, s') \<Longrightarrow> inv s'"

locale slot_reader = slot_state inv read
  for inv :: "'s \<Rightarrow> bool" and read :: "u32 \<Rightarrow> u32 \<Rightarrow> u32 \<Rightarrow> 's \<Rightarrow> 'e option \<times> u8 list \<times> 's" +
  fixes contents :: "u32 \<Rightarrow> u8 list" and sized :: "u32 \<Rightarrow> bool"
  assumes read_ok: "inv s \<Longrightarrow> read slot off n s = (None, bs, s') \<Longrightarrow>
      length bs = unat n \<and> agrees (contents slot) (unat off) bs \<and>
      (sized slot \<longrightarrow> n \<noteq> 0 \<longrightarrow> unat off + unat n \<le> length (contents slot))"
begin

lemma read_exact:
  assumes "inv s" and "read slot off n s = (None, bs, s')" and "sized slot"
  shows "bs = take (unat n) (drop (unat off) (contents slot))"
  using read_ok [OF assms(1,2)] assms(3) agrees_exact [of "contents slot" "unat off" bs]
  by (cases "n = 0") auto

end

section \<open>The cache invariant\<close>

definition geometry :: "target \<Rightarrow> nat \<Rightarrow> bool" where
  "geometry T n \<longleftrightarrow> 0 < n \<and> (\<exists>k < 32. file_cache_block_size T = 2 ^ k) \<and>
     unat (file_cache_base T) + n * unat (file_cache_block_size T) \<le> 2 ^ 32"

definition entry_ok :: "target \<Rightarrow> (u32 \<Rightarrow> u8 list) \<Rightarrow> (u32 \<Rightarrow> bool) \<Rightarrow> io_cache \<Rightarrow> nat \<Rightarrow> bool" where
  "entry_ok T file sized c i \<longleftrightarrow> (let e = io_entries c ! i in 0 < e_valid e \<longrightarrow>
     e_valid e \<le> file_cache_block_size T \<and>
     agrees (file (e_slot e)) (unat (e_off e)) (mem_bytes (io_store c) (io_cache_data T i) (unat (e_valid e))) \<and>
     (sized (e_slot e) \<longrightarrow> unat (e_off e) + unat (e_valid e) \<le> length (file (e_slot e))))"

text \<open>Every block but the spoiled ones holds what its entry says.\<close>

definition cache_but :: "nat set \<Rightarrow> target \<Rightarrow> (u32 \<Rightarrow> u8 list) \<Rightarrow> (u32 \<Rightarrow> bool) \<Rightarrow> io_cache \<Rightarrow> bool" where
  "cache_but X T file sized c \<longleftrightarrow> geometry T (length (io_entries c)) \<and>
     (\<forall>i. io_mru c = Some i \<longrightarrow> i < length (io_entries c)) \<and>
     (\<forall>i < length (io_entries c). i \<notin> X \<longrightarrow> entry_ok T file sized c i)"

abbreviation cache_ok :: "target \<Rightarrow> (u32 \<Rightarrow> u8 list) \<Rightarrow> (u32 \<Rightarrow> bool) \<Rightarrow> io_cache \<Rightarrow> bool" where
  "cache_ok \<equiv> cache_but {}"

lemmas cache_ok_def = cache_but_def [where X = "{}", simplified]

text \<open>
  The driver: a read that succeeds delivers the file, one that fails may have stored any bytes, at most
  as many as it was asked for; a \<open>clean\<close> driver stores none when it fails.
\<close>

definition driver_meets :: "bool \<Rightarrow> (u32 \<Rightarrow> u8 list) \<Rightarrow> 'd driver \<Rightarrow> bool" where
  "driver_meets clean file d \<longleftrightarrow>
     (\<forall>dv slot off n rc bs dv'. dev_read d dv slot off n = (rc, bs, dv') \<longrightarrow>
        (if rc < 0 then length bs \<le> n \<and> (clean \<longrightarrow> bs = []) else length bs = n \<and> agrees (file slot) (unat off) bs)) \<and>
     (\<forall>slot. 0 < dev_size d slot \<longrightarrow> dev_size d slot = int (length (file slot)))"

abbreviation driver_ok :: "(u32 \<Rightarrow> u8 list) \<Rightarrow> 'd driver \<Rightarrow> bool" where
  "driver_ok \<equiv> driver_meets True"

definition size_known :: "'d driver \<Rightarrow> u32 \<Rightarrow> bool" where
  "size_known d slot \<longleftrightarrow> 0 < dev_size d slot"

lemma data_address:
  assumes "geometry T n" and "i < n"
  shows "unat (io_cache_data T i) = unat (file_cache_base T) + i * unat (file_cache_block_size T)"
proof -
  let ?B = "unat (file_cache_block_size T)"
  have "0 < ?B" using assms(1) by (auto simp: geometry_def unat_gt_0)
  have "(i + 1) * ?B \<le> n * ?B" using assms(2) by (intro mult_right_mono) auto
  then have lt: "unat (file_cache_base T) + i * ?B < 2 ^ 32"
    using assms(1) \<open>0 < ?B\<close> by (simp add: geometry_def)
  have e: "io_cache_data T i = of_nat (unat (file_cache_base T) + i * ?B)"
    by (simp add: io_cache_data_def)
  show ?thesis unfolding e using lt by (simp only: unat_of_nat take_bit_eq_mod) simp
qed


lemma block_bound:
  assumes "geometry T n" and "i < n" and "k < unat (file_cache_block_size T)"
  shows "unat (io_cache_data T i + of_nat k) = unat (io_cache_data T i) + k"
proof -
  let ?B = "unat (file_cache_block_size T)"
  have "(i + 1) * ?B \<le> n * ?B" using assms(2) by (intro mult_right_mono) auto
  then have "unat (io_cache_data T i) + ?B \<le> 2 ^ 32"
    using assms(1) by (simp add: data_address [OF assms(1,2)] geometry_def)
  then show ?thesis
    using assms(3) unat_lt_2p32 [of "file_cache_block_size T"]
    by (simp add: unat_word_ariths unat_of_nat take_bit_eq_mod)
qed

lemma store_other_block:
  assumes g: "geometry T n" and i: "i < n" and j: "j < n" and ne: "j \<noteq> i"
    and bs: "length bs \<le> unat (file_cache_block_size T)" and k: "k < unat (file_cache_block_size T)"
  shows "mem_store (io_cache_data T i) bs m (io_cache_data T j + of_nat k) = m (io_cache_data T j + of_nat k)"
proof -
  let ?B = "unat (file_cache_block_size T)"
  let ?x = "io_cache_data T j + of_nat k" and ?a = "io_cache_data T i"
  note u = block_bound [OF g j k] data_address [OF g i] data_address [OF g j]
  have "\<not> unat (?x - ?a) < length bs"
  proof (cases "i < j")
    case True
    then have "(i + 1) * ?B \<le> j * ?B" by (intro mult_right_mono) auto
    then show ?thesis using u bs by (simp add: unat_sub_if')
  next
    case False
    then have "(j + 1) * ?B \<le> i * ?B" using ne by (intro mult_right_mono) auto
    then have lt: "unat ?x < unat ?a" using u k by simp
    have "(i + 1) * ?B \<le> n * ?B" using i by (intro mult_right_mono) auto
    then have "unat ?a + ?B \<le> 2 ^ 32" using g u by (simp add: geometry_def)
    then show ?thesis using lt bs by (simp add: unat_sub_if')
  qed
  then show ?thesis by (simp add: mem_store_def)
qed

lemma mem_bytes_cong:
  "(\<And>k. k < n \<Longrightarrow> m (a + of_nat k) = m' (a + of_nat k)) \<Longrightarrow> mem_bytes m a n = mem_bytes m' a n"
  by (simp add: mem_bytes_def)

lemma find_sound:
  assumes ok: "cache_ok T file sized c" and f: "io_cache_find T slot off c = Some i"
  shows "i < length (io_entries c)" and "io_cache_entry_is c i slot off"
proof -
  have "i < length (io_entries c) \<and> io_cache_entry_is c i slot off"
    using ok f unfolding io_cache_find_def cache_ok_def Let_def
    by (auto simp: find_Some_iff split: if_splits option.splits)
  then show "i < length (io_entries c)" "io_cache_entry_is c i slot off" by blast+
qed

lemma hit_ok:
  assumes ok: "cache_ok T file sized c" and i: "i < length (io_entries c)"
  shows "cache_ok T file sized (io_cache_hit T i slot off c)"
  using assms unfolding cache_ok_def entry_ok_def io_cache_hit_def Let_def
  by (simp add: nth_list_update)

lemma evict_scan_bound:
  "best < n \<Longrightarrow> i + length es \<le> n \<Longrightarrow> evict_scan es i best oldest < n"
  by (induction es i best oldest rule: evict_scan.induct) auto

lemma evict_bound:
  assumes "cache_ok T file sized c"
  shows "io_cache_evict c < length (io_entries c)"
  using assms unfolding io_cache_evict_def cache_ok_def geometry_def
  by (intro evict_scan_bound) auto

lemma uint_of_small: "0 \<le> z \<Longrightarrow> z < 2 ^ 32 \<Longrightarrow> uint (word_of_int z :: u32) = z"
  by (simp add: unsigned_of_int take_bit_eq_mod)

lemma checked_add:
  assumes "\<not> 0xFFFFFFFF - off < (rd :: u32)"
  shows "unat (off + rd) = unat off + unat rd"
proof -
  have m: "off \<le> 0xFFFFFFFF" using unat_lt_2p32 [of off] by (simp add: word_le_nat_alt)
  then have "unat (0xFFFFFFFF - off) = 0xFFFFFFFF - unat off" by (simp add: unat_sub)
  then have "unat rd \<le> 0xFFFFFFFF - unat off" using assms by (simp add: word_less_nat_alt)
  then show ?thesis using m by (simp add: unat_word_ariths word_le_nat_alt)
qed

lemma fetch_len:
  assumes "geometry T n" and "0 < sz \<Longrightarrow> sz = int (length f)" and "fetch_len T sz off = Some n'"
  shows "n' \<le> file_cache_block_size T" and "0 < sz \<Longrightarrow> unat off + unat n' \<le> length f"
    and "n' \<noteq> 0"
proof -
  let ?B = "file_cache_block_size T"
  obtain k where k: "k < 32" "?B = 2 ^ k" using assms(1) by (auto simp: geometry_def)
  have B: "?B \<noteq> 0" using k(1) unfolding k(2) by (simp add: exp_eq_0_imp_not_bit)
  have "n' = ?B \<and> (0 < sz \<longrightarrow> uint off + uint ?B \<le> sz) \<or> 0 < sz \<and> uint off < sz \<and> sz < uint off + uint ?B \<and> n' = word_of_int (sz - uint off)"
    using assms(3) by (auto simp: fetch_len_def Let_def split: if_splits)
  moreover have "unat n' = nat (sz - uint off)"
    if "uint off < sz" "sz < uint off + uint ?B" "n' = word_of_int (sz - uint off)"
  proof -
    have "uint ?B < 2 ^ 32" using unsigned_less [of ?B] by simp
    then have "sz - uint off < 2 ^ 32" using that(2) by simp
    then have "uint n' = sz - uint off" unfolding that(3) using that(1) by (intro uint_of_small) simp_all
    then show ?thesis by (simp add: unat_eq_nat_uint)
  qed
  ultimately have *: "n' = ?B \<and> (0 < sz \<longrightarrow> uint off + uint ?B \<le> sz) \<or> 0 < sz \<and> uint off < sz \<and> sz < uint off + uint ?B \<and>
      unat n' = nat (sz - uint off)" by blast
  have un: "uint n' = int (unat n')" "uint ?B = int (unat ?B)" by simp_all
  have "n' = ?B \<or> unat n' \<le> unat ?B \<and> 0 < unat n'"
    using *
  proof (elim disjE conjE)
    assume "uint off < sz" "sz < uint off + uint ?B" "unat n' = nat (sz - uint off)"
    with un have "unat n' \<le> unat ?B \<and> 0 < unat n'" by linarith
    then show ?thesis by blast
  qed blast
  then show "n' \<le> ?B" "n' \<noteq> 0" using B by (auto simp: word_le_nat_alt)
  show "unat off + unat n' \<le> length f" if pos: "0 < sz"
  proof -
    have "uint off = int (unat off)" by simp
    note le = this un assms(2) [OF pos]
    show ?thesis using *
    proof (elim disjE conjE)
      assume "n' = ?B" "0 < sz \<longrightarrow> uint off + uint ?B \<le> sz"
      then have "unat n' = unat ?B" "uint off + uint ?B \<le> sz" using pos by simp_all
      then show ?thesis using le by linarith
    next
      assume "uint off < sz" "unat n' = nat (sz - uint off)"
      then show ?thesis using le by linarith
    qed
  qed
qed


section \<open>Filling and reading\<close>

lemma fill_store_other:
  assumes ok: "cache_but X T file sized c" and i: "i < length (io_entries c)" and j: "j < length (io_entries c)" "j \<noteq> i" "j \<notin> X"
    and l: "length bs \<le> unat (file_cache_block_size T)"
    and c': "io_entries c' ! j = io_entries c ! j" "io_store c' = mem_store (io_cache_data T i) bs (io_store c)"
  shows "entry_ok T file sized c' j"
proof -
  have g: "geometry T (length (io_entries c))" using ok by (simp add: cache_but_def)
  let ?v = "e_valid (io_entries c ! j)"
  have old: "entry_ok T file sized c j" using ok j by (simp add: cache_but_def)
  have "mem_bytes (io_store c') (io_cache_data T j) (unat ?v) = mem_bytes (io_store c) (io_cache_data T j) (unat ?v)"
    if "0 < ?v"
  proof (rule mem_bytes_cong)
    fix k
    assume "k < unat ?v"
    then have "k < unat (file_cache_block_size T)"
      using old that by (simp add: entry_ok_def Let_def word_le_nat_alt)
    then show "io_store c' (io_cache_data T j + of_nat k) = io_store c (io_cache_data T j + of_nat k)"
      unfolding c'(2) by (rule store_other_block [OF g i j(1,2) l])
  qed
  then show ?thesis using old by (simp add: c'(1) entry_ok_def Let_def)
qed

text \<open>
  A fill from a consistent cache: on success, and on any failure of a clean driver, the cache stays
  consistent; a failure of another driver spoils at most the block it was to replace.
\<close>

definition spoils :: "bool \<Rightarrow> io_error option \<Rightarrow> nat set \<Rightarrow> nat \<Rightarrow> bool" where
  "spoils clean r X n \<longleftrightarrow> X = {} \<or> \<not> clean \<and> (\<exists>rc. rc < 0 \<and> r = Some (Driver rc)) \<and> (\<exists>i < n. X = {i})"

definition failure :: "io_error + 'a \<Rightarrow> io_error option" where
  "failure r = (case r of Inl e \<Rightarrow> Some e | Inr _ \<Rightarrow> None)"

lemma spoils_none [simp]: "spoils clean r {} n"
  by (simp add: spoils_def)

lemma spoils_clean: "spoils True r X n \<Longrightarrow> X = {}" and spoils_ok: "spoils clean None X n \<Longrightarrow> X = {}"
  by (simp_all add: spoils_def)

lemma fill_inv:
  assumes ok: "cache_ok T file (size_known d) c" and dr: "driver_meets clean file d"
    and i: "i < length (io_entries c)" and n: "n \<le> file_cache_block_size T"
    and sz: "size_known d slot \<Longrightarrow> unat off + unat n \<le> length (file slot)"
    and f: "io_cache_fill T i slot off n d c = (r, d', c')"
  shows "\<exists>X. cache_but X T file (size_known d) c' \<and> spoils clean (failure r) X (length (io_entries c))"
    and "driver_meets clean file d'" and "size_known d' = size_known d"
    and "length (io_entries c') = length (io_entries c)"
    and "r = Inr u \<Longrightarrow> e_slot (io_entries c' ! i) = slot \<and> e_off (io_entries c' ! i) = off"
proof -
  obtain rc bs dv where rd: "dev_read d (dev d) slot off (unat n) = (rc, bs, dv)"
    by (metis prod_cases3)
  have g: "geometry T (length (io_entries c))" using ok by (simp add: cache_ok_def)
  have bs: "if rc < 0 then length bs \<le> unat n \<and> (clean \<longrightarrow> bs = []) else length bs = unat n \<and> agrees (file slot) (unat off) bs"
    using dr rd unfolding driver_meets_def by blast
  have le: "length bs \<le> unat (file_cache_block_size T)"
    using bs n by (auto simp: word_le_nat_alt split: if_splits)
  let ?m = "mem_store (io_cache_data T i) bs (io_store c)"
  let ?e = "\<lparr>e_slot = slot, e_off = off, e_valid = n, e_lru = io_lru_counter c + 1\<rparr>"
  consider "n = 0" "r = Inl (Sys EIO)" "d' = d" "c' = c"
    | "rc < 0" "r = Inl (Driver rc)" "d' = d\<lparr>dev := dv\<rparr>" "c' = c\<lparr>io_store := ?m\<rparr>"
    | "\<not> rc < 0" "r = Inr ()" "d' = d\<lparr>dev := dv\<rparr>"
      "c' = c\<lparr>io_store := ?m, io_lru_counter := io_lru_counter c + 1,
         io_entries := (io_entries c)[i := ?e]\<rparr>"
    using f rd by (auto simp: io_cache_fill_def Let_def split: if_splits)
  then have "(\<exists>X. cache_but X T file (size_known d) c' \<and> spoils clean (failure r) X (length (io_entries c))) \<and>
    driver_meets clean file d' \<and> size_known d' = size_known d \<and>
    length (io_entries c') = length (io_entries c) \<and>
    (r = Inr u \<longrightarrow> e_slot (io_entries c' ! i) = slot \<and> e_off (io_entries c' ! i) = off)"
  proof cases
    case 1
    then show ?thesis using ok dr by (intro conjI exI [of _ "{}"]) simp_all
  next
    case 2
    have other: "entry_ok T file (size_known d) c' j" if "j < length (io_entries c)" "j \<noteq> i" for j
      by (rule fill_store_other [OF ok i that _ le]) (simp_all add: 2(4))
    have same: "driver_meets clean file d' \<and> size_known d' = size_known d \<and> length (io_entries c') = length (io_entries c)"
      using dr by (simp add: 2(3,4) driver_meets_def size_known_def fun_eq_iff)
    show ?thesis
    proof (cases clean)
      case True
      then have "bs = []" using bs 2(1) by simp
      then have "c' = c" by (simp add: 2(4) mem_store_def)
      then show ?thesis using ok same 2(2) by (intro conjI exI [of _ "{}"]) simp_all
    next
      case False
      have "cache_but {i} T file (size_known d) c'"
        using ok other by (simp add: cache_but_def 2(4))
      moreover have "spoils clean (failure r) {i} (length (io_entries c))"
        using False i 2(1,2) by (simp add: spoils_def failure_def)
      ultimately show ?thesis using same 2(2) by auto
    qed
  next
    case 3
    have len: "length bs = unat n" "agrees (file slot) (unat off) bs" using bs 3(1) by simp_all
    have "entry_ok T file (size_known d) c' j" if j: "j < length (io_entries c)" for j
    proof (cases "j = i")
      case True
      have "mem_bytes ?m (io_cache_data T i) (unat n) = bs"
        using len(1) unat_lt_2p32 [of n] by (intro mem_bytes_store) simp_all
      then show ?thesis using len n sz i True by (simp add: 3(4) entry_ok_def)
    next
      case False
      show ?thesis by (rule fill_store_other [OF ok i j False _ le]) (use False in \<open>simp_all add: 3(4)\<close>)
    qed
    then have "cache_ok T file (size_known d) c'" using ok by (simp add: cache_ok_def 3(4))
    then show ?thesis using dr i
      by (intro conjI exI [of _ "{}"]) (simp_all add: 3(3,4) driver_meets_def size_known_def fun_eq_iff)
  qed
  then show "\<exists>X. cache_but X T file (size_known d) c' \<and> spoils clean (failure r) X (length (io_entries c))"
    "driver_meets clean file d'" "size_known d' = size_known d"
    "length (io_entries c') = length (io_entries c)"
    "r = Inr u \<Longrightarrow> e_slot (io_entries c' ! i) = slot \<and> e_off (io_entries c' ! i) = off" by blast+
qed

definition state_but :: "nat set \<Rightarrow> bool \<Rightarrow> target \<Rightarrow> (u32 \<Rightarrow> u8 list) \<Rightarrow> (u32 \<Rightarrow> bool) \<Rightarrow> 'd driver \<times> io_cache \<Rightarrow> bool" where
  "state_but X clean T file sized s \<longleftrightarrow> cache_but X T file sized (snd s) \<and> driver_meets clean file (fst s) \<and>
     size_known (fst s) = sized"

text \<open>A consistent state, over a clean driver.\<close>

abbreviation state_ok :: "target \<Rightarrow> (u32 \<Rightarrow> u8 list) \<Rightarrow> (u32 \<Rightarrow> bool) \<Rightarrow> 'd driver \<times> io_cache \<Rightarrow> bool" where
  "state_ok \<equiv> state_but {} True"

lemma state_but_spoil:
  "state_but {} clean T file sized (d, c) \<Longrightarrow> \<exists>i < length (io_entries c). state_but {i} clean T file sized (d, c)"
  by (intro exI [of _ 0]) (auto simp: state_but_def cache_but_def geometry_def)

lemma state_any: "state_ok T file sized s \<Longrightarrow> state_but {} False T file sized s"
  by (auto simp: state_but_def driver_meets_def)

lemma load_block_ok:
  assumes ok: "state_but {} clean T file sized (d, c)" and l: "load_block T slot off d c = (r, d', c')"
  shows "\<exists>X. state_but X clean T file sized (d', c') \<and> spoils clean (failure r) X (length (io_entries c'))"
    and "r = Inr i \<Longrightarrow> i < length (io_entries c') \<and>
      e_slot (io_entries c' ! i) = slot \<and> e_off (io_entries c' ! i) = off"
proof -
  have s: "size_known d = sized" "cache_ok T file (size_known d) c" "driver_meets clean file d"
    using ok by (simp_all add: state_but_def)
  have "(\<exists>X. state_but X clean T file sized (d', c') \<and> spoils clean (failure r) X (length (io_entries c'))) \<and> (\<forall>i. r = Inr i \<longrightarrow> i < length (io_entries c') \<and>
      e_slot (io_entries c' ! i) = slot \<and> e_off (io_entries c' ! i) = off)"
  proof (cases "io_cache_find T slot off c")
    case (Some i)
    then have r: "r = Inr i" "d' = d" "c' = io_cache_hit T i slot off c"
      using l by (simp_all add: load_block_def io_cache_lookup_def)
    note f = find_sound [OF s(2) Some]
    have "e_slot (io_entries c' ! i) = slot \<and> e_off (io_entries c' ! i) = off"
      using f by (simp add: r io_cache_hit_def io_cache_entry_is_def Let_def)
    moreover have "state_but {} clean T file sized (d', c')"
      using hit_ok [OF s(2) f(1)] s r by (simp add: state_but_def)
    ultimately show ?thesis using f r
      by (intro conjI exI [of _ "{}"]) (auto simp: io_cache_hit_def Let_def)
  next
    case None
    let ?e = "io_cache_evict c"
    show ?thesis
    proof (cases "fetch_len T (dev_size d slot) off")
      case None': None
      then have "r = Inl (Sys EIO)" "d' = d" "c' = c" using l None by (auto simp: load_block_def io_cache_lookup_def)
      then show ?thesis using ok by (intro conjI exI [of _ "{}"]) simp_all
    next
      case (Some n)
      obtain r2 d2 c2 where f: "io_cache_fill T ?e slot off n d c = (r2, d2, c2)" by (metis prod_cases3)
      have r: "r = (case r2 of Inl e \<Rightarrow> Inl e | Inr _ \<Rightarrow> Inr ?e)" "d' = d2" "c' = c2"
        using l None Some f by (auto simp: load_block_def io_cache_lookup_def split: sum.splits)
      have g: "geometry T (length (io_entries c))" using s(2) by (simp add: cache_ok_def)
      have z: "0 < dev_size d slot \<Longrightarrow> dev_size d slot = int (length (file slot))"
        using s(3) by (simp add: driver_meets_def)
      note fl = fetch_len [OF g z Some]
      have sz: "size_known d slot \<Longrightarrow> unat off + unat n \<le> length (file slot)"
        using fl(2) by (simp add: size_known_def)
      note i = evict_bound [OF s(2)]
      note fi = fill_inv [OF s(2,3) i fl(1) sz f]
      obtain X where X: "cache_but X T file (size_known d) c2" "spoils clean (failure r2) X (length (io_entries c))"
        using fi(1) by blast
      have "failure r = failure r2" using r(1) by (auto simp: failure_def split: sum.splits)
      then have "state_but X clean T file sized (d', c') \<and> spoils clean (failure r) X (length (io_entries c'))"
        using X fi(2-4) s(1) r(2,3) by (simp add: state_but_def)
      then show ?thesis
        using fi(4,5) i r by (auto split: sum.splits)
    qed
  qed
  then show "\<exists>X. state_but X clean T file sized (d', c') \<and> spoils clean (failure r) X (length (io_entries c'))"
    "r = Inr i \<Longrightarrow> i < length (io_entries c') \<and>
      e_slot (io_entries c' ! i) = slot \<and> e_off (io_entries c' ! i) = off" by blast+
qed


text \<open>
  What a call has delivered: the bytes it copied are those of the file, on every outcome, and all that
  were asked for when it returns 0.
\<close>

definition served :: "(u32 \<Rightarrow> u8 list) \<Rightarrow> (u32 \<Rightarrow> bool) \<Rightarrow> u32 \<Rightarrow> u32 \<Rightarrow> nat \<Rightarrow> u8 list \<Rightarrow> bool" where
  "served file sized slot off n bs \<longleftrightarrow> length bs = n \<and> agrees (file slot) (unat off) bs \<and>
     (sized slot \<longrightarrow> n \<noteq> 0 \<longrightarrow> unat off + n \<le> length (file slot))"

lemma served_append:
  assumes "served file sized slot off n out" and "agrees (file slot) (unat off + n) bs"
    and "sized slot \<Longrightarrow> unat off + (n + length bs) \<le> length (file slot)"
  shows "served file sized slot off (n + length bs) (out @ bs)"
  using assms by (auto simp: served_def intro!: agrees_append)

lemma slot_read_from_ok:
  assumes "state_but {} clean T file sized (d, c)" and "served file sized slot off (unat rd) out" and "rd \<le> len"
    and "slot_read_from T slot off len rd out d c = (r, bs, d', c')"
  shows "(\<exists>X. state_but X clean T file sized (d', c') \<and> spoils clean r X (length (io_entries c'))) \<and>
    served file sized slot off (length bs) bs \<and> (r = None \<longrightarrow> length bs = unat len)"
  using assms
proof (induction T slot off len rd out d c arbitrary: r bs d' c' rule: slot_read_from.induct)
  case (1 T slot off len rd out d c)
  let ?cur = "off + rd"
  let ?al = "?cur AND NOT (file_cache_block_size T - 1)"
  obtain r1 d1 c1 where l: "load_block T slot ?al d c = (r1, d1, c1)" by (metis prod_cases3)
  note run = 1(5) [unfolded slot_read_from.simps [of T slot off len rd]]
  have out: "length out = unat rd" using 1(3) by (simp add: served_def)
  show ?case
  proof (cases "rd < len \<and> \<not> 0xFFFFFFFF - off < rd")
    case False
    then have "(r = None \<and> rd = len \<or> r = Some (Sys EINVAL)) \<and> bs = out \<and> d' = d \<and> c' = c"
      using run 1(4) by (auto split: if_splits)
    then show ?thesis using 1(2,3) out by (intro conjI exI [of _ "{}"]) auto
  next
    case True
    then have cur: "unat ?cur = unat off + unat rd"
      by (intro checked_add) blast
    obtain X where X: "state_but X clean T file sized (d1, c1)" "spoils clean (failure r1) X (length (io_entries c1))"
      using load_block_ok(1) [OF 1(2) l] by blast
    show ?thesis
    proof (cases r1)
      case (Inl e)
      then have "r = Some e" "bs = out" "d' = d1" "c' = c1" using run True l by auto
      then show ?thesis using X 1(3) out Inl by (intro conjI exI [of _ X]) (auto simp: failure_def)
    next
      case (Inr i)
      have lb: "state_but {} clean T file sized (d1, c1)" using X Inr spoils_ok by (auto simp: failure_def)
      let ?v = "e_valid (io_entries c1 ! i)"
      let ?b = "?cur - ?al"
      let ?n = "min (len - rd) (?v - ?b)"
      let ?bs = "mem_bytes (io_store c1) (io_cache_data T i + ?b) (unat ?n)"
      have i: "i < length (io_entries c1)" "e_slot (io_entries c1 ! i) = slot"
        "e_off (io_entries c1 ! i) = ?al"
        using load_block_ok(2) [OF 1(2) l Inr] by auto
      show ?thesis
      proof (cases "?v \<le> ?b \<or> ?n = 0")
        case True': True
        then have "r = Some (Sys EIO)" "bs = out" "d' = d1" "c' = c1"
          using run True l Inr by (auto simp: Let_def split: if_splits)
        then show ?thesis using lb 1(3) out by (intro conjI exI [of _ "{}"]) auto
      next
        case False
        then have nz: "?n \<noteq> 0" "?b < ?v" by (auto simp: not_le)
        have rec: "slot_read_from T slot off len (rd + ?n) (out @ ?bs) d1 c1 = (r, bs, d', c')"
          using run True l Inr False by (simp add: Let_def)
        have e: "entry_ok T file sized c1 i" using lb i(1) by (simp add: state_but_def cache_ok_def)
        have vpos: "0 < ?v" using nz(2) by (simp add: word_less_nat_alt)
        have ev: "agrees (file slot) (unat ?al) (mem_bytes (io_store c1) (io_cache_data T i) (unat ?v))"
          "sized slot \<Longrightarrow> unat ?al + unat ?v \<le> length (file slot)"
          using e vpos i(2,3) by (simp_all add: entry_ok_def Let_def)
        have alb: "unat ?al + unat ?b = unat off + unat rd"
          using word_and_le2 [of ?cur "NOT (file_cache_block_size T - 1)"] cur
          by (simp add: unat_sub word_le_nat_alt)
        have nle: "unat ?b + unat ?n \<le> unat ?v"
        proof -
          have "?n \<le> ?v - ?b" by simp
          then show ?thesis using nz(2) by (simp add: word_le_nat_alt word_less_nat_alt unat_sub del: min.bounded_iff)
        qed
        have "?n \<le> len - rd" by simp
        note pr = rd_progress [OF _ this nz(1)]
        have rn: "unat (rd + ?n) = unat rd + unat ?n" using pr(2) True by blast
        have "agrees (file slot) (unat ?al + unat ?b) ?bs"
          by (rule agrees_part [OF ev(1)]) (use nle in \<open>simp_all add: add.assoc\<close>)
        then have ag: "agrees (file slot) (unat off + unat rd) ?bs" unfolding alb .
        have sz: "sized slot \<Longrightarrow> unat off + (unat rd + length ?bs) \<le> length (file slot)"
          using ev(2) nle alb by simp
        have sv: "served file sized slot off (unat (rd + ?n)) (out @ ?bs)"
          using served_append [OF 1(3) ag sz] by (simp add: rn)
        have le: "rd + ?n \<le> len" using pr(3) True by blast
        show ?thesis
          by (rule 1(1) [OF _ _ refl refl refl l [symmetric] Inr refl refl _ refl _ lb sv le rec])
            (use True False nz in \<open>auto\<close>)
      qed
    qed
  qed
qed

section \<open>The cache provides the interface\<close>

definition cached_read ::
  "target \<Rightarrow> u32 \<Rightarrow> u32 \<Rightarrow> u32 \<Rightarrow> 'd driver \<times> io_cache \<Rightarrow>
     io_error option \<times> u8 list \<times> 'd driver \<times> io_cache" where
  "cached_read T slot off n s = slot_read_cached T slot off n (fst s) (snd s)"

lemma slot_read_cached_ok:
  assumes "state_but {} clean T file sized (d, c)" and "slot_read_cached T slot off n d c = (r, bs, d', c')"
  shows "(\<exists>X. state_but X clean T file sized (d', c') \<and> spoils clean r X (length (io_entries c'))) \<and>
    served file sized slot off (length bs) bs \<and> (r = None \<longrightarrow> length bs = unat n)"
  using slot_read_from_ok [OF assms(1) _ _ assms(2) [unfolded slot_read_cached_def]] by (simp add: served_def)

interpretation cached: slot_reader "state_ok T fc sized" "cached_read T" fc sized for T fc sized
proof
  fix s :: "'d driver \<times> io_cache" and slot off n r bs s'
  assume s: "state_ok T fc sized s" and r: "cached_read T slot off n s = (r, bs, s')"
  have ds: "state_ok T fc sized (fst s, snd s)" using s by simp
  have "slot_read_cached T slot off n (fst s) (snd s) = (r, bs, fst s', snd s')"
    using r by (simp add: cached_read_def)
  from slot_read_cached_ok [OF ds this] have
    x: "state_ok T fc sized s'" "served fc sized slot off (length bs) bs" "r = None \<longrightarrow> length bs = unat n"
    using spoils_clean by auto
  show "state_ok T fc sized s'" by (rule x(1))
next
  fix s :: "'d driver \<times> io_cache" and slot off n bs s'
  assume s: "state_ok T fc sized s" and r: "cached_read T slot off n s = (None, bs, s')"
  have ds: "state_ok T fc sized (fst s, snd s)" using s by simp
  have "slot_read_cached T slot off n (fst s) (snd s) = (None, bs, fst s', snd s')"
    using r by (simp add: cached_read_def)
  from slot_read_cached_ok [OF ds this] have "served fc sized slot off (length bs) bs" "length bs = unat n" by auto
  then show "length bs = unat n \<and> agrees (fc slot) (unat off) bs \<and>
      (sized slot \<longrightarrow> n \<noteq> 0 \<longrightarrow> unat off + unat n \<le> length (fc slot))"
    by (auto simp: served_def unat_eq_0)
qed

text \<open>Reading never changes what the driver says of the sizes.\<close>

lemma fill_sizes: "io_cache_fill T i slot off n d c = (r, d', c') \<Longrightarrow> dev_size d' = dev_size d"
  by (auto simp: io_cache_fill_def Let_def split: if_splits prod.splits)

lemma load_block_sizes: "load_block T slot off d c = (r, d', c') \<Longrightarrow> dev_size d' = dev_size d"
  by (auto simp: load_block_def Let_def dest: fill_sizes split: prod.splits option.splits sum.splits)

lemma slot_read_sizes:
  "slot_read_from T slot off len rd out d c = (r, bs, d', c') \<Longrightarrow> dev_size d' = dev_size d"
proof (induction T slot off len rd out d c rule: slot_read_from.induct)
  case (1 T slot off len rd out d c)
  let ?al = "(off + rd) AND NOT (file_cache_block_size T - 1)"
  obtain b d1 c1 where l: "load_block T slot ?al d c = (b, d1, c1)" by (metis surj_pair)
  have d1: "dev_size d1 = dev_size d" by (rule load_block_sizes [OF l])
  show ?case
  proof (cases "rd < len \<and> \<not> 0xFFFFFFFF - off < rd")
    case False
    then show ?thesis using "1.prems" by (auto simp: slot_read_from.simps [of T slot off len rd] split: if_splits)
  next
    case True
    show ?thesis
    proof (cases b)
      case (Inl e)
      then show ?thesis using "1.prems" True l d1 by (simp add: slot_read_from.simps [of T slot off len rd])
    next
      case (Inr entry)
      show ?thesis
      proof (rule ccontr)
        assume n: "dev_size d' \<noteq> dev_size d"
        let ?valid = "e_valid (io_entries c1 ! entry)" and ?bo = "off + rd - ?al"
        let ?n = "min (len - rd) (?valid - ?bo)"
        have "\<not> ?valid \<le> ?bo" "?n \<noteq> 0"
          and "slot_read_from T slot off len (rd + ?n)
            (out @ mem_bytes (io_store c1) (io_cache_data T entry + ?bo) (unat ?n)) d1 c1 = (r, bs, d', c')"
          using "1.prems" True l d1 Inr n
          by (auto simp: slot_read_from.simps [of T slot off len rd] Let_def split: if_splits)
        then have "dev_size d' = dev_size d1"
          using "1.IH" [of "off + rd" ?al ?bo b "(d1, c1)" entry d1 c1 ?valid ?n] True l Inr by auto
        then show False using n d1 by simp
      qed
    qed
  qed
qed

interpretation sizes: slot_state "\<lambda>s. dev_size (fst s) = z" "cached_read T" for z T
  by unfold_locales (auto simp: cached_read_def slot_read_cached_def dest: slot_read_sizes)

section \<open>Properties\<close>

text \<open>
  C9: The read cache is invisible. From a consistent cache, over a driver whose successful reads deliver
  the file and whose failed reads may have stored anything up to the requested length: the bytes a call
  has copied are those of the file at the offset when the driver knows the file's size, all of them
  when it returns 0, and the calls that do not fail in the driver leave a consistent cache. A call that
  fails in the driver leaves every block consistent but one, the one the failed read was to replace
  (which the code keeps valid, see \<open>failed_fill_keeps_entry\<close>).
\<close>

theorem cached_read_exact:
  assumes "state_but {} False T file sized (d, c)" and "slot_read_cached T slot off n d c = (r, bs, d', c')"
  shows "(sized slot \<longrightarrow> bs = take (length bs) (drop (unat off) (file slot))) \<and>
    (case r of
       None \<Rightarrow> length bs = unat n \<and> state_but {} False T file sized (d', c')
     | Some (Sys e) \<Rightarrow> state_but {} False T file sized (d', c')
     | Some (Driver rc) \<Rightarrow> (\<exists>i < length (io_entries c'). state_but {i} False T file sized (d', c')))"
proof -
  obtain X where X: "state_but X False T file sized (d', c')" "spoils False r X (length (io_entries c'))"
    and sv: "served file sized slot off (length bs) bs" "r = None \<longrightarrow> length bs = unat n"
    using slot_read_cached_ok [OF assms] by blast
  have "bs = take (length bs) (drop (unat off) (file slot))" if "sized slot"
    using sv(1) that agrees_exact [of _ "unat off" bs] by (cases "bs = []") (auto simp: served_def)
  moreover have "\<exists>i < length (io_entries c'). state_but {i} False T file sized (d', c')"
    using X state_but_spoil [where clean = False] by (auto simp: spoils_def)
  ultimately show ?thesis using X sv(2)
    by (auto simp: spoils_def split: option.splits io_error.splits)
qed

text \<open>A four-byte cache of two entries over a driver that serves one constant file.\<close>

definition tiny :: target where
  "tiny = pocket\<lparr>file_cache_size := 8, file_cache_block_size := 4\<rparr>"

definition abc :: "u8 list" where "abc = [97, 98, 99, 100, 101, 102]"

definition demo_driver :: "nat driver" where
  "demo_driver = \<lparr>dev = 0,
     dev_read = (\<lambda>k slot off n. if unat off + n \<le> length abc
       then (0, take n (drop (unat off) abc), Suc k) else (-1, [], Suc k)),
     dev_size = (\<lambda>_. 6)\<rparr>"

definition demo_cache :: io_cache where
  "demo_cache = io_cache_reset tiny
     \<lparr>io_entries = [], io_lru_counter = 0, io_mru = None, io_hint = replicate 256 0, io_store = (\<lambda>_. 0)\<rparr>"

lemma demo_driver_ok: "driver_ok (\<lambda>_. abc) demo_driver"
  unfolding driver_meets_def demo_driver_def
  by (auto simp: agrees_def abc_def split: if_splits)

lemma demo_state_ok: "state_ok tiny (\<lambda>_. abc) (\<lambda>_. True) (demo_driver, demo_cache)"
proof -
  have k: "\<exists>k<32. (4 :: u32) = 2 ^ k" by (intro exI [of _ 2]) simp
  have "geometry tiny 2"
    using k by (simp add: geometry_def tiny_def file_cache_base_def pocket_def)
  moreover have "IO_CACHE_ENTRIES tiny = 2" by (simp add: IO_CACHE_ENTRIES_def tiny_def)
  ultimately have "cache_ok tiny (\<lambda>_. abc) (\<lambda>_. True) demo_cache"
    by (simp add: cache_ok_def demo_cache_def io_cache_reset_def entry_ok_def)
  then show ?thesis
    using demo_driver_ok by (simp add: state_but_def size_known_def demo_driver_def fun_eq_iff)
qed

theorem cached_read_exact_witness:
  "fst (snd (slot_read_cached tiny 7 1 4 demo_driver demo_cache)) = [98, 99, 100, 101]"
proof -
  obtain r bs d' c' where r: "slot_read_cached tiny 7 1 4 demo_driver demo_cache = (r, bs, d', c')"
    by (metis prod_cases4)
  have "fst (slot_read_cached tiny 7 1 4 demo_driver demo_cache) = None" by code_simp
  then have rn: "r = None" by (simp add: r)
  have "bs = take (length bs) (drop (unat (1 :: u32)) abc)" "length bs = unat (4 :: u32)"
    using cached_read_exact [OF state_any [OF demo_state_ok] r] unfolding rn option.case by blast+
  moreover have "unat (4 :: u32) = 4" "unat (1 :: u32) = 1" by simp_all
  ultimately have "bs = take 4 (drop 1 abc)" by metis
  then show ?thesis by (simp add: r abc_def)
qed

text \<open>
  what a failed fill does. The cache entry it was to replace is left as it was, still valid for
  its old block, although the driver may have overwritten the block's memory: whatever bytes the
  failing driver stored are what a later hit on the old block is served from.
\<close>

lemma failed_fill_keeps_entry:
  assumes "io_cache_fill T i slot off n d c = (Inl (Driver rc), d', c')"
    and "dev_read d (dev d) slot off (unat n) = (rc', bs, dv)" and "length bs \<le> 2 ^ 32"
  shows "io_entries c' = io_entries c \<and>
    mem_bytes (io_store c') (io_cache_data T i) (length bs) = bs"
proof -
  have "c' = c\<lparr>io_store := mem_store (io_cache_data T i) bs (io_store c)\<rparr>"
    using assms(1,2) by (auto simp: io_cache_fill_def Let_def split: if_splits)
  then show ?thesis using assms(3) by (simp add: mem_bytes_store)
qed

end
