(* ===== verification/Paths.thy ===== *)
theory Paths
  imports Memory "HOL-Library.Sublist"
begin

text \<open>
  Path and name handling of \<^verbatim>\<open>kernel/syscall.c\<close> and \<^verbatim>\<open>lib/iso9660/iso9660_vfs.c\<close>: separators,
  case-insensitive comparison, basenames, the normalisation of a path against the working directory,
  and the matching of a path against a mount point. A path is the HOL string before its NUL; a
  buffer being built is the string written so far.
\<close>

section \<open>Characters and names\<close>

definition is_sep :: "char \<Rightarrow> bool" where
  "is_sep c \<longleftrightarrow> c = CHR ''/'' \<or> c = CHR 0x5C"

definition char_lower :: "char \<Rightarrow> int" where
  "char_lower c = (let k = of_char c in if 65 \<le> k \<and> k \<le> 90 then k + 32 else k)"

definition iso_upper :: "char \<Rightarrow> char" where
  "iso_upper c = (let k = of_char c :: nat in if 97 \<le> k \<and> k \<le> 122 then char_of (k - 32) else c)"

fun stricmp :: "string \<Rightarrow> string \<Rightarrow> int" where
  "stricmp (a # as) (b # bs) =
     (let d = char_lower a - char_lower b in if d \<noteq> 0 then d else stricmp as bs)"
| "stricmp [] [] = 0"
| "stricmp [] (b # bs) = 0 - char_lower b"
| "stricmp (a # as) [] = char_lower a"

text \<open>\<^verbatim>\<open>path_basename\<close> restarts the candidate after every separator.\<close>

fun basename_scan :: "string \<Rightarrow> string \<Rightarrow> string" where
  "basename_scan [] base = base"
| "basename_scan (c # cs) base = basename_scan cs (if is_sep c then cs else base)"

definition path_basename :: "string \<Rightarrow> string" where
  "path_basename path = basename_scan path path"

section \<open>Components of a path\<close>

abbreviation skip_seps :: "string \<Rightarrow> string" where
  "skip_seps \<equiv> dropWhile is_sep"

abbreviation part_of :: "string \<Rightarrow> string" where
  "part_of \<equiv> takeWhile (\<lambda>c. \<not> is_sep c)"

abbreviation after_part :: "string \<Rightarrow> string" where
  "after_part \<equiv> dropWhile (\<lambda>c. \<not> is_sep c)"

lemma after_part_shorter:
  "src \<noteq> [] \<Longrightarrow> length (after_part (skip_seps src)) < length src"
proof (cases "is_sep (hd src)")
  case True
  assume "src \<noteq> []"
  then have "length (skip_seps (tl src)) < length src"
    by (metis length_dropWhile_le length_tl diff_less le_less_trans length_greater_0_conv zero_less_one)
  with True \<open>src \<noteq> []\<close> show ?thesis
    by (metis dropWhile.simps(2) length_dropWhile_le le_less_trans list.collapse)
next
  case False
  assume "src \<noteq> []"
  then obtain c cs where s: "src = c # cs" "\<not> is_sep c" using False by (cases src) auto
  then show ?thesis using length_dropWhile_le [of "\<lambda>c. \<not> is_sep c" cs] by simp
qed

function parts :: "string \<Rightarrow> string list" where
  "parts s = (let s1 = skip_seps s in
     if s1 = [] then [] else part_of s1 # parts (after_part s1))"
  by auto
termination
proof (relation "measure length", simp)
  fix s s1 :: string
  assume "s1 = skip_seps s" "s1 \<noteq> []"
  then show "(after_part s1, s) \<in> measure length"
    using after_part_shorter [of s] by (cases "s = []") simp_all
qed

declare parts.simps [simp del]

section \<open>Normalisation\<close>

function drop_to_slash :: "string \<Rightarrow> string" where
  "drop_to_slash s = (if 1 < length s \<and> last s \<noteq> CHR ''/'' then drop_to_slash (butlast s) else s)"
  by auto
termination by (relation "measure length") auto

declare drop_to_slash.simps [simp del]

definition pop_part :: "string \<Rightarrow> string" where
  "pop_part out = (if 1 < length out then drop_to_slash (butlast out) else out)"

definition push_part :: "nat \<Rightarrow> string \<Rightarrow> string \<Rightarrow> errno + string" where
  "push_part cap out part =
     (if part = [] \<or> part = ''.'' then Inr out
      else if part = ''..'' then Inr (pop_part out)
      else if 1 < length out \<and> last out \<noteq> CHR ''/'' then
        (if cap \<le> length out + 1 then Inl ENAMETOOLONG
         else if cap \<le> length out + 1 + length part then Inl ENAMETOOLONG
         else Inr (out @ ''/'' @ part))
      else if cap \<le> length out + length part then Inl ENAMETOOLONG
      else Inr (out @ part))"

function norm_parts :: "nat \<Rightarrow> string \<Rightarrow> string \<Rightarrow> errno + string" where
  "norm_parts cap src out =
     (if src = [] then Inr out
      else let src1 = skip_seps src; part = part_of src1 in
        if 64 \<le> length part then Inl ENAMETOOLONG
        else case push_part cap out part of
          Inl e \<Rightarrow> Inl e
        | Inr out' \<Rightarrow> norm_parts cap (after_part src1) out')"
  by pat_completeness auto
termination
  by (relation "measure (\<lambda>(_, src, _). length src)") (auto intro: after_part_shorter)

declare norm_parts.simps [simp del]

definition norm_base :: "nat \<Rightarrow> string \<Rightarrow> errno + string" where
  "norm_base cap cwd =
     (let out = (if cwd = [] \<or> hd cwd \<noteq> CHR ''/'' then ''/'' else take (cap - 1) cwd);
          out1 = (if 1 < length out \<and> last out = CHR ''/'' then butlast out else out) in
      if 1 < length out1 then
        (if cap \<le> length out1 + 1 then Inl ENAMETOOLONG else Inr (out1 @ ''/''))
      else Inr out1)"

definition normalize_abs_path :: "string \<Rightarrow> string \<Rightarrow> nat \<Rightarrow> errno + string" where
  "normalize_abs_path cwd path cap =
     (if cap < 2 then Inl EINVAL
      else if path \<noteq> [] \<and> is_sep (hd path) then norm_parts cap (skip_seps path) ''/''
      else case norm_base cap cwd of
        Inl e \<Rightarrow> Inl e
      | Inr out \<Rightarrow> norm_parts cap path out)"

text \<open>\<^verbatim>\<open>iso_path_normalize\<close>, with the trailing-slash test it ends with.\<close>

function iso_norm :: "nat \<Rightarrow> bool \<Rightarrow> string \<Rightarrow> string \<Rightarrow> errno + string" where
  "iso_norm cap upper path out =
     (case path of
        [] \<Rightarrow> Inr out
      | c # rest \<Rightarrow>
          if is_sep c then
            let rest' = skip_seps rest in
            if rest' = [] then Inr out
            else if out = [] \<or> last out = CHR ''/'' then iso_norm cap upper rest' out
            else if cap \<le> length out + 1 then Inl ENAMETOOLONG
            else iso_norm cap upper rest' (out @ ''/'')
          else if cap \<le> length out + 1 then Inl ENAMETOOLONG
          else iso_norm cap upper rest (out @ [if upper then iso_upper c else c]))"
  by pat_completeness auto
termination
  by (relation "measure (\<lambda>(_, _, path, _). length path)")
    (auto simp: less_Suc_eq_le length_dropWhile_le)

declare iso_norm.simps [simp del]

definition iso_path_normalize :: "string \<Rightarrow> nat \<Rightarrow> bool \<Rightarrow> errno + string" where
  "iso_path_normalize path cap upper =
     (if cap = 0 then Inl EINVAL
      else case iso_norm cap upper (skip_seps path) [] of
        Inl e \<Rightarrow> Inl e
      | Inr out \<Rightarrow> Inr (if out \<noteq> [] \<and> last out = CHR ''/'' then butlast out else out))"

section \<open>Mount points\<close>

definition mount_path_match :: "string \<Rightarrow> string \<Rightarrow> bool" where
  "mount_path_match path target =
     (if length target \<le> 1 then False
      else if take (length target) path \<noteq> target then False
      else length path = length target \<or> path ! length target = CHR ''/'')"

section \<open>Save names\<close>

definition is_digit :: "char \<Rightarrow> bool" where
  "is_digit c \<longleftrightarrow> 48 \<le> (of_char c :: nat) \<and> (of_char c :: nat) \<le> 57"

text \<open>The slot number is accumulated in a 32-bit \<^verbatim>\<open>int\<close>, read here with two's complement wrap-around.\<close>

definition digits_value :: "string \<Rightarrow> u32" where
  "digits_value = foldl (\<lambda>v c. v * 10 + (of_char c - 48)) 0"

definition save_slot_from_filename :: "int \<Rightarrow> string \<Rightarrow> int option" where
  "save_slot_from_filename max_slots path =
     (let name = path_basename path; len = length name; stem = take (len - 4) name;
          digits = rev (takeWhile is_digit (rev stem)); start = length stem - length digits in
      if len < 6 then None
      else if \<not> (char_lower (name ! (len - 4)) = 46 \<and> char_lower (name ! (len - 3)) = 115 \<and>
                 char_lower (name ! (len - 2)) = 97 \<and> char_lower (name ! (len - 1)) = 118) then None
      else if digits = [] \<or> start = 0 \<or> stem ! (start - 1) \<noteq> CHR ''_'' then None
      else let slot = sint (digits_value digits) in if slot < max_slots then Some slot else None)"

end
