(* ===== verification/PathsSpec.thy ===== *)
theory PathsSpec
  imports Paths
begin

text \<open>
  What the path functions compute, on components: a path is a list of names, normalisation resolves
  \<open>.\<close> and \<open>..\<close> against a stack of names, a mount point matches the paths below it. The locale
  \<open>name_match\<close> states what a case-insensitive comparison promises a table searched with it.
\<close>

section \<open>Comparison of names\<close>

locale name_match =
  fixes cmp :: "string \<Rightarrow> string \<Rightarrow> int" and key :: "string \<Rightarrow> int list"
  assumes cmp_zero: "NUL \<notin> set a \<Longrightarrow> NUL \<notin> set b \<Longrightarrow> cmp a b = 0 \<longleftrightarrow> key a = key b"
begin

lemma cmp_refl: "NUL \<notin> set a \<Longrightarrow> cmp a a = 0"
  by (simp add: cmp_zero)

lemma cmp_trans:
  "NUL \<notin> set a \<Longrightarrow> NUL \<notin> set b \<Longrightarrow> NUL \<notin> set c \<Longrightarrow> cmp a b = 0 \<Longrightarrow> cmp b c = 0 \<Longrightarrow> cmp a c = 0"
  by (simp add: cmp_zero)

lemma search_respects_key:
  assumes "key a = key b" and "NUL \<notin> set a" and "NUL \<notin> set b"
    and "\<And>e. e \<in> set tbl \<Longrightarrow> NUL \<notin> set (name e)"
  shows "find (\<lambda>e. cmp a (name e) = 0 \<and> P e) tbl = find (\<lambda>e. cmp b (name e) = 0 \<and> P e) tbl"
  using assms(4) by (induction tbl) (simp_all add: assms(1-3) cmp_zero)

end

lemma char_lower_zero: "char_lower c = 0 \<longleftrightarrow> c = NUL"
proof -
  have "(of_char c :: int) = 0 \<longleftrightarrow> c = NUL"
    using of_char_eq_iff [of c NUL, where ?'a = int] by simp
  then show ?thesis by (auto simp: char_lower_def Let_def split: if_splits)
qed

lemma stricmp_zero:
  "NUL \<notin> set a \<Longrightarrow> NUL \<notin> set b \<Longrightarrow> stricmp a b = 0 \<longleftrightarrow> map char_lower a = map char_lower b"
  by (induction a b rule: stricmp.induct) (auto simp: Let_def char_lower_zero)

interpretation slot_names: name_match stricmp "map char_lower"
  by unfold_locales (rule stricmp_zero)

lemma basename_scan: "basename_scan p base =
    (if \<exists>c \<in> set p. is_sep c then rev (takeWhile (\<lambda>c. \<not> is_sep c) (rev p)) else base)"
proof (induction p arbitrary: base)
  case (Cons c p)
  show ?case
  proof (cases "\<exists>c \<in> set p. is_sep c")
    case True
    then obtain x where "x \<in> set (rev p)" "\<not> \<not> is_sep x" by auto
    from takeWhile_append1 [where P = "\<lambda>c. \<not> is_sep c", OF this]
    have "takeWhile (\<lambda>c. \<not> is_sep c) (rev p @ [c]) = takeWhile (\<lambda>c. \<not> is_sep c) (rev p)"
      by simp
    then show ?thesis using Cons True by auto
  next
    case False
    then have "takeWhile (\<lambda>c. \<not> is_sep c) (rev p @ [c]) = rev p @ takeWhile (\<lambda>c. \<not> is_sep c) [c]"
      by (intro takeWhile_append2) auto
    then show ?thesis using Cons False by auto
  qed
qed simp

lemma path_basename: "path_basename p = rev (takeWhile (\<lambda>c. \<not> is_sep c) (rev p))"
proof (cases "\<exists>c \<in> set p. is_sep c")
  case False
  then have "takeWhile (\<lambda>c. \<not> is_sep c) (rev p) = rev p" by (subst takeWhile_eq_all_conv) simp
  then show ?thesis using False by (simp only: path_basename_def basename_scan rev_rev_ident if_False)
qed (simp add: path_basename_def basename_scan)

section \<open>Components\<close>

definition good_part :: "string \<Rightarrow> bool" where
  "good_part p \<longleftrightarrow> p \<noteq> [] \<and> (\<forall>c \<in> set p. \<not> is_sep c)"

lemma parts_Nil [simp]: "parts [] = []"
  by (simp add: parts.simps)

lemma parts_sep [simp]: "is_sep c \<Longrightarrow> parts (c # s) = parts s"
  by (simp add: parts.simps [of "c # s"] parts.simps [of s])

lemma takeWhile_part:
  assumes "\<forall>c \<in> set p. \<not> is_sep c" and "s = [] \<or> is_sep (hd s)"
  shows "part_of (p @ s) = p" and "after_part (p @ s) = s"
proof -
  have "part_of s = []" "after_part s = s" using assms(2) by (cases s; simp)+
  then show "part_of (p @ s) = p" "after_part (p @ s) = s"
    using assms(1) by (simp_all add: takeWhile_append2 dropWhile_append2)
qed

lemma parts_part [simp]:
  assumes "good_part p" and "s = [] \<or> is_sep (hd s)"
  shows "parts (p @ s) = p # parts s"
proof -
  have "skip_seps (p @ s) = p @ s" using assms(1) by (cases p) (simp_all add: good_part_def)
  then show ?thesis
    using takeWhile_part [of p s] assms by (subst parts.simps) (simp add: Let_def good_part_def)
qed

lemma part_of_good: "s \<noteq> [] \<Longrightarrow> \<not> is_sep (hd s) \<Longrightarrow> good_part (part_of s)"
  by (cases s) (auto simp: good_part_def dest: set_takeWhileD)

lemma skip_hd: "skip_seps s \<noteq> [] \<Longrightarrow> \<not> is_sep (hd (skip_seps s))"
  by (rule hd_dropWhile)

lemma parts_good: "p \<in> set (parts s) \<Longrightarrow> good_part p"
proof (induction s rule: parts.induct)
  case (1 s)
  show ?case
  proof (cases "skip_seps s = []")
    case False
    then have "p = part_of (skip_seps s) \<or> p \<in> set (parts (after_part (skip_seps s)))"
      using 1(2) by (subst (asm) parts.simps) (simp only: Let_def False if_False list.set insert_iff)
    then show ?thesis using 1(1) [OF refl False] part_of_good [OF False skip_hd [OF False]] by blast
  qed (use 1(2) in \<open>subst (asm) parts.simps, simp\<close>)
qed

section \<open>The working stack\<close>

definition resolve_part :: "string \<Rightarrow> string list \<Rightarrow> string list" where
  "resolve_part p st = (if p = ''.'' then st else if p = ''..'' then butlast st else st @ [p])"

definition resolve :: "string list \<Rightarrow> string list \<Rightarrow> string list" where
  "resolve ps st = fold resolve_part ps st"

definition body :: "string list \<Rightarrow> string" where
  "body st = concat (map (\<lambda>p. CHR ''/'' # p) st)"

definition render :: "string list \<Rightarrow> string" where
  "render st = (if st = [] then ''/'' else body st)"

definition shape :: "string list \<Rightarrow> string \<Rightarrow> bool" where
  "shape st out \<longleftrightarrow> (\<forall>p \<in> set st. good_part p) \<and> (out = render st \<or> st \<noteq> [] \<and> out = body st @ ''/'')"

lemma body_simps [simp]: "body [] = []" "body (p # st) = CHR ''/'' # p @ body st"
  "body (st @ [p]) = body st @ CHR ''/'' # p"
  by (simp_all add: body_def)

lemma body_Nil_iff [simp]: "body st = [] \<longleftrightarrow> st = []"
  by (cases st) simp_all

lemma sep_slash [simp]: "is_sep (CHR ''/'')"
  by (simp add: is_sep_def)

lemma good_no_slash: "good_part p \<Longrightarrow> CHR ''/'' \<notin> set p"
  by (auto simp: good_part_def)

lemma good_last: "good_part p \<Longrightarrow> p \<noteq> [] \<and> last p \<noteq> CHR ''/''"
  using good_no_slash [of p] last_in_set [of p] by (metis good_part_def)

lemma shape_nonempty: "shape st out \<Longrightarrow> out \<noteq> []"
  by (cases st) (auto simp: shape_def render_def)

lemma shape_parts: "shape st out \<Longrightarrow> parts out = st"
proof -
  have "parts (body st @ s) = st @ parts s"
    if "\<forall>p \<in> set st. good_part p" "s = [] \<or> is_sep (hd s)" for st s
    using that
  proof (induction st)
    case (Cons p st)
    have "body st @ s = [] \<or> is_sep (hd (body st @ s))" using Cons.prems(2) by (cases st) auto
    then show ?case using Cons by simp
  qed simp
  from this [of st "[]"] this [of st "''/''"]
  show "shape st out \<Longrightarrow> parts out = st" by (auto simp: shape_def render_def)
qed

lemma drop_to_slash_at: "CHR ''/'' \<notin> set q \<Longrightarrow> drop_to_slash (a @ CHR ''/'' # q) = a @ ''/''"
proof (induction q rule: rev_induct)
  case Nil
  show ?case by (subst drop_to_slash.simps) simp
next
  case (snoc c q)
  let ?s = "a @ CHR ''/'' # q @ [c]"
  have "1 < length ?s" "last ?s \<noteq> CHR ''/''" using snoc.prems by auto
  then have "drop_to_slash ?s = drop_to_slash (butlast ?s)" by (subst drop_to_slash.simps) simp
  also have "butlast ?s = a @ CHR ''/'' # q" by (metis append_Cons append_assoc butlast_snoc)
  finally show ?case using snoc by simp
qed

lemma pop_shape:
  assumes "shape st out"
  shows "shape (butlast st) (pop_part out)" and "length (pop_part out) \<le> length out"
proof -
  have "shape (butlast st) (pop_part out) \<and> length (pop_part out) \<le> length out"
  proof (cases st rule: rev_cases)
    case Nil
    then show ?thesis using assms by (simp add: shape_def render_def pop_part_def)
  next
    case (snoc st' p)
    have p: "p \<noteq> []" "CHR ''/'' \<notin> set p" "\<forall>q \<in> set st'. good_part q"
      using assms snoc good_no_slash by (auto simp: shape_def good_part_def)
    have bp: "CHR ''/'' \<notin> set (butlast p)" using p(2) by (auto dest: in_set_butlastD)
    have "out = body st' @ CHR ''/'' # p \<or> out = body st' @ CHR ''/'' # p @ ''/''"
      using assms snoc by (auto simp: shape_def render_def)
    then have "butlast out = body st' @ CHR ''/'' # butlast p \<or> butlast out = body st' @ CHR ''/'' # p"
      using p(1) by (auto simp: butlast_append)
    then have d: "drop_to_slash (butlast out) = body st' @ ''/''"
      using drop_to_slash_at bp p(2) by metis
    have "1 < length out" using assms snoc p(1) by (auto simp: shape_def render_def)
    then have "pop_part out = body st' @ ''/''" by (simp add: pop_part_def d)
    moreover have "length (body st' @ ''/'') \<le> length out"
      using assms snoc by (auto simp: shape_def render_def)
    ultimately show ?thesis using snoc p by (auto simp: shape_def render_def)
  qed
  then show "shape (butlast st) (pop_part out)" "length (pop_part out) \<le> length out" by blast+
qed


section \<open>Normalisation resolves the components\<close>

lemma push_shape:
  assumes sh: "shape st out" and p: "p = [] \<or> good_part p" and r: "push_part cap out p = Inr out'"
  shows "shape (if p = [] then st else resolve_part p st) out'"
    and "length out < cap \<Longrightarrow> length out' < cap"
proof -
  consider "p = [] \<or> p = ''.''" "out' = out" | "p = ''..''" "out' = pop_part out"
    | "good_part p" "p \<noteq> ''.''" "p \<noteq> ''..''" "1 < length out \<and> last out \<noteq> CHR ''/''"
      "out' = out @ ''/'' @ p" "length out' < cap"
    | "good_part p" "p \<noteq> ''.''" "p \<noteq> ''..''" "\<not> (1 < length out \<and> last out \<noteq> CHR ''/'')"
      "out' = out @ p" "length out' < cap"
    using r p by (fastforce simp: push_part_def split: if_splits)
  then have "shape (if p = [] then st else resolve_part p st) out' \<and> (length out < cap \<longrightarrow> length out' < cap)"
  proof cases
    case 1
    then show ?thesis using sh by (auto simp: resolve_part_def)
  next
    case 2
    then show ?thesis using pop_shape [OF sh] by (auto simp: resolve_part_def)
  next
    case 3
    have "st \<noteq> []" using sh 3(4) by (auto simp: shape_def render_def)
    then have "out = body st" using sh 3(4) by (auto simp: shape_def render_def)
    then show ?thesis using sh 3 by (auto simp: shape_def render_def resolve_part_def good_part_def)
  next
    case 4
    have "out = ''/'' \<and> st = [] \<or> st \<noteq> [] \<and> out = body st @ ''/''"
    proof (cases st rule: rev_cases)
      case Nil
      then show ?thesis using sh by (simp add: shape_def render_def)
    next
      case (snoc st' q)
      then have "good_part q" using sh by (simp add: shape_def)
      then have "last q \<noteq> CHR ''/''" "q \<noteq> []" using good_last by blast+
      then show ?thesis using sh 4(4) snoc by (auto simp: shape_def render_def)
    qed
    then show ?thesis using sh 4 by (auto simp: shape_def render_def resolve_part_def good_part_def)
  qed
  then show "shape (if p = [] then st else resolve_part p st) out'"
    "length out < cap \<Longrightarrow> length out' < cap" by blast+
qed

lemma parts_step:
  "parts src = (if part_of (skip_seps src) = [] then [] else
     part_of (skip_seps src) # parts (after_part (skip_seps src)))"
proof (cases "skip_seps src = []")
  case False
  have "part_of (skip_seps src) \<noteq> []"
    using part_of_good [OF False skip_hd [OF False]] unfolding good_part_def by blast
  then show ?thesis by (subst parts.simps) (simp only: Let_def False if_False)
next
  case True
  then show ?thesis by (subst parts.simps) (simp only: Let_def True if_True takeWhile.simps)
qed

lemma norm_parts_shape:
  assumes "shape st out" and "length out < cap" and "norm_parts cap src out = Inr res"
  shows "shape (resolve (parts src) st) res \<and> length res < cap"
  using assms
proof (induction cap src out arbitrary: st rule: norm_parts.induct)
  case (1 cap src out)
  show ?case
  proof (cases "src = []")
    case True
    then show ?thesis using 1(2-4) by (simp add: norm_parts.simps resolve_def)
  next
    case False
    let ?p = "part_of (skip_seps src)" and ?rest = "after_part (skip_seps src)"
    have n: "\<not> 64 \<le> length ?p" using 1(4) False by (auto simp: norm_parts.simps [of cap src] Let_def)
    obtain out' where o: "push_part cap out ?p = Inr out'" "norm_parts cap ?rest out' = Inr res"
      using 1(4) False n by (auto simp: norm_parts.simps [of cap src] Let_def split: sum.splits)
    have p: "?p = [] \<or> good_part ?p"
    proof (cases "skip_seps src = []")
      case True
      show ?thesis unfolding True by simp
    qed (use part_of_good skip_hd in blast)
    note ps = push_shape [OF 1(2) p o(1)]
    have "parts ?rest = []" if "?p = []"
    proof (cases "skip_seps src = []")
      case True
      show ?thesis unfolding True by simp
    next
      case False
      then show ?thesis using that part_of_good [OF False skip_hd [OF False]] by (simp add: good_part_def)
    qed
    then have "resolve (parts src) st =
        resolve (parts ?rest) (if ?p = [] then st else resolve_part ?p st)"
      by (subst parts_step) (simp add: resolve_def)
    then show ?thesis
      using 1(1) [OF False refl refl n o(1) ps(1) ps(2) [OF 1(3)] o(2)] by simp
  qed
qed

lemma norm_base_shape:
  assumes "shape st cwd" and "length cwd < cap" and "norm_base cap cwd = Inr out"
  shows "shape st out \<and> length out < cap"
proof -
  have c: "cwd \<noteq> []" "hd cwd = CHR ''/''"
    using assms(1) by (cases st; auto simp: shape_def render_def)+
  have t: "take (cap - 1) cwd = cwd" using assms(2) by simp
  consider "st = []" "cwd = ''/''" | "st \<noteq> []" "cwd = body st" | "st \<noteq> []" "cwd = body st @ ''/''"
    using assms(1) by (auto simp: shape_def render_def split: if_splits)
  then show ?thesis
  proof cases
    case 1
    then show ?thesis using assms t by (auto simp: norm_base_def shape_def render_def Let_def)
  next
    case 2
    obtain st' q where q: "st = st' @ [q]" using 2(1) by (cases st rule: rev_cases) auto
    then have "good_part q" using assms(1) by (simp add: shape_def)
    then have l: "last cwd \<noteq> CHR ''/''" "1 < length cwd"
      using 2(2) q good_last [of q] by auto
    then have "out = cwd @ ''/'' \<and> length cwd + 1 < cap"
      using assms(3) c t by (auto simp: norm_base_def Let_def split: if_splits)
    then show ?thesis using assms(1) 2 by (auto simp: shape_def)
  next
    case 3
    have "1 < length cwd" "butlast cwd = body st" "last cwd = CHR ''/''" using 3 by auto
    then have "out = body st @ ''/'' \<and> length (body st) + 1 < cap \<or> out = body st \<and> length (body st) \<le> 1"
      using assms(3) c t by (auto simp: norm_base_def Let_def split: if_splits)
    moreover have "1 < length (body st)"
    proof -
      obtain q st' where "st = q # st'" using 3(1) by (cases st) auto
      then show ?thesis using assms(1) by (cases q) (auto simp: shape_def good_part_def)
    qed
    ultimately show ?thesis using assms(1) 3 by (auto simp: shape_def)
  qed
qed

lemma normalize_shape:
  assumes "shape st cwd" and "length cwd < cap" and "normalize_abs_path cwd path cap = Inr out"
  shows "shape (resolve (parts path) (if path \<noteq> [] \<and> is_sep (hd path) then [] else st)) out \<and>
    length out < cap"
proof (cases "path \<noteq> [] \<and> is_sep (hd path)")
  case True
  have "parts (skip_seps path) = parts path" by (induction path) auto
  moreover have "shape [] ''/''" by (simp add: shape_def render_def)
  ultimately show ?thesis
    using assms(3) True norm_parts_shape [of "[]" "''/''" cap "skip_seps path" out]
    by (auto simp: normalize_abs_path_def split: if_splits)
next
  case False
  then obtain b where b: "norm_base cap cwd = Inr b" "norm_parts cap path b = Inr out"
    using assms(3) by (auto simp: normalize_abs_path_def split: if_splits sum.splits)
  show ?thesis
    using norm_parts_shape [OF _ _ b(2)] norm_base_shape [OF assms(1,2) b(1)] False by auto
qed

section \<open>Mount points\<close>

lemma shape_prefix:
  assumes "\<forall>p \<in> set st. good_part p" and "\<forall>p \<in> set t. good_part p"
    and "s = [] \<or> s = ''/''" and "r = [] \<or> hd r = CHR ''/''" and "body st @ s = body t @ r"
  shows "prefix t st"
  using assms(1,2,5)
proof (induction t arbitrary: st)
  case (Cons q t)
  have h: "hd (body st @ s) = CHR ''/''" using Cons.prems(3) by simp
  show ?case
  proof (cases st)
    case Nil
    then show ?thesis using Cons.prems assms(3) by (auto simp: good_part_def)
  next
    case (Cons p st')
    have e: "p @ (body st' @ s) = q @ (body t @ r)" using Cons.prems(3) Cons by simp
    have n: "body st' @ s = [] \<or> hd (body st' @ s) = CHR ''/''" "body t @ r = [] \<or> hd (body t @ r) = CHR ''/''"
    proof -
      show "body st' @ s = [] \<or> hd (body st' @ s) = CHR ''/''" using assms(3) by (cases st') auto
      show "body t @ r = [] \<or> hd (body t @ r) = CHR ''/''" using assms(4) by (cases t) auto
    qed
    have ns: "CHR ''/'' \<notin> set p" "CHR ''/'' \<notin> set q"
      using Cons.prems(1,2) Cons good_no_slash by auto
    have tw: "takeWhile (\<lambda>c. c \<noteq> CHR ''/'') (x @ y) = x"
      if "CHR ''/'' \<notin> set x" "y = [] \<or> hd y = CHR ''/''" for x y :: string
    proof -
      have "takeWhile (\<lambda>c. c \<noteq> CHR ''/'') y = []" using that(2) by (cases y) auto
      then show ?thesis using that(1) by (subst takeWhile_append2) auto
    qed
    have "p = q" using tw [OF ns(1) n(1)] tw [OF ns(2) n(2)] e by simp
    then have "prefix t st'" using Cons.IH [of st'] Cons.prems(1,2) Cons e by simp
    then show ?thesis using \<open>p = q\<close> Cons by simp
  qed
qed simp

lemma mount_match_prefix:
  assumes path: "shape st path" and target: "\<forall>p \<in> set t. good_part p"
  shows "mount_path_match path (render t) \<longleftrightarrow> t \<noteq> [] \<and> prefix t st"
proof
  assume m: "mount_path_match path (render t)"
  then have t: "t \<noteq> []" by (auto simp: mount_path_match_def render_def split: if_splits)
  have tk: "take (length (body t)) path = body t"
    "length path = length (body t) \<or> path ! length (body t) = CHR ''/''"
    using m t by (auto simp: mount_path_match_def render_def split: if_splits)
  have eq: "path = body t @ drop (length (body t)) path" by (metis tk(1) append_take_drop_id)
  have hd: "drop (length (body t)) path = [] \<or> hd (drop (length (body t)) path) = CHR ''/''"
    using tk(2) by (cases "length (body t) < length path") (auto simp: hd_drop_conv_nth)
  have st: "\<forall>p \<in> set st. good_part p" using path by (simp add: shape_def)
  consider "st = []" "path = ''/''" | "path = body st" | "path = body st @ ''/''"
    using path by (auto simp: shape_def render_def split: if_splits)
  then show "t \<noteq> [] \<and> prefix t st"
  proof cases
    case 1
    then have "body [] @ ''/'' = body t @ drop (length (body t)) path" using eq by simp
    then show ?thesis using shape_prefix [OF _ target _ hd, of "[]" "''/''"] t 1 by simp
  next
    case 2
    then have "body st @ [] = body t @ drop (length (body t)) path" using eq by simp
    then show ?thesis using shape_prefix [OF st target _ hd, of "[]"] t by blast
  next
    case 3
    then have "body st @ ''/'' = body t @ drop (length (body t)) path" using eq by simp
    then show ?thesis using shape_prefix [OF st target _ hd, of "''/''"] t by blast
  qed
next
  assume a: "t \<noteq> [] \<and> prefix t st"
  then obtain u where u: "st = t @ u" by (auto simp: prefix_def)
  have b: "body st = body t @ body u" by (simp add: u body_def)
  obtain s where s: "path = body t @ body u @ s" "s = [] \<or> s = ''/''"
    using path a b by (auto simp: shape_def render_def u split: if_splits)
  obtain q t' where q: "t = q # t'" using a by (cases t) auto
  then have "1 < length (body t)" using target by (cases q) (auto simp: good_part_def)
  moreover have "body u @ s = [] \<or> hd (body u @ s) = CHR ''/''" using s(2) by (cases u) auto
  ultimately
  show "mount_path_match path (render t)"
    using a s by (auto simp: mount_path_match_def render_def nth_append hd_conv_nth)
qed


section \<open>ISO paths\<close>

fun join :: "string list \<Rightarrow> string" where
  "join [] = []"
| "join [p] = p"
| "join (p # ps) = p @ ''/'' @ join ps"

definition iso_case :: "bool \<Rightarrow> string \<Rightarrow> string" where
  "iso_case upper = map (\<lambda>c. if upper then iso_upper c else c)"

definition iso_rest :: "bool \<Rightarrow> string \<Rightarrow> string" where
  "iso_rest upper s = join (map (iso_case upper) (parts s))"

lemma iso_rest_char:
  assumes "\<not> is_sep c"
  shows "iso_rest upper (c # s) = (if upper then iso_upper c else c) #
    (if s = [] \<or> \<not> is_sep (hd s) then iso_rest upper s
     else if parts s = [] then [] else CHR ''/'' # iso_rest upper s)"
proof (cases "s = [] \<or> is_sep (hd s)")
  case True
  have "parts ([c] @ s) = [c] # parts s" by (rule parts_part) (use assms True in \<open>auto simp: good_part_def\<close>)
  then show ?thesis using True by (cases "parts s") (auto simp: iso_rest_def iso_case_def)
next
  case False
  let ?p = "part_of s" and ?r = "after_part s"
  have r: "?r = [] \<or> is_sep (hd ?r)" using hd_dropWhile [of "\<lambda>c. \<not> is_sep c" s] by blast
  have g: "good_part ?p" using False part_of_good by blast
  have g': "good_part (c # ?p)" using g assms by (simp add: good_part_def)
  have "parts s = ?p # parts ?r" using parts_part [OF g r] by simp
  moreover have "parts (c # s) = (c # ?p) # parts ?r" using parts_part [OF g' r] by simp
  ultimately show ?thesis using False by (cases "parts ?r") (auto simp: iso_rest_def iso_case_def)
qed

lemma parts_Nil_iff: "parts s = [] \<longleftrightarrow> skip_seps s = []"
  by (subst parts.simps) (simp add: Let_def)

lemma parts_skip: "parts (skip_seps s) = parts s"
  by (induction s) auto

lemma iso_upper_sep: "\<not> is_sep c \<Longrightarrow> iso_upper c \<noteq> CHR ''/''"
proof
  assume ns: "\<not> is_sep c" and u: "iso_upper c = CHR ''/''"
  let ?k = "of_char c :: nat"
  have "97 \<le> ?k \<and> ?k \<le> 122"
    using ns u by (auto simp: iso_upper_def Let_def split: if_splits)
  then have "(?k - 32) mod 256 = ?k - 32" by (intro mod_less) linarith
  then have "(of_char (iso_upper c) :: nat) = ?k - 32"
    using \<open>97 \<le> ?k \<and> ?k \<le> 122\<close> by (simp add: iso_upper_def Let_def)
  then have "?k - 32 = 47" using u by simp
  then show False using \<open>97 \<le> ?k \<and> ?k \<le> 122\<close> by linarith
qed

lemma iso_norm_spec:
  assumes "path = [] \<or> \<not> is_sep (hd path) \<or> out \<noteq> [] \<and> last out \<noteq> CHR ''/''" and "0 < cap" and "length out < cap"
  shows "iso_norm cap upper path out =
    (let res = out @ (if path \<noteq> [] \<and> is_sep (hd path) \<and> parts path \<noteq> [] then ''/'' else []) @ iso_rest upper path in
     if length res < cap then Inr res else Inl ENAMETOOLONG)"
  using assms
proof (induction cap upper path out rule: iso_norm.induct)
  case (1 cap upper path out)
  show ?case
  proof (cases path)
    case Nil
    then show ?thesis using 1(6) by (simp add: iso_norm.simps iso_rest_def)
  next
    case (Cons c rest)
    show ?thesis
    proof (cases "is_sep c")
      case True
      have o: "out \<noteq> []" "last out \<noteq> CHR ''/''" using 1(4) Cons True by auto
      have pr: "parts path = parts (skip_seps rest)" using Cons True parts_skip by simp
      show ?thesis
      proof (cases "skip_seps rest = []")
        case True': True
        have "parts path = []" unfolding pr True' by simp
        then show ?thesis using Cons True True' 1(6)
          by (subst iso_norm.simps) (simp add: Let_def iso_rest_def)
      next
        case False
        have h: "\<not> is_sep (hd (skip_seps rest))" using skip_hd [OF False] .
        have ne: "parts path \<noteq> []" using False pr parts_Nil_iff parts_skip by metis
        have u: "iso_norm cap upper path out = (if cap \<le> length out + 1 then Inl ENAMETOOLONG
            else iso_norm cap upper (skip_seps rest) (out @ ''/''))"
          using Cons True False o by (subst iso_norm.simps) (auto simp: Let_def)
        have rr: "iso_rest upper path = iso_rest upper (skip_seps rest)" using pr by (simp add: iso_rest_def)
        show ?thesis
        proof (cases "cap \<le> length out + 1")
          case True'': True
          then show ?thesis using u Cons True ne by (simp add: Let_def)
        next
          case False'': False
          have no: "\<not> (out = [] \<or> last out = CHR ''/'')" using o by blast
          have "iso_norm cap upper (skip_seps rest) (out @ ''/'') =
              (let res = (out @ ''/'') @ iso_rest upper (skip_seps rest) in
               if length res < cap then Inr res else Inl ENAMETOOLONG)"
            using 1(2) [OF Cons True refl False no False''] h 1(5) False'' by (auto simp: Let_def)
          then show ?thesis using u Cons True ne rr False'' by simp
        qed
      qed
    next
      case False
      let ?c = "if upper then iso_upper c else c"
      have u: "iso_norm cap upper path out = (if cap \<le> length out + 1 then Inl ENAMETOOLONG
          else iso_norm cap upper rest (out @ [?c]))"
        using Cons False by (subst iso_norm.simps) (simp add: Let_def)
      have rr: "iso_rest upper path = ?c # (if rest = [] \<or> \<not> is_sep (hd rest) then iso_rest upper rest
          else if parts rest = [] then [] else CHR ''/'' # iso_rest upper rest)"
        unfolding Cons by (rule iso_rest_char [OF False])
      have z: "parts rest = [] \<Longrightarrow> iso_rest upper rest = []" by (simp add: iso_rest_def)
      show ?thesis
      proof (cases "cap \<le> length out + 1")
        case True
        then show ?thesis using u rr Cons False by (simp add: Let_def)
      next
        case nl: False
        have cs: "?c \<noteq> CHR ''/''" using False iso_upper_sep sep_slash by (metis (full_types))
        have "iso_norm cap upper rest (out @ [?c]) =
            (let res = (out @ [?c]) @ (if rest \<noteq> [] \<and> is_sep (hd rest) \<and> parts rest \<noteq> [] then ''/'' else []) @
               iso_rest upper rest in if length res < cap then Inr res else Inl ENAMETOOLONG)"
          using 1(3) [OF Cons False nl] cs nl 1(5) by auto
        then show ?thesis using u rr Cons False nl z by auto
      qed
    qed
  qed
qed


lemma join_last: "\<forall>p \<in> set ps. good_part p \<Longrightarrow> ps \<noteq> [] \<Longrightarrow> last (join (map (iso_case upper) ps)) \<noteq> CHR ''/''"
proof (induction ps rule: join.induct)
  case (2 p)
  then have "p \<noteq> []" "\<not> is_sep (last p)" by (auto simp: good_part_def)
  then show ?case using iso_upper_sep [of "last p"] by (auto simp: iso_case_def last_map)
next
  case (3 p q ps)
  have "join (map (iso_case upper) (q # ps)) \<noteq> []"
    using 3(2) by (cases ps) (auto simp: good_part_def iso_case_def)
  then show ?case using 3 by simp
qed simp

lemma iso_path_normalize_spec:
  assumes "0 < cap"
  shows "iso_path_normalize path cap upper =
    (if length (iso_rest upper path) < cap then Inr (iso_rest upper path) else Inl ENAMETOOLONG)"
proof -
  have h: "skip_seps path = [] \<or> \<not> is_sep (hd (skip_seps path))" using skip_hd by blast
  have r: "iso_rest upper (skip_seps path) = iso_rest upper path" by (simp add: iso_rest_def parts_skip)
  have "iso_norm cap upper (skip_seps path) [] =
      (if length (iso_rest upper path) < cap then Inr (iso_rest upper path) else Inl ENAMETOOLONG)"
    using iso_norm_spec [of "skip_seps path" "[]" cap upper] h assms r by (auto simp: Let_def)
  moreover have "iso_rest upper path = [] \<or> last (iso_rest upper path) \<noteq> CHR ''/''"
  proof (cases "parts path = []")
    case False
    then show ?thesis using join_last [OF _ False] parts_good by (auto simp: iso_rest_def)
  qed (simp add: iso_rest_def)
  ultimately show ?thesis using assms by (auto simp: iso_path_normalize_def)
qed

section \<open>Properties\<close>

text \<open>
  C10: the kernel resolves a path the way a path is meant: on the components. The absolute path
  \<^verbatim>\<open>normalize_abs_path\<close> returns fits the buffer and its components are those of the argument with
  \<open>.\<close> dropped and \<open>..\<close> removing the component before it, resolved from the root for an absolute path
  and from the working directory for a relative one; \<open>..\<close> never climbs above the root. The working
  directory itself is such a path, and stays one.
\<close>

theorem normalize_resolves:
  assumes "shape st cwd" and "length cwd < cap" and "normalize_abs_path cwd path cap = Inr out"
  shows "parts out = resolve (parts path) (if path \<noteq> [] \<and> is_sep (hd path) then [] else parts cwd) \<and>
    hd out = CHR ''/'' \<and> length out < cap \<and> (\<exists>st'. shape st' out)"
proof -
  note n = normalize_shape [OF assms]
  then have "hd out = CHR ''/''"
    by (auto simp: shape_def render_def split: if_splits) (metis body_simps(2) hd_append2 list.exhaust list.sel(1) body_Nil_iff append_Cons)+
  then show ?thesis using n shape_parts [OF assms(1)] shape_parts by auto
qed

theorem normalize_resolves_witness:
  "parts ''/cd/game'' = resolve (parts ''.././cd/game'') (parts ''/data'')"
proof -
  have sh: "shape [''data''] ''/data''" by (simp add: shape_def render_def good_part_def is_sep_def)
  have "normalize_abs_path ''/data'' ''.././cd/game'' 256 = Inr ''/cd/game''" by code_simp
  from normalize_resolves [OF sh _ this] show ?thesis by (simp add: is_sep_def)
qed

text \<open>
  C11: a mount point claims exactly the paths at or below it. For a normalised path and the canonical
  spelling of a mount point, \<^verbatim>\<open>mount_path_match\<close> accepts if and only if the mount point is not the root
  and its components are a prefix of the path's: \<^verbatim>\<open>/cd\<close> never claims \<^verbatim>\<open>/cdrom\<close>.
\<close>

theorem mount_match_components:
  assumes "shape st path" and "\<forall>p \<in> set t. good_part p"
  shows "mount_path_match path (render t) \<longleftrightarrow> t \<noteq> [] \<and> prefix t (parts path)"
  using mount_match_prefix [OF assms] shape_parts [OF assms(1)] by simp

theorem mount_match_components_witness:
  "mount_path_match ''/cd/a'' ''/cd'' \<and> \<not> mount_path_match ''/cdrom/a'' ''/cd''"
proof -
  have s: "shape [''cd'', ''a''] ''/cd/a''" "shape [''cdrom'', ''a''] ''/cdrom/a''"
    by (simp_all add: shape_def render_def good_part_def is_sep_def)
  have t: "\<forall>p \<in> set [''cd'']. good_part p" by (simp add: good_part_def is_sep_def)
  have r: "render [''cd''] = ''/cd''" by (simp add: render_def)
  show ?thesis
    using mount_match_components [OF s(1) t] mount_match_components [OF s(2) t] shape_parts [OF s(1)]
      shape_parts [OF s(2)] r by simp
qed

text \<open>
  the path handed to the ISO 9660 reader is canonical and complete: its components joined by
  single slashes, upper-cased unless the volume has Joliet names, with no leading or trailing
  separator; the call fails only when that string and its NUL do not fit the buffer.
\<close>

lemma iso_path_canonical:
  assumes "0 < cap"
  shows "iso_path_normalize path cap upper =
    (let res = join (map (iso_case upper) (parts path)) in
     if length res < cap then Inr res else Inl ENAMETOOLONG)"
  using iso_path_normalize_spec [OF assms, of path upper] by (simp add: iso_rest_def Let_def)

text \<open>
  a mount point that ends in \<open>..\<close> is unreachable. The normalised path keeps the slash before the
  component that \<open>..\<close> removed, and a target spelled with a trailing slash matches none of the paths
  below it.
\<close>

lemma dotdot_mount_unreachable:
  "normalize_abs_path ''/'' ''/x/y/..'' 256 = Inr ''/x/'' \<and>
   normalize_abs_path ''/'' ''/x/file'' 256 = Inr ''/x/file'' \<and>
   \<not> mount_path_match ''/x/file'' ''/x/'' \<and> \<not> mount_path_match ''/x'' ''/x/''"
  by code_simp

end
