(* ===== verification/Save.thy ===== *)
theory Save
  imports Memory Platform
begin

text \<open>
  The Pocket save window (\<^verbatim>\<open>targets/pocket/save.c\<close>): the map from data-slot ids to fixed CRAM0
  windows, the word-wise copy into CRAM0, the ownership of the CRAM0 multiplexer, slot reads and
  writes, the size commits and the security wipe. The fences and settle delays are timing only and
  have no counterpart here.
\<close>

section \<open>State\<close>

datatype dt_commit = Dt_word u32 u32 | Dt_slot u8 u32

record save_hw =
  cram :: mem
  cpu_hold_count :: u32
  cpu_owns_cram :: bool
  dt_commits :: "dt_commit list"
  warned_missing :: bool

record nv_window =
  nv_base :: u32
  nv_bridge :: u32
  nv_capacity :: u32
  nv_dt_slot :: u8

definition NV_SLOT_ID_SHARED_CONFIG :: u32 where "NV_SLOT_ID_SHARED_CONFIG = 8"
definition NV_SLOT_ID_DUKE_SETTINGS :: u32 where "NV_SLOT_ID_DUKE_SETTINGS = 9"
definition NV_SLOT_ID_SAVE_BASE :: u32 where "NV_SLOT_ID_SAVE_BASE = 10"
definition NV_DT_SLOT_PRESAVE :: u8 where "NV_DT_SLOT_PRESAVE = 0x0F"

definition save_meta_addr :: "target \<Rightarrow> u32" where
  "save_meta_addr T = save_region_addr T + save_max_slots T * save_slot_size T"

definition presave_region_addr :: "target \<Rightarrow> u32" where
  "presave_region_addr T = cram0_base T + cram0_presave_offset T"

definition slot_base :: "target \<Rightarrow> u32 \<Rightarrow> u32" where
  "slot_base T slot = save_region_addr T + slot * save_slot_size T"

definition nvslot_map :: "target \<Rightarrow> u32 \<Rightarrow> nv_window option" where
  "nvslot_map T slot_id =
     (if slot_id = NV_SLOT_ID_SHARED_CONFIG then
        Some \<lparr>nv_base = save_meta_addr T,
              nv_bridge = cram0_bridge T + cram0_save_offset T + save_max_slots T * save_slot_size T,
              nv_capacity = save_slot_size T, nv_dt_slot = NV_DT_SLOT_PRESAVE\<rparr>
      else if slot_id = NV_SLOT_ID_DUKE_SETTINGS then
        Some \<lparr>nv_base = presave_region_addr T, nv_bridge = cram0_bridge T + cram0_presave_offset T,
              nv_capacity = presave_slot_size T, nv_dt_slot = NV_DT_SLOT_PRESAVE\<rparr>
      else if NV_SLOT_ID_SAVE_BASE \<le> slot_id \<and> slot_id < NV_SLOT_ID_SAVE_BASE + save_max_slots T then
        (let s = slot_id - NV_SLOT_ID_SAVE_BASE in
         Some \<lparr>nv_base = slot_base T s,
               nv_bridge = cram0_bridge T + cram0_save_offset T + s * save_slot_size T,
               nv_capacity = save_slot_size T, nv_dt_slot = ucast s\<rparr>)
      else None)"

section \<open>Copies\<close>

definition copy_from_cram :: "u32 \<Rightarrow> nat \<Rightarrow> mem \<Rightarrow> u8 list" where
  "copy_from_cram src len m = map (\<lambda>i. m (src + of_nat i)) [0..<len]"

definition load_le :: "u32 \<Rightarrow> mem \<Rightarrow> u32" where
  "load_le a m = le32 (m a) (m (a + 1)) (m (a + 2)) (m (a + 3))"

definition store_le :: "u32 \<Rightarrow> u32 \<Rightarrow> mem \<Rightarrow> mem" where
  "store_le a w m = m(a := byte_at 0 w, a + 1 := byte_at 1 w, a + 2 := byte_at 2 w, a + 3 := byte_at 3 w)"

definition put_lane :: "nat \<Rightarrow> u8 \<Rightarrow> u32 \<Rightarrow> u32" where
  "put_lane k b w = (let shift = k * 8 in
     (w AND NOT (push_bit shift 0xFF)) OR push_bit shift (ucast b))"

definition patch_word :: "nat \<Rightarrow> u8 list \<Rightarrow> u32 \<Rightarrow> u32" where
  "patch_word lane bs w = fold (\<lambda>i w. put_lane (lane + i) (bs ! i) w) [0..<length bs] w"

lemma lane_lt: "unat ((a :: u32) AND 3) < 4"
proof -
  have "a AND 3 \<le> 3" by (rule word_and_le1)
  then show ?thesis by (simp add: word_le_nat_alt)
qed

function copy_to_cram :: "u32 \<Rightarrow> u8 list \<Rightarrow> nat \<Rightarrow> mem \<Rightarrow> mem" where
  "copy_to_cram addr src rd m =
     (if rd < length src then
        let word_addr = (addr + of_nat rd) AND NOT 3; lane = unat ((addr + of_nat rd) AND 3);
            chunk = min (4 - lane) (length src - rd)
        in copy_to_cram addr src (rd + chunk)
             (store_le word_addr (patch_word lane (take chunk (drop rd src)) (load_le word_addr m)) m)
      else m)"
  by pat_completeness auto

termination
proof (relation "measure (\<lambda>(_, src, rd, _). length src - rd)", simp)
  fix addr src rd m x xa xb
  assume "rd < length (src :: u8 list)" "xa = unat (addr + word_of_nat rd AND (3 :: u32))"
    "xb = min (4 - xa) (length src - rd)"
  then show "((addr, src, rd + xb, store_le x (patch_word xa (take xb (drop rd src)) (load_le x m)) m),
      addr, src, rd, m) \<in> measure (\<lambda>(_, src, rd, _). length src - rd)"
    using lane_lt [of "addr + of_nat rd"] by simp
qed

declare copy_to_cram.simps [simp del]

section \<open>Ownership\<close>

definition of_save_init :: "save_hw \<Rightarrow> save_hw" where
  "of_save_init s = s\<lparr>cpu_hold_count := 0, cpu_owns_cram := False\<rparr>"

definition of_save_begin_cpu :: "save_hw \<Rightarrow> save_hw" where
  "of_save_begin_cpu s = s\<lparr>cpu_hold_count := cpu_hold_count s + 1, cpu_owns_cram := True\<rparr>"

definition of_save_end_cpu :: "save_hw \<Rightarrow> save_hw" where
  "of_save_end_cpu s =
     (if cpu_hold_count s = 0 then s\<lparr>cpu_owns_cram := False\<rparr>
      else let c = cpu_hold_count s - 1 in
        if c = 0 then s\<lparr>cpu_hold_count := c, cpu_owns_cram := False\<rparr> else s\<lparr>cpu_hold_count := c\<rparr>)"

definition cram0_wipe_words :: "target \<Rightarrow> u32 \<Rightarrow> u32 \<Rightarrow> mem \<Rightarrow> mem" where
  "cram0_wipe_words T off len m =
     fold (\<lambda>i m. store_le (cram0_base T + off + 4 * of_nat i) 0 m) [0..<unat (drop_bit 2 len)] m"

definition of_save_security_wipe :: "target \<Rightarrow> save_hw \<Rightarrow> save_hw" where
  "of_save_security_wipe T s0 =
     (let s1 = of_save_begin_cpu s0;
          m1 = cram0_wipe_words T 0 (cram0_presave_offset T) (cram s1);
          m2 = cram0_wipe_words T (cram0_scratch_offset T)
                 ((cram0_app_dma_offset T + cram0_app_dma_size T) - cram0_scratch_offset T) m1
      in of_save_end_cpu (s1\<lparr>cram := m2\<rparr>))"

section \<open>Slot operations\<close>

definition of_nvslot_is_supported :: "target \<Rightarrow> u32 \<Rightarrow> bool" where
  "of_nvslot_is_supported T slot_id = (nvslot_map T slot_id \<noteq> None)"

definition of_nvslot_capacity :: "target \<Rightarrow> u32 \<Rightarrow> u32" where
  "of_nvslot_capacity T slot_id =
     (case nvslot_map T slot_id of None \<Rightarrow> 0 | Some mp \<Rightarrow> nv_capacity mp)"

definition of_nvslot_read :: "target \<Rightarrow> u32 \<Rightarrow> u32 \<Rightarrow> u32 \<Rightarrow> save_hw \<Rightarrow> u8 list option \<times> save_hw" where
  "of_nvslot_read T slot_id off len s =
     (case nvslot_map T slot_id of None \<Rightarrow> (None, s)
      | Some mp \<Rightarrow>
          if nv_capacity mp < off \<or> nv_capacity mp - off < len then (None, s)
          else let s1 = of_save_begin_cpu s;
                   bs = copy_from_cram (nv_base mp + off) (unat len) (cram s1)
               in (Some bs, of_save_end_cpu s1))"

definition of_nvslot_write :: "target \<Rightarrow> u32 \<Rightarrow> u8 list \<Rightarrow> u32 \<Rightarrow> save_hw \<Rightarrow> int \<times> save_hw" where
  "of_nvslot_write T slot_id bs off s =
     (case nvslot_map T slot_id of None \<Rightarrow> (-1, s)
      | Some mp \<Rightarrow>
          if nv_capacity mp < off \<or> nv_capacity mp - off < of_nat (length bs) then (-1, s)
          else let s1 = of_save_begin_cpu s
               in (int (length bs),
                   of_save_end_cpu (s1\<lparr>cram := copy_to_cram (nv_base mp + off) bs 0 (cram s1)\<rparr>)))"

text \<open>The size commit. \<open>hw\<close> is the feature bit, \<open>entry_of\<close> the scan of the host's datatable.\<close>

definition nvslot_commit_size ::
  "bool \<Rightarrow> (u32 \<Rightarrow> u32 option) \<Rightarrow> u32 \<Rightarrow> nv_window \<Rightarrow> u32 \<Rightarrow> save_hw \<Rightarrow> int \<times> save_hw" where
  "nvslot_commit_size hw entry_of slot_id mp sz s =
     (if hw then
        (case entry_of slot_id of
           None \<Rightarrow> (-1, s\<lparr>warned_missing := True\<rparr>)
         | Some e \<Rightarrow> (0, s\<lparr>dt_commits := dt_commits s @ [Dt_word (e * 2 + 1) sz]\<rparr>))
      else (0, s\<lparr>dt_commits := dt_commits s @ [Dt_slot (nv_dt_slot mp) sz]\<rparr>))"

definition of_nvslot_set_size ::
  "target \<Rightarrow> bool \<Rightarrow> (u32 \<Rightarrow> u32 option) \<Rightarrow> u32 \<Rightarrow> u32 \<Rightarrow> save_hw \<Rightarrow> int \<times> save_hw" where
  "of_nvslot_set_size T hw entry_of slot_id sz s =
     (case nvslot_map T slot_id of None \<Rightarrow> (-1, s)
      | Some mp \<Rightarrow>
          nvslot_commit_size hw entry_of slot_id mp
            (if nv_capacity mp < sz then nv_capacity mp else sz) s)"

end
