(* ===== verification/SaveInv.thy ===== *)
theory SaveInv
  imports Save
begin

text \<open>
  What the save window promises. The word-wise copy stores exactly the bytes it is given; the slots'
  windows are disjoint and lie in the part of CRAM0 the host persists. The locale \<open>nv_store\<close> is the
  contract of a nonvolatile store (bounded windows, a read returns what was last written, a write
  to one slot leaves the others alone) that the file layer builds on.
\<close>

section \<open>Word patching\<close>

lemma put_lane_mask:
  "put_lane k b w = (w AND NOT (push_bit (k * 8) (mask 8))) OR push_bit (k * 8) (ucast b)"
  by (simp add: put_lane_def Let_def mask_eq_exp_minus_1)

lemma byte_at_put_lane:
  assumes "k < 4" and "j < 4"
  shows "byte_at j (put_lane k b w) = (if j = k then b else byte_at j w)"
proof (cases "j = k")
  case True
  then show ?thesis using assms
    by (intro bit_word_eqI) (auto simp: bit_byte_at put_lane_mask bit_simps)
next
  case False
  have "8 * j + n < 8 * k \<or> 8 * k + 8 \<le> 8 * j + n" if "n < 8" for n
    using that False by (cases "j < k") auto
  then show ?thesis using assms False
    by (intro bit_word_eqI)
      (auto simp: bit_byte_at put_lane_mask bit_simps not_less dest: bit_imp_le_length)
qed

lemma byte_at_patch:
  assumes "lane + length bs \<le> 4" and "j < 4"
  shows "byte_at j (patch_word lane bs w) =
    (if lane \<le> j \<and> j < lane + length bs then bs ! (j - lane) else byte_at j w)"
proof -
  have "byte_at j (fold (\<lambda>i w. put_lane (lane + i) (bs ! i) w) [0..<n] w) =
      (if lane \<le> j \<and> j < lane + n then bs ! (j - lane) else byte_at j w)" if "n \<le> length bs" for n
    using that
  proof (induction n)
    case (Suc n)
    then show ?case using assms by (auto simp: byte_at_put_lane)
  qed auto
  then show ?thesis by (simp add: patch_word_def)
qed

lemma store_le_at:
  "store_le a w m x = (if unat (x - a) < 4 then byte_at (unat (x - a)) w else m x)"
proof -
  have "unat (x - a) < 4 \<longleftrightarrow> x = a \<or> x = a + 1 \<or> x = a + 2 \<or> x = a + 3"
  proof
    assume "unat (x - a) < 4"
    then have "x - a < 4" by (simp add: word_less_nat_alt)
    then have "x - a = 0 \<or> x - a = 1 \<or> x - a = 2 \<or> x - a = 3"
      by (auto simp: word_less_nat_alt word_unat_eq_iff)
    then show "x = a \<or> x = a + 1 \<or> x = a + 2 \<or> x = a + 3" by (auto simp: algebra_simps)
  qed auto
  then show ?thesis by (auto simp: store_le_def)
qed

lemma load_le_byte: "unat (x - a) < 4 \<Longrightarrow> byte_at (unat (x - a)) (load_le a m) = m x"
proof -
  assume "unat (x - a) < 4"
  then have "store_le a (load_le a m) m x = byte_at (unat (x - a)) (load_le a m)"
    by (simp add: store_le_at)
  moreover have "store_le a (load_le a m) m = m"
    by (simp add: store_le_def load_le_def byte_at_le32)
  ultimately show ?thesis by simp
qed

lemma aligned_lane: "(a AND NOT 3) + (a AND 3) = (a :: u32)"
proof -
  have "(a AND NOT 3) + (a AND 3) = (a AND NOT 3) OR (a AND 3)"
    by (rule disjunctive_add) (auto simp: bit_simps)
  also have "\<dots> = a" by (rule bit_word_eqI) (auto simp: bit_simps)
  finally show ?thesis .
qed

text \<open>One step of the copy stores its chunk and nothing else.\<close>

lemma chunk_store:
  assumes "lane = unat ((a :: u32) AND 3)" and "lane + length bs \<le> 4"
  shows "store_le (a AND NOT 3) (patch_word lane bs (load_le (a AND NOT 3) m)) m = mem_store a bs m"
proof
  fix x
  let ?w = "a AND NOT 3"
  have l: "of_nat lane = a AND 3" using assms(1) by simp
  have d: "x - ?w = x - a + of_nat lane"
  proof -
    have "a = ?w + of_nat lane" using aligned_lane [of a] l by simp
    then have "x - a = x - (?w + of_nat lane)" by (rule arg_cong)
    then show ?thesis by (simp add: algebra_simps)
  qed
  show "store_le ?w (patch_word lane bs (load_le ?w m)) m x = mem_store a bs m x"
  proof (cases "unat (x - a) < length bs")
    case True
    then have u: "unat (x - ?w) = unat (x - a) + lane"
      unfolding d using True assms(2) by (intro unat_shift [of x a 4 lane]) auto
    then have lt: "unat (x - ?w) < 4" using True assms(2) by linarith
    then show ?thesis using True u assms(2) by (simp add: store_le_at mem_store_at byte_at_patch)
  next
    case False
    have "\<not> (lane \<le> unat (x - ?w) \<and> unat (x - ?w) < lane + length bs)"
    proof
      assume r: "lane \<le> unat (x - ?w) \<and> unat (x - ?w) < lane + length bs"
      have e: "unat (x - a) = unat ((x - ?w) - of_nat lane)" by (simp only: d add_diff_cancel_right')
      have le: "of_nat lane \<le> x - ?w"
        using r assms by (simp add: word_le_nat_alt unat_of_nat take_bit_eq_mod)
      have "unat (of_nat lane :: u32) = lane" using assms by (simp add: unat_of_nat take_bit_eq_mod)
      then have "unat (x - a) = unat (x - ?w) - lane" unfolding e unat_sub [OF le] by simp
      then show False using r False by linarith
    qed
    then show ?thesis
      using False assms(2) load_le_byte
      by (auto simp: store_le_at mem_store_at byte_at_patch)
  qed
qed

lemma copy_to_cram_from:
  assumes "rd \<le> length src" and "length src \<le> 2 ^ 32"
  shows "copy_to_cram addr src rd (mem_store addr (take rd src) m) = mem_store addr src m"
  using assms
proof (induction "length src - rd" arbitrary: rd rule: less_induct)
  case less
  show ?case
  proof (cases "rd < length src")
    case False
    then show ?thesis using less.prems by (subst copy_to_cram.simps) simp
  next
    case True
    let ?a = "addr + of_nat rd"
    let ?lane = "unat (?a AND 3)"
    let ?c = "min (4 - ?lane) (length src - rd)"
    let ?bs = "take ?c (drop rd src)"
    let ?m = "mem_store addr (take rd src) m"
    have lane: "?lane < 4" by (rule lane_lt)
    have len: "length ?bs = ?c" using True by simp
    have c: "?lane + length ?bs \<le> 4" using lane len by simp
    have s: "store_le (?a AND NOT 3) (patch_word ?lane ?bs (load_le (?a AND NOT 3) ?m)) ?m = mem_store ?a ?bs ?m"
      by (rule chunk_store [OF refl c])
    have "mem_store ?a ?bs ?m = mem_store addr (take rd src @ ?bs) m"
      using mem_store_append [of "take rd src" ?bs addr m] True less.prems by simp
    also have "take rd src @ ?bs = take (rd + ?c) src" by (simp add: take_add)
    finally have st: "mem_store ?a ?bs ?m = mem_store addr (take (rd + ?c) src) m" .
    have "copy_to_cram addr src rd ?m = copy_to_cram addr src (rd + ?c) (mem_store ?a ?bs ?m)"
      using True by (subst copy_to_cram.simps) (simp only: Let_def s if_True)
    also have "\<dots> = mem_store addr src m"
      unfolding st by (rule less.hyps) (use True lane less.prems in auto)
    finally show ?thesis .
  qed
qed

lemma copy_to_cram: "length src \<le> 2 ^ 32 \<Longrightarrow> copy_to_cram addr src 0 m = mem_store addr src m"
  using copy_to_cram_from [of 0 src addr m] by (simp add: mem_store_def)


section \<open>Windows\<close>

definition window :: "nv_window \<Rightarrow> nat \<times> nat" where
  "window mp = (unat (nv_base mp), unat (nv_base mp) + unat (nv_capacity mp))"

definition nv_layout :: "target \<Rightarrow> bool" where
  "nv_layout T \<longleftrightarrow> (\<forall>i mp. nvslot_map T i = Some mp \<longrightarrow>
     unat (cram0_base T) + unat (cram0_presave_offset T) \<le> fst (window mp) \<and>
     snd (window mp) \<le> unat (cram0_base T) + unat (cram0_scratch_offset T) \<and>
     (\<forall>j mp'. nvslot_map T j = Some mp' \<longrightarrow> i \<noteq> j \<longrightarrow>
        snd (window mp) \<le> fst (window mp') \<or> snd (window mp') \<le> fst (window mp)))"

lemma pocket_map:
  assumes "nvslot_map pocket i = Some mp"
  shows "8 \<le> unat i \<and> unat i < 20 \<and> unat (nv_capacity mp) = 0x40000 \<and>
    unat (nv_base mp) = (if unat i = 8 then 0x30380000 else if unat i = 9 then 0x300C0000
      else 0x30100000 + (unat i - 10) * 0x40000)"
proof -
  note d = NV_SLOT_ID_SHARED_CONFIG_def NV_SLOT_ID_DUKE_SETTINGS_def NV_SLOT_ID_SAVE_BASE_def
  have m: "save_max_slots pocket = 10" "save_slot_size pocket = 0x40000" by (simp_all add: pocket_def)
  consider "i = 8" | "i = 9" | "10 \<le> i \<and> i < 20"
    using assms by (auto simp: nvslot_map_def d m split: if_splits)
  then show ?thesis
  proof cases
    case 3
    have e: "unat (i - 10) = unat i - 10" using 3 by (simp add: unat_sub)
    have b: "10 \<le> unat i" "unat i < 20" using 3 by (simp_all add: word_le_nat_alt word_less_nat_alt)
    then have n: "i \<noteq> 8" "i \<noteq> 9" by auto
    have mp: "mp = \<lparr>nv_base = slot_base pocket (i - 10),
        nv_bridge = cram0_bridge pocket + cram0_save_offset pocket + (i - 10) * save_slot_size pocket,
        nv_capacity = save_slot_size pocket, nv_dt_slot = ucast (i - 10)\<rparr>"
      using assms 3 n by (simp add: nvslot_map_def d m Let_def)
    have "slot_base pocket (i - 10) = 0x30100000 + (i - 10) * 0x40000"
      by (simp add: slot_base_def save_region_addr_def pocket_def)
    moreover have "unat (0x30100000 + (i - 10) * (0x40000 :: u32)) = 0x30100000 + unat (i - 10) * 0x40000"
      using b e by (simp add: unat_word_ariths)
    ultimately show ?thesis using mp b e m n by auto
  qed (use assms in \<open>auto simp: nvslot_map_def d save_meta_addr_def presave_region_addr_def
      save_region_addr_def pocket_def\<close>)
qed

lemma pocket_layout: "nv_layout pocket"
  unfolding nv_layout_def
proof (intro allI impI)
  fix i mp
  assume i: "nvslot_map pocket i = Some mp"
  note pi = pocket_map [OF i]
  have c: "unat (cram0_base pocket) = 0x30000000" "unat (cram0_presave_offset pocket) = 0xC0000"
    "unat (cram0_scratch_offset pocket) = 0x400000" by (simp_all add: pocket_def)
  have apart: "snd (window mp) \<le> fst (window mp') \<or> snd (window mp') \<le> fst (window mp)"
    if j: "nvslot_map pocket j = Some mp'" "i \<noteq> j" for j mp'
  proof -
    have "unat i \<noteq> unat j" using j(2) by (simp add: word_unat_eq_iff)
    then have "unat i + 1 \<le> unat j \<or> unat j + 1 \<le> unat i" by linarith
    then have "10 \<le> unat i \<and> 10 \<le> unat j \<longrightarrow>
        (unat i - 10) * 0x40000 + 0x40000 \<le> (unat j - 10) * (0x40000 :: nat) \<or>
        (unat j - 10) * 0x40000 + 0x40000 \<le> (unat i - 10) * (0x40000 :: nat)"
      by auto
    then show ?thesis using pi pocket_map [OF j(1)] \<open>unat i \<noteq> unat j\<close>
      by (simp add: window_def) linarith
  qed
  have "unat i - 10 < 10" using pi by linarith
  then show "unat (cram0_base pocket) + unat (cram0_presave_offset pocket) \<le> fst (window mp) \<and>
     snd (window mp) \<le> unat (cram0_base pocket) + unat (cram0_scratch_offset pocket) \<and>
     (\<forall>j mp'. nvslot_map pocket j = Some mp' \<longrightarrow> i \<noteq> j \<longrightarrow>
        snd (window mp) \<le> fst (window mp') \<or> snd (window mp') \<le> fst (window mp))"
    using pi c apart by (auto simp: window_def)
qed

section \<open>The contract of a nonvolatile store\<close>

text \<open>The bytes of a slot, and the two operations seen as functions on them.\<close>

locale nv_store =
  fixes capacity :: "u32 \<Rightarrow> nat" and bytes :: "'s \<Rightarrow> u32 \<Rightarrow> u8 list"
    and get :: "u32 \<Rightarrow> u32 \<Rightarrow> u32 \<Rightarrow> 's \<Rightarrow> u8 list option \<times> 's"
    and put :: "u32 \<Rightarrow> u8 list \<Rightarrow> u32 \<Rightarrow> 's \<Rightarrow> int \<times> 's"
  assumes size: "length (bytes s i) = capacity i"
    and read_some: "unat off + unat n \<le> capacity i \<Longrightarrow> 0 < n \<Longrightarrow>
      \<exists>s'. get i off n s = (Some (take (unat n) (drop (unat off) (bytes s i))), s') \<and> bytes s' = bytes s"
    and read_none: "capacity i < unat off + unat n \<Longrightarrow> get i off n s = (None, s)"
    and write_some: "unat off + length bs \<le> capacity i \<Longrightarrow> bs \<noteq> [] \<Longrightarrow>
      \<exists>s'. put i bs off s = (int (length bs), s') \<and>
        bytes s' i = take (unat off) (bytes s i) @ bs @ drop (unat off + length bs) (bytes s i) \<and>
        (\<forall>j. j \<noteq> i \<longrightarrow> bytes s' j = bytes s j)"
    and write_none: "capacity i < unat off + length bs \<Longrightarrow> length bs < 2 ^ 32 \<Longrightarrow> put i bs off s = (-1, s)"
begin

lemma read_back:
  assumes "unat off + length bs \<le> capacity i" and "bs \<noteq> []" and "length bs < 2 ^ 32"
    and "put i bs off s = (r, s')"
  shows "r = int (length bs)" and "fst (get i off (of_nat (length bs)) s') = Some bs"
proof -
  have l: "unat (of_nat (length bs) :: u32) = length bs" using assms(3) by (simp add: unat_of_nat take_bit_eq_mod)
  obtain s1 where w: "put i bs off s = (int (length bs), s1)"
    "bytes s1 i = take (unat off) (bytes s i) @ bs @ drop (unat off + length bs) (bytes s i)"
    using write_some [OF assms(1,2)] by blast
  then show "r = int (length bs)" using assms(4) by simp
  have s1: "s' = s1" using assms(4) w(1) by simp
  have "0 < (of_nat (length bs) :: u32)" using l assms(2) by (simp add: word_less_nat_alt)
  then obtain s2 where "get i off (of_nat (length bs)) s1 =
      (Some (take (length bs) (drop (unat off) (bytes s1 i))), s2)"
    using read_some [of off "of_nat (length bs)" i s1] assms(1) l by auto
  then show "fst (get i off (of_nat (length bs)) s') = Some bs"
    using assms(1) size [of s i] by (simp add: s1 w(2))
qed

lemma other_slot:
  assumes "unat off + length bs \<le> capacity i" and "bs \<noteq> []" and "put i bs off s = (r, s')" and "j \<noteq> i"
  shows "bytes s' j = bytes s j"
  using write_some [OF assms(1,2), of s] assms(3,4) by auto

end

section \<open>The Pocket window provides it\<close>

definition slot_bytes :: "target \<Rightarrow> save_hw \<Rightarrow> u32 \<Rightarrow> u8 list" where
  "slot_bytes T s i = (case nvslot_map T i of None \<Rightarrow> []
     | Some mp \<Rightarrow> mem_bytes (cram s) (nv_base mp) (unat (nv_capacity mp)))"

lemma cram_hold [simp]: "cram (of_save_begin_cpu s) = cram s" "cram (of_save_end_cpu s) = cram s"
  by (simp_all add: of_save_begin_cpu_def of_save_end_cpu_def Let_def)

lemma slot_bytes_cong: "cram s' = cram s \<Longrightarrow> slot_bytes T s' = slot_bytes T s"
  by (rule ext) (simp add: slot_bytes_def split: option.splits)

lemma mem_bytes_store_window:
  assumes "k + length bs \<le> n" and "n < 2 ^ 32"
  shows "mem_bytes (mem_store (a + of_nat k) bs m) a n =
    take k (mem_bytes m a n) @ bs @ drop (k + length bs) (mem_bytes m a n)"
proof (rule nth_equalityI)
  fix i
  assume "i < length (mem_bytes (mem_store (a + of_nat k) bs m) a n)"
  then have i: "i < n" by simp
  have d: "a + of_nat i - (a + of_nat k) = (of_nat i :: u32) - of_nat k" by simp
  have u: "unat (of_nat i - of_nat k :: u32) = (if k \<le> i then i - k else i + 2 ^ 32 - k)"
    using i assms by (simp add: unat_sub_if' unat_of_nat take_bit_eq_mod)
  show "mem_bytes (mem_store (a + of_nat k) bs m) a n ! i =
      (take k (mem_bytes m a n) @ bs @ drop (k + length bs) (mem_bytes m a n)) ! i"
    using i assms by (auto simp: mem_store_at d u nth_append)
qed (use assms in simp)

lemma mem_bytes_store_outside:
  assumes "unat a + n \<le> 2 ^ 32" and "unat b + length bs \<le> 2 ^ 32"
    and "unat a + n \<le> unat b \<or> unat b + length bs \<le> unat a"
  shows "mem_bytes (mem_store b bs m) a n = mem_bytes m a n"
proof (rule nth_equalityI)
  fix i
  assume "i < length (mem_bytes (mem_store b bs m) a n)"
  then have i: "i < n" by simp
  have x: "unat (a + of_nat i) = unat a + i"
    using i assms(1) by (simp add: unat_word_ariths unat_of_nat take_bit_eq_mod)
  have "\<not> unat (a + of_nat i - b) < length bs"
  proof (cases "unat b \<le> unat a + i")
    case True
    then show ?thesis using x i assms(3) by (auto simp: unat_sub_if')
  next
    case False
    then have "unat (a + of_nat i - b) = unat a + i + 2 ^ 32 - unat b" using x by (simp add: unat_sub_if')
    then show ?thesis using assms(2) by linarith
  qed
  then show "mem_bytes (mem_store b bs m) a n ! i = mem_bytes m a n ! i"
    using i by (simp add: mem_store_at)
qed simp


definition slot_capacity :: "target \<Rightarrow> u32 \<Rightarrow> nat" where
  "slot_capacity T i = unat (of_nvslot_capacity T i)"

lemma length_slot_bytes: "length (slot_bytes T s i) = slot_capacity T i"
  by (simp add: slot_bytes_def slot_capacity_def of_nvslot_capacity_def split: option.splits)

lemma pocket_window:
  assumes "nvslot_map pocket i = Some mp"
  shows "unat (nv_base mp) + unat (nv_capacity mp) < 2 ^ 32" and "unat (nv_capacity mp) < 2 ^ 32"
  using pocket_map [OF assms] by auto

lemma read_slot:
  assumes "nvslot_map T i = Some mp" and "unat off + unat n \<le> unat (nv_capacity mp)"
  shows "of_nvslot_read T i off n s =
    (Some (take (unat n) (drop (unat off) (slot_bytes T s i))), of_save_end_cpu (of_save_begin_cpu s))"
proof -
  have le: "off \<le> nv_capacity mp" using assms(2) by (simp add: word_le_nat_alt)
  then have g: "\<not> (nv_capacity mp < off \<or> nv_capacity mp - off < n)"
    using assms(2) by (simp add: not_less word_le_nat_alt unat_sub)
  have "copy_from_cram (nv_base mp + off) (unat n) (cram s) = take (unat n) (drop (unat off) (slot_bytes T s i))"
    using assms by (intro nth_equalityI) (simp_all add: copy_from_cram_def slot_bytes_def algebra_simps)
  then show ?thesis using assms(1) g by (simp add: of_nvslot_read_def Let_def)
qed

lemma write_slot:
  assumes i: "nvslot_map pocket i = Some mp" and le: "unat off + length bs \<le> unat (nv_capacity mp)"
  obtains s' where "of_nvslot_write pocket i bs off s = (int (length bs), s')"
    and "cram s' = mem_store (nv_base mp + off) bs (cram s)"
    and "slot_bytes pocket s' i = take (unat off) (slot_bytes pocket s i) @ bs @
      drop (unat off + length bs) (slot_bytes pocket s i)"
    and "\<And>j. j \<noteq> i \<Longrightarrow> slot_bytes pocket s' j = slot_bytes pocket s j"
proof -
  note w = pocket_window [OF i]
  have lt: "length bs < 2 ^ 32" using le w(2) by linarith
  have u: "unat (of_nat (length bs) :: u32) = length bs" using lt by (simp add: unat_of_nat take_bit_eq_mod)
  have o: "off \<le> nv_capacity mp" using le by (simp add: word_le_nat_alt)
  have g: "\<not> (nv_capacity mp < off \<or> nv_capacity mp - off < of_nat (length bs))"
    using le o u by (simp add: not_less word_le_nat_alt unat_sub)
  define s' where "s' = of_save_end_cpu ((of_save_begin_cpu s)
      \<lparr>cram := mem_store (nv_base mp + off) bs (cram s)\<rparr>)"
  have r: "of_nvslot_write pocket i bs off s = (int (length bs), s')"
    using i g lt copy_to_cram [of bs] by (simp add: of_nvslot_write_def Let_def s'_def)
  have c: "cram s' = mem_store (nv_base mp + off) bs (cram s)" by (simp add: s'_def)
  have "nv_base mp + off = nv_base mp + of_nat (unat off)" by simp
  then have own: "slot_bytes pocket s' i = take (unat off) (slot_bytes pocket s i) @ bs @
      drop (unat off + length bs) (slot_bytes pocket s i)"
    using mem_bytes_store_window [OF le w(2), of "nv_base mp"] i c by (simp add: slot_bytes_def)
  have "slot_bytes pocket s' j = slot_bytes pocket s j" if ne: "j \<noteq> i" for j
  proof (cases "nvslot_map pocket j")
    case (Some mp')
    have "snd (window mp) \<le> fst (window mp') \<or> snd (window mp') \<le> fst (window mp)"
      using pocket_layout i Some ne unfolding nv_layout_def by blast
    moreover have "unat (nv_base mp + off) = unat (nv_base mp) + unat off"
      using w(1) o by (simp add: unat_word_ariths word_le_nat_alt)
    ultimately have "mem_bytes (cram s') (nv_base mp') (unat (nv_capacity mp')) =
        mem_bytes (cram s) (nv_base mp') (unat (nv_capacity mp'))"
      unfolding c using pocket_window [OF Some] w le
      by (intro mem_bytes_store_outside) (auto simp: window_def)
    then show ?thesis using Some by (simp add: slot_bytes_def)
  qed (simp add: slot_bytes_def)
  then show thesis using that [OF r c own] by blast
qed

interpretation pocket_nv: nv_store "slot_capacity pocket" "slot_bytes pocket" "of_nvslot_read pocket" "of_nvslot_write pocket"
proof
  fix s i off n bs
  show "length (slot_bytes pocket s i) = slot_capacity pocket i" by (rule length_slot_bytes)
  show "\<exists>s'. of_nvslot_read pocket i off n s = (Some (take (unat n) (drop (unat off) (slot_bytes pocket s i))), s') \<and>
      slot_bytes pocket s' = slot_bytes pocket s"
    if "unat off + unat n \<le> slot_capacity pocket i" "0 < n"
  proof (cases "nvslot_map pocket i")
    case None
    then show ?thesis using that by (simp add: slot_capacity_def of_nvslot_capacity_def word_less_nat_alt)
  next
    case (Some mp)
    then show ?thesis
      using read_slot [OF Some, of off n s] that
        slot_bytes_cong [of "of_save_end_cpu (of_save_begin_cpu s)" s pocket]
      by (simp add: slot_capacity_def of_nvslot_capacity_def)
  qed
  show "of_nvslot_read pocket i off n s = (None, s)" if "slot_capacity pocket i < unat off + unat n"
    using that
    by (auto simp: of_nvslot_read_def slot_capacity_def of_nvslot_capacity_def not_less word_le_nat_alt
        word_less_nat_alt unat_sub split: option.splits)
  show "\<exists>s'. of_nvslot_write pocket i bs off s = (int (length bs), s') \<and>
      slot_bytes pocket s' i = take (unat off) (slot_bytes pocket s i) @ bs @
        drop (unat off + length bs) (slot_bytes pocket s i) \<and>
      (\<forall>j. j \<noteq> i \<longrightarrow> slot_bytes pocket s' j = slot_bytes pocket s j)"
    if "unat off + length bs \<le> slot_capacity pocket i" "bs \<noteq> []"
  proof (cases "nvslot_map pocket i")
    case None
    then show ?thesis using that by (simp add: slot_capacity_def of_nvslot_capacity_def)
  next
    case (Some mp)
    have "unat off + length bs \<le> unat (nv_capacity mp)"
      using that(1) Some by (simp add: slot_capacity_def of_nvslot_capacity_def)
    from write_slot [OF Some this, of s] show ?thesis by metis
  qed
  show "of_nvslot_write pocket i bs off s = (- 1, s)"
    if "slot_capacity pocket i < unat off + length bs" "length bs < 2 ^ 32"
    using that
    by (auto simp: of_nvslot_write_def slot_capacity_def of_nvslot_capacity_def not_less word_le_nat_alt
        word_less_nat_alt unat_sub unat_of_nat take_bit_eq_mod split: option.splits)
qed


section \<open>The security wipe\<close>

lemma wipe_outside:
  assumes "unat (cram0_base T) + unat off + unat len \<le> 2 ^ 32"
    and "unat x < unat (cram0_base T) + unat off \<or> unat (cram0_base T) + unat off + unat len \<le> unat x"
  shows "cram0_wipe_words T off len m x = m x"
proof -
  let ?b = "cram0_base T"
  have n: "unat (drop_bit 2 len) = unat len div 4" by (simp add: drop_bit_eq_div unat_div)
  have "fold (\<lambda>i m. store_le (?b + off + 4 * of_nat i) 0 m) [0..<k] m x = m x" if "k \<le> unat len div 4" for k
    using that
  proof (induction k)
    case (Suc k)
    then have k: "4 * k + 4 \<le> unat len" by linarith
    have u: "unat (?b + off + 4 * of_nat k) = unat ?b + unat off + 4 * k"
      using assms(1) k by (simp add: unat_word_ariths unat_of_nat take_bit_eq_mod)
    have "\<not> unat (x - (?b + off + 4 * of_nat k)) < 4"
    proof (cases "unat (?b + off + 4 * of_nat k) \<le> unat x")
      case True
      then have "unat (x - (?b + off + 4 * of_nat k)) = unat x - (unat ?b + unat off + 4 * k)"
        using u by (simp add: unat_sub word_le_nat_alt)
      then show ?thesis using True u k assms(2) by linarith
    next
      case False
      then have "unat (x - (?b + off + 4 * of_nat k)) = unat x + 2 ^ 32 - (unat ?b + unat off + 4 * k)"
        using u by (simp add: unat_sub_if')
      then show ?thesis using assms(1) k by linarith
    qed
    then show ?case using Suc by (simp add: store_le_at)
  qed simp
  then show ?thesis by (simp add: cram0_wipe_words_def n)
qed

lemma wipe_spares:
  assumes "nvslot_map pocket i = Some mp" and "k < unat (nv_capacity mp)"
  shows "cram (of_save_security_wipe pocket s) (nv_base mp + of_nat k) = cram s (nv_base mp + of_nat k)"
proof -
  let ?x = "nv_base mp + of_nat k"
  note w = pocket_window [OF assms(1)]
  have x: "unat ?x = unat (nv_base mp) + k"
    using assms(2) w by (simp add: unat_word_ariths unat_of_nat take_bit_eq_mod)
  have c: "unat (cram0_base pocket) = 0x30000000" "unat (cram0_presave_offset pocket) = 0xC0000"
    "unat (cram0_scratch_offset pocket) = 0x400000" by (simp_all add: pocket_def)
  have r: "0x300C0000 \<le> unat ?x" "unat ?x < 0x30400000"
  proof -
    have "window mp = (unat (nv_base mp), unat (nv_base mp) + unat (nv_capacity mp))" by (simp add: window_def)
    then show "0x300C0000 \<le> unat ?x" "unat ?x < 0x30400000"
      using pocket_layout assms x c unfolding nv_layout_def by fastforce+
  qed
  have len: "unat (cram0_app_dma_offset pocket + cram0_app_dma_size pocket - cram0_scratch_offset pocket) = 0x200000"
    by (simp add: pocket_def)
  have "cram0_wipe_words pocket 0 (cram0_presave_offset pocket) m ?x = m ?x" for m
    by (rule wipe_outside) (use c r in simp_all)
  moreover have "cram0_wipe_words pocket (cram0_scratch_offset pocket)
      (cram0_app_dma_offset pocket + cram0_app_dma_size pocket - cram0_scratch_offset pocket) m ?x = m ?x" for m
    by (rule wipe_outside) (use c r len in simp_all)
  ultimately show ?thesis by (simp add: of_save_security_wipe_def Let_def)
qed


section \<open>Properties\<close>

text \<open>
  C13: copying into CRAM0 by whole words stores exactly the bytes asked for. The read-modify-write
  loop that avoids sub-word stores has the effect of storing the buffer byte by byte: every byte of
  the destination range gets its value and no other byte of memory changes, at any alignment and
  length.
\<close>

theorem copy_to_cram_exact:
  assumes "length src \<le> 2 ^ 32"
  shows "copy_to_cram addr src 0 m = mem_store addr src m"
  by (rule copy_to_cram [OF assms])

theorem copy_to_cram_exact_witness:
  "copy_to_cram 0x30100003 [1, 2, 3] 0 (\<lambda>_. 9) = mem_store 0x30100003 [1, 2, 3] (\<lambda>_. 9)"
  by (rule copy_to_cram_exact) simp

text \<open>
  save slots do not overlap. On the Pocket every supported slot id has its own window, all the
  windows lie between the pre-save offset and the scratch region of CRAM0 (the part the host persists
  and the security wipe spares), and no two share an address.
\<close>

lemma save_windows_disjoint: "nv_layout pocket"
  by (rule pocket_layout)

text \<open>
  C12: what is written to a save slot is what is read back, and only there. A write that fits the slot
  returns its length, an immediate read of the same range returns the bytes, every other slot keeps
  its contents.
\<close>

theorem save_slot_roundtrip:
  assumes "unat off + length bs \<le> slot_capacity pocket i" and "bs \<noteq> []" and "length bs < 2 ^ 32"
    and "of_nvslot_write pocket i bs off s = (r, s')"
  shows "r = int (length bs) \<and> fst (of_nvslot_read pocket i off (of_nat (length bs)) s') = Some bs \<and>
    (\<forall>j. j \<noteq> i \<longrightarrow> slot_bytes pocket s' j = slot_bytes pocket s j)"
  using pocket_nv.read_back [OF assms] pocket_nv.other_slot [OF assms(1,2,4)] by blast

definition demo_save :: save_hw where
  "demo_save = \<lparr>cram = (\<lambda>_. 0), cpu_hold_count = 0, cpu_owns_cram = False, dt_commits = [],
     warned_missing = False\<rparr>"

theorem save_slot_roundtrip_witness:
  "fst (of_nvslot_read pocket 10 6 3 (snd (of_nvslot_write pocket 10 [1, 2, 3] 6 demo_save))) = Some [1, 2, 3]"
proof -
  have "unat (6 :: u32) + length [1, 2, 3 :: u8] \<le> slot_capacity pocket 10"
    by (simp add: slot_capacity_def of_nvslot_capacity_def nvslot_map_def NV_SLOT_ID_SHARED_CONFIG_def
        NV_SLOT_ID_DUKE_SETTINGS_def NV_SLOT_ID_SAVE_BASE_def Let_def pocket_def)
  moreover have "[1, 2, 3 :: u8] \<noteq> []" "length [1, 2, 3 :: u8] < 2 ^ 32" by simp_all
  ultimately have "fst (of_nvslot_read pocket 10 6 (of_nat (length [1, 2, 3 :: u8]))
      (snd (of_nvslot_write pocket 10 [1, 2, 3] 6 demo_save))) = Some [1, 2, 3]"
    using save_slot_roundtrip [OF _ _ _ surjective_pairing] by blast
  then show ?thesis by simp
qed

text \<open>
  C14: the wipe of stale CRAM0 contents before an app runs never touches nonvolatile data: every slot
  reads the same before and after.
\<close>

theorem security_wipe_spares_saves:
  "slot_bytes pocket (of_save_security_wipe pocket s) i = slot_bytes pocket s i"
proof (cases "nvslot_map pocket i")
  case None
  then show ?thesis by (simp add: slot_bytes_def)
next
  case (Some mp)
  have "mem_bytes (cram (of_save_security_wipe pocket s)) (nv_base mp) (unat (nv_capacity mp)) =
      mem_bytes (cram s) (nv_base mp) (unat (nv_capacity mp))"
    unfolding mem_bytes_def by (rule map_cong [OF refl]) (rule wipe_spares [OF Some], simp)
  then show ?thesis unfolding slot_bytes_def Some option.case .
qed

end
