(* ===== verification/Iso.thy ===== *)
theory Iso
  imports IoCacheInv Paths
begin

text \<open>
  The ISO 9660 layer of \<^verbatim>\<open>lib/iso9660/iso9660_vfs.c\<close> over the third-party reader lib9660. The reader's
  entry points are the parameter \<open>lib9660\<close>: each takes the \<^verbatim>\<open>read_sector\<close> callback the C code hands it
  and the state that callback works on. The slot read function of a mount (\<^verbatim>\<open>mount->read\<close>) is the
  argument \<open>rd\<close>.
\<close>

section \<open>State\<close>

datatype l9660_status = L9660_OK | L9660_EIO | L9660_EBADFS | L9660_ENOENT | L9660_ENOTFILE | L9660_ENOTDIR

record l9660_fs =
  root_dir :: "u8 list"
  joliet :: bool

record iso_file =
  first_sector :: u32
  iso_position :: u32
  iso_length :: u32

record l9660_dirent =
  d_size_le :: "u8 list"
  d_flags :: u8
  d_rawname :: "u8 list"

record iso_mount =
  iso_fs :: l9660_fs
  iso_slot :: u32
  iso_mounted :: bool

record iso_dirent =
  ent_name :: string
  ent_size :: u32
  ent_is_dir :: bool

type_synonym ('s, 'e) slot_read = "u32 \<Rightarrow> u32 \<Rightarrow> u32 \<Rightarrow> 's \<Rightarrow> 'e option \<times> u8 list \<times> 's"
type_synonym 's sector_read = "u32 \<Rightarrow> 's \<Rightarrow> u8 list option \<times> 's"

record 's lib9660 =
  l_openfs :: "'s sector_read \<Rightarrow> 's \<Rightarrow> (l9660_status \<times> l9660_fs) \<times> 's"
  l_open_root :: "'s sector_read \<Rightarrow> l9660_fs \<Rightarrow> 's \<Rightarrow> (l9660_status \<times> iso_file) \<times> 's"
  l_openat :: "'s sector_read \<Rightarrow> l9660_fs \<Rightarrow> iso_file \<Rightarrow> string \<Rightarrow> 's \<Rightarrow> (l9660_status \<times> iso_file) \<times> 's"
  l_opendirat :: "'s sector_read \<Rightarrow> l9660_fs \<Rightarrow> iso_file \<Rightarrow> string \<Rightarrow> 's \<Rightarrow> (l9660_status \<times> iso_file) \<times> 's"
  l_readdir :: "'s sector_read \<Rightarrow> l9660_fs \<Rightarrow> iso_file \<Rightarrow> 's \<Rightarrow> (l9660_status \<times> l9660_dirent option \<times> iso_file) \<times> 's"
  l_dirent_name :: "l9660_fs \<Rightarrow> l9660_dirent \<Rightarrow> nat \<Rightarrow> string"

definition ISO_SECTOR_SIZE :: u32 where "ISO_SECTOR_SIZE = 2048"
definition ISO_DENT_ISDIR :: u8 where "ISO_DENT_ISDIR = 2"

definition no_fs :: l9660_fs where "no_fs = \<lparr>root_dir = [], joliet = False\<rparr>"
definition no_file :: iso_file where "no_file = \<lparr>first_sector = 0, iso_position = 0, iso_length = 0\<rparr>"
definition no_mount :: iso_mount where "no_mount = \<lparr>iso_fs = no_fs, iso_slot = 0, iso_mounted = False\<rparr>"

section \<open>Decoding and the sector callback\<close>

definition iso_read32 :: "u8 list \<Rightarrow> u32" where
  "iso_read32 v = le32 (v ! 0) (v ! 1) (v ! 2) (v ! 3)"

fun iso_status_to_errno :: "l9660_status \<Rightarrow> errno option" where
  "iso_status_to_errno L9660_OK = None"
| "iso_status_to_errno L9660_EIO = Some EIO"
| "iso_status_to_errno L9660_EBADFS = Some EIO"
| "iso_status_to_errno L9660_ENOENT = Some ENOENT"
| "iso_status_to_errno L9660_ENOTFILE = Some EISDIR"
| "iso_status_to_errno L9660_ENOTDIR = Some ENOTDIR"

definition iso_read_sector :: "('s, 'e) slot_read \<Rightarrow> u32 \<Rightarrow> 's sector_read" where
  "iso_read_sector rd slot sector s =
     (let off = sector * ISO_SECTOR_SIZE in
      if sector \<noteq> off div ISO_SECTOR_SIZE then (None, s)
      else case rd slot off ISO_SECTOR_SIZE s of
        (r, bs, s') \<Rightarrow> (if r = None then Some bs else None, s'))"

section \<open>Mounting and opening\<close>

definition iso9660_mount :: "'s lib9660 \<Rightarrow> ('s, 'e) slot_read \<Rightarrow> u32 \<Rightarrow> 's \<Rightarrow> (errno + iso_mount) \<times> 's" where
  "iso9660_mount L rd slot s =
     (case l_openfs L (iso_read_sector rd slot) s of
        ((st, fs), s') \<Rightarrow>
          (case iso_status_to_errno st of
             Some e \<Rightarrow> (Inl e, s')
           | None \<Rightarrow> (Inr \<lparr>iso_fs = fs, iso_slot = slot, iso_mounted = True\<rparr>, s')))"

definition iso9660_open_file ::
  "'s lib9660 \<Rightarrow> ('s, 'e) slot_read \<Rightarrow> iso_mount \<Rightarrow> string \<Rightarrow> 's \<Rightarrow> (errno + iso_file) \<times> 's" where
  "iso9660_open_file L rd m path s =
     (if \<not> iso_mounted m then (Inl EINVAL, s)
      else case iso_path_normalize path 256 (\<not> joliet (iso_fs m)) of
        Inl e \<Rightarrow> (Inl e, s)
      | Inr iso_path \<Rightarrow>
          if iso_path = [] then (Inl EISDIR, s)
          else case l_open_root L (iso_read_sector rd (iso_slot m)) (iso_fs m) s of
            ((st, root), s1) \<Rightarrow>
              (case iso_status_to_errno st of
                 Some e \<Rightarrow> (Inl e, s1)
               | None \<Rightarrow>
                   (case l_openat L (iso_read_sector rd (iso_slot m)) (iso_fs m) root iso_path s1 of
                      ((st, f), s2) \<Rightarrow>
                        (case iso_status_to_errno st of Some e \<Rightarrow> (Inl e, s2) | None \<Rightarrow> (Inr f, s2)))))"

definition iso9660_open_dir ::
  "'s lib9660 \<Rightarrow> ('s, 'e) slot_read \<Rightarrow> iso_mount \<Rightarrow> string \<Rightarrow> 's \<Rightarrow> (errno + iso_file) \<times> 's" where
  "iso9660_open_dir L rd m path s =
     (if \<not> iso_mounted m then (Inl EINVAL, s)
      else case iso_path_normalize path 256 (\<not> joliet (iso_fs m)) of
        Inl e \<Rightarrow> (Inl e, s)
      | Inr iso_path \<Rightarrow>
          (case l_open_root L (iso_read_sector rd (iso_slot m)) (iso_fs m) s of
             ((st, root), s1) \<Rightarrow>
               (case iso_status_to_errno st of
                  Some e \<Rightarrow> (Inl e, s1)
                | None \<Rightarrow>
                    if iso_path = [] then (Inr root, s1)
                    else case l_opendirat L (iso_read_sector rd (iso_slot m)) (iso_fs m) root iso_path s1 of
                      ((st, f), s2) \<Rightarrow>
                        (case iso_status_to_errno st of Some e \<Rightarrow> (Inl e, s2) | None \<Rightarrow> (Inr f, s2)))))"

section \<open>Files\<close>

datatype 'e iso_read = Iso_errno errno | Iso_failed 'e | Iso_bytes "u8 list"

definition iso9660_read_file ::
  "('s, 'e) slot_read \<Rightarrow> iso_mount \<Rightarrow> iso_file \<Rightarrow> u32 \<Rightarrow> 's \<Rightarrow> 'e iso_read \<times> iso_file \<times> 's" where
  "iso9660_read_file rd m f len s =
     (if \<not> iso_mounted m then (Iso_errno EINVAL, f, s)
      else if len = 0 then (Iso_bytes [], f, s)
      else if iso_length f \<le> iso_position f then (Iso_bytes [], f, s)
      else
        let n = min len (iso_length f - iso_position f); sector_off = first_sector f * ISO_SECTOR_SIZE in
        if first_sector f \<noteq> sector_off div ISO_SECTOR_SIZE then (Iso_errno EIO, f, s)
        else case rd (iso_slot m) (sector_off + iso_position f) n s of
          (Some e, bs, s') \<Rightarrow> (Iso_failed e, f, s')
        | (None, bs, s') \<Rightarrow> (Iso_bytes bs, f\<lparr>iso_position := iso_position f + n\<rparr>, s'))"

definition iso9660_seek_file :: "iso_file \<Rightarrow> int \<Rightarrow> int \<Rightarrow> errno + iso_file" where
  "iso9660_seek_file f offset whence =
     (let new_pos = (if whence = 0 then Some offset
                     else if whence = 1 then Some (uint (iso_position f) + offset)
                     else if whence = 2 then Some (uint (iso_length f) + offset)
                     else None)
      in case new_pos of
           None \<Rightarrow> Inl EINVAL
         | Some p \<Rightarrow> if p < 0 \<or> 0xFFFFFFFF < p then Inl EINVAL
                     else Inr (f\<lparr>iso_position := word_of_int p\<rparr>))"

definition iso9660_tell_file :: "iso_file \<Rightarrow> u32" where
  "iso9660_tell_file f = iso_position f"

definition iso9660_size_file :: "iso_file \<Rightarrow> u32" where
  "iso9660_size_file f = iso_length f"

section \<open>Directories\<close>

definition is_dot_entry :: "l9660_dirent \<Rightarrow> bool" where
  "is_dot_entry e \<longleftrightarrow> length (d_rawname e) = 1 \<and> (hd (d_rawname e) = 0 \<or> hd (d_rawname e) = 1)"

text \<open>The search for the next named entry ends only when lib9660 reports the end or an error.\<close>

partial_function (option) iso9660_read_dir ::
  "'s lib9660 \<Rightarrow> 's sector_read \<Rightarrow> l9660_fs \<Rightarrow> iso_file \<Rightarrow> 's \<Rightarrow>
     ((errno + iso_dirent option) \<times> iso_file \<times> 's) option" where
  [code]: "iso9660_read_dir L sr fs d s =
     (case l_readdir L sr fs d s of
        ((st, ent, d'), s') \<Rightarrow>
          (case iso_status_to_errno st of
             Some e \<Rightarrow> Some (Inl e, d', s')
           | None \<Rightarrow>
               (case ent of
                  None \<Rightarrow> Some (Inr None, d', s')
                | Some de \<Rightarrow>
                    if is_dot_entry de then iso9660_read_dir L sr fs d' s'
                    else let name = l_dirent_name L fs de 256 in
                      if name = [] then iso9660_read_dir L sr fs d' s'
                      else Some (Inr (Some \<lparr>ent_name = name, ent_size = iso_read32 (d_size_le de),
                             ent_is_dir = (d_flags de AND ISO_DENT_ISDIR \<noteq> 0)\<rparr>), d', s'))))"

definition iso9660_stat ::
  "'s lib9660 \<Rightarrow> ('s, 'e) slot_read \<Rightarrow> iso_mount \<Rightarrow> string \<Rightarrow> 's \<Rightarrow> (errno + u32 \<times> bool) \<times> 's" where
  "iso9660_stat L rd m path s =
     (if \<not> iso_mounted m then (Inl EINVAL, s)
      else case iso9660_open_file L rd m path s of
        (Inr f, s1) \<Rightarrow> (Inr (iso_length f, False), s1)
      | (Inl _, s1) \<Rightarrow>
          (case iso9660_open_dir L rd m path s1 of
             (Inr d, s2) \<Rightarrow> (Inr (0, True), s2)
           | (Inl e, s2) \<Rightarrow> (Inl e, s2)))"

section \<open>What the layer keeps\<close>

text \<open>
  lib9660 touches the slot only through the callback it is given, so it keeps every invariant the
  callback keeps.
\<close>

definition lib_keeps :: "('s \<Rightarrow> bool) \<Rightarrow> 's lib9660 \<Rightarrow> bool" where
  "lib_keeps P L \<longleftrightarrow> (\<forall>sr s. (\<forall>k s. P s \<longrightarrow> P (snd (sr k s))) \<longrightarrow> P s \<longrightarrow>
     P (snd (l_openfs L sr s)) \<and> (\<forall>fs. P (snd (l_open_root L sr fs s))) \<and>
     (\<forall>fs d p. P (snd (l_openat L sr fs d p s))) \<and> (\<forall>fs d p. P (snd (l_opendirat L sr fs d p s))) \<and>
     (\<forall>fs d. P (snd (l_readdir L sr fs d s))))"

context slot_state
begin

lemma sector_inv: "inv s \<Longrightarrow> inv (snd (iso_read_sector read slot k s))"
  unfolding iso_read_sector_def Let_def by (auto dest: read_inv split: prod.splits)

lemma mount_inv:
  assumes "lib_keeps inv L" and "inv s"
  shows "inv (snd (iso9660_mount L read slot s))"
  using assms sector_inv [of _ slot] unfolding iso9660_mount_def lib_keeps_def
  by (auto split: prod.splits option.splits) (metis snd_conv)+

lemma open_file_inv:
  assumes L: "lib_keeps inv L" and s: "inv s"
  shows "inv (snd (iso9660_open_file L read m path s))"
proof -
  let ?sr = "iso_read_sector read (iso_slot m)"
  have k: "inv s \<Longrightarrow> inv (snd (l_open_root L ?sr fs s))" "inv s \<Longrightarrow> inv (snd (l_openat L ?sr fs d p s))" for s fs d p
    using L sector_inv [of _ "iso_slot m"] unfolding lib_keeps_def by blast+
  show ?thesis
    using s k(1) [of s "iso_fs m"] k(2)
    unfolding iso9660_open_file_def
    by (auto split: prod.splits option.splits sum.splits) (metis snd_conv)+
qed

lemma open_dir_inv:
  assumes L: "lib_keeps inv L" and s: "inv s"
  shows "inv (snd (iso9660_open_dir L read m path s))"
proof -
  let ?sr = "iso_read_sector read (iso_slot m)"
  have k: "inv s \<Longrightarrow> inv (snd (l_open_root L ?sr fs s))" "inv s \<Longrightarrow> inv (snd (l_opendirat L ?sr fs d p s))" for s fs d p
    using L sector_inv [of _ "iso_slot m"] unfolding lib_keeps_def by blast+
  show ?thesis
    using s k(1) [of s "iso_fs m"] k(2)
    unfolding iso9660_open_dir_def
    by (auto split: prod.splits option.splits sum.splits) (metis snd_conv)+
qed

lemma stat_inv:
  assumes "lib_keeps inv L" and "inv s"
  shows "inv (snd (iso9660_stat L read m path s))"
  using open_file_inv [OF assms, of m path] open_dir_inv [OF assms(1), of _ m path] assms(2)
  unfolding iso9660_stat_def by (auto split: prod.splits sum.splits) (metis snd_conv)+

lemma read_file_inv:
  "inv s \<Longrightarrow> inv (snd (snd (iso9660_read_file read m f len s)))"
  unfolding iso9660_read_file_def Let_def by (auto dest: read_inv split: prod.splits option.splits)

lemma read_dir_inv:
  assumes "iso9660_read_dir L (iso_read_sector read slot) fs d s = Some (r, d', s')"
    and "lib_keeps inv L" and "inv s"
  shows "inv s'"
proof -
  let ?P = "\<lambda>L sr fs d s res. sr = iso_read_sector read slot \<longrightarrow> lib_keeps inv L \<longrightarrow> inv s \<longrightarrow> inv (snd (snd res))"
  have "?P L (iso_read_sector read slot) fs d s (r, d', s')"
  proof (rule iso9660_read_dir.raw_induct [where P = ?P, OF _ assms(1)], intro impI)
    fix rec L sr fs d s res
    assume IH: "\<And>L sr fs d s res. rec L sr fs d s = Some res \<Longrightarrow> ?P L sr fs d s res"
      and e: "(case l_readdir L sr fs d s of ((st, ent, d'), s') \<Rightarrow>
          (case iso_status_to_errno st of
             Some e \<Rightarrow> Some (Inl e, d', s')
           | None \<Rightarrow>
               (case ent of
                  None \<Rightarrow> Some (Inr None, d', s')
                | Some de \<Rightarrow>
                    if is_dot_entry de then rec L sr fs d' s'
                    else let name = l_dirent_name L fs de 256 in
                      if name = [] then rec L sr fs d' s'
                      else Some (Inr (Some \<lparr>ent_name = name, ent_size = iso_read32 (d_size_le de),
                             ent_is_dir = (d_flags de AND ISO_DENT_ISDIR \<noteq> 0)\<rparr>), d', s')))) = Some res"
      and sr: "sr = iso_read_sector read slot" and L: "lib_keeps inv L" and s: "inv s"
    obtain st ent d1 s1 where r: "l_readdir L sr fs d s = ((st, ent, d1), s1)" by (metis prod_cases4 surj_pair)
    have "inv (snd (l_readdir L sr fs d s))"
      using L s sector_inv [of _ slot] unfolding lib_keeps_def sr by blast
    then have s1: "inv s1" by (simp add: r)
    show "inv (snd (snd res))"
      using e s1 L sr IH [of L sr fs d1 s1 res] unfolding r
      by (auto simp: Let_def split: option.splits if_splits)
  qed
  then show ?thesis using assms by simp
qed

end

context slot_reader
begin

text \<open>A read of an open file of the volume is the part of the file's extent at its position.\<close>

definition extent :: "u32 \<Rightarrow> iso_file \<Rightarrow> u8 list" where
  "extent slot f = take (unat (iso_length f)) (drop (unat (first_sector f) * 2048) (contents slot))"

lemma sector_start:
  assumes "unat (first_sector f) * 2048 < 2 ^ 32"
  shows "unat (first_sector f * ISO_SECTOR_SIZE) = unat (first_sector f) * 2048"
    and "first_sector f = (first_sector f * ISO_SECTOR_SIZE) div ISO_SECTOR_SIZE"
proof -
  show u: "unat (first_sector f * ISO_SECTOR_SIZE) = unat (first_sector f) * 2048"
    using assms by (simp add: ISO_SECTOR_SIZE_def unat_word_ariths)
  show "first_sector f = (first_sector f * ISO_SECTOR_SIZE) div ISO_SECTOR_SIZE"
    by (rule word_unat_eq_iff [THEN iffD2]) (simp add: unat_div u, simp add: ISO_SECTOR_SIZE_def)
qed

lemma read_file_exact:
  assumes "inv s" and "sized (iso_slot m)"
    and fits: "unat (first_sector f) * 2048 + unat (iso_length f) \<le> 2 ^ 32" "0 < iso_length f"
    and r: "iso9660_read_file read m f len s = (Iso_bytes bs, f', s')"
  shows "bs = take (unat len) (drop (unat (iso_position f)) (extent (iso_slot m) f)) \<and>
    f' = f\<lparr>iso_position := iso_position f + of_nat (length bs)\<rparr>"
proof (cases "len = 0 \<or> iso_length f \<le> iso_position f")
  case True
  then have "bs = [] \<and> f' = f"
    using r by (auto simp: iso9660_read_file_def split: if_splits)
  then show ?thesis using True by (auto simp: extent_def word_le_nat_alt)
next
  case False
  define n where "n = min len (iso_length f - iso_position f)"
  have lt: "unat (first_sector f) * 2048 < 2 ^ 32" using fits by (simp add: word_less_nat_alt)
  note ss = sector_start [OF lt]
  have pos: "unat (iso_position f) < unat (iso_length f)"
    using False by (simp add: word_le_nat_alt not_le)
  then have u: "unat (first_sector f * ISO_SECTOR_SIZE + iso_position f) =
      unat (first_sector f) * 2048 + unat (iso_position f)"
    using fits ss(1) by (simp add: unat_word_ariths)
  have av: "unat (iso_length f - iso_position f) = unat (iso_length f) - unat (iso_position f)"
    using pos by (simp add: unat_sub word_le_nat_alt)
  have un: "unat n = min (unat len) (unat (iso_length f) - unat (iso_position f))"
    using av by (simp add: n_def min_def word_le_nat_alt)
  have un0: "n \<noteq> 0" using False pos av by (auto simp: n_def min_def)
  have m: "iso_mounted m" using r by (auto simp: iso9660_read_file_def split: if_splits)
  obtain s1 where s1: "read (iso_slot m) (first_sector f * ISO_SECTOR_SIZE + iso_position f) n s = (None, bs, s1)"
    and f': "f' = f\<lparr>iso_position := iso_position f + n\<rparr>"
    using r False m ss(2) unfolding iso9660_read_file_def n_def [symmetric] Let_def
    by (auto split: prod.splits option.splits if_splits)
  have "bs = take (unat n) (drop (unat (first_sector f) * 2048 + unat (iso_position f)) (contents (iso_slot m)))"
    using read_exact [OF assms(1) s1 assms(2)] u by simp
  moreover have l: "length bs = unat n" using read_ok [OF assms(1) s1] by blast
  moreover have "f' = f\<lparr>iso_position := iso_position f + of_nat (length bs)\<rparr>" using f' l by simp
  ultimately show ?thesis by (simp add: un extent_def drop_take add.commute)
qed

end

end
