(* ===== verification/Files.thy ===== *)
theory Files
  imports Iso SaveInv
begin

text \<open>
  The file descriptors of \<^verbatim>\<open>kernel/syscall.c\<close>: the table, the size cache of the nonvolatile slots,
  opening by slot, name or mount, reading, writing, seeking, sizes and closing. Offsets and sizes are
  64-bit counters in C that never reach 2^63 here, so they are natural numbers. The target's file HAL
  (names, slot flags, the datatable) is the parameter \<open>hal\<close>; it works on the state of the driver.
\<close>

section \<open>State\<close>

datatype fd_kind = FD_NONE | FD_SLOT_FILE | FD_NV_FILE | FD_ROOT_DIR | FD_ISO_FILE | FD_ISO_DIR

record fd_entry =
  in_use :: bool
  kind :: fd_kind
  slot_id :: u32
  fd_offset :: nat
  fd_size :: nat
  flags :: u32
  is_save :: bool
  save_slot :: int
  nv_cache_idx :: int
  dirty :: bool
  is_dir :: bool
  dir_pos :: u32
  mount_idx :: int
  iso :: iso_file

record mount =
  m_used :: bool
  m_target :: string
  m_slot :: u32
  m_iso :: iso_mount

record 'd files =
  fd_table :: "fd_entry list"
  size_cache :: "nat list"
  size_known_at :: "bool list"
  hw :: save_hw
  drv :: "'d driver"
  io :: io_cache
  mounts :: "mount list"
  mount_count :: nat
  cwd :: string
  names :: "(u32 \<times> string) list"
  tty :: "u8 list"

record 'd hal =
  get_name :: "u32 \<Rightarrow> 'd \<Rightarrow> string option \<times> 'd"
  resolve_name :: "string \<Rightarrow> 'd \<Rightarrow> int \<times> 'd"
  config_slot :: "string \<Rightarrow> 'd \<Rightarrow> int \<times> 'd"
  file_flags :: "u32 \<Rightarrow> 'd \<Rightarrow> int"
  dt_feature :: bool
  dt_entry :: "u32 \<Rightarrow> u32 option"

datatype io_result = Err io_error | Val int | Bytes "u8 list"

definition MAX_FDS :: nat where "MAX_FDS = 32"
definition FD_FIRST_FREE :: nat where "FD_FIRST_FREE = 3"
definition SAVE_SLOT_ID_BASE :: u32 where "SAVE_SLOT_ID_BASE = 10"
definition OF_FILE_CFG_SLOT_BASE :: u32 where "OF_FILE_CFG_SLOT_BASE = 96"
definition OF_FILE_CFG_SLOT_COUNT :: u32 where "OF_FILE_CFG_SLOT_COUNT = 8"
definition O_ACCMODE :: u32 where "O_ACCMODE = 3"
definition O_WRONLY :: u32 where "O_WRONLY = 1"
definition O_TRUNC :: u32 where "O_TRUNC = 0x200"
definition O_APPEND :: u32 where "O_APPEND = 0x400"
definition O_DIRECTORY :: u32 where "O_DIRECTORY = 0x10000"

definition nv_cache_slots :: "target \<Rightarrow> int" where
  "nv_cache_slots T = 1 + uint (save_max_slots T) + uint OF_FILE_CFG_SLOT_COUNT + 1"

definition set_fd :: "nat \<Rightarrow> (fd_entry \<Rightarrow> fd_entry) \<Rightarrow> 'd files \<Rightarrow> 'd files" where
  "set_fd fd f s = s\<lparr>fd_table := (fd_table s)[fd := f (fd_table s ! fd)]\<rparr>"

definition free_fd :: "nat \<Rightarrow> 'd files \<Rightarrow> 'd files" where
  "free_fd fd s = set_fd fd (\<lambda>f. f\<lparr>in_use := False\<rparr>) s"

definition fd_open :: "int \<Rightarrow> 'd files \<Rightarrow> bool" where
  "fd_open fd s \<longleftrightarrow> 0 \<le> fd \<and> fd < int MAX_FDS \<and> in_use (fd_table s ! nat fd)"

section \<open>Flags and slot numbers\<close>

definition open_flags_want_write :: "u32 \<Rightarrow> bool" where
  "open_flags_want_write fl \<longleftrightarrow> fl AND O_ACCMODE \<noteq> 0 \<or> fl AND O_TRUNC \<noteq> 0"

definition open_flags_read_only :: "u32 \<Rightarrow> bool" where
  "open_flags_read_only fl \<longleftrightarrow> fl AND O_ACCMODE = 0"

definition save_slot_from_data_id :: "target \<Rightarrow> u32 \<Rightarrow> int" where
  "save_slot_from_data_id T i =
     (if SAVE_SLOT_ID_BASE \<le> i \<and> i < SAVE_SLOT_ID_BASE + save_max_slots T
      then uint (i - SAVE_SLOT_ID_BASE) else -1)"

definition nv_cache_index_from_data_id :: "target \<Rightarrow> u32 \<Rightarrow> int" where
  "nv_cache_index_from_data_id T i =
     (if i = 8 then 0
      else if i = 9 then nv_cache_slots T - 1
      else if 0 \<le> save_slot_from_data_id T i then 1 + save_slot_from_data_id T i
      else if OF_FILE_CFG_SLOT_BASE \<le> i \<and> i < OF_FILE_CFG_SLOT_BASE + OF_FILE_CFG_SLOT_COUNT
      then 1 + uint (save_max_slots T) + uint (i - OF_FILE_CFG_SLOT_BASE)
      else -1)"

section \<open>The size cache\<close>

definition save_clamp_size :: "target \<Rightarrow> nat \<Rightarrow> nat" where
  "save_clamp_size T n = (if unat (save_slot_size T) < n then unat (save_slot_size T) else n)"

definition save_size_cache_store :: "target \<Rightarrow> int \<Rightarrow> nat \<Rightarrow> 'd files \<Rightarrow> 'd files" where
  "save_size_cache_store T i n s =
     (if i < 0 \<or> nv_cache_slots T \<le> i then s
      else s\<lparr>size_cache := (size_cache s)[nat i := save_clamp_size T n],
             size_known_at := (size_known_at s)[nat i := True]\<rparr>)"

definition save_size_cache_invalidate :: "target \<Rightarrow> int \<Rightarrow> 'd files \<Rightarrow> 'd files" where
  "save_size_cache_invalidate T i s =
     (if i < 0 \<or> nv_cache_slots T \<le> i then s
      else s\<lparr>size_known_at := (size_known_at s)[nat i := False]\<rparr>)"

definition nv_current_size :: "target \<Rightarrow> u32 \<Rightarrow> int \<Rightarrow> 'd files \<Rightarrow> nat \<times> 'd files" where
  "nv_current_size T i idx s =
     (if idx < 0 \<or> nv_cache_slots T \<le> idx then (0, s)
      else if size_known_at s ! nat idx then (size_cache s ! nat idx, s)
      else let z = of_file_size (drv s) i; n = (if 0 < z then save_clamp_size T (nat z) else 0)
           in (n, save_size_cache_store T idx n s))"

text \<open>The length of a text slot: 64 bytes at a time up to the first 0x00 or 0xff byte.\<close>

definition text_prefix :: "u8 list \<Rightarrow> u8 list" where
  "text_prefix = takeWhile (\<lambda>b. b \<noteq> 0 \<and> b \<noteq> 0xFF)"

function infer_from :: "target \<Rightarrow> u32 \<Rightarrow> nat \<Rightarrow> nat \<Rightarrow> save_hw \<Rightarrow> nat \<times> save_hw" where
  "infer_from T i cap off h =
     (if off < cap then
        let n = min (cap - off) 64 in
        (case of_nvslot_read T i (of_nat off) (of_nat n) h of
           (None, h') \<Rightarrow> (off, h')
         | (Some bs, h') \<Rightarrow>
             let k = length (text_prefix bs) in
             if k < length bs then (off + k, h') else infer_from T i cap (off + n) h')
      else (off, h))"
  by pat_completeness auto
termination
  by (relation "measure (\<lambda>(_, _, cap, off, _). cap - off)") auto

declare infer_from.simps [simp del]

definition nv_infer_text_size :: "target \<Rightarrow> u32 \<Rightarrow> save_hw \<Rightarrow> nat \<times> save_hw" where
  "nv_infer_text_size T i h = infer_from T i (unat (of_nvslot_capacity T i)) 0 h"

section \<open>Opening\<close>

definition alloc_fd :: "'d files \<Rightarrow> nat option \<times> 'd files" where
  "alloc_fd s =
     (case find (\<lambda>i. \<not> in_use (fd_table s ! i)) [FD_FIRST_FREE..<MAX_FDS] of
        None \<Rightarrow> (None, s)
      | Some i \<Rightarrow> (Some i, set_fd i (\<lambda>f. f\<lparr>in_use := True\<rparr>) s))"

text \<open>
  The size a nonvolatile file opens with: the cached one, the whole slot for a read-only open of an
  empty save, the probed text length for a read-only open of an empty settings slot.
\<close>

definition nv_open_size :: "target \<Rightarrow> u32 \<Rightarrow> int \<Rightarrow> u32 \<Rightarrow> 'd files \<Rightarrow> nat \<times> 'd files" where
  "nv_open_size T i idx fl s =
     (case nv_current_size T i idx s of (n0, s1) \<Rightarrow>
        let sv = save_slot_from_data_id T i;
            n1 = (if n0 = 0 \<and> 0 \<le> sv \<and> open_flags_read_only fl
                  then unat (of_nvslot_capacity T i) else n0)
        in if n1 = 0 \<and> sv < 0 \<and> open_flags_read_only fl
           then case nv_infer_text_size T i (hw s1) of (n2, h) \<Rightarrow> (n2, s1\<lparr>hw := h\<rparr>)
           else (n1, s1))"

definition open_nv_finish :: "nat \<Rightarrow> u32 \<Rightarrow> 'd files \<Rightarrow> io_result \<times> 'd files" where
  "open_nv_finish fd fl s = (Val (int fd),
     (set_fd fd (\<lambda>f. if fl AND O_APPEND \<noteq> 0 then f\<lparr>fd_offset := fd_size f\<rparr> else f) s)
       \<lparr>hw := of_save_begin_cpu (hw s)\<rparr>)"

definition open_nv_fd :: "target \<Rightarrow> 'd hal \<Rightarrow> nat \<Rightarrow> u32 \<Rightarrow> u32 \<Rightarrow> 'd files \<Rightarrow> io_result \<times> 'd files" where
  "open_nv_fd T H fd i fl s =
     (let idx = nv_cache_index_from_data_id T i in
      if idx < 0 \<or> \<not> of_nvslot_is_supported T i then (Err (Sys EINVAL), free_fd fd s)
      else case nv_open_size T i idx fl s of (n, s1) \<Rightarrow>
        let s2 = set_fd fd (\<lambda>f. f\<lparr>slot_id := i, kind := FD_NV_FILE, is_save := True,
                   save_slot := save_slot_from_data_id T i, nv_cache_idx := idx, fd_size := n\<rparr>) s1
        in if fl AND O_TRUNC \<noteq> 0 then
             (case of_nvslot_set_size T (dt_feature H) (dt_entry H) i 0 (hw s2) of (rc, h) \<Rightarrow>
                if rc \<noteq> 0 then (Err (Sys EIO), free_fd fd (s2\<lparr>hw := h\<rparr>))
                else open_nv_finish fd fl (save_size_cache_store T idx 0
                       (set_fd fd (\<lambda>f. f\<lparr>fd_size := 0, dirty := True\<rparr>) (s2\<lparr>hw := h\<rparr>))))
           else open_nv_finish fd fl s2)"

section \<open>Reading\<close>

text \<open>The volume of a mount is read through the cache.\<close>

definition read_iso_fd :: "target \<Rightarrow> nat \<Rightarrow> u32 \<Rightarrow> 'd files \<Rightarrow> io_result \<times> 'd files" where
  "read_iso_fd T fd cnt s =
     (let f = fd_table s ! fd in
      if flags f AND O_ACCMODE = O_WRONLY then (Err (Sys EBADF), s)
      else case iso9660_read_file (cached_read T) (m_iso (mounts s ! nat (mount_idx f))) (iso f) cnt (drv s, io s) of
        (r, g, d', c') \<Rightarrow>
          let s1 = set_fd fd (\<lambda>f. f\<lparr>iso := g\<rparr>) (s\<lparr>drv := d', io := c'\<rparr>) in
          (case r of
             Iso_errno e \<Rightarrow> (Err (Sys e), s1)
           | Iso_failed e \<Rightarrow> (Err e, s1)
           | Iso_bytes bs \<Rightarrow>
               (Bytes bs, if bs = [] then s1
                          else set_fd fd (\<lambda>f. f\<lparr>fd_offset := unat (iso9660_tell_file (iso f))\<rparr>) s1)))"

definition read_save_fd :: "target \<Rightarrow> nat \<Rightarrow> u32 \<Rightarrow> 'd files \<Rightarrow> io_result \<times> 'd files" where
  "read_save_fd T fd cnt s =
     (let f = fd_table s ! fd in
      if flags f AND O_ACCMODE = O_WRONLY then (Err (Sys EBADF), s)
      else if fd_size f \<le> fd_offset f then (Val 0, s)
      else let n = min (unat cnt) (fd_size f - fd_offset f) in
        case of_nvslot_read T (slot_id f) (of_nat (fd_offset f)) (of_nat n) (hw s) of
          (None, h) \<Rightarrow> (Val (-1), s\<lparr>hw := h\<rparr>)
        | (Some bs, h) \<Rightarrow>
            (Bytes bs, set_fd fd (\<lambda>f. f\<lparr>fd_offset := fd_offset f + n\<rparr>) (s\<lparr>hw := h\<rparr>)))"

definition resolve_size :: "nat \<Rightarrow> 'd files \<Rightarrow> 'd files" where
  "resolve_size fd s =
     (let z = dev_size (drv s) (slot_id (fd_table s ! fd)) in
      if 0 < z then set_fd fd (\<lambda>f. f\<lparr>fd_size := nat z\<rparr>) s else s)"

definition read_slot_fd :: "target \<Rightarrow> nat \<Rightarrow> u32 \<Rightarrow> 'd files \<Rightarrow> io_result \<times> 'd files" where
  "read_slot_fd T fd cnt s0 =
     (let f0 = fd_table s0 ! fd;
          s = (if fd_size f0 = 0 \<and> 0 < slot_id f0 \<and> fd_offset f0 = 0 then resolve_size fd s0 else s0);
          f = fd_table s ! fd;
          n0 = unat cnt;
          clip = 0 < fd_size f \<and> fd_size f < fd_offset f + n0
      in if clip \<and> fd_size f \<le> fd_offset f then (Val 0, s)
      else let n1 = (if clip then fd_size f - fd_offset f else n0) in
        if n1 = 0 then (Val 0, s)
        else if 0xFFFFFFFF < fd_offset f then (Err (Sys EINVAL), s)
        else let n = min n1 (0x100000000 - fd_offset f) in
          (case slot_read_cached T (slot_id f) (of_nat (fd_offset f)) (of_nat n) (drv s) (io s) of
             (r, bs, d', c') \<Rightarrow>
               let s' = s\<lparr>drv := d', io := c'\<rparr> in
               (case r of
                  Some e \<Rightarrow>
                    if fd_size f = 0 then (Val 0, set_fd fd (\<lambda>f. f\<lparr>fd_size := fd_offset f\<rparr>) s')
                    else (Err e, s')
                | None \<Rightarrow> (Bytes bs, set_fd fd (\<lambda>f. f\<lparr>fd_offset := fd_offset f + n\<rparr>) s'))))"

definition sys_read :: "target \<Rightarrow> int \<Rightarrow> u32 \<Rightarrow> 'd files \<Rightarrow> io_result \<times> 'd files" where
  "sys_read T fd cnt s =
     (if sint cnt \<le> 0 then (Val 0, s)
      else if \<not> fd_open fd s then (Err (Sys EBADF), s)
      else let f = fd_table s ! nat fd in
        if kind f = FD_ISO_FILE then read_iso_fd T (nat fd) cnt s
        else if is_save f then read_save_fd T (nat fd) cnt s
        else read_slot_fd T (nat fd) cnt s)"

section \<open>Writing\<close>

definition write_save_fd :: "target \<Rightarrow> nat \<Rightarrow> u8 list \<Rightarrow> 'd files \<Rightarrow> io_result \<times> 'd files" where
  "write_save_fd T fd bs s0 =
     (let f0 = fd_table s0 ! fd in
      if flags f0 AND O_ACCMODE = 0 then (Err (Sys EBADF), s0)
      else
        let s = (if flags f0 AND O_APPEND \<noteq> 0
                 then set_fd fd (\<lambda>f. f\<lparr>fd_offset := fd_size f\<rparr>) s0 else s0);
            f = fd_table s ! fd; cap = unat (of_nvslot_capacity T (slot_id f))
        in if cap = 0 then (Err (Sys EIO), s)
        else if cap \<le> fd_offset f then (Err (Sys EFBIG), s)
        else
          let n = min (length bs) (cap - fd_offset f) in
          (case of_nvslot_write T (slot_id f) (take n bs) (of_nat (fd_offset f)) (hw s) of (rc, h) \<Rightarrow>
             if rc \<le> 0 then (Err (Sys EIO), s\<lparr>hw := h\<rparr>)
             else
               let e = fd_offset f + nat rc; z = (if fd_size f < e then e else fd_size f) in
               (Val rc, save_size_cache_store T (nv_cache_idx f) z
                 (set_fd fd (\<lambda>f. f\<lparr>fd_offset := e, fd_size := z, dirty := True\<rparr>) (s\<lparr>hw := h\<rparr>)))))"

definition sys_write :: "target \<Rightarrow> int \<Rightarrow> u8 list \<Rightarrow> 'd files \<Rightarrow> io_result \<times> 'd files" where
  "sys_write T fd bs s =
     (if bs = [] then (Val 0, s)
      else if fd = 1 \<or> fd = 2 then (Val (int (length bs)), s\<lparr>tty := tty s @ bs\<rparr>)
      else if \<not> fd_open fd s then (Err (Sys EBADF), s)
      else if is_save (fd_table s ! nat fd) then write_save_fd T (nat fd) bs s
      else (Err (Sys EACCES), s))"

section \<open>Closing, sizes and seeking\<close>

definition sys_close :: "target \<Rightarrow> 'd hal \<Rightarrow> int \<Rightarrow> 'd files \<Rightarrow> io_result \<times> 'd files" where
  "sys_close T H fd s =
     (if fd < int FD_FIRST_FREE \<or> int MAX_FDS \<le> fd then (Err (Sys EBADF), s)
      else let f = fd_table s ! nat fd in
      if \<not> in_use f then (Err (Sys EBADF), s)
      else if is_save f then
        (let (rc, s1) = (if dirty f then
             (case of_nvslot_set_size T (dt_feature H) (dt_entry H) (slot_id f) (of_nat (fd_size f)) (hw s) of
                (rc, h) \<Rightarrow> (rc,
                  if rc = 0 then save_size_cache_store T (nv_cache_idx f) (fd_size f) (s\<lparr>hw := h\<rparr>)
                  else save_size_cache_invalidate T (nv_cache_idx f) (s\<lparr>hw := h\<rparr>)))
             else (0, s));
             s2 = free_fd (nat fd) s1
         in (Val rc, s2\<lparr>hw := of_save_end_cpu (hw s2)\<rparr>))
      else (Val 0, free_fd (nat fd) s))"

definition sys_file_size_fd :: "int \<Rightarrow> 'd files \<Rightarrow> int \<times> 'd files" where
  "sys_file_size_fd fd s =
     (if \<not> fd_open fd s then (-1, s)
      else let f = fd_table s ! nat fd; clip = (\<lambda>n. if 0x7FFFFFFF < n then 0x7FFFFFFF else int n) in
        if kind f = FD_ISO_FILE \<or> kind f = FD_ISO_DIR then (clip (fd_size f), s)
        else if is_save f then (clip (fd_size f), s)
        else let s1 = (if fd_size f = 0 \<and> 0 < slot_id f then resolve_size (nat fd) s else s)
             in (clip (fd_size (fd_table s1 ! nat fd)), s1))"

definition seek_target :: "int \<Rightarrow> nat \<Rightarrow> nat \<Rightarrow> int \<Rightarrow> int option" where
  "seek_target whence position sz offset =
     (if whence = 0 then Some offset
      else if whence = 1 then Some (int position + offset)
      else if whence = 2 then Some (int sz + offset)
      else None)"

definition sys_llseek :: "int \<Rightarrow> int \<Rightarrow> int \<Rightarrow> 'd files \<Rightarrow> io_result \<times> 'd files" where
  "sys_llseek fd offset whence s0 =
     (if \<not> fd_open fd s0 then (Err (Sys EBADF), s0)
      else let f0 = fd_table s0 ! nat fd in
      if kind f0 = FD_ISO_FILE then
        (case seek_target whence (unat (iso9660_tell_file (iso f0))) (fd_size f0) offset of
           None \<Rightarrow> (Err (Sys EINVAL), s0)
         | Some n \<Rightarrow>
             if n < 0 \<or> 0xFFFFFFFF < n then (Err (Sys EINVAL), s0)
             else case iso9660_seek_file (iso f0) n 0 of
               Inl e \<Rightarrow> (Err (Sys e), s0)
             | Inr g \<Rightarrow> (Val n, set_fd (nat fd) (\<lambda>f. f\<lparr>iso := g, fd_offset := nat n\<rparr>) s0))
      else if kind f0 = FD_ISO_DIR then (Err (Sys EINVAL), s0)
      else
        let s = (if whence = 2 \<and> \<not> is_save f0 \<and> fd_size f0 = 0 \<and> 0 < slot_id f0
                 then resolve_size (nat fd) s0 else s0); f = fd_table s ! nat fd in
        (case seek_target whence (fd_offset f) (fd_size f) offset of
           None \<Rightarrow> (Err (Sys EINVAL), s)
         | Some n \<Rightarrow>
             if n < 0 \<or> 0xFFFFFFFF < n then (Err (Sys EINVAL), s)
             else (Val n, set_fd (nat fd) (\<lambda>f. f\<lparr>fd_offset := nat n\<rparr>) s)))"

end
