(* ===== verification/Vfs.thy ===== *)
theory Vfs
  imports Files
begin

text \<open>
  Names and volumes of \<^verbatim>\<open>kernel/syscall.c\<close>: the file slot registry and its lookup, the mount table,
  \<^verbatim>\<open>sys_openat\<close> with every route it tries, directory listings, the stat family and the working
  directory. lib9660 is the parameter \<open>L\<close>, the target's file HAL the parameter \<open>H\<close>.
\<close>

section \<open>Calls into the target's HAL\<close>

definition hal_get_name :: "'d hal \<Rightarrow> u32 \<Rightarrow> 'd files \<Rightarrow> string option \<times> 'd files" where
  "hal_get_name H i s = (case get_name H i (dev (drv s)) of (r, d) \<Rightarrow> (r, s\<lparr>drv := (drv s)\<lparr>dev := d\<rparr>\<rparr>))"

definition hal_resolve :: "'d hal \<Rightarrow> string \<Rightarrow> 'd files \<Rightarrow> int \<times> 'd files" where
  "hal_resolve H n s = (case resolve_name H n (dev (drv s)) of (r, d) \<Rightarrow> (r, s\<lparr>drv := (drv s)\<lparr>dev := d\<rparr>\<rparr>))"

definition hal_config_slot :: "'d hal \<Rightarrow> string \<Rightarrow> 'd files \<Rightarrow> int \<times> 'd files" where
  "hal_config_slot H n s = (case config_slot H n (dev (drv s)) of (r, d) \<Rightarrow> (r, s\<lparr>drv := (drv s)\<lparr>dev := d\<rparr>\<rparr>))"

section \<open>The file slot registry\<close>

definition MAX_FILE_SLOTS :: nat where "MAX_FILE_SLOTS = 64"
definition FILE_SLOT_NAME_MAX :: nat where "FILE_SLOT_NAME_MAX = 24"
definition VFS_MAX_MOUNTS :: nat where "VFS_MAX_MOUNTS = 4"
definition VFS_PATH_MAX :: nat where "VFS_PATH_MAX = 256"
definition VFS_MOUNT_NAME_MAX :: nat where "VFS_MOUNT_NAME_MAX = 24"
definition MAX_DATA_SLOTS :: nat where "MAX_DATA_SLOTS = 32"

definition file_slot_register :: "u32 \<Rightarrow> string \<Rightarrow> 'd files \<Rightarrow> 'd files" where
  "file_slot_register i n s =
     (if MAX_FILE_SLOTS \<le> length (names s) then s
      else s\<lparr>names := names s @ [(i, take (FILE_SLOT_NAME_MAX - 1) n)]\<rparr>)"

text \<open>One pass over the registry: a hit counts unless the slot's current name says it is stale.\<close>

fun registry_pass ::
  "'d hal \<Rightarrow> (string \<Rightarrow> bool) \<Rightarrow> (string \<Rightarrow> string \<Rightarrow> bool) \<Rightarrow> (u32 \<times> string) list \<Rightarrow> 'd files \<Rightarrow>
     u32 option \<times> 'd files" where
  "registry_pass H hit stale [] s = (None, s)"
| "registry_pass H hit stale ((i, n) # es) s =
     (if hit n then
        (case hal_get_name H i s of
           (cur, s1) \<Rightarrow>
             if (case cur of Some c \<Rightarrow> c \<noteq> [] \<and> stale c n | None \<Rightarrow> False)
             then registry_pass H hit stale es s1 else (Some i, s1))
      else registry_pass H hit stale es s)"

definition registry_full :: "'d hal \<Rightarrow> string \<Rightarrow> 'd files \<Rightarrow> u32 option \<times> 'd files" where
  "registry_full H full s =
     registry_pass H (\<lambda>n. stricmp full n = 0) (\<lambda>c n. stricmp c n \<noteq> 0) (names s) s"

definition registry_base :: "'d hal \<Rightarrow> string \<Rightarrow> 'd files \<Rightarrow> u32 option \<times> 'd files" where
  "registry_base H name s =
     registry_pass H (\<lambda>n. stricmp name n = 0) (\<lambda>c n. stricmp (path_basename c) name \<noteq> 0) (names s) s"

definition file_slot_lookup :: "'d hal \<Rightarrow> string \<Rightarrow> 'd files \<Rightarrow> int \<times> 'd files" where
  "file_slot_lookup H path s =
     (let full = dropWhile (\<lambda>c. c = CHR ''/'') path; name = path_basename path in
      case registry_full H full s of
        (Some i, s1) \<Rightarrow> (sint i, s1)
      | (None, s1) \<Rightarrow>
          (case (if list_ex is_sep full then hal_resolve H full s1 else (-1, s1)) of
             (direct, s2) \<Rightarrow>
               if 0 \<le> direct then (direct, s2)
               else case registry_base H name s2 of
                 (Some i, s3) \<Rightarrow> (sint i, s3)
               | (None, s3) \<Rightarrow>
                   (case hal_resolve H name s3 of
                      (live, s4) \<Rightarrow> (if 0 \<le> live then live else -1, s4))))"

definition file_slot_get_count :: "'d files \<Rightarrow> int" where
  "file_slot_get_count s = int (length (names s))"

definition file_slot_get :: "int \<Rightarrow> 'd files \<Rightarrow> (u32 \<times> string) option" where
  "file_slot_get idx s = (if idx < 0 \<or> int (length (names s)) \<le> idx then None else Some (names s ! nat idx))"

definition file_slot_find :: "'d hal \<Rightarrow> string \<Rightarrow> 'd files \<Rightarrow> u32 option \<times> 'd files" where
  "file_slot_find H filename s =
     (case file_slot_lookup H filename s of
        (slot, s1) \<Rightarrow>
          (case (if slot < 0 then hal_resolve H (path_basename filename) s1 else (slot, s1)) of
             (slot', s2) \<Rightarrow> (if slot' < 0 then None else Some (word_of_int slot'), s2)))"

definition digit_char :: "nat \<Rightarrow> char" where "digit_char d = char_of (48 + d)"

definition format_slot_name :: "nat \<Rightarrow> string" where
  "format_slot_name slot =
     ''slot:'' @ (if 10 \<le> slot then [digit_char (slot div 10), digit_char (slot mod 10)] else [digit_char slot])"

fun try_get_name :: "'d hal \<Rightarrow> u32 \<Rightarrow> nat \<Rightarrow> 'd files \<Rightarrow> string option \<times> 'd files" where
  "try_get_name H i 0 s = (None, s)"
| "try_get_name H i (Suc attempts) s =
     (case hal_get_name H i s of
        (Some n, s1) \<Rightarrow> (if n \<noteq> [] then (Some n, s1) else try_get_name H i attempts s1)
      | (None, s1) \<Rightarrow> try_get_name H i attempts s1)"

definition probe_slot :: "target \<Rightarrow> 'd hal \<Rightarrow> nat \<Rightarrow> 'd files \<Rightarrow> 'd files" where
  "probe_slot T H slot s =
     (let i = of_nat slot :: u32; sz = dev_size (drv s) i; fl = file_flags H i (dev (drv s)) in
      if sz \<le> 0 \<and> (\<not> of_nvslot_is_supported T i \<or> fl \<le> 0) then s
      else case try_get_name H i 4 s of
        (r, s1) \<Rightarrow>
          let name = (case r of Some n \<Rightarrow> n | None \<Rightarrow> format_slot_name slot) in
          if list_ex (\<lambda>(_, n). stricmp name n = 0) (names s1) then s1
          else file_slot_register i name s1)"

definition dir_probe_slots :: "target \<Rightarrow> 'd hal \<Rightarrow> 'd files \<Rightarrow> 'd files" where
  "dir_probe_slots T H s = fold (probe_slot T H) [1..<MAX_DATA_SLOTS] s"

definition filesystem_init :: "target \<Rightarrow> 'd hal \<Rightarrow> 'd files \<Rightarrow> int \<times> 'd files" where
  "filesystem_init T H s =
     (let s1 = dir_probe_slots T H s in (int (length (names s1)) - int (length (names s)), s1))"

section \<open>The mount table\<close>

definition no_mount_entry :: mount where
  "no_mount_entry = \<lparr>m_used = False, m_target = [], m_slot = 0, m_iso = no_mount\<rparr>"

fun best_mount :: "string \<Rightarrow> mount list \<Rightarrow> nat \<Rightarrow> (nat \<times> nat) option \<Rightarrow> (nat \<times> nat) option" where
  "best_mount path [] i best = best"
| "best_mount path (m # ms) i best =
     best_mount path ms (i + 1)
       (if m_used m \<and> mount_path_match path (m_target m) \<and>
           (case best of None \<Rightarrow> True | Some (_, len) \<Rightarrow> len < length (m_target m))
        then Some (i, length (m_target m)) else best)"

definition vfs_find_mount :: "string \<Rightarrow> 'd files \<Rightarrow> (nat \<times> string) option" where
  "vfs_find_mount path s =
     (case best_mount path (mounts s) 0 None of
        None \<Rightarrow> None
      | Some (i, len) \<Rightarrow>
          let rel = drop len path in
          Some (i, if rel \<noteq> [] \<and> hd rel = CHR ''/'' then tl rel else rel))"

definition vfs_mount_name_available :: "string \<Rightarrow> 'd files \<Rightarrow> bool" where
  "vfs_mount_name_available target s \<longleftrightarrow> \<not> list_ex (\<lambda>m. m_used m \<and> stricmp (m_target m) target = 0) (mounts s)"

definition vfs_fd_refs_mount :: "int \<Rightarrow> 'd files \<Rightarrow> bool" where
  "vfs_fd_refs_mount i s \<longleftrightarrow>
     list_ex (\<lambda>fd. in_use (fd_table s ! fd) \<and> mount_idx (fd_table s ! fd) = i) [FD_FIRST_FREE..<MAX_FDS]"

definition parse_int :: "string \<Rightarrow> int" where
  "parse_int p = sint (digits_value (takeWhile is_digit p))"

definition prefix_match :: "string \<Rightarrow> string \<Rightarrow> bool" where
  "prefix_match s p \<longleftrightarrow> take (length p) s = p"

definition slot_number :: "string \<Rightarrow> int option" where
  "slot_number p = (if p = [] \<or> \<not> is_digit (hd p) then None else Some (parse_int p))"

definition mount_source :: "target \<Rightarrow> 'd hal \<Rightarrow> string \<Rightarrow> 'd files \<Rightarrow> (errno + int) \<times> 'd files" where
  "mount_source T H source s0 =
     (if prefix_match source ''slot:'' then
        (case slot_number (drop 5 source) of None \<Rightarrow> (Inl EINVAL, s0) | Some n \<Rightarrow> (Inr n, s0))
      else
        let s = (if names s0 = [] then dir_probe_slots T H s0 else s0) in
        (case file_slot_lookup H source s of
           (slot, s1) \<Rightarrow>
             (case (if slot < 0 then hal_resolve H (path_basename source) s1 else (slot, s1)) of
                (slot', s2) \<Rightarrow> (if slot' < 0 then Inl ENOENT else Inr slot', s2))))"

definition free_mount :: "mount list \<Rightarrow> nat option" where
  "free_mount ms = find (\<lambda>i. \<not> m_used (ms ! i)) [0..<length ms]"

definition mount_at ::
  "target \<Rightarrow> ('d driver \<times> io_cache) lib9660 \<Rightarrow> nat \<Rightarrow> u32 \<Rightarrow> string \<Rightarrow> 'd files \<Rightarrow> errno option \<times> 'd files" where
  "mount_at T L i slot target s =
     (case iso9660_mount L (cached_read T) slot (drv s, io s) of
        (r, d', c') \<Rightarrow>
          let s1 = s\<lparr>drv := d', io := c'\<rparr> in
          (case r of
             Inl e \<Rightarrow> (Some e, s1\<lparr>mounts := (mounts s1)[i := no_mount_entry]\<rparr>)
           | Inr m \<Rightarrow>
               (None, s1\<lparr>mounts := (mounts s1)[i := \<lparr>m_used = True,
                    m_target = take (VFS_MOUNT_NAME_MAX - 1) target, m_slot = slot, m_iso = m\<rparr>],
                  mount_count := mount_count s1 + 1\<rparr>)))"

definition sys_mount_iso ::
  "target \<Rightarrow> 'd hal \<Rightarrow> ('d driver \<times> io_cache) lib9660 \<Rightarrow> string option \<Rightarrow> string option \<Rightarrow> 'd files \<Rightarrow>
     errno option \<times> 'd files" where
  "sys_mount_iso T H L source target s =
     (case (source, target) of
        (Some src, Some tgt) \<Rightarrow>
          (case normalize_abs_path (cwd s) tgt VFS_PATH_MAX of
             Inl e \<Rightarrow> (Some e, s)
           | Inr apath \<Rightarrow>
               if apath = [] \<or> hd apath \<noteq> CHR ''/'' \<or> tl apath = [] then (Some EINVAL, s)
               else if VFS_MOUNT_NAME_MAX \<le> length apath then (Some ENAMETOOLONG, s)
               else if \<not> vfs_mount_name_available apath s then (Some EBUSY, s)
               else case mount_source T H src s of
                 (Inl e, s1) \<Rightarrow> (Some e, s1)
               | (Inr slot, s1) \<Rightarrow>
                   (case free_mount (mounts s1) of
                      None \<Rightarrow> (Some EMFILE, s1)
                    | Some i \<Rightarrow> mount_at T L i (word_of_int slot) apath s1))
      | _ \<Rightarrow> (Some EINVAL, s))"

definition find_mounted :: "string \<Rightarrow> mount list \<Rightarrow> nat option" where
  "find_mounted apath ms = find (\<lambda>i. m_used (ms ! i) \<and> stricmp (m_target (ms ! i)) apath = 0) [0..<length ms]"

definition sys_unmount_path :: "string \<Rightarrow> 'd files \<Rightarrow> errno option \<times> 'd files" where
  "sys_unmount_path target s =
     (case normalize_abs_path (cwd s) target VFS_PATH_MAX of
        Inl e \<Rightarrow> (Some e, s)
      | Inr apath \<Rightarrow>
          (case find_mounted apath (mounts s) of
             None \<Rightarrow> (Some ENOENT, s)
           | Some i \<Rightarrow>
               if vfs_fd_refs_mount (int i) s then (Some EBUSY, s)
               else
                 (None, s\<lparr>mounts := (mounts s)[i := no_mount_entry],
                    mount_count := (if 0 < mount_count s then mount_count s - 1 else mount_count s),
                    cwd := (if mount_path_match (cwd s) apath then ''/'' else cwd s)\<rparr>)))"

section \<open>Opening by path\<close>

definition vfs_open_at ::
  "target \<Rightarrow> ('d driver \<times> io_cache) lib9660 \<Rightarrow> nat \<Rightarrow> nat \<Rightarrow> string \<Rightarrow> u32 \<Rightarrow> 'd files \<Rightarrow> io_result \<times> 'd files" where
  "vfs_open_at T L fd i rel fl s0 =
     (let s = set_fd fd (\<lambda>f. f\<lparr>mount_idx := int i\<rparr>) s0; m = m_iso (mounts s ! i);
          is_directory = fl AND O_DIRECTORY \<noteq> 0
      in case (if is_directory then iso9660_open_dir L (cached_read T) m rel (drv s, io s)
               else iso9660_open_file L (cached_read T) m rel (drv s, io s)) of
           (r, d', c') \<Rightarrow>
             let s1 = s\<lparr>drv := d', io := c'\<rparr> in
             (case r of
                Inl e \<Rightarrow> (Err (Sys e), free_fd fd s1)
              | Inr g \<Rightarrow>
                  (Val (int fd), set_fd fd (\<lambda>f.
                     if is_directory then f\<lparr>iso := g, kind := FD_ISO_DIR, is_dir := True\<rparr>
                     else f\<lparr>iso := g, kind := FD_ISO_FILE, fd_size := unat (iso9660_size_file g)\<rparr>) s1)))"

definition vfs_open_if_mounted ::
  "target \<Rightarrow> ('d driver \<times> io_cache) lib9660 \<Rightarrow> nat \<Rightarrow> string \<Rightarrow> u32 \<Rightarrow> 'd files \<Rightarrow> (io_result \<times> 'd files) option" where
  "vfs_open_if_mounted T L fd path fl s =
     (if mount_count s = 0 then None
      else case normalize_abs_path (cwd s) path VFS_PATH_MAX of
        Inl e \<Rightarrow> None
      | Inr full \<Rightarrow>
          (case vfs_find_mount full s of
             None \<Rightarrow> None
           | Some (i, rel) \<Rightarrow>
               Some (if open_flags_want_write fl then (Err (Sys EACCES), free_fd fd s)
                     else vfs_open_at T L fd i rel fl s)))"

text \<open>A read-only slot file: refused for writing, and when it has no data.\<close>

definition open_slot_file :: "nat \<Rightarrow> u32 \<Rightarrow> u32 \<Rightarrow> 'd files \<Rightarrow> io_result \<times> 'd files" where
  "open_slot_file fd i fl s =
     (if open_flags_want_write fl then (Err (Sys EACCES), free_fd fd s)
      else let sz = dev_size (drv s) i in
        if sz \<le> 0 then (Err (Sys ENOENT), free_fd fd s)
        else (Val (int fd), set_fd fd (\<lambda>f. f\<lparr>slot_id := i, kind := FD_SLOT_FILE, fd_size := nat sz\<rparr>) s))"

definition open_slot_path :: "target \<Rightarrow> 'd hal \<Rightarrow> nat \<Rightarrow> string \<Rightarrow> u32 \<Rightarrow> 'd files \<Rightarrow> io_result \<times> 'd files" where
  "open_slot_path T H fd p fl s =
     (case slot_number p of
        None \<Rightarrow> (Err (Sys EINVAL), free_fd fd s)
      | Some slot \<Rightarrow>
          let i = word_of_int slot in
          if of_nvslot_is_supported T i then open_nv_fd T H fd i fl s
          else if file_flags H i (dev (drv s)) \<noteq> slot then (Err (Sys ENOENT), free_fd fd s)
          else open_slot_file fd i fl s)"

definition open_save_path :: "target \<Rightarrow> 'd hal \<Rightarrow> nat \<Rightarrow> string \<Rightarrow> u32 \<Rightarrow> 'd files \<Rightarrow> io_result \<times> 'd files" where
  "open_save_path T H fd p fl s =
     (case slot_number p of
        None \<Rightarrow> (Err (Sys EINVAL), free_fd fd s)
      | Some slot \<Rightarrow> open_nv_fd T H fd (SAVE_SLOT_ID_BASE + word_of_int slot) fl s)"

definition open_registered :: "target \<Rightarrow> 'd hal \<Rightarrow> nat \<Rightarrow> string \<Rightarrow> u32 \<Rightarrow> u32 \<Rightarrow> 'd files \<Rightarrow> io_result \<times> 'd files" where
  "open_registered T H fd path i fl s =
     (if of_nvslot_is_supported T i then open_nv_fd T H fd i fl s
      else case hal_config_slot H (path_basename path) s of
        (cfg, s1) \<Rightarrow>
          if 0 \<le> cfg then open_nv_fd T H fd (word_of_int cfg) fl s1
          else open_slot_file fd i fl s1)"

definition nv_settings_slot_from_filename :: "string \<Rightarrow> int" where
  "nv_settings_slot_from_filename path = (if stricmp (path_basename path) ''duke3d.cfg'' = 0 then 9 else -1)"

definition open_unregistered :: "target \<Rightarrow> 'd hal \<Rightarrow> nat \<Rightarrow> string \<Rightarrow> u32 \<Rightarrow> 'd files \<Rightarrow> io_result \<times> 'd files" where
  "open_unregistered T H fd path fl s =
     (let save = (case save_slot_from_filename (uint (save_max_slots T)) path of None \<Rightarrow> -1 | Some n \<Rightarrow> n);
          settings = nv_settings_slot_from_filename path
      in if 0 \<le> save then open_nv_fd T H fd (SAVE_SLOT_ID_BASE + word_of_int save) fl s
         else if 0 \<le> settings \<and> of_nvslot_is_supported T (word_of_int settings)
         then open_nv_fd T H fd (word_of_int settings) fl s
         else case hal_config_slot H (path_basename path) s of
           (cfg, s1) \<Rightarrow>
             if 0 \<le> cfg then open_nv_fd T H fd (word_of_int cfg) fl s1
             else case hal_resolve H (path_basename path) s1 of
               (direct, s2) \<Rightarrow>
                 if 0 \<le> direct then open_slot_file fd (word_of_int direct) fl s2
                 else (Err (Sys ENOENT), free_fd fd s2))"

definition open_by_name :: "target \<Rightarrow> 'd hal \<Rightarrow> nat \<Rightarrow> string \<Rightarrow> u32 \<Rightarrow> 'd files \<Rightarrow> io_result \<times> 'd files" where
  "open_by_name T H fd path fl s =
     (case file_slot_lookup H path s of
        (slot, s1) \<Rightarrow>
          if 0 \<le> slot then open_registered T H fd path (word_of_int slot) fl s1
          else open_unregistered T H fd path fl s1)"

definition fresh_fd :: "u32 \<Rightarrow> fd_entry \<Rightarrow> fd_entry" where
  "fresh_fd fl f = f\<lparr>fd_offset := 0, flags := fl, is_save := False, save_slot := -1, nv_cache_idx := -1,
     slot_id := 0, fd_size := 0, dirty := False, is_dir := False, dir_pos := 0, kind := FD_SLOT_FILE,
     mount_idx := -1\<rparr>"

definition open_root_dir :: "target \<Rightarrow> 'd hal \<Rightarrow> nat \<Rightarrow> 'd files \<Rightarrow> io_result \<times> 'd files" where
  "open_root_dir T H fd s =
     (let s1 = (if names s = [] then dir_probe_slots T H s else s)
      in (Val (int fd), set_fd fd (\<lambda>f. f\<lparr>kind := FD_ROOT_DIR, is_dir := True\<rparr>) s1))"

definition open_routes ::
  "target \<Rightarrow> 'd hal \<Rightarrow> ('d driver \<times> io_cache) lib9660 \<Rightarrow> nat \<Rightarrow> string \<Rightarrow> u32 \<Rightarrow> 'd files \<Rightarrow> io_result \<times> 'd files" where
  "open_routes T H L fd path fl s =
     (let slot_path = prefix_match path ''slot:'';
          save_path = prefix_match path ''save:'' \<or> prefix_match path ''save_''
      in case (if slot_path \<or> save_path then None else vfs_open_if_mounted T L fd path fl s) of
           Some r \<Rightarrow> r
         | None \<Rightarrow>
             if fl AND O_DIRECTORY \<noteq> 0 then open_root_dir T H fd s
             else if slot_path then open_slot_path T H fd (drop 5 path) fl s
             else if save_path then open_save_path T H fd (drop 5 path) fl s
             else open_by_name T H fd path fl s)"

definition sys_openat ::
  "target \<Rightarrow> 'd hal \<Rightarrow> ('d driver \<times> io_cache) lib9660 \<Rightarrow> string option \<Rightarrow> u32 \<Rightarrow> 'd files \<Rightarrow> io_result \<times> 'd files" where
  "sys_openat T H L pathname fl s =
     (case pathname of
        None \<Rightarrow> (Err (Sys EINVAL), s)
      | Some path \<Rightarrow>
          if path = [] then (Err (Sys ENOENT), s)
          else case alloc_fd s of
            (None, s1) \<Rightarrow> (Err (Sys EMFILE), s1)
          | (Some fd, s1) \<Rightarrow> open_routes T H L fd path fl (set_fd fd (fresh_fd fl) s1))"

section \<open>Directory listings\<close>

record linux_dirent64 =
  d_ino :: u64
  d_off :: nat
  d_reclen :: nat
  d_is_dir :: bool
  d_name :: string

definition dirent_reclen :: "string \<Rightarrow> nat" where
  "dirent_reclen n = (8 + 8 + 2 + 1 + length n + 1 + 7) div 8 * 8"

definition mk_dirent :: "u64 \<Rightarrow> nat \<Rightarrow> bool \<Rightarrow> string \<Rightarrow> linux_dirent64" where
  "mk_dirent ino position dir n = \<lparr>d_ino = ino, d_off = position + 1, d_reclen = dirent_reclen n,
     d_is_dir = dir, d_name = n\<rparr>"

text \<open>The loops return what they emitted, the position and the bytes used.\<close>

fun list_names :: "nat \<Rightarrow> (u32 \<times> string) list \<Rightarrow> nat \<Rightarrow> nat \<Rightarrow> linux_dirent64 list \<times> nat \<times> nat" where
  "list_names cap [] position used = ([], position, used)"
| "list_names cap ((i, n) # es) position used =
     (if cap < used + dirent_reclen n then ([], position, used)
      else case list_names cap es (position + 1) (used + dirent_reclen n) of
        (ds, p, u) \<Rightarrow> (mk_dirent (ucast (i + 1)) position False n # ds, p, u))"

fun list_mounts :: "nat \<Rightarrow> mount list \<Rightarrow> nat \<Rightarrow> nat \<Rightarrow> nat \<Rightarrow> linux_dirent64 list \<times> nat \<times> nat" where
  "list_mounts cap [] mount_pos position used = ([], position, used)"
| "list_mounts cap (m # ms) mount_pos position used =
     (let n = path_basename (m_target m) in
      if \<not> m_used m then list_mounts cap ms (mount_pos + 1) (position + 1) used
      else if cap < used + dirent_reclen n then ([], position, used)
      else case list_mounts cap ms (mount_pos + 1) (position + 1) (used + dirent_reclen n) of
        (ds, p, u) \<Rightarrow> (mk_dirent (0x1000 + of_nat mount_pos) position True n # ds, p, u))"

definition list_root :: "nat \<Rightarrow> nat \<Rightarrow> 'd files \<Rightarrow> linux_dirent64 list \<times> nat \<times> nat" where
  "list_root cap position s =
     (case list_names cap (drop position (names s)) position 0 of
        (ds, p, u) \<Rightarrow>
          if p < length (names s) then (ds, p, u)
          else let k = p - length (names s) in
            (case list_mounts cap (drop k (mounts s)) k p u of (es, q, v) \<Rightarrow> (ds @ es, q, v)))"

text \<open>
  An ISO directory is read entry by entry; the loop ends with the buffer because every record takes
  at least 24 bytes. An entry that does not fit has been consumed when the loop stops.
\<close>

function list_iso ::
  "'s lib9660 \<Rightarrow> 's sector_read \<Rightarrow> l9660_fs \<Rightarrow> int \<Rightarrow> nat \<Rightarrow> nat \<Rightarrow> nat \<Rightarrow> iso_file \<Rightarrow> 's \<Rightarrow>
     (errno option \<times> linux_dirent64 list \<times> nat \<times> nat \<times> iso_file \<times> 's) option" where
  "list_iso L sr fs mi cap position used d s =
     (if \<not> used < cap then Some (None, [], position, used, d, s)
      else case iso9660_read_dir L sr fs d s of
        None \<Rightarrow> None
      | Some (Inl e, d', s') \<Rightarrow> Some (Some e, [], position, used, d', s')
      | Some (Inr None, d', s') \<Rightarrow> Some (None, [], position, used, d', s')
      | Some (Inr (Some ent), d', s') \<Rightarrow>
          if cap < used + dirent_reclen (ent_name ent) then Some (None, [], position, used, d', s')
          else case list_iso L sr fs mi cap (position + 1) (used + dirent_reclen (ent_name ent)) d' s' of
            None \<Rightarrow> None
          | Some (r, ds, rest) \<Rightarrow>
              Some (r, mk_dirent (push_bit 32 (word_of_int (mi + 1)) OR of_nat (position + 1)) position
                         (ent_is_dir ent) (ent_name ent) # ds, rest))"
  by pat_completeness auto
termination
  by (relation "measure (\<lambda>(_, _, _, _, cap, _, used, _, _). cap - used)") (auto simp: dirent_reclen_def)

declare list_iso.simps [simp del]

definition sys_getdents64 ::
  "target \<Rightarrow> ('d driver \<times> io_cache) lib9660 \<Rightarrow> int \<Rightarrow> nat \<Rightarrow> 'd files \<Rightarrow>
     ((errno + nat) \<times> linux_dirent64 list \<times> 'd files) option" where
  "sys_getdents64 T L fd cap s =
     (if \<not> fd_open fd s then Some (Inl EBADF, [], s)
      else let f = fd_table s ! nat fd; position = unat (dir_pos f) in
      if \<not> is_dir f then Some (Inl ENOTDIR, [], s)
      else if kind f = FD_ISO_DIR then
        let m = m_iso (mounts s ! nat (mount_idx f)) in
        (case list_iso L (iso_read_sector (cached_read T) (iso_slot m)) (iso_fs m) (mount_idx f) cap position 0
                (iso f) (drv s, io s) of
           None \<Rightarrow> None
         | Some (r, ds, p, u, g, d', c') \<Rightarrow>
             let s1 = set_fd (nat fd) (\<lambda>f. f\<lparr>iso := g\<rparr>) (s\<lparr>drv := d', io := c'\<rparr>) in
             (case r of
                Some e \<Rightarrow> Some (if 0 < u then Inr u else Inl e, ds, s1)
              | None \<Rightarrow> Some (Inr u, ds, set_fd (nat fd) (\<lambda>f. f\<lparr>dir_pos := of_nat p\<rparr>) s1)))
      else
        (case list_root cap position s of
           (ds, p, u) \<Rightarrow> Some (Inr u, ds, set_fd (nat fd) (\<lambda>f. f\<lparr>dir_pos := of_nat p\<rparr>) s)))"

section \<open>Vectored transfers\<close>

definition rc_of :: "io_result \<Rightarrow> int" where
  "rc_of r = (case r of Err _ \<Rightarrow> -1 | Val n \<Rightarrow> n | Bytes bs \<Rightarrow> int (length bs))"

fun sys_writev :: "target \<Rightarrow> int \<Rightarrow> u8 list list \<Rightarrow> int \<Rightarrow> 'd files \<Rightarrow> io_result \<times> 'd files" where
  "sys_writev T fd [] done s = (Val done, s)"
| "sys_writev T fd (bs # iov) done s =
     (case sys_write T fd bs s of
        (r, s1) \<Rightarrow>
          if rc_of r < 0 then (if 0 < done then Val done else r, s1)
          else sys_writev T fd iov (done + rc_of r) s1)"

fun bytes_of :: "io_result \<Rightarrow> u8 list" where
  "bytes_of (Bytes bs) = bs"
| "bytes_of _ = []"

fun sys_readv :: "target \<Rightarrow> int \<Rightarrow> u32 list \<Rightarrow> u8 list \<Rightarrow> 'd files \<Rightarrow> io_result \<times> 'd files" where
  "sys_readv T fd [] got s = (Bytes got, s)"
| "sys_readv T fd (n # iov) got s =
     (if n = 0 then sys_readv T fd iov got s
      else case sys_read T fd n s of
        (r, s1) \<Rightarrow>
          if rc_of r < 0 then (if got \<noteq> [] then Bytes got else r, s1)
          else if rc_of r = 0 then (Bytes got, s1)
          else if word_of_int (rc_of r) < n then (Bytes (got @ bytes_of r), s1)
          else sys_readv T fd iov (got @ bytes_of r) s1)"

section \<open>The stat family and the working directory\<close>

text \<open>The size of an open descriptor, looked up late for a data slot opened before it was known.\<close>

definition stat_fd :: "nat \<Rightarrow> 'd files \<Rightarrow> nat \<times> 'd files" where
  "stat_fd fd s =
     (let f = fd_table s ! fd;
          s1 = (if fd_size f = 0 \<and> 0 < slot_id f then resolve_size fd s else s)
      in (fd_size (fd_table s1 ! fd), s1))"

definition stat_mounted ::
  "target \<Rightarrow> ('d driver \<times> io_cache) lib9660 \<Rightarrow> nat \<Rightarrow> string \<Rightarrow> 'd files \<Rightarrow> (io_error + nat \<times> bool) \<times> 'd files" where
  "stat_mounted T L i rel s =
     (case iso9660_stat L (cached_read T) (m_iso (mounts s ! i)) rel (drv s, io s) of
        (r, d', c') \<Rightarrow>
          (case r of Inl e \<Rightarrow> Inl (Sys e) | Inr (n, dir) \<Rightarrow> Inr (unat n, dir), s\<lparr>drv := d', io := c'\<rparr>))"

text \<open>\<open>path\<close> None is the null pointer; \<open>fd\<close> is the descriptor a relative query may name.\<close>

definition stat_path_info ::
  "target \<Rightarrow> 'd hal \<Rightarrow> ('d driver \<times> io_cache) lib9660 \<Rightarrow> int \<Rightarrow> string option \<Rightarrow> 'd files \<Rightarrow>
     (io_error + nat \<times> bool) \<times> 'd files" where
  "stat_path_info T H L fd pathname s =
     (case pathname of
        None \<Rightarrow> (Inl (Sys EFAULT), s)
      | Some path \<Rightarrow>
          if path = [] \<and> fd_open fd s then
            (case stat_fd (nat fd) s of (n, s1) \<Rightarrow> (Inr (n, is_dir (fd_table s1 ! nat fd)), s1))
          else case normalize_abs_path (cwd s) path VFS_PATH_MAX of
            Inl e \<Rightarrow> (Inl (Sys e), s)
          | Inr full \<Rightarrow>
              if full = ''/'' then (Inr (0, True), s)
              else case vfs_find_mount full s of
                Some (i, rel) \<Rightarrow> stat_mounted T L i rel s
              | None \<Rightarrow>
                  (case sys_openat T H L pathname 0 s of
                     (Err e, s1) \<Rightarrow> (Inl e, s1)
                   | (r, s1) \<Rightarrow>
                       let n = nat (rc_of r) in
                       (case stat_fd n s1 of
                          (sz, s2) \<Rightarrow>
                            (Inr (sz, is_dir (fd_table s2 ! n)), snd (sys_close T H (int n) s2)))))"

text \<open>
  \<^verbatim>\<open>SYS_statx\<close> and \<^verbatim>\<open>SYS_fstatat\<close> without a mounted volume open the path and mark the descriptor
  free themselves.
\<close>

definition stat_unmounted ::
  "target \<Rightarrow> 'd hal \<Rightarrow> ('d driver \<times> io_cache) lib9660 \<Rightarrow> string option \<Rightarrow> 'd files \<Rightarrow> (io_error + nat) \<times> 'd files" where
  "stat_unmounted T H L pathname s =
     (case sys_openat T H L pathname 0 s of
        (Err e, s1) \<Rightarrow> (Inl e, s1)
      | (r, s1) \<Rightarrow>
          let n = nat (rc_of r) in
          (case stat_fd n s1 of (sz, s2) \<Rightarrow> (Inr sz, free_fd n s2)))"

definition sys_fstat :: "int \<Rightarrow> 'd files \<Rightarrow> (io_error + nat) \<times> 'd files" where
  "sys_fstat fd s =
     (if fd_open fd s then (case stat_fd (nat fd) s of (n, s1) \<Rightarrow> (Inr n, s1)) else (Inl (Sys EBADF), s))"

definition sys_fstatat ::
  "target \<Rightarrow> 'd hal \<Rightarrow> ('d driver \<times> io_cache) lib9660 \<Rightarrow> int \<Rightarrow> string option \<Rightarrow> 'd files \<Rightarrow> (io_error + nat) \<times> 'd files" where
  "sys_fstatat T H L fd pathname s =
     (if 0 < mount_count s then
        (case stat_path_info T H L fd pathname s of
           (Inl e, s1) \<Rightarrow> (Inl e, s1) | (Inr (n, _), s1) \<Rightarrow> (Inr n, s1))
      else stat_unmounted T H L pathname s)"

definition sys_statx ::
  "target \<Rightarrow> 'd hal \<Rightarrow> ('d driver \<times> io_cache) lib9660 \<Rightarrow> int \<Rightarrow> string option \<Rightarrow> 'd files \<Rightarrow> (io_error + nat) \<times> 'd files" where
  "sys_statx T H L fd pathname s =
     (if fd_open fd s then (case stat_fd (nat fd) s of (n, s1) \<Rightarrow> (Inr n, s1))
      else if pathname = None then (Inl (Sys EBADF), s)
      else if 0 < mount_count s then
        (case stat_path_info T H L fd pathname s of
           (Inl e, s1) \<Rightarrow> (Inl e, s1) | (Inr (n, _), s1) \<Rightarrow> (Inr n, s1))
      else case stat_unmounted T H L pathname s of
        (Inl e, s1) \<Rightarrow> (Inl (Sys ENOENT), s1) | (Inr n, s1) \<Rightarrow> (Inr n, s1))"

definition sys_faccessat ::
  "target \<Rightarrow> 'd hal \<Rightarrow> ('d driver \<times> io_cache) lib9660 \<Rightarrow> int \<Rightarrow> string option \<Rightarrow> 'd files \<Rightarrow> (io_error + unit) \<times> 'd files" where
  "sys_faccessat T H L fd pathname s =
     (if mount_count s = 0 then (Inl (Sys ENOSYS), s)
      else case stat_path_info T H L fd pathname s of
        (Inl e, s1) \<Rightarrow> (Inl e, s1) | (Inr _, s1) \<Rightarrow> (Inr (), s1))"

definition sys_getcwd :: "u32 \<Rightarrow> 'd files \<Rightarrow> errno + string \<times> nat" where
  "sys_getcwd cap s =
     (let len = length (cwd s) + 1 in if unat cap < len then Inl ERANGE else Inr (cwd s, len))"

definition sys_chdir ::
  "target \<Rightarrow> 'd hal \<Rightarrow> ('d driver \<times> io_cache) lib9660 \<Rightarrow> string \<Rightarrow> 'd files \<Rightarrow> io_error option \<times> 'd files" where
  "sys_chdir T H L path s =
     (case normalize_abs_path (cwd s) path VFS_PATH_MAX of
        Inl e \<Rightarrow> (Some (Sys e), s)
      | Inr full \<Rightarrow>
          (case stat_path_info T H L (-100) (Some full) s of
             (Inl e, s1) \<Rightarrow> (Some e, s1)
           | (Inr (_, dir), s1) \<Rightarrow>
               if \<not> dir then (Some (Sys ENOTDIR), s1)
               else (None, s1\<lparr>cwd := take (VFS_PATH_MAX - 1) full\<rparr>)))"

section \<open>Initialisation\<close>

definition empty_fd :: fd_entry where
  "empty_fd = \<lparr>in_use = False, kind = FD_NONE, slot_id = 0, fd_offset = 0, fd_size = 0, flags = 0,
     is_save = False, save_slot = 0, nv_cache_idx = 0, dirty = False, is_dir = False, dir_pos = 0,
     mount_idx = 0, iso = no_file\<rparr>"

definition syscall_init_files :: "target \<Rightarrow> 'd files \<Rightarrow> 'd files" where
  "syscall_init_files T s =
     s\<lparr>fd_table := replicate 3 (empty_fd\<lparr>in_use := True\<rparr>) @ replicate (MAX_FDS - 3) empty_fd,
       names := [], io := io_cache_reset T (io s), mounts := replicate VFS_MAX_MOUNTS no_mount_entry,
       mount_count := 0, cwd := ''/''\<rparr>"

end
