(* ===== verification/FilesInv.thy ===== *)
theory FilesInv
  imports Vfs
begin

text \<open>
  The invariant of the descriptor table: every open save file is a supported slot whose logical size
  fits the slot, every open ISO descriptor names a mounted volume, the mount count is right, and the
  CRAM0 hold count of the save HAL is the number of open save files plus \<open>lk\<close>, the holds that no
  descriptor accounts for; the CPU owns the save window exactly while that sum is positive. Each
  operation keeps it with the same \<open>lk\<close>, a path size query without a mounted volume with one more.
\<close>

section \<open>The invariant\<close>

definition nv_uniform :: "target \<Rightarrow> bool" where
  "nv_uniform T \<longleftrightarrow> (\<forall>i. of_nvslot_is_supported T i \<longrightarrow> of_nvslot_capacity T i = save_slot_size T)"

definition holds_save :: "fd_entry \<Rightarrow> bool" where
  "holds_save f \<longleftrightarrow> in_use f \<and> is_save f"

definition held :: "'d files \<Rightarrow> nat" where
  "held s = length (filter holds_save (fd_table s))"

definition hw_ok :: "nat \<Rightarrow> save_hw \<Rightarrow> bool" where
  "hw_ok n h \<longleftrightarrow> cpu_hold_count h = of_nat n \<and> n + 1 < 2 ^ 32 \<and> (cpu_owns_cram h \<longleftrightarrow> 0 < n)"

definition fd_ok :: "target \<Rightarrow> mount list \<Rightarrow> nat \<Rightarrow> fd_entry \<Rightarrow> bool" where
  "fd_ok T ms i f \<longleftrightarrow>
     (i < FD_FIRST_FREE \<longrightarrow> in_use f \<and> \<not> is_save f \<and> kind f = FD_NONE) \<and>
     (in_use f \<and> kind f \<in> {FD_ISO_FILE, FD_ISO_DIR} \<longrightarrow>
        (\<exists>k < length ms. mount_idx f = int k \<and> m_used (ms ! k))) \<and>
     (holds_save f \<longrightarrow> of_nvslot_is_supported T (slot_id f) \<and> fd_size f \<le> unat (save_slot_size T))"

definition mounts_ok :: "mount list \<Rightarrow> nat \<Rightarrow> bool" where
  "mounts_ok ms n \<longleftrightarrow> length ms = VFS_MAX_MOUNTS \<and> n = length (filter m_used ms)"

definition sizes_ok :: "target \<Rightarrow> nat list \<Rightarrow> bool" where
  "sizes_ok T zs \<longleftrightarrow> (\<forall>z \<in> set zs. z \<le> unat (save_slot_size T)) \<and> int (length zs) = nv_cache_slots T"

text \<open>
  What the size bound needs of the host: the size it reports for a nonvolatile slot is at most the
  slot's (\<^verbatim>\<open>fstat\<close> takes that size as it is), and lib9660 works only through the callback it is given.
\<close>

definition nv_sizes_ok :: "target \<Rightarrow> (u32 \<Rightarrow> int) \<Rightarrow> bool" where
  "nv_sizes_ok T z \<longleftrightarrow> (\<forall>i. of_nvslot_is_supported T i \<longrightarrow> z i \<le> uint (save_slot_size T))"

definition lib_ok :: "('d driver \<times> io_cache) lib9660 \<Rightarrow> bool" where
  "lib_ok L \<longleftrightarrow> (\<forall>P. lib_keeps P L)"

definition files_inv :: "nat \<Rightarrow> target \<Rightarrow> 'd files \<Rightarrow> bool" where
  "files_inv lk T s \<longleftrightarrow> length (fd_table s) = MAX_FDS \<and> (\<forall>i < MAX_FDS. fd_ok T (mounts s) i (fd_table s ! i)) \<and>
     hw_ok (held s + lk) (hw s) \<and> lk + MAX_FDS + 1 < 2 ^ 32 \<and> mounts_ok (mounts s) (mount_count s) \<and>
     sizes_ok T (size_cache s) \<and> length (names s) \<le> MAX_FILE_SLOTS \<and> nv_sizes_ok T (dev_size (drv s)) \<and>
     length (size_known_at s) = length (size_cache s)"

text \<open>What an operation that only talks to the driver, or also registers names, leaves alone.\<close>

definition same_fds :: "'d files \<Rightarrow> 'd files \<Rightarrow> bool" where
  "same_fds s s' \<longleftrightarrow> fd_table s' = fd_table s \<and> hw s' = hw s \<and> mounts s' = mounts s \<and>
     mount_count s' = mount_count s \<and> size_cache s' = size_cache s \<and> cwd s' = cwd s \<and> tty s' = tty s \<and>
     dev_size (drv s') = dev_size (drv s) \<and> length (size_known_at s') = length (size_known_at s) \<and>
     (length (names s) \<le> MAX_FILE_SLOTS \<longrightarrow> length (names s') \<le> MAX_FILE_SLOTS)"

lemma same_fds_refl [simp, intro]: "same_fds s s"
  by (simp add: same_fds_def)

lemma same_fds_trans: "same_fds s t \<Longrightarrow> same_fds t u \<Longrightarrow> same_fds s u"
  by (simp add: same_fds_def)

lemma same_fds_upd [simp]:
  "dev_size d = dev_size (drv s) \<Longrightarrow> same_fds s (s\<lparr>drv := d\<rparr>)" "length ks = length (size_known_at s) \<Longrightarrow> same_fds s (s\<lparr>size_known_at := ks\<rparr>)"
  "dev_size d = dev_size (drv s) \<Longrightarrow> same_fds s (s\<lparr>drv := d, io := c\<rparr>)"
  by (simp_all add: same_fds_def)

lemma same_fds_inv: "same_fds s s' \<Longrightarrow> files_inv lk T s \<Longrightarrow> files_inv lk T s'"
  by (simp add: same_fds_def files_inv_def held_def)

section \<open>Counting\<close>

lemma length_filter_update:
  assumes "i < length xs"
  shows "length (filter P (xs[i := y])) + of_bool (P (xs ! i)) = length (filter P xs) + of_bool (P y)"
proof -
  obtain N where N: "mset xs = add_mset (xs ! i) N" "\<And>y. mset (xs[i := y]) = add_mset y N"
    using mset_nth_update [OF assms] by metis
  have l: "length (filter P zs) = size (filter_mset P (mset zs))" for zs by (metis mset_filter size_mset)
  show ?thesis by (simp add: l N)
qed

lemma held_set_fd:
  assumes "fd < length (fd_table s)"
  shows "held (set_fd fd f s) + of_bool (holds_save (fd_table s ! fd)) =
    held s + of_bool (holds_save (f (fd_table s ! fd)))"
  using length_filter_update [OF assms] by (simp add: held_def set_fd_def)

lemma files_inv_len [simp]: "files_inv lk T s \<Longrightarrow> length (fd_table s) = MAX_FDS"
  by (simp add: files_inv_def)

lemma files_inv_fd: "files_inv lk T s \<Longrightarrow> i < MAX_FDS \<Longrightarrow> fd_ok T (mounts s) i (fd_table s ! i)"
  by (simp add: files_inv_def)

lemma held_le: "files_inv lk T s \<Longrightarrow> held s \<le> MAX_FDS"
  by (metis held_def files_inv_len length_filter_le)

lemma set_fd_sel [simp]:
  "hw (set_fd fd f s) = hw s" "mounts (set_fd fd f s) = mounts s" "mount_count (set_fd fd f s) = mount_count s"
  "size_cache (set_fd fd f s) = size_cache s" "names (set_fd fd f s) = names s" "drv (set_fd fd f s) = drv s"
  "io (set_fd fd f s) = io s" "cwd (set_fd fd f s) = cwd s" "tty (set_fd fd f s) = tty s"
  "size_known_at (set_fd fd f s) = size_known_at s"
  by (simp_all add: set_fd_def)

lemma set_fd_nth:
  "fd < length (fd_table s) \<Longrightarrow> fd_table (set_fd fd f s) ! i = (if i = fd then f (fd_table s ! fd) else fd_table s ! i)"
  by (simp add: set_fd_def nth_list_update)

lemma set_fd_len [simp]: "length (fd_table (set_fd fd f s)) = length (fd_table s)"
  by (simp add: set_fd_def)

text \<open>One descriptor changes; the hold count follows its save status.\<close>

lemma set_fd_inv:
  assumes "files_inv lk T s" and "fd < MAX_FDS" and "fd_ok T (mounts s) fd (f (fd_table s ! fd))"
    and "holds_save (f (fd_table s ! fd)) = holds_save (fd_table s ! fd)"
  shows "files_inv lk T (set_fd fd f s)"
  using assms held_set_fd [of fd s f]
  by (auto simp: files_inv_def set_fd_nth)

lemma set_fd_hw_inv:
  assumes "files_inv lk T s" and "fd < MAX_FDS" and "fd_ok T (mounts s) fd (f (fd_table s ! fd))"
    and "\<And>n. hw_ok (held s + lk) (hw s) \<Longrightarrow> n + of_bool (holds_save (fd_table s ! fd)) =
      held s + of_bool (holds_save (f (fd_table s ! fd))) \<Longrightarrow> n + lk + 1 < 2 ^ 32 \<Longrightarrow> hw_ok (n + lk) h"
  shows "files_inv lk T ((set_fd fd f s)\<lparr>hw := h\<rparr>)"
proof -
  have "held (set_fd fd f s) \<le> MAX_FDS"
    using assms(1) by (metis held_def files_inv_len length_filter_le set_fd_len)
  then have "hw_ok (held (set_fd fd f s) + lk) h"
    using assms held_set_fd [of fd s f] by (simp add: files_inv_def)
  moreover have "held ((set_fd fd f s)\<lparr>hw := h\<rparr>) = held (set_fd fd f s)" by (simp add: held_def)
  ultimately show ?thesis using assms by (auto simp: files_inv_def set_fd_nth)
qed

section \<open>Ownership of CRAM0\<close>

lemma hw_ok_begin: "hw_ok n h \<Longrightarrow> n + 2 < 2 ^ 32 \<Longrightarrow> hw_ok (n + 1) (of_save_begin_cpu h)"
  by (simp add: hw_ok_def of_save_begin_cpu_def)

lemma hw_ok_end: "hw_ok (n + 1) h \<Longrightarrow> hw_ok n (of_save_end_cpu h)"
proof -
  assume h: "hw_ok (n + 1) h"
  then have n: "n + 2 < 2 ^ 32" by (simp add: hw_ok_def)
  then have "(1 + of_nat n :: u32) \<noteq> 0 \<and> (of_nat n + 1 :: u32) \<noteq> 0 \<and> (of_nat n = (0 :: u32) \<longleftrightarrow> n = 0)"
    by (simp add: word_unat_eq_iff unat_word_ariths unat_of_nat take_bit_eq_mod)
  then show ?thesis using h by (auto simp: hw_ok_def of_save_end_cpu_def Let_def)
qed

lemma hw_ok_pair: "hw_ok n h \<Longrightarrow> of_save_end_cpu (of_save_begin_cpu h) = h"
proof -
  assume h: "hw_ok n h"
  then have n: "n + 1 < 2 ^ 32" by (simp add: hw_ok_def)
  then have "(1 + of_nat n :: u32) \<noteq> 0 \<and> (of_nat n + 1 :: u32) \<noteq> 0 \<and> (of_nat n = (0 :: u32) \<longleftrightarrow> n = 0)"
    by (simp add: word_unat_eq_iff unat_word_ariths unat_of_nat take_bit_eq_mod)
  then show ?thesis
    using h by (cases h) (auto simp: hw_ok_def of_save_end_cpu_def of_save_begin_cpu_def Let_def)
qed

lemma nv_read_hw: "hw_ok n h \<Longrightarrow> of_nvslot_read T i off k h = (r, h') \<Longrightarrow> h' = h"
  by (auto simp: of_nvslot_read_def hw_ok_pair split: option.splits if_splits)

lemma nv_write_hw:
  assumes "hw_ok n h" and "of_nvslot_write T i bs off h = (r, h')"
  shows "hw_ok n h'"
proof -
  have e: "of_save_end_cpu (h\<lparr>cram := c\<rparr>) = (of_save_end_cpu h)\<lparr>cram := c\<rparr>" for h c
    by (simp add: of_save_end_cpu_def Let_def)
  have "h' = h \<or> (\<exists>c. h' = h\<lparr>cram := c\<rparr>)"
    using assms by (auto simp: of_nvslot_write_def Let_def e hw_ok_pair split: option.splits if_splits)
  then show ?thesis using assms(1) by (auto simp: hw_ok_def)
qed

lemma nv_set_size_hw: "hw_ok n h \<Longrightarrow> of_nvslot_set_size T a b i z h = (r, h') \<Longrightarrow> hw_ok n h'"
  by (auto simp: of_nvslot_set_size_def nvslot_commit_size_def hw_ok_def split: option.splits if_splits)

lemma infer_hw: "hw_ok n h \<Longrightarrow> infer_from T i cap off h = (k, h') \<Longrightarrow> h' = h \<and> (off \<le> cap \<longrightarrow> k \<le> cap)"
proof (induction T i cap off h arbitrary: k h' rule: infer_from.induct)
  case (1 T i cap off h)
  show ?case
  proof (cases "off < cap")
    case False
    then show ?thesis using "1.prems" by (simp add: infer_from.simps)
  next
    case True
    let ?n = "min (cap - off) 64"
    obtain r h1 where r: "of_nvslot_read T i (of_nat off) (of_nat ?n) h = (r, h1)" by (metis surj_pair)
    have h1: "h1 = h" by (rule nv_read_hw [OF "1.prems"(1) r])
    show ?thesis
    proof (cases r)
      case None
      then show ?thesis using "1.prems" True r h1 by (simp add: infer_from.simps)
    next
      case (Some bs)
      have l: "length bs = ?n"
        using r Some by (auto simp: of_nvslot_read_def copy_from_cram_def unat_of_nat take_bit_eq_mod
            split: option.splits if_splits)
      show ?thesis
      proof (cases "length (text_prefix bs) < length bs")
        case True
        then show ?thesis using "1.prems" \<open>off < cap\<close> r h1 Some l by (simp add: infer_from.simps) linarith
      next
        case False
        then have "infer_from T i cap (off + ?n) h = (k, h')"
          using "1.prems" \<open>off < cap\<close> r h1 Some by (simp add: infer_from.simps [of T i cap off])
        then show ?thesis
          using "1.IH" [OF True refl] r Some h1 False "1.prems"(1) True by auto
      qed
    qed
  qed
qed

lemma infer_text_size: "hw_ok n h \<Longrightarrow> nv_infer_text_size T i h = (k, h') \<Longrightarrow>
    h' = h \<and> k \<le> unat (of_nvslot_capacity T i)"
  unfolding nv_infer_text_size_def using infer_hw by fastforce

end
