(* ===== verification/FilesOps.thy ===== *)
theory FilesOps
  imports FilesInv
begin

text \<open>
  Every operation on descriptors, names and mounts keeps the invariant of \<^theory_text>\<open>FilesInv\<close>, whatever it
  returns.
\<close>

section \<open>Calls that leave descriptors alone\<close>

lemma hal_same:
  "hal_get_name H i s = (r, s') \<Longrightarrow> same_fds s s'"
  "hal_resolve H n s = (k, s') \<Longrightarrow> same_fds s s'"
  "hal_config_slot H n s = (k, s') \<Longrightarrow> same_fds s s'"
  by (auto simp: hal_get_name_def hal_resolve_def hal_config_slot_def split: prod.splits)

lemma registry_pass_same: "registry_pass H hit stale es s = (r, s') \<Longrightarrow> same_fds s s'"
proof (induction H hit stale es s arbitrary: r s' rule: registry_pass.induct)
  case (2 H hit stale i n es s)
  obtain cur s1 where c: "hal_get_name H i s = (cur, s1)" by (metis surj_pair)
  show ?case using "2.prems" "2.IH" c hal_same(1) [OF c]
    by (auto split: if_splits intro: same_fds_trans)
qed simp

lemma file_slot_lookup_same: "file_slot_lookup H path s = (r, s') \<Longrightarrow> same_fds s s'"
proof -
  assume l: "file_slot_lookup H path s = (r, s')"
  let ?full = "dropWhile (\<lambda>c. c = CHR ''/'') path" and ?name = "path_basename path"
  obtain a s1 where a: "registry_full H ?full s = (a, s1)" by (metis surj_pair)
  obtain k s2 where k: "(if list_ex is_sep ?full then hal_resolve H ?full s1 else (-1, s1)) = (k, s2)"
    by (metis surj_pair)
  obtain b s3 where b: "registry_base H ?name s2 = (b, s3)" by (metis surj_pair)
  obtain j s4 where j: "hal_resolve H ?name s3 = (j, s4)" by (metis surj_pair)
  have "same_fds s s1" using a registry_pass_same unfolding registry_full_def by blast
  moreover have "same_fds s1 s2" using k hal_same(2) by (auto split: if_splits)
  moreover have "same_fds s2 s3" using b registry_pass_same unfolding registry_base_def by blast
  moreover have "same_fds s3 s4" by (rule hal_same(2) [OF j])
  ultimately have "same_fds s s1" "same_fds s s2" "same_fds s s3" "same_fds s s4"
    using same_fds_trans by metis+
  then show ?thesis
    using l a k b j unfolding file_slot_lookup_def Let_def
    by (simp split: option.splits if_splits)
qed

lemma try_get_name_same: "try_get_name H i k s = (r, s') \<Longrightarrow> same_fds s s'"
proof (induction H i k s arbitrary: r s' rule: try_get_name.induct)
  case (2 H i k s)
  obtain cur s1 where c: "hal_get_name H i s = (cur, s1)" by (metis surj_pair)
  show ?case using "2.prems" "2.IH" c hal_same(1) [OF c]
    by (auto split: if_splits option.splits intro: same_fds_trans)
qed simp

lemma file_slot_register_same: "same_fds s (file_slot_register i n s)"
  by (auto simp: file_slot_register_def same_fds_def)

lemma probe_slot_same: "same_fds s (probe_slot T H k s)"
proof -
  obtain r s1 where r: "try_get_name H (of_nat k) 4 s = (r, s1)" by (metis surj_pair)
  show ?thesis
    using same_fds_trans [OF try_get_name_same [OF r] file_slot_register_same] try_get_name_same [OF r]
    unfolding probe_slot_def Let_def r by (simp split: option.splits)
qed

lemma dir_probe_same: "same_fds s (dir_probe_slots T H s)"
  unfolding dir_probe_slots_def
  by (rule fold_keeps) (auto intro: same_fds_trans [OF _ probe_slot_same])

lemma mount_source_same: "mount_source T H src s = (r, s') \<Longrightarrow> same_fds s s'"
proof -
  assume m: "mount_source T H src s = (r, s')"
  define s0 where "s0 = (if names s = [] then dir_probe_slots T H s else s)"
  have s0: "same_fds s s0" by (simp add: s0_def dir_probe_same)
  obtain k s1 where k: "file_slot_lookup H src s0 = (k, s1)" by (metis surj_pair)
  obtain j s2 where j: "(if k < 0 then hal_resolve H (path_basename src) s1 else (k, s1)) = (j, s2)"
    by (metis surj_pair)
  have "same_fds s1 s2" using j hal_same(2) by (auto split: if_splits)
  then have "same_fds s s2" using s0 file_slot_lookup_same [OF k] same_fds_trans by metis
  then show ?thesis
    using m k j unfolding mount_source_def s0_def [symmetric] Let_def
    by (auto split: if_splits option.splits)
qed

lemma iso_open_sizes:
  assumes "lib_ok L"
  shows "iso9660_open_file L (cached_read T) m path (d, c) = (r, d', c') \<Longrightarrow> dev_size d' = dev_size d"
    and "iso9660_open_dir L (cached_read T) m path (d, c) = (r, d', c') \<Longrightarrow> dev_size d' = dev_size d"
    and "iso9660_stat L (cached_read T) m path (d, c) = (q, d', c') \<Longrightarrow> dev_size d' = dev_size d"
    and "iso9660_mount L (cached_read T) k (d, c) = (v, d', c') \<Longrightarrow> dev_size d' = dev_size d"
    and "iso9660_read_dir L (iso_read_sector (cached_read T) k) fs f (d, c) = Some (w, f', d', c') \<Longrightarrow>
      dev_size d' = dev_size d"
proof -
  have L: "lib_keeps P L" for P using assms by (simp add: lib_ok_def)
  have i: "dev_size (fst (d, c)) = dev_size d" by simp
  note rules = sizes.open_file_inv [OF L i] sizes.open_dir_inv [OF L i] sizes.stat_inv [OF L i] sizes.mount_inv [OF L i]
  show "iso9660_open_file L (cached_read T) m path (d, c) = (r, d', c') \<Longrightarrow> dev_size d' = dev_size d"
    using rules(1) [of T m path] by simp
  show "iso9660_open_dir L (cached_read T) m path (d, c) = (r, d', c') \<Longrightarrow> dev_size d' = dev_size d"
    using rules(2) [of T m path] by simp
  show "iso9660_stat L (cached_read T) m path (d, c) = (q, d', c') \<Longrightarrow> dev_size d' = dev_size d"
    using rules(3) [of T m path] by simp
  show "iso9660_mount L (cached_read T) k (d, c) = (v, d', c') \<Longrightarrow> dev_size d' = dev_size d"
    using rules(4) [of T k] by simp
  show "iso9660_read_dir L (iso_read_sector (cached_read T) k) fs f (d, c) = Some (w, f', d', c') \<Longrightarrow>
      dev_size d' = dev_size d"
    using sizes.read_dir_inv [OF _ L i, of T k fs f w f' "(d', c')"] by simp
qed

section \<open>Reading, writing, seeking and closing\<close>

lemma fd_openD: "fd_open fd s \<Longrightarrow> nat fd < MAX_FDS \<and> in_use (fd_table s ! nat fd)"
  by (auto simp: fd_open_def)

text \<open>Changing the position, the size of a file that is not a save, or the ISO handle.\<close>

lemma same_kind_inv:
  assumes "files_inv lk T s" and "fd < MAX_FDS"
    and "\<And>f. in_use (g f) = in_use f \<and> is_save (g f) = is_save f \<and> kind (g f) = kind f \<and>
      mount_idx (g f) = mount_idx f \<and> slot_id (g f) = slot_id f"
    and "holds_save (fd_table s ! fd) \<Longrightarrow> fd_size (g (fd_table s ! fd)) \<le> unat (save_slot_size T)"
  shows "files_inv lk T (set_fd fd g s)"
  using assms(2-) files_inv_fd [OF assms(1,2)]
  by (intro set_fd_inv [OF assms(1)]) (auto simp: fd_ok_def holds_save_def)

lemma keep_size_inv:
  assumes "files_inv lk T s" and "fd < MAX_FDS"
    and "\<And>f. in_use (g f) = in_use f \<and> is_save (g f) = is_save f \<and> kind (g f) = kind f \<and>
      mount_idx (g f) = mount_idx f \<and> slot_id (g f) = slot_id f \<and> fd_size (g f) = fd_size f"
  shows "files_inv lk T (set_fd fd g s)"
  using assms(3) files_inv_fd [OF assms(1,2)]
  by (intro same_kind_inv [OF assms(1,2)]) (auto simp: fd_ok_def)

lemma resolve_size_inv:
  assumes "files_inv lk T s" and "fd < MAX_FDS"
  shows "files_inv lk T (resolve_size fd s)"
proof -
  let ?i = "slot_id (fd_table s ! fd)"
  have "nat (dev_size (drv s) ?i) \<le> unat (save_slot_size T)" if "holds_save (fd_table s ! fd)"
    using that files_inv_fd [OF assms] assms(1)
    by (simp add: fd_ok_def files_inv_def nv_sizes_ok_def nat_le_iff)
  then show ?thesis
    unfolding resolve_size_def Let_def by (auto intro!: same_kind_inv [OF assms] simp: assms(1))
qed

lemma stat_fd_inv: "files_inv lk T s \<Longrightarrow> fd < MAX_FDS \<Longrightarrow> files_inv lk T (snd (stat_fd fd s))"
  by (simp add: stat_fd_def Let_def resolve_size_inv)

lemma cached_same:
  "slot_read_cached T i off n (drv s) (io s) = (r, bs, d', c') \<Longrightarrow> same_fds s (s\<lparr>drv := d', io := c'\<rparr>)"
  by (auto simp: slot_read_cached_def dest: slot_read_sizes)

lemma read_slot_inv:
  assumes i: "files_inv lk T s" and fd: "fd < MAX_FDS" and ns: "\<not> is_save (fd_table s ! fd)"
  shows "files_inv lk T (snd (read_slot_fd T fd cnt s))"
proof -
  let ?f0 = "fd_table s ! fd"
  define s1 where "s1 = (if fd_size ?f0 = 0 \<and> 0 < slot_id ?f0 \<and> fd_offset ?f0 = 0 then resolve_size fd s else s)"
  have i1: "files_inv lk T s1" by (simp add: s1_def i resolve_size_inv [OF i fd])
  have ns1: "\<not> is_save (fd_table s1 ! fd)"
    using ns i fd by (auto simp: s1_def resolve_size_def Let_def set_fd_nth)
  let ?f = "fd_table s1 ! fd"
  define n where "n = min (if 0 < fd_size ?f \<and> fd_size ?f < fd_offset ?f + unat cnt
    then fd_size ?f - fd_offset ?f else unat cnt) (0x100000000 - fd_offset ?f)"
  obtain r bs d' c' where r: "slot_read_cached T (slot_id ?f) (of_nat (fd_offset ?f)) (of_nat n) (drv s1) (io s1) =
      (r, bs, d', c')" by (metis prod_cases4)
  let ?t = "s1\<lparr>drv := d', io := c'\<rparr>"
  have t: "files_inv lk T ?t" by (rule same_fds_inv [OF cached_same [OF r] i1])
  have "files_inv lk T (set_fd fd (\<lambda>f. f\<lparr>fd_size := fd_offset f\<rparr>) ?t)"
    "files_inv lk T (set_fd fd (\<lambda>f. f\<lparr>fd_offset := fd_offset f + n\<rparr>) ?t)"
    using ns1 by (auto intro!: same_kind_inv [OF t fd] simp: holds_save_def)
  then show ?thesis
    using t i1 r unfolding read_slot_fd_def Let_def s1_def [symmetric] n_def [symmetric]
    by (simp split: option.splits)
qed

text \<open>The size cache stays clamped.\<close>

lemma size_cache_store_inv:
  assumes "files_inv lk T s"
  shows "files_inv lk T (save_size_cache_store T i n s)"
proof -
  have "save_clamp_size T n \<le> unat (save_slot_size T)" by (simp add: save_clamp_size_def)
  then show ?thesis
    using assms unfolding save_size_cache_store_def files_inv_def sizes_ok_def held_def
    by (auto dest!: set_update_subset_insert [THEN subsetD])
qed

lemma size_cache_store_sel [simp]:
  "fd_table (save_size_cache_store T i n s) = fd_table s" "hw (save_size_cache_store T i n s) = hw s"
  "names (save_size_cache_store T i n s) = names s" "mounts (save_size_cache_store T i n s) = mounts s"
  "drv (save_size_cache_store T i n s) = drv s"
  by (simp_all add: save_size_cache_store_def)

lemma size_cache_invalidate_inv: "files_inv lk T s \<Longrightarrow> files_inv lk T (save_size_cache_invalidate T i s)"
  unfolding save_size_cache_invalidate_def by (auto intro: same_fds_inv [rotated])

lemma nv_current_size_inv:
  assumes "files_inv lk T s" and "nv_current_size T i idx s = (n, s')"
  shows "files_inv lk T s'" and "n \<le> unat (save_slot_size T)"
    and "fd_table s' = fd_table s" and "hw s' = hw s" and "names s' = names s" and "mounts s' = mounts s"
    and "drv s' = drv s"
proof -
  have c: "save_clamp_size T k \<le> unat (save_slot_size T)" for k by (simp add: save_clamp_size_def)
  have "size_cache s ! nat idx \<le> unat (save_slot_size T)" if "0 \<le> idx" "idx < nv_cache_slots T"
  proof -
    have "nat idx < length (size_cache s)" using assms(1) that by (auto simp: files_inv_def sizes_ok_def)
    then show ?thesis using assms(1) by (auto simp: files_inv_def sizes_ok_def)
  qed
  then show "files_inv lk T s'" "n \<le> unat (save_slot_size T)" "fd_table s' = fd_table s" "hw s' = hw s"
    "names s' = names s" "mounts s' = mounts s" "drv s' = drv s"
    using assms c size_cache_store_inv [OF assms(1)] unfolding nv_current_size_def Let_def
    by (auto split: if_splits)
qed

lemma hw_inv: "files_inv lk T s \<Longrightarrow> hw_ok (held s + lk) h \<Longrightarrow> files_inv lk T (s\<lparr>hw := h\<rparr>)"
  by (simp add: files_inv_def held_def)

lemma files_inv_hw: "files_inv lk T s \<Longrightarrow> hw_ok (held s + lk) (hw s)"
  by (simp add: files_inv_def)

lemma read_save_inv:
  assumes i: "files_inv lk T s" and fd: "fd < MAX_FDS"
  shows "files_inv lk T (snd (read_save_fd T fd cnt s))"
proof -
  let ?f = "fd_table s ! fd"
  let ?n = "min (unat cnt) (fd_size ?f - fd_offset ?f)"
  obtain r h where r: "of_nvslot_read T (slot_id ?f) (of_nat (fd_offset ?f)) (of_nat ?n) (hw s) = (r, h)"
    by (metis surj_pair)
  have h: "h = hw s" by (rule nv_read_hw [OF files_inv_hw [OF i] r])
  have "files_inv lk T (set_fd fd (\<lambda>f. f\<lparr>fd_offset := fd_offset f + ?n\<rparr>) s)"
    by (rule keep_size_inv [OF i fd]) simp
  then show ?thesis
    using i r unfolding read_save_fd_def Let_def h by (simp split: option.splits)
qed

lemma read_iso_inv:
  assumes i: "files_inv lk T s" and fd: "fd < MAX_FDS"
  shows "files_inv lk T (snd (read_iso_fd T fd cnt s))"
proof -
  let ?f = "fd_table s ! fd" let ?m = "m_iso (mounts s ! nat (mount_idx ?f))"
  obtain r g d' c' where r: "iso9660_read_file (cached_read T) ?m (iso ?f) cnt (drv s, io s) = (r, g, d', c')"
    by (metis prod_cases4)
  have "dev_size d' = dev_size (drv s)"
    using sizes.read_file_inv [of "(drv s, io s)" "dev_size (drv s)" T ?m "iso ?f" cnt] r by simp
  then have t: "files_inv lk T (s\<lparr>drv := d', io := c'\<rparr>)" (is "files_inv lk T ?t") by (intro same_fds_inv [OF _ i]) simp
  have u: "files_inv lk T (set_fd fd (\<lambda>f. f\<lparr>iso := g\<rparr>) ?t)" (is "files_inv lk T ?u")
    by (rule keep_size_inv [OF t fd]) simp
  have "files_inv lk T (set_fd fd (\<lambda>f. f\<lparr>fd_offset := unat (iso9660_tell_file (iso f))\<rparr>) ?u)"
    by (rule keep_size_inv [OF u fd]) simp
  then show ?thesis
    using i u r unfolding read_iso_fd_def Let_def by (simp split: iso_read.splits)
qed

lemma sys_read_inv: "files_inv lk T s \<Longrightarrow> files_inv lk T (snd (sys_read T fd cnt s))"
  unfolding sys_read_def Let_def
  by (auto dest: fd_openD intro: read_iso_inv read_save_inv read_slot_inv)

lemma nv_write_count:
  "of_nvslot_write T i bs off h = (rc, h') \<Longrightarrow> rc \<le> int (length bs)"
  by (auto simp: of_nvslot_write_def split: option.splits if_splits)

lemma write_save_inv:
  assumes u: "nv_uniform T" and i: "files_inv lk T s" and fd: "fd < MAX_FDS" and h: "holds_save (fd_table s ! fd)"
  shows "files_inv lk T (snd (write_save_fd T fd bs s))"
proof -
  let ?f0 = "fd_table s ! fd"
  define s1 where "s1 = (if flags ?f0 AND O_APPEND \<noteq> 0 then set_fd fd (\<lambda>f. f\<lparr>fd_offset := fd_size f\<rparr>) s else s)"
  have i1: "files_inv lk T s1" by (simp add: s1_def i keep_size_inv [OF i fd])
  let ?f = "fd_table s1 ! fd" and ?cap = "unat (of_nvslot_capacity T (slot_id (fd_table s1 ! fd)))"
  have h1: "holds_save ?f" using h i fd by (simp add: s1_def set_fd_nth holds_save_def)
  have cap: "?cap = unat (save_slot_size T)"
    using u h1 files_inv_fd [OF i1 fd] by (simp add: nv_uniform_def fd_ok_def)
  define n where "n = min (length bs) (?cap - fd_offset ?f)"
  obtain rc h' where r: "of_nvslot_write T (slot_id ?f) (take n bs) (of_nat (fd_offset ?f)) (hw s1) = (rc, h')"
    by (metis surj_pair)
  have t: "files_inv lk T (s1\<lparr>hw := h'\<rparr>)" (is "files_inv lk T ?t")
    by (rule hw_inv [OF i1 nv_write_hw [OF files_inv_hw [OF i1] r]])
  define e z where "e = fd_offset ?f + nat rc" and "z = (if fd_size ?f < e then e else fd_size ?f)"
  have "e \<le> ?cap" if "fd_offset ?f < ?cap"
    using that nv_write_count [OF r] by (simp add: e_def n_def)
  then have z: "z \<le> unat (save_slot_size T)" if "fd_offset ?f < ?cap"
    using that cap h1 files_inv_fd [OF i1 fd] by (simp add: z_def fd_ok_def)
  have "files_inv lk T (save_size_cache_store T (nv_cache_idx ?f) z
      (set_fd fd (\<lambda>f. f\<lparr>fd_offset := e, fd_size := z, dirty := True\<rparr>) ?t))" if "fd_offset ?f < ?cap"
    using z [OF that] by (intro size_cache_store_inv same_kind_inv [OF t fd]) simp_all
  then show ?thesis
    using i i1 t r unfolding write_save_fd_def Let_def s1_def [symmetric] n_def [symmetric] z_def e_def
    by simp
qed

lemma tty_inv: "files_inv lk T s \<Longrightarrow> files_inv lk T (s\<lparr>tty := x\<rparr>)"
  by (simp add: files_inv_def held_def)

lemma sys_write_inv: "nv_uniform T \<Longrightarrow> files_inv lk T s \<Longrightarrow> files_inv lk T (snd (sys_write T fd bs s))"
  unfolding sys_write_def
  by (auto dest: fd_openD intro: tty_inv intro!: write_save_inv simp: holds_save_def)

lemma sys_llseek_inv:
  assumes "files_inv lk T s"
  shows "files_inv lk T (snd (sys_llseek fd offset whence s))"
proof (cases "fd_open fd s")
  case True
  then have fd: "nat fd < MAX_FDS" by (simp add: fd_openD)
  let ?f0 = "fd_table s ! nat fd"
  define s1 where "s1 = (if whence = 2 \<and> \<not> is_save ?f0 \<and> fd_size ?f0 = 0 \<and> 0 < slot_id ?f0
    then resolve_size (nat fd) s else s)"
  have i1: "files_inv lk T s1" by (simp add: s1_def assms resolve_size_inv [OF assms fd])
  have "files_inv lk T (set_fd (nat fd) (\<lambda>f. f\<lparr>iso := g, fd_offset := n\<rparr>) s)" for g n
    by (rule keep_size_inv [OF assms fd]) simp
  moreover have "files_inv lk T (set_fd (nat fd) (\<lambda>f. f\<lparr>fd_offset := n\<rparr>) s1)" for n
    by (rule keep_size_inv [OF i1 fd]) simp
  ultimately show ?thesis
    using assms i1 True unfolding sys_llseek_def Let_def s1_def [symmetric]
    by (simp split: option.splits sum.splits)
qed (simp add: sys_llseek_def assms)

lemma sys_file_size_inv:
  "files_inv lk T s \<Longrightarrow> files_inv lk T (snd (sys_file_size_fd fd s))"
  using resolve_size_inv fd_openD [of fd s] unfolding sys_file_size_fd_def Let_def by auto

lemma free_unsaved_inv:
  assumes "files_inv lk T s" and "fd < MAX_FDS" and "FD_FIRST_FREE \<le> fd" and "\<not> holds_save (fd_table s ! fd)"
  shows "files_inv lk T (free_fd fd s)"
  unfolding free_fd_def
  by (rule set_fd_inv [OF assms(1,2)]) (use assms in \<open>simp_all add: fd_ok_def holds_save_def\<close>)

lemma close_save_inv:
  assumes i: "files_inv lk T s" and fd: "fd < MAX_FDS" "FD_FIRST_FREE \<le> fd" and h: "holds_save (fd_table s ! fd)"
  shows "files_inv lk T ((free_fd fd s)\<lparr>hw := of_save_end_cpu (hw s)\<rparr>)"
  unfolding free_fd_def
proof (rule set_fd_hw_inv [OF i fd(1)])
  fix n
  assume ok: "hw_ok (held s + lk) (hw s)"
    and n: "n + of_bool (holds_save (fd_table s ! fd)) = held s + of_bool (holds_save ((fd_table s ! fd)\<lparr>in_use := False\<rparr>))"
  have "held s + lk = n + lk + 1" using n h by (simp add: holds_save_def)
  then show "hw_ok (n + lk) (of_save_end_cpu (hw s))" using hw_ok_end ok by metis
qed (use fd in \<open>auto simp: fd_ok_def holds_save_def\<close>)

lemma sys_close_inv:
  assumes i: "files_inv lk T s"
  shows "files_inv lk T (snd (sys_close T H fd s))"
proof (cases "int FD_FIRST_FREE \<le> fd \<and> fd < int MAX_FDS \<and> in_use (fd_table s ! nat fd)")
  case True
  then have fd: "nat fd < MAX_FDS" "FD_FIRST_FREE \<le> nat fd" and use: "in_use (fd_table s ! nat fd)" by auto
  let ?f = "fd_table s ! nat fd"
  obtain rc h where r: "of_nvslot_set_size T (dt_feature H) (dt_entry H) (slot_id ?f) (of_nat (fd_size ?f)) (hw s) = (rc, h)"
    by (metis surj_pair)
  have t: "files_inv lk T (s\<lparr>hw := h\<rparr>)"
    by (rule hw_inv [OF i nv_set_size_hw [OF files_inv_hw [OF i] r]])
  have u: "files_inv lk T (if rc = 0 then save_size_cache_store T (nv_cache_idx ?f) (fd_size ?f) (s\<lparr>hw := h\<rparr>)
      else save_size_cache_invalidate T (nv_cache_idx ?f) (s\<lparr>hw := h\<rparr>))" (is "files_inv lk T ?u")
    using t by (simp add: size_cache_store_inv size_cache_invalidate_inv)
  have uf: "fd_table ?u = fd_table s" "hw ?u = h"
    by (simp_all add: save_size_cache_invalidate_def)
  have fh: "hw (free_fd (nat fd) v) = hw v" for v :: "'a files" by (simp add: free_fd_def)
  show ?thesis
  proof (cases "is_save ?f")
    case True
    then have hs: "holds_save ?f" "holds_save (fd_table ?u ! nat fd)" using use uf by (simp_all add: holds_save_def)
    show ?thesis
      using close_save_inv [OF i fd hs(1)] close_save_inv [OF u fd hs(2)] True use r \<open>_ \<and> _\<close>
      unfolding sys_close_def Let_def by (simp add: fh)
  next
    case False
    then show ?thesis
      using free_unsaved_inv [OF i fd] \<open>_ \<and> _\<close> unfolding sys_close_def Let_def
      by (simp add: holds_save_def)
  qed
qed (auto simp: sys_close_def Let_def i)

end
