(* ===== verification/FilesOpen.thy ===== *)
theory FilesOpen
  imports FilesOps
begin

text \<open>Opening by any route, listing, mounting and the stat family keep the invariant.\<close>

section \<open>Opening\<close>

text \<open>A descriptor being opened: allocated, reset, not yet a save file.\<close>

definition pending_fd :: "nat \<Rightarrow> target \<Rightarrow> nat \<Rightarrow> 'd files \<Rightarrow> bool" where
  "pending_fd lk T fd s \<longleftrightarrow> files_inv lk T s \<and> FD_FIRST_FREE \<le> fd \<and> fd < MAX_FDS \<and>
     in_use (fd_table s ! fd) \<and> \<not> is_save (fd_table s ! fd) \<and> kind (fd_table s ! fd) = FD_SLOT_FILE"

lemma pending_same: "pending_fd lk T fd s \<Longrightarrow> same_fds s s' \<Longrightarrow> pending_fd lk T fd s'"
  using same_fds_inv by (fastforce simp: pending_fd_def same_fds_def)

lemma pending_free: "pending_fd lk T fd s \<Longrightarrow> files_inv lk T (free_fd fd s)"
  by (rule free_unsaved_inv) (auto simp: pending_fd_def holds_save_def)

lemma pending_set:
  assumes "pending_fd lk T fd s" and "in_use (g (fd_table s ! fd))" and "\<not> is_save (g (fd_table s ! fd))"
    and "kind (g (fd_table s ! fd)) \<in> {FD_ISO_FILE, FD_ISO_DIR} \<Longrightarrow>
      \<exists>k < length (mounts s). mount_idx (g (fd_table s ! fd)) = int k \<and> m_used (mounts s ! k)"
  shows "files_inv lk T (set_fd fd g s)"
  by (rule set_fd_inv) (use assms in \<open>auto simp: pending_fd_def fd_ok_def holds_save_def\<close>)

text \<open>What \<open>open_nv_fd\<close> leaves: a held save file, or the descriptor free.\<close>

lemma nv_opened:
  assumes "pending_fd lk T fd s" and "of_nvslot_is_supported T i" and "n \<le> unat (save_slot_size T)"
    and "\<And>f. in_use (g f) = in_use f \<and> is_save (g f) \<and> slot_id (g f) = i \<and> fd_size (g f) = n \<and> kind (g f) = FD_NV_FILE"
    and "hw_ok (held s + lk) h"
  shows "files_inv lk T ((set_fd fd g s)\<lparr>hw := of_save_begin_cpu h\<rparr>)"
proof -
  have i: "files_inv lk T s" and fd: "fd < MAX_FDS" "FD_FIRST_FREE \<le> fd" using assms(1) by (simp_all add: pending_fd_def)
  show ?thesis
    by (rule set_fd_hw_inv [OF i fd(1)])
      (use assms fd hw_ok_begin [OF assms(5)] in \<open>auto simp: fd_ok_def holds_save_def pending_fd_def\<close>)
qed

lemma nv_unopened:
  assumes "pending_fd lk T fd s" and "\<And>f. \<not> in_use (g f)" and "hw_ok (held s + lk) h"
  shows "files_inv lk T ((set_fd fd g s)\<lparr>hw := h\<rparr>)"
proof -
  have i: "files_inv lk T s" and fd: "fd < MAX_FDS" "FD_FIRST_FREE \<le> fd" using assms(1) by (simp_all add: pending_fd_def)
  show ?thesis
    by (rule set_fd_hw_inv [OF i fd(1)])
      (use assms fd in \<open>auto simp: fd_ok_def holds_save_def pending_fd_def\<close>)
qed

lemma set_fd_twice: "fd < length (fd_table s) \<Longrightarrow> set_fd fd g (set_fd fd f s) = set_fd fd (\<lambda>x. g (f x)) s"
  by (simp add: set_fd_def)

lemma set_fd_hw: "set_fd fd g (s\<lparr>hw := h\<rparr>) = (set_fd fd g s)\<lparr>hw := h\<rparr>"
  by (simp add: set_fd_def)

lemma set_fd_cache: "set_fd fd g (save_size_cache_store T i n s) = save_size_cache_store T i n (set_fd fd g s)"
  by (simp add: set_fd_def save_size_cache_store_def)

lemma cache_hw: "(save_size_cache_store T i n s)\<lparr>hw := h\<rparr> = save_size_cache_store T i n (s\<lparr>hw := h\<rparr>)"
  by (simp add: save_size_cache_store_def)

lemma nv_open_size_inv:
  assumes u: "nv_uniform T" and sup: "of_nvslot_is_supported T i" and i: "files_inv lk T s"
    and r: "nv_open_size T i idx fl s = (n, s')"
  shows "files_inv lk T s'" and "n \<le> unat (save_slot_size T)" and "fd_table s' = fd_table s"
proof -
  obtain n0 s1 where c: "nv_current_size T i idx s = (n0, s1)" by (metis surj_pair)
  note cs = nv_current_size_inv [OF i c]
  obtain k h where k: "nv_infer_text_size T i (hw s1) = (k, h)" by (metis surj_pair)
  note ks = infer_text_size [OF files_inv_hw [OF cs(1)] k]
  have "unat (of_nvslot_capacity T i) = unat (save_slot_size T)" using u sup by (simp add: nv_uniform_def)
  moreover have "files_inv lk T (s1\<lparr>hw := hw s\<rparr>)"
    using hw_inv [OF cs(1) files_inv_hw [OF cs(1)]] cs(4) by simp
  ultimately show "files_inv lk T s'" "n \<le> unat (save_slot_size T)" "fd_table s' = fd_table s"
    using r c k ks cs unfolding nv_open_size_def Let_def
    by (auto split: if_splits)
qed

lemma open_nv_inv:
  assumes u: "nv_uniform T" and o: "pending_fd lk T fd s"
  shows "files_inv lk T (snd (open_nv_fd T H fd i fl s))"
proof (cases "nv_cache_index_from_data_id T i < 0 \<or> \<not> of_nvslot_is_supported T i")
  case True
  then show ?thesis using pending_free [OF o] by (auto simp: open_nv_fd_def Let_def)
next
  case False
  let ?idx = "nv_cache_index_from_data_id T i"
  have sup: "of_nvslot_is_supported T i" and i: "files_inv lk T s" using False o by (simp_all add: pending_fd_def)
  obtain n s1 where n: "nv_open_size T i ?idx fl s = (n, s1)" by (metis surj_pair)
  note ns = nv_open_size_inv [OF u sup i n]
  have o1: "pending_fd lk T fd s1" using o ns by (simp add: pending_fd_def)
  have fd: "fd < length (fd_table s1)" using o files_inv_len [OF ns(1)] by (simp add: pending_fd_def)
  note hw1 = files_inv_hw [OF ns(1)]
  obtain rc h where h: "of_nvslot_set_size T (dt_feature H) (dt_entry H) i 0 (hw s1) = (rc, h)" by (metis surj_pair)
  note hw3 = nv_set_size_hw [OF hw1 h]
  let ?g = "\<lambda>f. f\<lparr>slot_id := i, kind := FD_NV_FILE, is_save := True, save_slot := save_slot_from_data_id T i,
    nv_cache_idx := ?idx, fd_size := n\<rparr>"
  let ?a = "\<lambda>f. if fl AND O_APPEND \<noteq> 0 then f\<lparr>fd_offset := fd_size f\<rparr> else f"
  have "files_inv lk T ((set_fd fd (\<lambda>f. ?a (?g f)) s1)\<lparr>hw := of_save_begin_cpu (hw s1)\<rparr>)"
    by (rule nv_opened [OF o1 sup ns(2)]) (use hw1 in auto)
  moreover have "files_inv lk T (save_size_cache_store T ?idx 0
      ((set_fd fd (\<lambda>f. ?a ((?g f)\<lparr>fd_size := 0, dirty := True\<rparr>)) s1)\<lparr>hw := of_save_begin_cpu h\<rparr>))"
    by (intro size_cache_store_inv nv_opened [OF o1 sup, where n = 0]) (use hw3 in auto)
  moreover have "files_inv lk T ((set_fd fd (\<lambda>f. (?g f)\<lparr>in_use := False\<rparr>) s1)\<lparr>hw := h\<rparr>)"
    by (rule nv_unopened [OF o1 _ hw3]) simp
  ultimately show ?thesis
    using False n h unfolding open_nv_fd_def open_nv_finish_def Let_def free_fd_def
    by (simp add: set_fd_hw set_fd_cache cache_hw set_fd_twice [OF fd] cong: if_cong)
qed

lemma open_slot_file_inv: "pending_fd lk T fd s \<Longrightarrow> files_inv lk T (snd (open_slot_file fd i fl s))"
  unfolding open_slot_file_def Let_def
  by (auto intro: pending_free intro!: pending_set simp: pending_fd_def)

lemma vfs_find_mount: "vfs_find_mount path s = Some (i, rel) \<Longrightarrow> i < length (mounts s) \<and> m_used (mounts s ! i)"
proof -
  have best: "best_mount path ms k b = Some (i, len) \<Longrightarrow>
      b = Some (i, len) \<or> k \<le> i \<and> i < k + length ms \<and> m_used (ms ! (i - k))" for ms k b len
  proof (induction path ms k b rule: best_mount.induct)
    case (2 path m ms k b)
    let ?b = "if m_used m \<and> mount_path_match path (m_target m) \<and>
        (case b of None \<Rightarrow> True | Some (_, len) \<Rightarrow> len < length (m_target m))
      then Some (k, length (m_target m)) else b"
    have "?b = Some (i, len) \<or> k + 1 \<le> i \<and> i < k + 1 + length ms \<and> m_used (ms ! (i - (k + 1)))"
      using "2.IH" "2.prems" by simp
    then show ?case
    proof
      assume "?b = Some (i, len)"
      then show ?thesis by (auto split: if_splits)
    next
      assume a: "k + 1 \<le> i \<and> i < k + 1 + length ms \<and> m_used (ms ! (i - (k + 1)))"
      then have "i - k = Suc (i - (k + 1))" by linarith
      then show ?thesis using a by simp
    qed
  qed simp
  assume "vfs_find_mount path s = Some (i, rel)"
  then show ?thesis using best [of "mounts s" 0 None] by (fastforce simp: vfs_find_mount_def Let_def split: option.splits)
qed

lemma vfs_open_at_inv:
  assumes L: "lib_ok L" and o: "pending_fd lk T fd s" and k: "k < length (mounts s)" "m_used (mounts s ! k)"
  shows "files_inv lk T (snd (vfs_open_at T L fd k rel fl s))"
proof -
  define s1 where "s1 = set_fd fd (\<lambda>f. f\<lparr>mount_idx := int k\<rparr>) s"
  have i: "files_inv lk T s" and fd: "fd < MAX_FDS" using o by (simp_all add: pending_fd_def)
  have i1: "files_inv lk T s1"
    unfolding s1_def by (rule set_fd_inv [OF i fd]) (use o files_inv_fd [OF i fd] in \<open>auto simp: pending_fd_def fd_ok_def holds_save_def\<close>)
  have o1: "pending_fd lk T fd s1" "mount_idx (fd_table s1 ! fd) = int k" "mounts s1 = mounts s"
    using o i1 files_inv_len [OF i] by (simp_all add: s1_def pending_fd_def set_fd_nth)
  let ?m = "m_iso (mounts s1 ! k)"
  obtain r d' c' where r: "(if fl AND O_DIRECTORY \<noteq> 0 then iso9660_open_dir L (cached_read T) ?m rel (drv s1, io s1)
      else iso9660_open_file L (cached_read T) ?m rel (drv s1, io s1)) = (r, d', c')" by (metis prod_cases3)
  then have "dev_size d' = dev_size (drv s1)" using iso_open_sizes [OF L] by (auto split: if_splits)
  then have o2: "pending_fd lk T fd (s1\<lparr>drv := d', io := c'\<rparr>)" (is "pending_fd lk T fd ?t")
    by (intro pending_same [OF o1(1)]) simp
  have used: "k < length (mounts ?t)" "m_used (mounts ?t ! k)" "mount_idx (fd_table ?t ! fd) = int k"
    "in_use (fd_table ?t ! fd)" "\<not> is_save (fd_table ?t ! fd)"
    using k o1 by (simp_all add: pending_fd_def)
  have "files_inv lk T (set_fd fd (\<lambda>f. f\<lparr>iso := g, kind := FD_ISO_DIR, is_dir := True\<rparr>) ?t)"
    "files_inv lk T (set_fd fd (\<lambda>f. f\<lparr>iso := g, kind := FD_ISO_FILE, fd_size := n\<rparr>) ?t)" for g n
    by (rule pending_set [OF o2]; use used in auto)+
  then show ?thesis
    using pending_free [OF o2] r unfolding vfs_open_at_def Let_def s1_def [symmetric]
    by (cases "fl AND O_DIRECTORY = 0") (auto split: sum.splits)
qed

lemma open_routes_inv:
  assumes u: "nv_uniform T" and L: "lib_ok L" and o: "pending_fd lk T fd s"
  shows "files_inv lk T (snd (open_routes T H L fd path fl s))"
proof -
  have vfs: "files_inv lk T (snd r)" if "vfs_open_if_mounted T L fd path fl s = Some r" for r
    using that vfs_open_at_inv [OF L o] pending_free [OF o] vfs_find_mount [of _ s]
    unfolding vfs_open_if_mounted_def by (auto split: if_splits sum.splits option.splits)
  have root: "files_inv lk T (snd (open_root_dir T H fd s))"
    using pending_set [OF o, of "\<lambda>f. f\<lparr>kind := FD_ROOT_DIR, is_dir := True\<rparr>"] o
      pending_set [OF pending_same [OF o dir_probe_same], of "\<lambda>f. f\<lparr>kind := FD_ROOT_DIR, is_dir := True\<rparr>"]
      pending_same [OF o dir_probe_same]
    unfolding open_root_dir_def Let_def by (auto simp: pending_fd_def)
  have reg: "files_inv lk T (snd (open_registered T H fd p i fl s'))" if "pending_fd lk T fd s'" for p i s'
  proof -
    obtain cfg s2 where c: "hal_config_slot H (path_basename p) s' = (cfg, s2)" by (metis surj_pair)
    note o2 = pending_same [OF that hal_same(3) [OF c]]
    show ?thesis
      using open_nv_inv [OF u that] open_nv_inv [OF u o2] open_slot_file_inv [OF o2]
      by (simp add: open_registered_def c)
  qed
  have unreg: "files_inv lk T (snd (open_unregistered T H fd p fl s'))" if "pending_fd lk T fd s'" for p s'
  proof -
    obtain cfg s2 where c: "hal_config_slot H (path_basename p) s' = (cfg, s2)" by (metis surj_pair)
    obtain k s3 where k: "hal_resolve H (path_basename p) s2 = (k, s3)" by (metis surj_pair)
    note o2 = pending_same [OF that hal_same(3) [OF c]] note o3 = pending_same [OF o2 hal_same(2) [OF k]]
    show ?thesis
      using open_nv_inv [OF u that] open_nv_inv [OF u o2] open_slot_file_inv [OF o3] pending_free [OF o3]
      by (simp add: open_unregistered_def c k Let_def)
  qed
  have name: "files_inv lk T (snd (open_by_name T H fd path fl s))"
  proof -
    obtain k s1 where k: "file_slot_lookup H path s = (k, s1)" by (metis surj_pair)
    note o1 = pending_same [OF o file_slot_lookup_same [OF k]]
    show ?thesis using reg [OF o1] unreg [OF o1] by (simp add: open_by_name_def k)
  qed
  have paths: "files_inv lk T (snd (open_slot_path T H fd p fl s))" "files_inv lk T (snd (open_save_path T H fd p fl s))" for p
    using open_nv_inv [OF u o] pending_free [OF o] open_slot_file_inv [OF o]
    unfolding open_slot_path_def open_save_path_def Let_def by (simp_all split: option.splits)
  show ?thesis
    using vfs root name paths unfolding open_routes_def Let_def by (simp split: option.splits)
qed

lemma alloc_fd_free:
  "alloc_fd s = (Some fd, s1) \<Longrightarrow> FD_FIRST_FREE \<le> fd \<and> fd < MAX_FDS \<and> \<not> in_use (fd_table s ! fd) \<and>
     s1 = set_fd fd (\<lambda>f. f\<lparr>in_use := True\<rparr>) s"
  "alloc_fd s = (None, s1) \<Longrightarrow> s1 = s"
  by (auto simp: alloc_fd_def find_Some_iff split: option.splits)

lemma alloc_pending:
  assumes i: "files_inv lk T s" and a: "alloc_fd s = (Some fd, s1)"
  shows "pending_fd lk T fd (set_fd fd (fresh_fd fl) s1)"
proof -
  have fd: "FD_FIRST_FREE \<le> fd" "fd < MAX_FDS" "\<not> in_use (fd_table s ! fd)"
    and s1: "s1 = set_fd fd (\<lambda>f. f\<lparr>in_use := True\<rparr>) s" using alloc_fd_free(1) [OF a] by simp_all
  have e: "set_fd fd (fresh_fd fl) s1 = set_fd fd (\<lambda>f. fresh_fd fl (f\<lparr>in_use := True\<rparr>)) s"
    unfolding s1 by (rule set_fd_twice) (use fd files_inv_len [OF i] in simp)
  have "files_inv lk T (set_fd fd (\<lambda>f. fresh_fd fl (f\<lparr>in_use := True\<rparr>)) s)"
    by (rule set_fd_inv [OF i fd(2)]) (use fd in \<open>auto simp: fd_ok_def fresh_fd_def holds_save_def\<close>)
  then show ?thesis
    using fd files_inv_len [OF i] by (simp add: e pending_fd_def set_fd_nth fresh_fd_def)
qed

lemma sys_openat_inv:
  assumes "nv_uniform T" and "lib_ok L" and "files_inv lk T s"
  shows "files_inv lk T (snd (sys_openat T H L p fl s))"
  using open_routes_inv [OF assms(1,2) alloc_pending [OF assms(3)]] assms(3) alloc_fd_free(2)
  unfolding sys_openat_def by (fastforce split: option.splits prod.splits)

end
