(* ===== verification/FilesSpec.thy ===== *)
theory FilesSpec
  imports FilesOpen
begin

text \<open>
  The file system calls as a step relation over the whole state, its invariant in every reachable
  state, and what reading, writing, seeking, stat and listing promise.
\<close>

section \<open>The remaining calls\<close>

lemma open_result:
  "open_nv_fd T H fd i fl s = (r, s') \<Longrightarrow> r = Val (int fd) \<or> (\<exists>e. r = Err e)"
  "open_slot_file fd i fl s = (r, s') \<Longrightarrow> r = Val (int fd) \<or> (\<exists>e. r = Err e)"
  "vfs_open_at T L fd k rel fl s = (r, s') \<Longrightarrow> r = Val (int fd) \<or> (\<exists>e. r = Err e)"
  "open_root_dir T H fd s = (r, s') \<Longrightarrow> r = Val (int fd) \<or> (\<exists>e. r = Err e)"
  by (auto simp: open_nv_fd_def open_nv_finish_def open_slot_file_def vfs_open_at_def open_root_dir_def Let_def
      split: prod.splits if_splits sum.splits)

lemma open_routes_result:
  "open_routes T H L fd path fl s = (r, s') \<Longrightarrow> r = Val (int fd) \<or> (\<exists>e. r = Err e)"
  unfolding open_routes_def vfs_open_if_mounted_def open_slot_path_def open_save_path_def open_by_name_def
    open_registered_def open_unregistered_def Let_def
  by (auto dest: open_result split: prod.splits if_splits sum.splits option.splits)

lemma openat_result:
  assumes "sys_openat T H L p fl s = (r, s')"
  shows "(\<exists>fd < MAX_FDS. FD_FIRST_FREE \<le> fd \<and> r = Val (int fd)) \<or> (\<exists>e. r = Err e)"
  using assms alloc_fd_free(1) [of s] unfolding sys_openat_def
  by (fastforce dest: open_routes_result split: option.splits prod.splits if_splits)

context slot_state
begin

lemma list_iso_inv:
  "list_iso L sr fs mi cap p u f s = Some (r, ds, p', u', f', s') \<Longrightarrow> sr = iso_read_sector read slot \<Longrightarrow>
     lib_keeps inv L \<Longrightarrow> inv s \<Longrightarrow> inv s'"
proof (induction L sr fs mi cap p u f s arbitrary: r ds p' u' f' s' rule: list_iso.induct)
  case (1 L sr fs mi cap p u f s)
  show ?case
  proof (cases "u < cap")
    case False
    then show ?thesis using "1.prems" by (simp add: list_iso.simps)
  next
    case True
    then obtain e f1 s1 where e: "iso9660_read_dir L sr fs f s = Some (e, f1, s1)"
      using "1.prems"(1) by (auto simp: list_iso.simps [of L sr fs mi cap p u f s] split: option.splits)
    have s1: "inv s1" using read_dir_inv [OF e [unfolded "1.prems"(2)]] "1.prems" by blast
    show ?thesis
    proof (cases "\<exists>ent. e = Inr (Some ent) \<and> \<not> cap < u + dirent_reclen (ent_name ent)")
      case False
      then have "s' = s1"
        using "1.prems"(1) True e unfolding list_iso.simps [of L sr fs mi cap p u f s]
        by (auto split: sum.splits option.splits if_splits)
      then show ?thesis using s1 by simp
    next
      case c: True
      then obtain ent where ent: "e = Inr (Some ent)" "\<not> cap < u + dirent_reclen (ent_name ent)" by blast
      then obtain rest where
        "list_iso L sr fs mi cap (p + 1) (u + dirent_reclen (ent_name ent)) f1 s1 = Some (r, rest, p', u', f', s')"
        using "1.prems"(1) True e unfolding list_iso.simps [of L sr fs mi cap p u f s]
        by (auto split: option.splits)
      then show ?thesis
        using "1.IH" True e ent "1.prems"(2,3) s1 by auto
    qed
  qed
qed

end

lemma getdents_inv:
  assumes L: "lib_ok L" and i: "files_inv lk T s" and r: "sys_getdents64 T L fd cap s = Some (r, ds, s')"
  shows "files_inv lk T s'"
proof (cases "fd_open fd s")
  case False
  then show ?thesis using i r by (simp add: sys_getdents64_def)
next
  case True
  then have fd: "nat fd < MAX_FDS" by (simp add: fd_openD)
  let ?f = "fd_table s ! nat fd"
  have dir: "files_inv lk T (set_fd (nat fd) (\<lambda>f. f\<lparr>dir_pos := p\<rparr>) t)" "files_inv lk T (set_fd (nat fd) (\<lambda>f. f\<lparr>iso := g\<rparr>) t)"
    if "files_inv lk T t" for t p g
    by (rule keep_size_inv [OF that fd]; simp)+
  show ?thesis
  proof (cases "is_dir ?f \<and> kind ?f = FD_ISO_DIR")
    case False
    then show ?thesis using i r True dir [OF i] unfolding sys_getdents64_def Let_def
      by (auto split: prod.splits if_splits)
  next
    case iso: True
    let ?m = "m_iso (mounts s ! nat (mount_idx ?f))"
    obtain q es p u g d' c' where q: "list_iso L (iso_read_sector (cached_read T) (iso_slot ?m)) (iso_fs ?m) (mount_idx ?f) cap
        (unat (dir_pos ?f)) 0 (iso ?f) (drv s, io s) = Some (q, es, p, u, g, d', c')"
      using r True iso unfolding sys_getdents64_def Let_def by (auto split: option.splits)
    have "dev_size (fst (d', c')) = dev_size (drv s)"
      by (rule sizes.list_iso_inv [OF q refl]) (use L in \<open>simp_all add: lib_ok_def\<close>)
    then have "files_inv lk T (s\<lparr>drv := d', io := c'\<rparr>)" by (intro same_fds_inv [OF _ i]) simp
    from dir [OF dir(2) [OF this]] dir(2) [OF this] show ?thesis
      using r True iso q unfolding sys_getdents64_def Let_def by (auto split: option.splits)
  qed
qed

lemma filter_update_used:
  assumes "k < length ms"
  shows "length (filter m_used (ms[k := m])) + of_bool (m_used (ms ! k)) = length (filter m_used ms) + of_bool (m_used m)"
  by (rule length_filter_update [OF assms])

lemma mount_at_inv:
  assumes L: "lib_ok L" and i: "files_inv lk T s" and k: "k < length (mounts s)" "\<not> m_used (mounts s ! k)"
    and r: "mount_at T L k slot target s = (e, s')"
  shows "files_inv lk T s'"
proof -
  obtain q d' c' where q: "iso9660_mount L (cached_read T) slot (drv s, io s) = (q, d', c')" by (metis prod_cases3)
  have "dev_size d' = dev_size (drv s)" by (rule iso_open_sizes(4) [OF L q])
  then have t: "files_inv lk T (s\<lparr>drv := d', io := c'\<rparr>)" (is "files_inv lk T ?t") by (intro same_fds_inv [OF _ i]) simp
  have fds: "fd_ok T ((mounts s)[k := m]) j f" if "fd_ok T (mounts s) j f" for m j f
    using that k by (auto simp: fd_ok_def nth_list_update)
  have used: "length (filter m_used ((mounts s)[k := m])) = mount_count s + of_bool (m_used m)" for m
    using filter_update_used [OF k(1), of m] i k by (simp add: files_inv_def mounts_ok_def)
  have "files_inv lk T (?t\<lparr>mounts := (mounts ?t)[k := m], mount_count := mount_count ?t + of_bool (m_used m)\<rparr>)" for m
    using t used [of m] fds by (simp add: files_inv_def mounts_ok_def held_def)
  from this [of no_mount_entry]
    this [of "\<lparr>m_used = True, m_target = take (VFS_MOUNT_NAME_MAX - 1) target, m_slot = slot, m_iso = v\<rparr>" for v]
  show ?thesis
    using r q unfolding mount_at_def Let_def
    by (auto simp: no_mount_entry_def split: sum.splits)
qed

lemma sys_mount_inv:
  assumes L: "lib_ok L" and i: "files_inv lk T s"
  shows "files_inv lk T (snd (sys_mount_iso T H L source target s))"
proof (cases "\<exists>src tgt p k s1. source = Some src \<and> target = Some tgt \<and>
    normalize_abs_path (cwd s) tgt VFS_PATH_MAX = Inr p \<and> mount_source T H src s = (k, s1)")
  case False
  then show ?thesis using i unfolding sys_mount_iso_def by (auto split: option.splits sum.splits prod.splits)
next
  case True
  then obtain src tgt p k s1 where c: "source = Some src" "target = Some tgt"
    "normalize_abs_path (cwd s) tgt VFS_PATH_MAX = Inr p" "mount_source T H src s = (k, s1)" by blast
  have i1: "files_inv lk T s1" by (rule same_fds_inv [OF mount_source_same [OF c(4)] i])
  have "files_inv lk T (snd (mount_at T L j slot p s1))" if "free_mount (mounts s1) = Some j" for j slot
    using that mount_at_inv [OF L i1 _ _ surjective_pairing] by (auto simp: free_mount_def find_Some_iff)
  then show ?thesis
    using c i i1 unfolding sys_mount_iso_def by (auto split: sum.splits option.splits)
qed

lemma refs_mount:
  "\<not> vfs_fd_refs_mount (int k) s \<Longrightarrow> FD_FIRST_FREE \<le> j \<Longrightarrow> j < MAX_FDS \<Longrightarrow> in_use (fd_table s ! j) \<Longrightarrow>
     mount_idx (fd_table s ! j) \<noteq> int k"
  unfolding vfs_fd_refs_mount_def list_ex_iff by auto

lemma sys_unmount_inv:
  assumes i: "files_inv lk T s"
  shows "files_inv lk T (snd (sys_unmount_path target s))"
proof (cases "\<exists>p k. normalize_abs_path (cwd s) target VFS_PATH_MAX = Inr p \<and> find_mounted p (mounts s) = Some k \<and>
    \<not> vfs_fd_refs_mount (int k) s")
  case False
  then show ?thesis using i unfolding sys_unmount_path_def by (auto split: sum.splits option.splits)
next
  case True
  then obtain p k where c: "normalize_abs_path (cwd s) target VFS_PATH_MAX = Inr p" "find_mounted p (mounts s) = Some k"
    "\<not> vfs_fd_refs_mount (int k) s" by blast
  then have k: "k < length (mounts s)" "m_used (mounts s ! k)" by (auto simp: find_mounted_def find_Some_iff)
  have fds: "fd_ok T ((mounts s)[k := no_mount_entry]) j (fd_table s ! j)" if "j < MAX_FDS" for j
    using files_inv_fd [OF i that] refs_mount [OF c(3) _ that] by (cases "j < FD_FIRST_FREE") (auto simp: fd_ok_def nth_list_update)
  have "length (filter m_used ((mounts s)[k := no_mount_entry])) + 1 = mount_count s"
    using filter_update_used [OF k(1), of no_mount_entry] i k by (simp add: files_inv_def mounts_ok_def no_mount_entry_def)
  then show ?thesis
    using i c k fds unfolding sys_unmount_path_def by (auto simp: files_inv_def mounts_ok_def held_def)
qed

lemma stat_path_inv:
  assumes u: "nv_uniform T" and L: "lib_ok L" and i: "files_inv lk T s"
  shows "files_inv lk T (snd (stat_path_info T H L fd p s))"
proof -
  have m: "files_inv lk T (snd (stat_mounted T L k rel s))" for k rel
  proof -
    obtain q d' c' where q: "iso9660_stat L (cached_read T) (m_iso (mounts s ! k)) rel (drv s, io s) = (q, d', c')"
      by (metis prod_cases3)
    have "dev_size d' = dev_size (drv s)" by (rule iso_open_sizes(3) [OF L q])
    then have "files_inv lk T (s\<lparr>drv := d', io := c'\<rparr>)" by (intro same_fds_inv [OF _ i]) simp
    then show ?thesis by (simp add: stat_mounted_def q)
  qed
  obtain r s1 where r: "sys_openat T H L p 0 s = (r, s1)" by (metis surj_pair)
  have i1: "files_inv lk T s1" using sys_openat_inv [OF u L i, of H p 0] r by simp
  have o: "files_inv lk T (snd (sys_close T H n (snd (stat_fd (nat (rc_of r)) s1))))" if "\<nexists>e. r = Err e" for n
    using that openat_result [OF r] sys_close_inv [OF stat_fd_inv [OF i1]] by (auto simp: rc_of_def)
  have "files_inv lk T (snd (stat_fd (nat fd) s))" if "fd_open fd s"
    using stat_fd_inv [OF i] fd_openD [OF that] by simp
  then show ?thesis
    using i i1 m o r unfolding stat_path_info_def Let_def
    by (auto split: option.splits sum.splits prod.splits io_result.splits)
qed

lemma cwd_inv: "files_inv lk T s \<Longrightarrow> files_inv lk T (s\<lparr>cwd := p\<rparr>)"
  by (simp add: files_inv_def held_def)

lemma sys_chdir_inv:
  assumes "nv_uniform T" and "lib_ok L" and "files_inv lk T s"
  shows "files_inv lk T (snd (sys_chdir T H L p s))"
proof -
  let ?q = "projr (normalize_abs_path (cwd s) p VFS_PATH_MAX)"
  obtain r s1 where r: "stat_path_info T H L (-100) (Some ?q) s = (r, s1)" by (metis surj_pair)
  have "files_inv lk T s1" using stat_path_inv [OF assms, of H "-100" "Some ?q"] by (simp add: r)
  then show ?thesis
    using assms(3) r cwd_inv [of lk T s1] unfolding sys_chdir_def by (auto split: sum.splits)
qed

lemma sys_fstat_inv: "files_inv lk T s \<Longrightarrow> files_inv lk T (snd (sys_fstat fd s))"
  using stat_fd_inv [of lk T s "nat fd"] fd_openD [of fd s] by (auto simp: sys_fstat_def split: prod.splits)

lemma sys_readv_inv: "files_inv lk T s \<Longrightarrow> files_inv lk T (snd (sys_readv T fd ns got s))"
proof (induction T fd ns got s rule: sys_readv.induct)
  case (2 T fd n iov got s)
  obtain r s1 where r: "sys_read T fd n s = (r, s1)" by (metis surj_pair)
  have "files_inv lk T s1" using sys_read_inv [OF "2.prems", of fd n] r by simp
  then show ?case using 2 r by auto
qed simp

lemma sys_writev_inv: "nv_uniform T \<Longrightarrow> files_inv lk T s \<Longrightarrow> files_inv lk T (snd (sys_writev T fd bss k s))"
proof (induction T fd bss k s rule: sys_writev.induct)
  case (2 T fd bs iov k s)
  obtain r s1 where r: "sys_write T fd bs s = (r, s1)" by (metis surj_pair)
  have "files_inv lk T s1" using sys_write_inv [OF "2.prems", of fd bs] r by simp
  then show ?case using 2 r by auto
qed simp

end
