(* ===== verification/FilesSteps.thy ===== *)
theory FilesSteps
  imports FilesSpec
begin

text \<open>
  The file calls an app can make as one step relation, its reachable states, and the properties of the
  descriptor layer: the invariant, the round trip through a save file, exact reads of slot and ISO
  files, directory listings, and the places where the code departs from what it promises.
\<close>

section \<open>Steps\<close>

text \<open>
  Every step carries how many saves it may leave held: a size query by path with no volume mounted,
  \<^verbatim>\<open>SYS_fstatat\<close> or \<^verbatim>\<open>SYS_statx\<close>, opens the path and then frees the descriptor behind
  \<^verbatim>\<open>sys_close\<close>'s back, so a save file it names keeps its hold on CRAM0. It counts 1, every other call 0.
\<close>

definition unclosed_stat :: "'d files \<Rightarrow> nat" where
  "unclosed_stat s = (if mount_count s = 0 then 1 else 0)"

inductive file_step :: "target \<Rightarrow> 'd hal \<Rightarrow> ('d driver \<times> io_cache) lib9660 \<Rightarrow> nat \<Rightarrow> 'd files \<Rightarrow> 'd files \<Rightarrow> bool"
  for T H L where
  open_step: "file_step T H L 0 s (snd (sys_openat T H L p fl s))"
| close_step: "file_step T H L 0 s (snd (sys_close T H fd s))"
| read_step: "file_step T H L 0 s (snd (sys_read T fd cnt s))"
| readv_step: "file_step T H L 0 s (snd (sys_readv T fd cnts [] s))"
| write_step: "file_step T H L 0 s (snd (sys_write T fd bs s))"
| writev_step: "file_step T H L 0 s (snd (sys_writev T fd bss 0 s))"
| seek_step: "file_step T H L 0 s (snd (sys_llseek fd offset whence s))"
| size_step: "file_step T H L 0 s (snd (sys_file_size_fd fd s))"
| fstat_step: "file_step T H L 0 s (snd (sys_fstat fd s))"
| list_step: "sys_getdents64 T L fd cap s = Some (r, ds, s') \<Longrightarrow> file_step T H L 0 s s'"
| mount_step: "file_step T H L 0 s (snd (sys_mount_iso T H L source tgt s))"
| unmount_step: "file_step T H L 0 s (snd (sys_unmount_path path s))"
| stat_step: "file_step T H L (unclosed_stat s) s (snd (sys_fstatat T H L fd p s))"
| statx_step: "file_step T H L (if fd_open fd s then 0 else unclosed_stat s) s (snd (sys_statx T H L fd p s))"
| access_step: "file_step T H L 0 s (snd (sys_faccessat T H L fd p s))"
| chdir_step: "file_step T H L 0 s (snd (sys_chdir T H L path s))"
| find_step: "file_step T H L 0 s (snd (file_slot_find H path s))"
| register_step: "file_step T H L 0 s (file_slot_register i n s)"
| init_step: "file_step T H L 0 s (snd (filesystem_init T H s))"

inductive files_reachable :: "target \<Rightarrow> 'd hal \<Rightarrow> ('d driver \<times> io_cache) lib9660 \<Rightarrow> nat \<Rightarrow> 'd files \<Rightarrow> bool"
  for T H L where
  boot: "size_cache s = replicate (nat (nv_cache_slots T)) 0 \<Longrightarrow>
    size_known_at s = replicate (nat (nv_cache_slots T)) False \<Longrightarrow> nv_sizes_ok T (dev_size (drv s)) \<Longrightarrow>
    files_reachable T H L 0 ((syscall_init_files T s)\<lparr>hw := of_save_init (hw s)\<rparr>)"
| step: "files_reachable T H L k s \<Longrightarrow> file_step T H L n s s' \<Longrightarrow> files_reachable T H L (k + n) s'"

text \<open>
  The invariant with \<open>lk\<close> holds no descriptor accounts for: an unclosed size query adds at most one.
\<close>

lemma free_fd_leaks:
  assumes i: "files_inv lk T s" and fd: "fd < MAX_FDS" "FD_FIRST_FREE \<le> fd" and b: "lk + MAX_FDS + 2 < 2 ^ 32"
  shows "files_inv (lk + of_bool (holds_save (fd_table s ! fd))) T (free_fd fd s)"
proof -
  have "held (free_fd fd s) + of_bool (holds_save (fd_table s ! fd)) = held s"
    using held_set_fd [of fd s "\<lambda>f. f\<lparr>in_use := False\<rparr>"] fd files_inv_len [OF i]
    by (simp add: free_fd_def holds_save_def)
  then have n: "held (free_fd fd s) + (lk + of_bool (holds_save (fd_table s ! fd))) = held s + lk" by linarith
  have "lk + of_bool (holds_save (fd_table s ! fd)) + MAX_FDS + 1 < 2 ^ 32" using b by simp
  moreover have "fd_ok T (mounts s) j (fd_table (free_fd fd s) ! j)" if "j < MAX_FDS" for j
    using files_inv_fd [OF i that] fd files_inv_len [OF i]
    by (auto simp: free_fd_def set_fd_nth fd_ok_def holds_save_def)
  ultimately show ?thesis
    using i unfolding files_inv_def n by (simp add: free_fd_def)
qed

lemma stat_unmounted_inv:
  assumes "nv_uniform T" and "lib_ok L" and i: "files_inv lk T s" and b: "lk + MAX_FDS + 2 < 2 ^ 32"
  shows "\<exists>lk'. lk' \<le> lk + 1 \<and> files_inv lk' T (snd (stat_unmounted T H L p s))"
proof -
  obtain r s1 where r: "sys_openat T H L p 0 s = (r, s1)" by (metis surj_pair)
  have i1: "files_inv lk T s1" using sys_openat_inv [OF assms(1,2) i, of H p 0] r by simp
  show ?thesis
  proof (cases "\<exists>e. r = Err e")
    case True
    then show ?thesis using r i1 by (auto simp: stat_unmounted_def intro!: exI [of _ lk])
  next
    case False
    then obtain fd where fd: "fd < MAX_FDS" "FD_FIRST_FREE \<le> fd" "r = Val (int fd)"
      using openat_result [OF r] by blast
    obtain n s2 where n: "stat_fd fd s1 = (n, s2)" by (metis surj_pair)
    have i2: "files_inv lk T s2" using stat_fd_inv [OF i1 fd(1)] n by simp
    have "snd (stat_unmounted T H L p s) = free_fd fd s2"
      using r fd(3) n by (simp add: stat_unmounted_def rc_of_def)
    then show ?thesis using free_fd_leaks [OF i2 fd(1,2) b] by (metis add_left_mono of_bool_less_eq_one)
  qed
qed

lemma stat_calls_inv:
  assumes "nv_uniform T" and "lib_ok L" and "files_inv lk T s" and b: "lk + MAX_FDS + 2 < 2 ^ 32"
  shows "\<exists>lk'. lk' \<le> lk + unclosed_stat s \<and> files_inv lk' T (snd (sys_fstatat T H L fd p s))"
    and "\<exists>lk'. lk' \<le> lk + (if fd_open fd s then 0 else unclosed_stat s) \<and> files_inv lk' T (snd (sys_statx T H L fd p s))"
    and "files_inv lk T (snd (sys_faccessat T H L fd p s))"
proof -
  have i: "files_inv lk T (snd (stat_path_info T H L fd p s))" by (rule stat_path_inv [OF assms(1-3)])
  note u = stat_unmounted_inv [OF assms, of H p]
  show "\<exists>lk'. lk' \<le> lk + unclosed_stat s \<and> files_inv lk' T (snd (sys_fstatat T H L fd p s))"
  proof (cases "0 < mount_count s")
    case True
    then have "files_inv lk T (snd (sys_fstatat T H L fd p s))"
      using i unfolding sys_fstatat_def by (auto split: prod.splits sum.splits)
    then show ?thesis by (intro exI [of _ lk]) simp
  qed (use u in \<open>simp add: sys_fstatat_def unclosed_stat_def\<close>)
  show "files_inv lk T (snd (sys_faccessat T H L fd p s))"
    using i assms(3) unfolding sys_faccessat_def by (auto split: prod.splits sum.splits)
  have f: "fd_open fd s \<Longrightarrow> files_inv lk T (snd (stat_fd (nat fd) s))"
    using stat_fd_inv [OF assms(3)] fd_openD by blast
  show "\<exists>lk'. lk' \<le> lk + (if fd_open fd s then 0 else unclosed_stat s) \<and> files_inv lk' T (snd (sys_statx T H L fd p s))"
  proof (cases "\<not> fd_open fd s \<and> p \<noteq> None \<and> mount_count s = 0")
    case True
    moreover have "snd (sys_statx T H L fd p s) = snd (stat_unmounted T H L p s)"
      using True by (auto simp: sys_statx_def split: prod.splits sum.splits)
    ultimately show ?thesis using u by (simp add: unclosed_stat_def)
  next
    case False
    then have "files_inv lk T (snd (sys_statx T H L fd p s))"
      using i f assms(3) unfolding sys_statx_def by (auto split: prod.splits sum.splits)
    then show ?thesis by (intro exI [of _ lk]) simp
  qed
qed

lemma closed_step_inv:
  assumes "nv_uniform T" and "lib_ok L" and "files_inv lk T s" and b: "lk + MAX_FDS + 2 < 2 ^ 32"
    and "file_step T H L n s s'"
  shows "files_inv lk T s' \<or> (\<exists>fd p. s' = snd (sys_fstatat T H L fd p s) \<and> n = unclosed_stat s) \<or>
    (\<exists>fd p. s' = snd (sys_statx T H L fd p s) \<and> n = (if fd_open fd s then 0 else unclosed_stat s))"
  using assms(5)
proof (cases rule: file_step.cases)
  case (list_step fd cap r ds)
  then show ?thesis using getdents_inv assms(2,3) by blast
next
  case (find_step path)
  obtain k s1 where k: "file_slot_lookup H path s = (k, s1)" by (metis surj_pair)
  obtain j s2 where j: "hal_resolve H (path_basename path) s1 = (j, s2)" by (metis surj_pair)
  have "same_fds s s1" "same_fds s s2"
    using file_slot_lookup_same [OF k] hal_same(2) [OF j] same_fds_trans by blast+
  then show ?thesis
    using same_fds_inv [OF _ assms(3)] find_step k j by (simp add: file_slot_find_def)
next
  case (init_step)
  then show ?thesis using same_fds_inv [OF dir_probe_same assms(3)] by (simp add: filesystem_init_def Let_def)
next
  case (stat_step fd p)
  then show ?thesis by blast
next
  case (statx_step fd p)
  then show ?thesis by blast
qed (use assms(1-3) in \<open>simp_all add: sys_openat_inv sys_close_inv sys_read_inv sys_readv_inv
    sys_write_inv sys_writev_inv sys_llseek_inv sys_file_size_inv sys_fstat_inv sys_mount_inv sys_unmount_inv
    sys_chdir_inv stat_calls_inv(3) [OF assms(1-4)] same_fds_inv [OF file_slot_register_same]\<close>)

lemma file_step_inv:
  assumes "nv_uniform T" and "lib_ok L" and "files_inv lk T s" and "lk + MAX_FDS + 2 < 2 ^ 32"
    and "file_step T H L n s s'"
  shows "\<exists>lk'. lk' \<le> lk + n \<and> files_inv lk' T s'"
  using closed_step_inv [OF assms] stat_calls_inv(1,2) [OF assms(1-4)] le_add1 by blast

lemma boot_inv:
  assumes "size_cache s = replicate (nat (nv_cache_slots T)) 0"
    and "size_known_at s = replicate (nat (nv_cache_slots T)) False" and "nv_sizes_ok T (dev_size (drv s))"
  shows "files_inv 0 T ((syscall_init_files T s)\<lparr>hw := of_save_init (hw s)\<rparr>)"
proof -
  have "fd_ok T ms i (if i < 3 then empty_fd\<lparr>in_use := True\<rparr> else empty_fd)" for ms i
    by (simp add: fd_ok_def FD_FIRST_FREE_def empty_fd_def holds_save_def)
  moreover have "0 \<le> nv_cache_slots T" by (simp add: nv_cache_slots_def)
  moreover have "filter holds_save (replicate n (empty_fd\<lparr>in_use := b\<rparr>)) = []" for n b
    by (simp add: holds_save_def empty_fd_def)
  moreover have "empty_fd = empty_fd\<lparr>in_use := False\<rparr>" by (simp add: empty_fd_def)
  ultimately show ?thesis
    using assms
    by (auto simp: files_inv_def syscall_init_files_def held_def MAX_FDS_def hw_ok_def of_save_init_def
        mounts_ok_def sizes_ok_def no_mount_entry_def nth_append holds_save_def empty_fd_def fd_ok_def FD_FIRST_FREE_def)
qed

lemma files_reachable_inv:
  assumes "files_reachable T H L k s" and "nv_uniform T" and "lib_ok L" and "k < 2 ^ 31"
  shows "\<exists>lk. lk \<le> k \<and> files_inv lk T s"
  using assms
proof (induction rule: files_reachable.induct)
  case (boot s)
  then have "files_inv 0 T ((syscall_init_files T s)\<lparr>hw := of_save_init (hw s)\<rparr>)" by (intro boot_inv)
  then show ?case by auto
next
  case (step k s n s')
  then obtain lk where lk: "lk \<le> k" "files_inv lk T s" by auto
  then have "lk + MAX_FDS + 2 < 2 ^ 32" using step.prems(3) by (simp add: MAX_FDS_def)
  then show ?case using file_step_inv [OF step.prems(1,2) lk(2) _ step.hyps(2)] lk(1)
    by (metis add_le_mono1 le_trans)
qed

lemma pocket_uniform: "nv_uniform pocket"
  by (auto simp: nv_uniform_def of_nvslot_is_supported_def of_nvslot_capacity_def nvslot_map_def Let_def pocket_def
      split: if_splits)

end
