(* ===== verification/FilesProps.thy ===== *)
theory FilesProps
  imports FilesSteps
begin

text \<open>
  What the file calls deliver: the round trip of a save file through write, close and reopen, exact
  reads of slot files and of files of a mounted volume, directory listings, and the calls that break
  a promise.
\<close>

section \<open>A save file through the calls\<close>

text \<open>An open save file: its slot, its size and position, on the Pocket's slot map.\<close>

definition save_fd :: "'d files \<Rightarrow> nat \<Rightarrow> u32 \<Rightarrow> nat \<Rightarrow> nat \<Rightarrow> bool" where
  "save_fd s fd i sz off \<longleftrightarrow> FD_FIRST_FREE \<le> fd \<and> fd < MAX_FDS \<and> (let f = fd_table s ! fd in
     holds_save f \<and> kind f = FD_NV_FILE \<and> slot_id f = i \<and> fd_size f = sz \<and> fd_offset f = off \<and>
     nv_cache_idx f = nv_cache_index_from_data_id pocket i)"

definition cached_size :: "'d files \<Rightarrow> u32 \<Rightarrow> nat \<Rightarrow> bool" where
  "cached_size s i n \<longleftrightarrow> (let k = nat (nv_cache_index_from_data_id pocket i) in
     size_known_at s ! k \<and> size_cache s ! k = n)"

lemma save_slot_id:
  assumes "0 \<le> n" and "n < 10"
  defines "i \<equiv> SAVE_SLOT_ID_BASE + word_of_int n"
  shows "save_slot_from_data_id pocket i = n" and "nv_cache_index_from_data_id pocket i = 1 + n"
    and "of_nvslot_is_supported pocket i" and "unat (of_nvslot_capacity pocket i) = 0x40000"
proof -
  have n: "n = 0 \<or> n = 1 \<or> n = 2 \<or> n = 3 \<or> n = 4 \<or> n = 5 \<or> n = 6 \<or> n = 7 \<or> n = 8 \<or> n = 9"
    using assms(1,2) by presburger
  note defs = i_def SAVE_SLOT_ID_BASE_def save_slot_from_data_id_def nv_cache_index_from_data_id_def
    of_nvslot_is_supported_def of_nvslot_capacity_def nvslot_map_def NV_SLOT_ID_SAVE_BASE_def
    NV_SLOT_ID_SHARED_CONFIG_def NV_SLOT_ID_DUKE_SETTINGS_def Let_def pocket_def
  from n show "save_slot_from_data_id pocket i = n" by (elim disjE) (simp_all add: defs)
  from n show "nv_cache_index_from_data_id pocket i = 1 + n" by (elim disjE) (simp_all add: defs)
  from n show "of_nvslot_is_supported pocket i" by (elim disjE) (simp_all add: defs)
  from n show "unat (of_nvslot_capacity pocket i) = 0x40000" by (elim disjE) (simp_all add: defs)
qed

lemma pocket_cache_slots: "nv_cache_slots pocket = 20"
  by (simp add: nv_cache_slots_def pocket_def OF_FILE_CFG_SLOT_COUNT_def)

lemma pocket_slot_size: "unat (save_slot_size pocket) = 0x40000"
  by (simp add: pocket_def)

text \<open>
  Opening \<^verbatim>\<open>save:N\<close> for writing with truncation. A size can be committed for a slot when the bitstream
  leaves the slot to its own table, or the host's datatable lists it; a truncating open already
  commits, so it only succeeds for such a slot.
\<close>

definition commits :: "'d hal \<Rightarrow> u32 \<Rightarrow> bool" where
  "commits H i \<longleftrightarrow> (dt_feature H \<longrightarrow> dt_entry H i \<noteq> None)"

lemma nv_set_size_ok:
  assumes "commits H i" and "of_nvslot_is_supported T i"
  shows "\<exists>h'. of_nvslot_set_size T (dt_feature H) (dt_entry H) i z h = (0, h') \<and> cram h' = cram h"
  using assms
  by (auto simp: commits_def of_nvslot_set_size_def nvslot_commit_size_def of_nvslot_is_supported_def split: option.splits)

lemma nv_set_size_fails:
  assumes "\<not> commits H i" and "of_nvslot_is_supported T i"
  shows "\<exists>h'. of_nvslot_set_size T (dt_feature H) (dt_entry H) i z h = (-1, h')"
  using assms
  by (auto simp: commits_def of_nvslot_set_size_def nvslot_commit_size_def of_nvslot_is_supported_def split: option.splits)

lemma open_save_route:
  assumes i: "files_inv lk pocket s" and n: "slot_number p = Some n" and fl: "fl AND O_DIRECTORY = 0"
    and a: "alloc_fd s = (Some fd, s1)"
  shows "sys_openat pocket H L (Some (''save:'' @ p)) fl s =
    open_nv_fd pocket H fd (SAVE_SLOT_ID_BASE + word_of_int n) fl (set_fd fd (fresh_fd fl) s1)"
  using n fl a by (simp add: sys_openat_def open_routes_def prefix_match_def open_save_path_def)

lemma store_cached:
  assumes "files_inv lk pocket s" and "0 \<le> n" "n < 10" and "k \<le> 0x40000"
    and s': "\<And>t. t = save_size_cache_store pocket (1 + n) k s \<Longrightarrow>
      size_cache s' = size_cache t \<and> size_known_at s' = size_known_at t"
  shows "cached_size s' (SAVE_SLOT_ID_BASE + word_of_int n) k"
proof -
  have l: "length (size_cache s) = 20" "length (size_known_at s) = 20"
    using assms(1) by (simp_all add: files_inv_def sizes_ok_def pocket_cache_slots)
  have "nat (1 + n) < 20" using assms(2,3) by linarith
  then show ?thesis
    using s' [OF refl] l assms(2-4)
    by (simp add: cached_size_def save_slot_id [OF assms(2,3)] save_size_cache_store_def pocket_cache_slots
        save_clamp_size_def pocket_slot_size)
qed

lemma open_save_trunc:
  assumes i: "files_inv lk pocket s" and n: "slot_number p = Some n" "0 \<le> n" "n < 10"
    and fl: "fl AND O_DIRECTORY = 0" "fl AND O_TRUNC \<noteq> 0" "fl AND O_APPEND = 0"
    and dt: "commits H (SAVE_SLOT_ID_BASE + word_of_int n)" and a: "alloc_fd s = (Some fd, s1)"
    and o: "sys_openat pocket H L (Some (''save:'' @ p)) fl s = (r, s')"
  shows "r = Val (int fd)" and "save_fd s' fd (SAVE_SLOT_ID_BASE + word_of_int n) 0 0"
    and "flags (fd_table s' ! fd) = fl" and "dirty (fd_table s' ! fd)"
proof -
  let ?i = "SAVE_SLOT_ID_BASE + word_of_int n :: u32"
  note sl = save_slot_id [OF n(2,3)]
  have pd: "pending_fd lk pocket fd (set_fd fd (fresh_fd fl) s1)" by (rule alloc_pending [OF i a])
  let ?s = "set_fd fd (fresh_fd fl) s1"
  obtain m t where m: "nv_open_size pocket ?i (1 + n) fl ?s = (m, t)" by (metis surj_pair)
  have si: "files_inv lk pocket ?s" using pd by (simp add: pending_fd_def)
  note ns = nv_open_size_inv [OF pocket_uniform sl(3) si m]
  have fd: "fd < MAX_FDS" "FD_FIRST_FREE \<le> fd" using pd by (simp_all add: pending_fd_def)
  have len: "length (fd_table t) = MAX_FDS" by (rule files_inv_len [OF ns(1)])
  have f: "in_use (fd_table t ! fd)" "flags (fd_table t ! fd) = fl" "fd_offset (fd_table t ! fd) = 0"
    using pd ns(3) alloc_fd_free(1) [OF a] files_inv_len [OF i] by (simp_all add: pending_fd_def fresh_fd_def set_fd_nth)
  obtain h where h: "of_nvslot_set_size pocket (dt_feature H) (dt_entry H) ?i 0 (hw t) = (0, h)"
    using nv_set_size_ok [OF dt sl(3)] by blast
  have "r = Val (int fd) \<and> save_fd s' fd ?i 0 0 \<and> flags (fd_table s' ! fd) = fl \<and> dirty (fd_table s' ! fd)"
    using o fd f len m h sl fl n
    unfolding open_save_route [OF i n(1) fl(1) a] open_nv_fd_def Let_def
    by (auto simp: open_nv_finish_def save_fd_def Let_def set_fd_def save_size_cache_store_def holds_save_def)
  then show "r = Val (int fd)" "save_fd s' fd ?i 0 0" "flags (fd_table s' ! fd) = fl" "dirty (fd_table s' ! fd)"
    by blast+
qed

lemma open_trunc_commits:
  assumes i: "files_inv lk pocket s" and n: "slot_number p = Some n" "0 \<le> n" "n < 10"
    and fl: "fl AND O_DIRECTORY = 0" "fl AND O_TRUNC \<noteq> 0" and a: "alloc_fd s = (Some fd, s1)"
    and o: "sys_openat pocket H L (Some (''save:'' @ p)) fl s = (r, s')"
  shows "r = Err (Sys EIO) \<or> commits H (SAVE_SLOT_ID_BASE + word_of_int n)"
proof (rule disjCI)
  let ?i = "SAVE_SLOT_ID_BASE + word_of_int n :: u32" and ?s = "set_fd fd (fresh_fd fl) s1"
  assume no: "\<not> commits H ?i"
  note sl = save_slot_id [OF n(2,3)]
  obtain m t where m: "nv_open_size pocket ?i (1 + n) fl ?s = (m, t)" by (metis surj_pair)
  obtain h where h: "of_nvslot_set_size pocket (dt_feature H) (dt_entry H) ?i 0 (hw t) = (-1, h)"
    using nv_set_size_fails [OF no sl(3)] by blast
  show "r = Err (Sys EIO)"
    using o m h sl fl n unfolding open_save_route [OF i n(1) fl(1) a] open_nv_fd_def Let_def
    by (auto simp: set_fd_def)
qed

text \<open>A write inside the slot stores its bytes at the position and moves the position past them.\<close>

lemma capacity_bound: "slot_capacity pocket i \<le> 0x40000"
  using pocket_uniform pocket_slot_size
  by (cases "of_nvslot_is_supported pocket i")
    (auto simp: slot_capacity_def nv_uniform_def of_nvslot_is_supported_def of_nvslot_capacity_def)

lemma unat_small: "n \<le> 0x40000 \<Longrightarrow> unat (of_nat n :: u32) = n"
  by (simp add: unat_of_nat take_bit_eq_mod)

lemma save_fdD:
  assumes "save_fd s fd i sz off"
  shows "fd_open (int fd) s" "is_save (fd_table s ! fd)" "kind (fd_table s ! fd) = FD_NV_FILE"
    "slot_id (fd_table s ! fd) = i" "fd_size (fd_table s ! fd) = sz" "fd_offset (fd_table s ! fd) = off"
    "fd < MAX_FDS" "int fd \<noteq> 1" "int fd \<noteq> 2" "FD_FIRST_FREE \<le> fd"
    "nv_cache_idx (fd_table s ! fd) = nv_cache_index_from_data_id pocket i"
  using assms by (auto simp: save_fd_def fd_open_def holds_save_def Let_def FD_FIRST_FREE_def)

lemma write_save:
  assumes i: "files_inv lk pocket s" and f: "save_fd s fd i sz off"
    and fl: "flags (fd_table s ! fd) AND O_ACCMODE \<noteq> 0" "flags (fd_table s ! fd) AND O_APPEND = 0"
    and fits: "off + length bs \<le> slot_capacity pocket i" and ne: "bs \<noteq> []"
    and w: "sys_write pocket (int fd) bs s = (r, s')"
  shows "r = Val (int (length bs))" and "save_fd s' fd i (max sz (off + length bs)) (off + length bs)"
    and "dirty (fd_table s' ! fd)" and "flags (fd_table s' ! fd) = flags (fd_table s ! fd)"
    and "slot_bytes pocket (hw s') i = take off (slot_bytes pocket (hw s) i) @ bs @
      drop (off + length bs) (slot_bytes pocket (hw s) i)"
    and "j \<noteq> i \<Longrightarrow> slot_bytes pocket (hw s') j = slot_bytes pocket (hw s) j"
proof -
  note fd = save_fdD [OF f]
  have u: "unat (of_nat off :: u32) = off" using fits capacity_bound [of i] by (intro unat_small) linarith
  obtain h where h: "of_nvslot_write pocket i bs (of_nat off) (hw s) = (int (length bs), h)"
    "slot_bytes pocket h i = take off (slot_bytes pocket (hw s) i) @ bs @ drop (off + length bs) (slot_bytes pocket (hw s) i)"
    "\<And>j. j \<noteq> i \<Longrightarrow> slot_bytes pocket h j = slot_bytes pocket (hw s) j"
    using pocket_nv.write_some [of "of_nat off" bs i "hw s"] fits ne u by auto
  have room: "off < slot_capacity pocket i" using fits ne by (cases bs) auto
  have n: "min (length bs) (slot_capacity pocket i - off) = length bs" using fits by linarith
  have cap: "unat (of_nvslot_capacity pocket i) = slot_capacity pocket i" by (simp add: slot_capacity_def)
  have len: "length (fd_table s) = MAX_FDS" by (rule files_inv_len [OF i])
  let ?z = "if sz < off + length bs then off + length bs else sz"
  have e: "write_save_fd pocket fd bs s = (Val (int (length bs)), save_size_cache_store pocket (nv_cache_idx (fd_table s ! fd)) ?z
      (set_fd fd (\<lambda>f. f\<lparr>fd_offset := off + length bs, fd_size := ?z, dirty := True\<rparr>) (s\<lparr>hw := h\<rparr>)))"
    using fl fd fits ne h(1) n room by (simp add: write_save_fd_def Let_def cap)
  have w': "r = Val (int (length bs))" "s' = save_size_cache_store pocket (nv_cache_idx (fd_table s ! fd)) ?z
      (set_fd fd (\<lambda>f. f\<lparr>fd_offset := off + length bs, fd_size := ?z, dirty := True\<rparr>) (s\<lparr>hw := h\<rparr>))"
    using w fd ne e by (auto simp: sys_write_def)
  show "r = Val (int (length bs))" by (rule w'(1))
  have mz: "max sz (off + length bs) = ?z" by simp
  show "save_fd s' fd i (max sz (off + length bs)) (off + length bs)"
    using f fd len unfolding mz w'(2) by (simp add: save_fd_def Let_def set_fd_nth holds_save_def)
  show "dirty (fd_table s' ! fd)" "flags (fd_table s' ! fd) = flags (fd_table s ! fd)"
    using fd len unfolding w'(2) by (simp_all add: set_fd_nth)
  show "slot_bytes pocket (hw s') i = take off (slot_bytes pocket (hw s) i) @ bs @
      drop (off + length bs) (slot_bytes pocket (hw s) i)"
    "j \<noteq> i \<Longrightarrow> slot_bytes pocket (hw s') j = slot_bytes pocket (hw s) j"
    unfolding w'(2) using h by simp_all
qed

text \<open>Closing publishes the size; the slot's bytes stay.\<close>

lemma close_save:
  assumes i: "files_inv lk pocket s" and f: "save_fd s fd i sz off" and d: "dirty (fd_table s ! fd)"
    and dt: "commits H i" and sup: "of_nvslot_is_supported pocket i"
    and c: "sys_close pocket H (int fd) s = (r, s')"
  shows "r = Val 0" and "slot_bytes pocket (hw s') = slot_bytes pocket (hw s)"
    and "size_cache s' = size_cache (save_size_cache_store pocket (nv_cache_index_from_data_id pocket i) sz s)"
    and "size_known_at s' = size_known_at (save_size_cache_store pocket (nv_cache_index_from_data_id pocket i) sz s)"
proof -
  note fd = save_fdD [OF f]
  obtain h where h: "of_nvslot_set_size pocket (dt_feature H) (dt_entry H) i (of_nat sz) (hw s) = (0, h)" "cram h = cram (hw s)"
    using nv_set_size_ok [OF dt sup] by blast
  have "r = Val 0 \<and> cram (hw s') = cram (hw s) \<and>
      size_cache s' = size_cache (save_size_cache_store pocket (nv_cache_index_from_data_id pocket i) sz s) \<and>
      size_known_at s' = size_known_at (save_size_cache_store pocket (nv_cache_index_from_data_id pocket i) sz s)"
    using c fd h d
    by (auto simp: sys_close_def Let_def fd_open_def free_fd_def save_size_cache_store_def)
  then show "r = Val 0" "slot_bytes pocket (hw s') = slot_bytes pocket (hw s)"
    "size_cache s' = size_cache (save_size_cache_store pocket (nv_cache_index_from_data_id pocket i) sz s)"
    "size_known_at s' = size_known_at (save_size_cache_store pocket (nv_cache_index_from_data_id pocket i) sz s)"
    using slot_bytes_cong [of "hw s'" "hw s" pocket] by simp_all
qed

text \<open>A read-only reopen takes the published size.\<close>

lemma reopen_save:
  assumes i: "files_inv lk pocket s" and n: "slot_number p = Some n" "0 \<le> n" "n < 10"
    and known: "cached_size s (SAVE_SLOT_ID_BASE + word_of_int n) k" "0 < k"
    and a: "alloc_fd s = (Some fd, s1)"
    and o: "sys_openat pocket H L (Some (''save:'' @ p)) 0 s = (r, s')"
  shows "r = Val (int fd)" and "save_fd s' fd (SAVE_SLOT_ID_BASE + word_of_int n) k 0"
    and "flags (fd_table s' ! fd) = 0" and "slot_bytes pocket (hw s') = slot_bytes pocket (hw s)"
proof -
  let ?i = "SAVE_SLOT_ID_BASE + word_of_int n :: u32"
  note sl = save_slot_id [OF n(2,3)]
  let ?s = "set_fd fd (fresh_fd 0) s1"
  have pd: "pending_fd lk pocket fd ?s" by (rule alloc_pending [OF i a])
  have s1: "s1 = set_fd fd (\<lambda>f. f\<lparr>in_use := True\<rparr>) s" using alloc_fd_free(1) [OF a] by simp
  have size: "size_known_at ?s ! nat (1 + n)" "size_cache ?s ! nat (1 + n) = k" "hw ?s = hw s"
    using known(1) sl by (simp_all add: s1 cached_size_def Let_def)
  have m: "nv_open_size pocket ?i (1 + n) 0 ?s = (k, ?s)"
    using size known(2) n sl by (simp add: nv_open_size_def nv_current_size_def pocket_cache_slots)
  have fd: "fd < MAX_FDS" "FD_FIRST_FREE \<le> fd" using pd by (simp_all add: pending_fd_def)
  have len: "length (fd_table ?s) = MAX_FDS" using pd files_inv_len [of lk pocket ?s] by (simp add: pending_fd_def)
  have f: "in_use (fd_table ?s ! fd)" "flags (fd_table ?s ! fd) = 0" "fd_offset (fd_table ?s ! fd) = 0"
    using pd len fd by (simp_all add: pending_fd_def fresh_fd_def set_fd_nth)
  have zero: "(0 :: u32) AND O_DIRECTORY = 0" by simp
  have "r = Val (int fd) \<and> save_fd s' fd ?i k 0 \<and> flags (fd_table s' ! fd) = 0 \<and>
      hw s' = of_save_begin_cpu (hw s)"
    using o fd f len m sl n size
    unfolding open_save_route [OF i n(1) zero a] open_nv_fd_def Let_def
    by (auto simp: open_nv_finish_def save_fd_def Let_def set_fd_def holds_save_def)
  then show "r = Val (int fd)" "save_fd s' fd ?i k 0" "flags (fd_table s' ! fd) = 0"
    "slot_bytes pocket (hw s') = slot_bytes pocket (hw s)"
    using slot_bytes_cong [of "hw s'" "hw s" pocket] by simp_all
qed

lemma read_save:
  assumes i: "files_inv lk pocket s" and f: "save_fd s fd i sz off"
    and fl: "flags (fd_table s ! fd) AND O_ACCMODE \<noteq> O_WRONLY" and sz: "sz \<le> slot_capacity pocket i"
    and c: "0 < sint cnt" and r: "sys_read pocket (int fd) cnt s = (r, s')"
  shows "off < sz \<Longrightarrow> r = Bytes (take (min (unat cnt) (sz - off)) (drop off (slot_bytes pocket (hw s) i))) \<and>
      save_fd s' fd i sz (off + min (unat cnt) (sz - off)) \<and> flags (fd_table s' ! fd) = flags (fd_table s ! fd)"
    and "sz \<le> off \<Longrightarrow> r = Val 0 \<and> s' = s"
proof -
  note fd = save_fdD [OF f]
  have e: "sys_read pocket (int fd) cnt s = read_save_fd pocket fd cnt s"
    using c fd by (simp add: sys_read_def)
  show "sz \<le> off \<Longrightarrow> r = Val 0 \<and> s' = s"
    using r e fl fd by (simp add: read_save_fd_def Let_def)
  assume lt: "off < sz"
  let ?n = "min (unat cnt) (sz - off)"
  have b: "sz \<le> 0x40000" using sz capacity_bound [of i] by linarith
  have u: "unat (of_nat off :: u32) = off" "unat (of_nat ?n :: u32) = ?n"
    by (rule unat_small; use b lt in linarith)+
  have "cnt \<noteq> 0" using c by auto
  then have "0 < ?n" using lt by (simp add: unat_gt_0)
  then have "0 < (of_nat ?n :: u32)" using u(2) by (simp add: word_less_nat_alt)
  moreover have "off + ?n \<le> slot_capacity pocket i" using sz lt by linarith
  ultimately obtain h where h: "of_nvslot_read pocket i (of_nat off) (of_nat ?n) (hw s) =
      (Some (take ?n (drop off (slot_bytes pocket (hw s) i))), h)"
    using pocket_nv.read_some [of "of_nat off" "of_nat ?n" i "hw s"] u by auto
  have "h = hw s" by (rule nv_read_hw [OF files_inv_hw [OF i] h])
  then show "r = Bytes (take ?n (drop off (slot_bytes pocket (hw s) i))) \<and>
      save_fd s' fd i sz (off + ?n) \<and> flags (fd_table s' ! fd) = flags (fd_table s ! fd)"
    using r e fl fd lt h f files_inv_len [OF i]
    by (auto simp: read_save_fd_def Let_def save_fd_def set_fd_nth holds_save_def)
qed

lemma close_frees:
  assumes "fd_open (int fd) s" and "FD_FIRST_FREE \<le> fd" and "length (fd_table s) = MAX_FDS"
    and "sys_close T H (int fd) s = (r, s')"
  shows "\<not> in_use (fd_table s' ! fd) \<and> length (fd_table s') = MAX_FDS"
  using assms
  by (auto simp: sys_close_def Let_def fd_open_def free_fd_def set_fd_def save_size_cache_store_def
      save_size_cache_invalidate_def split: prod.splits if_splits)

lemma alloc_some:
  assumes "\<not> in_use (fd_table s ! fd)" and "FD_FIRST_FREE \<le> fd" and "fd < MAX_FDS"
  obtains k s1 where "alloc_fd s = (Some k, s1)"
proof -
  have "find (\<lambda>i. \<not> in_use (fd_table s ! i)) [FD_FIRST_FREE..<MAX_FDS] \<noteq> None"
    using assms unfolding find_None_iff by auto
  then show thesis using that by (auto simp: alloc_fd_def)
qed

lemma openat_alloc:
  assumes "sys_openat T H L (Some p) fl s = (Val v, s')"
  obtains fd s1 where "alloc_fd s = (Some fd, s1)"
  using assms unfolding sys_openat_def by (auto split: if_splits option.splits prod.splits)

lemma save_file_cycle:
  assumes i: "files_inv lk pocket s" and L: "lib_ok L"
    and n: "slot_number p = Some n" "0 \<le> n" "n < 10"
    and fl: "fl AND O_DIRECTORY = 0" "fl AND O_TRUNC \<noteq> 0" "fl AND O_APPEND = 0" "fl AND O_ACCMODE \<noteq> 0"
    and bs: "bs \<noteq> []" "length bs \<le> 0x40000" and cnt: "length bs \<le> unat cnt" "0 < sint cnt"
    and o1: "sys_openat pocket H L (Some (''save:'' @ p)) fl s = (Val fd, s1)"
    and w: "sys_write pocket fd bs s1 = (k, s2)" and c: "sys_close pocket H fd s2 = (c, s3)"
    and o2: "sys_openat pocket H L (Some (''save:'' @ p)) 0 s3 = (q, s4)"
    and rd: "sys_read pocket (rc_of q) cnt s4 = (r, s5)" and eof: "sys_read pocket (rc_of q) cnt s5 = (r', s6)"
  shows "k = Val (int (length bs)) \<and> c = Val 0 \<and> 0 \<le> rc_of q \<and> r = Bytes bs \<and> r' = Val 0"
proof -
  let ?i = "SAVE_SLOT_ID_BASE + word_of_int n :: u32"
  note sl = save_slot_id [OF n(2,3)]
  have u: "nv_uniform pocket" by (rule pocket_uniform)
  have cap: "slot_capacity pocket ?i = 0x40000" using sl(4) by (simp add: slot_capacity_def)
  obtain d t where a: "alloc_fd s = (Some d, t)" by (rule openat_alloc [OF o1])
  have dt: "commits H ?i"
    using open_trunc_commits [OF i n fl(1,2) a o1] by blast
  note os = open_save_trunc [OF i n fl(1-3) dt a o1]
  have fd: "fd = int d" using os(1) by simp
  have i1: "files_inv lk pocket s1" using sys_openat_inv [OF u L i, of H "Some (''save:'' @ p)" fl] o1 by simp
  have wr: "flags (fd_table s1 ! d) AND O_ACCMODE \<noteq> 0" "flags (fd_table s1 ! d) AND O_APPEND = 0"
    using os(3) fl by simp_all
  note ws = write_save [OF i1 os(2) wr _ bs(1) w [unfolded fd]]
  have k: "k = Val (int (length bs))" and f2: "save_fd s2 d ?i (length bs) (length bs)" and d2: "dirty (fd_table s2 ! d)"
    and b2: "take (length bs) (slot_bytes pocket (hw s2) ?i) = bs"
    using ws bs(2) cap by simp_all
  have i2: "files_inv lk pocket s2" using sys_write_inv [OF u i1, of fd bs] w by simp
  note cs = close_save [OF i2 f2 d2 dt sl(3) c [unfolded fd]]
  have i3: "files_inv lk pocket s3" using sys_close_inv [OF i2, of H fd] c by simp
  have known: "cached_size s3 ?i (length bs)"
    by (rule store_cached [OF i2 n(2,3) bs(2)]) (use cs(3,4) sl in simp)
  have "\<not> in_use (fd_table s3 ! d)"
    using close_frees [OF _ _ files_inv_len [OF i2] c [unfolded fd]] save_fdD [OF f2] by simp
  then obtain d' t' where a': "alloc_fd s3 = (Some d', t')"
    using save_fdD [OF f2] by (auto elim: alloc_some)
  have pos: "0 < length bs" using bs(1) by simp
  note rs = reopen_save [OF i3 n known pos a' o2]
  have q: "rc_of q = int d'" using rs(1) by (simp add: rc_of_def)
  have i4: "files_inv lk pocket s4" using sys_openat_inv [OF u L i3, of H "Some (''save:'' @ p)" 0] o2 by simp
  have ro: "flags (fd_table s4 ! d') AND O_ACCMODE \<noteq> O_WRONLY" using rs(3) by (simp add: O_WRONLY_def)
  have sz: "length bs \<le> slot_capacity pocket ?i" using cap bs by simp
  note read = read_save [OF i4 rs(2) ro sz cnt(2) rd [unfolded q]]
  have m: "min (unat cnt) (length bs - 0) = length bs" using cnt(1) by simp
  have r1: "r = Bytes bs" and f5: "save_fd s5 d' ?i (length bs) (length bs)" and fl5: "flags (fd_table s5 ! d') = 0"
    using read(1) pos m b2 cs(2) rs(3,4) by simp_all
  have i5: "files_inv lk pocket s5" using sys_read_inv [OF i4, of "rc_of q" cnt] rd by simp
  have "flags (fd_table s5 ! d') AND O_ACCMODE \<noteq> O_WRONLY" using fl5 by (simp add: O_WRONLY_def)
  note eofs = read_save(2) [OF i5 f5 this sz cnt(2) eof [unfolded q]]
  show ?thesis using k cs(1) q r1 eofs by simp
qed

section \<open>Reading slot files and files of a volume\<close>

lemma read_slot_bytes:
  assumes ok: "state_ok T fc sized (drv s, io s)" and f: "fd_open (int fd) s" "kind (fd_table s ! fd) = FD_SLOT_FILE"
    "\<not> is_save (fd_table s ! fd)" "slot_id (fd_table s ! fd) = i" "fd_offset (fd_table s ! fd) = off"
    and sz: "sized i" "fd_size (fd_table s ! fd) = length (fc i)" "0 < length (fc i)" "length (fc i) \<le> 2 ^ 32"
    and len: "length (fd_table s) = MAX_FDS" and c: "0 < sint cnt" and r: "sys_read T (int fd) cnt s = (r, s')"
  shows "state_ok T fc sized (drv s', io s') \<and> (case r of
      Bytes bs \<Rightarrow> bs = take (unat cnt) (drop off (fc i)) \<and> bs \<noteq> [] \<and> fd_offset (fd_table s' ! fd) = off + length bs
    | Val n \<Rightarrow> n = 0 \<and> length (fc i) \<le> off \<and> s' = s
    | Err e \<Rightarrow> fd_offset (fd_table s' ! fd) = off)"
proof -
  have e: "sys_read T (int fd) cnt s = read_slot_fd T fd cnt s" using c f by (simp add: sys_read_def)
  have fdlt: "fd < length (fd_table s)" using f len by (simp add: fd_open_def)
  show ?thesis
  proof (cases "length (fc i) \<le> off")
    case True
    have "0 < unat cnt" using c by (auto simp: unat_gt_0)
    then show ?thesis using True r e f sz ok by (auto simp: read_slot_fd_def Let_def)
  next
    case False
    define n where "n = min (unat cnt) (length (fc i) - off)"
    have n1: "(if off + unat cnt > length (fc i) then length (fc i) - off else unat cnt) = n"
      using False by (simp add: n_def)
    have "cnt \<noteq> 0" using c by auto
    then have n0: "0 < n" using False by (simp add: n_def unat_gt_0)
    have m: "min n (0x100000000 - off) = n" using sz(4) by (simp add: n_def)
    have lt: "off < 2 ^ 32" "n \<le> 2 ^ 32 - off" using False sz(4) by (simp_all add: n_def)
    have n32: "n < 2 ^ 32" using unat_lt_2p32 [of cnt] by (simp add: n_def)
    have un: "unat (of_nat off :: u32) = off" "unat (of_nat n :: u32) = n"
      using lt n32 by (simp_all add: unat_of_nat take_bit_eq_mod)
    obtain q bs d' c' where q: "slot_read_cached T i (of_nat off) (of_nat n) (drv s) (io s) = (q, bs, d', c')"
      by (metis prod_cases4)
    have cr: "cached_read T i (of_nat off) (of_nat n) (drv s, io s) = (q, bs, d', c')" using q by (simp add: cached_read_def)
    have ok': "state_ok T fc sized (d', c')" by (rule cached.read_inv [OF ok cr])
    have bs: "bs = take n (drop off (fc i))" if "q = None"
      using cached.read_exact [OF ok cr [unfolded that] sz(1)] un by simp
    have take_n: "take n (drop off (fc i)) = take (unat cnt) (drop off (fc i))" by (simp add: n_def min_def)
    have l: "length (take n (drop off (fc i))) = n" using False by (simp add: n_def)
    have le: "\<not> length (fc i) < off + n" using False by (simp add: n_def)
    have n': "length (fc i) < off + unat cnt \<Longrightarrow> length (fc i) - off = n" "\<not> length (fc i) < off + unat cnt \<Longrightarrow> unat cnt = n"
      using False by (simp_all add: n_def)
    have "read_slot_fd T fd cnt s = (case q of None \<Rightarrow> (Bytes bs, set_fd fd (\<lambda>f. f\<lparr>fd_offset := fd_offset f + n\<rparr>) (s\<lparr>drv := d', io := c'\<rparr>))
        | Some e \<Rightarrow> (Err e, s\<lparr>drv := d', io := c'\<rparr>))"
      using f sz False m n0 q lt
      by (cases "length (fc i) < off + unat cnt"; cases q) (simp_all add: read_slot_fd_def Let_def not_le n' le)
    then show ?thesis
      using r e ok' bs take_n l n0 f(5) fdlt by (cases q) (auto simp: set_fd_nth)
  qed
qed

lemma read_iso_bytes:
  assumes ok: "state_ok T fc sized (drv s, io s)" and f: "fd_open (int fd) s" "kind (fd_table s ! fd) = FD_ISO_FILE"
    "flags (fd_table s ! fd) AND O_ACCMODE \<noteq> O_WRONLY" "mount_idx (fd_table s ! fd) = int k" "iso (fd_table s ! fd) = g"
    and v: "iso_slot (m_iso (mounts s ! k)) = i" "sized i"
    and ext: "unat (first_sector g) * 2048 + unat (iso_length g) \<le> 2 ^ 32" "0 < iso_length g"
    and len: "length (fd_table s) = MAX_FDS" and c: "0 < sint cnt" and r: "sys_read T (int fd) cnt s = (Bytes bs, s')"
  shows "bs = take (unat cnt) (drop (unat (iso_position g)) (take (unat (iso_length g))
      (drop (unat (first_sector g) * 2048) (fc i)))) \<and>
    iso (fd_table s' ! fd) = g\<lparr>iso_position := iso_position g + of_nat (length bs)\<rparr> \<and>
    state_ok T fc sized (drv s', io s')"
proof -
  let ?m = "m_iso (mounts s ! k)"
  have fdlt: "fd < length (fd_table s)" using f len by (simp add: fd_open_def)
  obtain q h d' c' where q: "iso9660_read_file (cached_read T) ?m g cnt (drv s, io s) = (q, h, d', c')"
    by (metis prod_cases4)
  have "sys_read T (int fd) cnt s = read_iso_fd T fd cnt s" using c f by (simp add: sys_read_def)
  then have qb: "q = Iso_bytes bs" "drv s' = d'" "io s' = c'" "iso (fd_table s' ! fd) = h"
    using r q f fdlt by (auto simp: read_iso_fd_def Let_def set_fd_nth split: iso_read.splits if_splits)
  have "state_ok T fc sized (d', c')"
    using cached.read_file_inv [OF ok, of ?m g cnt] q by simp
  moreover note cached.read_file_exact [OF ok _ ext q [unfolded qb(1)]]
  ultimately show ?thesis using v qb by (simp add: cached.extent_def)
qed

section \<open>Directory listings\<close>

definition root_end :: "'d files \<Rightarrow> nat" where
  "root_end s = length (names s) + length (mounts s)"

definition root_entry :: "'d files \<Rightarrow> nat \<Rightarrow> linux_dirent64 list" where
  "root_entry s p =
     (if p < length (names s) then [mk_dirent (ucast (fst (names s ! p) + 1)) p False (snd (names s ! p))]
      else let k = p - length (names s) in
        if k < length (mounts s) \<and> m_used (mounts s ! k)
        then [mk_dirent (0x1000 + of_nat k) p True (path_basename (m_target (mounts s ! k)))] else [])"

definition used_bytes :: "linux_dirent64 list \<Rightarrow> nat" where
  "used_bytes ds = sum_list (map d_reclen ds)"

lemma list_names_spec:
  "list_names cap (drop p ns) p u = (ds, q, v) \<Longrightarrow> p \<le> length ns \<Longrightarrow>
     p \<le> q \<and> q \<le> length ns \<and> ds = map (\<lambda>j. mk_dirent (ucast (fst (ns ! j) + 1)) j False (snd (ns ! j))) [p..<q] \<and>
     v = u + used_bytes ds \<and> (u \<le> cap \<longrightarrow> v \<le> cap) \<and> (q < length ns \<longrightarrow> cap < v + dirent_reclen (snd (ns ! q)))"
proof (induction "length ns - p" arbitrary: p u ds q v)
  case 0
  then show ?case by (auto simp: used_bytes_def)
next
  case (Suc n)
  then have p: "p < length ns" by linarith
  have d: "drop p ns = ns ! p # drop (p + 1) ns" using p by (simp add: Cons_nth_drop_Suc)
  obtain i nm where e: "ns ! p = (i, nm)" by fastforce
  show ?case
  proof (cases "cap < u + dirent_reclen nm")
    case True
    then show ?thesis using Suc.prems p d e by (auto simp: used_bytes_def)
  next
    case False
    obtain es q' v' where r: "list_names cap (drop (p + 1) ns) (p + 1) (u + dirent_reclen nm) = (es, q', v')"
      by (metis prod_cases3)
    have "n = length ns - (p + 1)" "p + 1 \<le> length ns" using Suc.hyps(2) by linarith+
    note IH = Suc.hyps(1) [OF this(1) r this(2)]
    have "ds = mk_dirent (ucast (i + 1)) p False nm # es" "q = q'" "v = v'"
      using Suc.prems(1) d e False r by simp_all
    moreover have "[p..<q'] = p # [p + 1..<q']" using IH [THEN conjunct1] by (simp add: upt_conv_Cons)
    moreover note IH [THEN conjunct1] IH [THEN conjunct2, THEN conjunct1] IH [THEN conjunct2, THEN conjunct2, THEN conjunct1]
      IH [THEN conjunct2, THEN conjunct2, THEN conjunct2]
    ultimately show ?thesis using e False by (auto simp: used_bytes_def mk_dirent_def)
  qed
qed

lemma list_mounts_spec:
  "list_mounts cap (drop k ms) k (b + k) u = (ds, q, v) \<Longrightarrow> k \<le> length ms \<Longrightarrow>
     b + k \<le> q \<and> q \<le> b + length ms \<and> ds = concat (map (\<lambda>j. if m_used (ms ! j)
         then [mk_dirent (0x1000 + of_nat j) (b + j) True (path_basename (m_target (ms ! j)))] else []) [k..<q - b]) \<and>
     v = u + used_bytes ds \<and> (u \<le> cap \<longrightarrow> v \<le> cap) \<and>
     (q < b + length ms \<longrightarrow> m_used (ms ! (q - b)) \<and>
        cap < v + dirent_reclen (path_basename (m_target (ms ! (q - b)))))"
proof (induction "length ms - k" arbitrary: k u ds q v)
  case 0
  then show ?case by (auto simp: used_bytes_def)
next
  case (Suc n)
  then have k: "k < length ms" by linarith
  have d: "drop k ms = ms ! k # drop (k + 1) ms" using k by (simp add: Cons_nth_drop_Suc)
  have n: "n = length ms - (k + 1)" using Suc.hyps(2) by linarith
  let ?nm = "path_basename (m_target (ms ! k))"
  show ?case
  proof (cases "m_used (ms ! k) \<and> cap < u + dirent_reclen ?nm")
    case True
    then show ?thesis using Suc.prems k d by (auto simp: used_bytes_def Let_def)
  next
    case False
    let ?w = "u + (if m_used (ms ! k) then dirent_reclen ?nm else 0)"
    obtain es q' v' where r: "list_mounts cap (drop (k + 1) ms) (k + 1) (b + (k + 1)) ?w = (es, q', v')"
      by (metis prod_cases3)
    have "k + 1 \<le> length ms" using k by linarith
    note IH = Suc.hyps(1) [OF n r this]
    have "ds = (if m_used (ms ! k) then [mk_dirent (0x1000 + of_nat k) (b + k) True ?nm] else []) @ es" "q = q'" "v = v'"
      using Suc.prems(1) d False r by (auto simp: Let_def split: if_splits prod.splits)
    moreover have "k < q' - b" using IH [THEN conjunct1] by linarith
    then have "[k..<q' - b] = k # [k + 1..<q' - b]" by (simp add: upt_conv_Cons)
    moreover note IH [THEN conjunct1] IH [THEN conjunct2, THEN conjunct1] IH [THEN conjunct2, THEN conjunct2, THEN conjunct1]
      IH [THEN conjunct2, THEN conjunct2, THEN conjunct2]
    ultimately show ?thesis using False by (auto simp: used_bytes_def mk_dirent_def)
  qed
qed

lemma list_root_spec:
  assumes l: "list_root cap p s = (ds, q, u)" and p: "p \<le> root_end s"
  shows "p \<le> q \<and> q \<le> root_end s \<and> ds = concat (map (root_entry s) [p..<q]) \<and> u = used_bytes ds \<and> u \<le> cap \<and>
    (q < root_end s \<longrightarrow> (\<exists>e. root_entry s q = [e] \<and> cap < u + d_reclen e))"
proof -
  let ?N = "length (names s)"
  have names: "concat (map (root_entry s) [a..<b]) =
      map (\<lambda>j. mk_dirent (ucast (fst (names s ! j) + 1)) j False (snd (names s ! j))) [a..<b]" if "b \<le> ?N" for a b
    using that by (induction b) (auto simp: root_entry_def)
  have ms: "concat (map (root_entry s) [?N + a..<?N + b]) = concat (map (\<lambda>j. if m_used (mounts s ! j)
      then [mk_dirent (0x1000 + of_nat j) (?N + j) True (path_basename (m_target (mounts s ! j)))] else []) [a..<b])"
    if "b \<le> length (mounts s)" for a b
    using that by (induction b) (auto simp: root_entry_def)
  obtain ds1 q1 u1 where n: "list_names cap (drop p (names s)) p 0 = (ds1, q1, u1)" by (metis prod_cases3)
  show ?thesis
  proof (cases "p \<le> ?N")
    case True
    note ns = list_names_spec [OF n True]
    show ?thesis
    proof (cases "q1 < ?N")
      case c: True
      then show ?thesis
        using l n ns p names [of q1 p] by (auto simp: list_root_def root_end_def root_entry_def mk_dirent_def)
    next
      case False
      then have q1: "q1 = ?N" using ns by linarith
      obtain ds2 where m: "list_mounts cap (drop 0 (mounts s)) 0 (?N + 0) u1 = (ds2, q, u)" "ds = ds1 @ ds2"
        using l n q1 by (auto simp: list_root_def Let_def split: prod.splits)
      note mm = list_mounts_spec [OF m(1)]
      have sp: "[p..<q] = [p..<?N] @ [?N..<q]" using True mm upt_add_eq_append [of p ?N "q - ?N"] by simp
      have qq: "?N + (q - ?N) = q" using mm by simp
      have ds: "ds = concat (map (root_entry s) [p..<q])"
        using ns mm m(2) q1 names [of ?N p] ms [of "q - ?N" 0] qq sp by simp
      have "u1 = 0 + used_bytes ds1" "u1 \<le> cap" using ns by blast+
      moreover have "u = u1 + used_bytes ds2" "u1 \<le> cap \<longrightarrow> u \<le> cap" using mm by blast+
      ultimately have u: "u = used_bytes ds" "u \<le> cap" by (simp_all add: m(2) used_bytes_def)
      have "p \<le> q" "q \<le> root_end s" using True mm by (simp_all add: root_end_def)
      moreover have "root_entry s q = [mk_dirent (0x1000 + of_nat (q - ?N)) q True (path_basename (m_target (mounts s ! (q - ?N))))]"
        and "cap < u + dirent_reclen (path_basename (m_target (mounts s ! (q - ?N))))" if "q < root_end s"
        using that mm by (auto simp: root_entry_def root_end_def Let_def)
      ultimately show ?thesis using ds u by (auto simp: mk_dirent_def)
    qed
  next
    case False
    then have n': "ds1 = []" "q1 = p" "u1 = 0" using n by simp_all
    obtain ds2 where m: "list_mounts cap (drop (p - ?N) (mounts s)) (p - ?N) (?N + (p - ?N)) 0 = (ds, q, u)"
      using l n n' False by (auto simp: list_root_def Let_def split: prod.splits)
    have pk: "p - ?N \<le> length (mounts s)" using p by (simp add: root_end_def)
    note mm = list_mounts_spec [OF m pk]
    have qq: "?N + (q - ?N) = q" "?N + (p - ?N) = p" using mm False by simp_all
    show ?thesis
      using mm ms [of "q - ?N" "p - ?N"] qq False p
      by (auto simp: root_end_def root_entry_def mk_dirent_def Let_def)
  qed
qed

end
