(* ===== verification/FilesClaims.thy ===== *)
theory FilesClaims
  imports FilesProps
begin

text \<open>The properties of the file calls, with a booted machine as the concrete input of their witnesses.\<close>

section \<open>A concrete machine\<close>

definition demo_hal :: "nat hal" where
  "demo_hal = \<lparr>get_name = (\<lambda>_ d. (None, d)), resolve_name = (\<lambda>_ d. (-1, d)), config_slot = (\<lambda>_ d. (-1, d)),
     file_flags = (\<lambda>_ _. 0), dt_feature = True, dt_entry = (\<lambda>_. Some 9)\<rparr>"

definition demo_lib :: "'s lib9660" where
  "demo_lib = \<lparr>l_openfs = (\<lambda>_ s. ((L9660_OK, no_fs), s)), l_open_root = (\<lambda>_ _ s. ((L9660_OK, no_file), s)),
     l_openat = (\<lambda>_ _ _ _ s. ((L9660_ENOENT, no_file), s)), l_opendirat = (\<lambda>_ _ _ _ s. ((L9660_ENOENT, no_file), s)),
     l_readdir = (\<lambda>_ _ d s. ((L9660_OK, Some \<lparr>d_size_le = [0, 0, 0, 0], d_flags = 0, d_rawname = [65, 66]\<rparr>, d), s)),
     l_dirent_name = (\<lambda>_ _ _. ''AB'')\<rparr>"

lemma demo_lib_ok: "lib_ok demo_lib"
  by (simp add: lib_ok_def lib_keeps_def demo_lib_def)

definition demo_off :: "nat files" where
  "demo_off = \<lparr>fd_table = [], size_cache = replicate 20 0, size_known_at = replicate 20 False,
     hw = demo_save, drv = demo_driver\<lparr>dev_size := \<lambda>_. 0\<rparr>, io = demo_cache, mounts = [], mount_count = 0,
     cwd = [], names = [], tty = []\<rparr>"

definition demo_boot :: "nat files" where
  "demo_boot = (syscall_init_files pocket demo_off)\<lparr>hw := of_save_init (hw demo_off)\<rparr>"

lemma demo_boot_reachable: "files_reachable pocket demo_hal demo_lib 0 demo_boot"
  unfolding demo_boot_def
  by (rule files_reachable.boot) (simp_all add: demo_off_def pocket_cache_slots nv_sizes_ok_def)

lemma demo_boot_inv: "files_inv 0 pocket demo_boot"
  using files_reachable_inv [OF demo_boot_reachable pocket_uniform demo_lib_ok] by simp

lemma demo_boot_free: "\<not> in_use (fd_table demo_boot ! 3)"
  by (simp add: demo_boot_def syscall_init_files_def empty_fd_def nth_append MAX_FDS_def)

lemma demo_alloc: obtains fd s1 where "alloc_fd demo_boot = (Some fd, s1)"
  by (rule alloc_some [OF demo_boot_free]) (simp_all add: FD_FIRST_FREE_def MAX_FDS_def)

lemma demo_number: "slot_number ''0'' = Some 0" "slot_number ''9'' = Some 9"
  by (code_simp)+

section \<open>Properties\<close>

text \<open>
  C15: a save file is stored. On the Pocket, in every reachable state, writing an app's bytes to a
  truncated \<^verbatim>\<open>save:N\<close> and closing it, then opening it again read-only, reads exactly those bytes and
  then end of file: the size published at close, the size cache, the slot windows and the word-wise
  copies all agree. It holds with either way of committing the size, through the bitstream's slot
  table or through the host's datatable: all it asks is that the truncating open succeeded. The state
  may be any that fewer than 2^31 unclosed size queries led to.
\<close>

theorem save_file_roundtrip:
  assumes "files_reachable pocket H L j s" and "lib_ok L" and "j < 2 ^ 31"
    and "slot_number p = Some n" and "0 \<le> n" and "n < 10"
    and "fl AND O_DIRECTORY = 0" and "fl AND O_TRUNC \<noteq> 0" and "fl AND O_APPEND = 0" and "fl AND O_ACCMODE \<noteq> 0"
    and "bs \<noteq> []" and "length bs \<le> 0x40000" and "length bs \<le> unat cnt" and "0 < sint cnt"
    and "sys_openat pocket H L (Some (''save:'' @ p)) fl s = (Val fd, s1)"
    and "sys_write pocket fd bs s1 = (k, s2)" and "sys_close pocket H fd s2 = (c, s3)"
    and "sys_openat pocket H L (Some (''save:'' @ p)) 0 s3 = (q, s4)"
    and "sys_read pocket (rc_of q) cnt s4 = (r, s5)" and "sys_read pocket (rc_of q) cnt s5 = (e, s6)"
  shows "k = Val (int (length bs)) \<and> c = Val 0 \<and> 0 \<le> rc_of q \<and> r = Bytes bs \<and> e = Val 0"
proof -
  obtain lk where "files_inv lk pocket s"
    using files_reachable_inv [OF assms(1) pocket_uniform assms(2,3)] by blast
  from save_file_cycle [OF this assms(2) assms(4-)] show ?thesis .
qed

definition demo_cycle :: "u8 list \<Rightarrow> io_result" where
  "demo_cycle bs =
     (case sys_openat pocket demo_hal demo_lib (Some ''save:0'') 0x202 demo_boot of (a, s1) \<Rightarrow>
      case sys_write pocket (rc_of a) bs s1 of (k, s2) \<Rightarrow>
      case sys_close pocket demo_hal (rc_of a) s2 of (c, s3) \<Rightarrow>
      case sys_openat pocket demo_hal demo_lib (Some ''save:0'') 0 s3 of (q, s4) \<Rightarrow>
        fst (sys_read pocket (rc_of q) 100 s4))"

theorem save_file_roundtrip_witness: "demo_cycle [1, 2, 3] = Bytes [1, 2, 3]"
proof -
  have fl: "(0x202 :: u32) AND O_DIRECTORY = 0" "(0x202 :: u32) AND O_TRUNC \<noteq> 0" "(0x202 :: u32) AND O_APPEND = 0"
    "(0x202 :: u32) AND O_ACCMODE \<noteq> 0"
    by (simp_all add: O_DIRECTORY_def O_TRUNC_def O_APPEND_def O_ACCMODE_def)
  have dt: "commits demo_hal i" for i by (simp add: commits_def demo_hal_def)
  obtain fd t where a: "alloc_fd demo_boot = (Some fd, t)" by (rule demo_alloc)
  obtain a1 s1 where o: "sys_openat pocket demo_hal demo_lib (Some (''save:'' @ ''0'')) 0x202 demo_boot = (a1, s1)"
    by (metis surj_pair)
  have a1: "a1 = Val (int fd)" using open_save_trunc(1) [OF demo_boot_inv demo_number(1) _ _ fl(1-3) dt a o] by simp
  obtain k s2 where w: "sys_write pocket (int fd) [1, 2, 3] s1 = (k, s2)" by (metis surj_pair)
  obtain c s3 where c: "sys_close pocket demo_hal (int fd) s2 = (c, s3)" by (metis surj_pair)
  obtain q s4 where q: "sys_openat pocket demo_hal demo_lib (Some (''save:'' @ ''0'')) 0 s3 = (q, s4)"
    by (metis surj_pair)
  obtain r s5 where r: "sys_read pocket (rc_of q) 100 s4 = (r, s5)" by (metis surj_pair)
  obtain e s6 where e: "sys_read pocket (rc_of q) 100 s5 = (e, s6)" by (metis surj_pair)
  have "r = Bytes [1, 2, 3]"
    using save_file_roundtrip [OF demo_boot_reachable demo_lib_ok _ demo_number(1) _ _ fl _ _ _ _ o [unfolded a1] w c q r e]
    by simp
  then show ?thesis using o a1 w c q r by (simp add: demo_cycle_def rc_of_def)
qed



text \<open>Any open of a save path without truncation succeeds when a descriptor is free.\<close>

lemma open_save_plain:
  assumes i: "files_inv lk pocket s" and n: "slot_number p = Some n" "0 \<le> n" "n < 10"
    and fl: "fl AND O_DIRECTORY = 0" "fl AND O_TRUNC = 0"
    and a: "alloc_fd s = (Some fd, s1)" and o: "sys_openat pocket H L (Some (''save:'' @ p)) fl s = (r, s')"
  shows "r = Val (int fd) \<and> holds_save (fd_table s' ! fd)"
proof -
  let ?i = "SAVE_SLOT_ID_BASE + word_of_int n :: u32" and ?s = "set_fd fd (fresh_fd fl) s1"
  note sl = save_slot_id [OF n(2,3)]
  have pd: "pending_fd lk pocket fd ?s" by (rule alloc_pending [OF i a])
  then have si: "files_inv lk pocket ?s" by (simp add: pending_fd_def)
  obtain m t where m: "nv_open_size pocket ?i (1 + n) fl ?s = (m, t)" by (metis surj_pair)
  note ns = nv_open_size_inv [OF pocket_uniform sl(3) si m]
  have "fd < length (fd_table t)" "in_use (fd_table t ! fd)"
    using pd ns(3) files_inv_len [OF ns(1)] by (simp_all add: pending_fd_def)
  then show ?thesis
    using o m sl fl n unfolding open_save_route [OF i n(1) fl(1) a] open_nv_fd_def Let_def
    by (auto simp: open_nv_finish_def set_fd_def holds_save_def)
qed

text \<open>
  The one leak. A size query by path without a mounted volume, on a name that is a save file, opens
  the save and marks the descriptor free without giving back its hold on CRAM0: afterwards the hold
  count is one more than the number of open save files, and no close will bring it down.
\<close>

lemma stat_leaks_hold:
  assumes "files_inv lk pocket s" and "lib_ok L"
    and "sys_openat pocket H L p 0 s = (Val fd, s1)" and "holds_save (fd_table s1 ! nat fd)"
    and "stat_unmounted pocket H L p s = (r, s')"
  shows "\<exists>n. r = Inr n \<and> cpu_hold_count (hw s') = of_nat (held s' + lk + 1)"
proof -
  note i = assms(1)
  have i1: "files_inv lk pocket s1" using sys_openat_inv [OF pocket_uniform assms(2) i, of H p 0] assms(3) by simp
  obtain k where k: "k < MAX_FDS" "fd = int k" using openat_result [OF assms(3)] by auto
  obtain n s2 where n: "stat_fd k s1 = (n, s2)" by (metis surj_pair)
  have i2: "files_inv lk pocket s2" using stat_fd_inv [OF i1 k(1)] n by simp
  have sv: "holds_save (fd_table s2 ! k)"
    using n assms(4) k files_inv_len [OF i1]
    by (auto simp: stat_fd_def Let_def resolve_size_def set_fd_nth holds_save_def split: if_splits)
  have s': "s' = free_fd k s2" "r = Inr n" using assms(3,5) n k by (simp_all add: stat_unmounted_def rc_of_def)
  have "held s' + 1 = held s2"
    using held_set_fd [of k s2 "\<lambda>f. f\<lparr>in_use := False\<rparr>"] k sv files_inv_len [OF i2]
    by (simp add: s' free_fd_def holds_save_def)
  then have "held s' + lk + 1 = held s2 + lk" by linarith
  moreover have "hw s' = hw s2" by (simp add: s' free_fd_def)
  ultimately show ?thesis using files_inv_hw [OF i2] s'(2) by (auto simp only: hw_ok_def)
qed





definition demo_iso :: "nat files" where
  "demo_iso = demo_off\<lparr>fd_table := (replicate 32 empty_fd)[3 := empty_fd\<lparr>in_use := True, kind := FD_ISO_FILE,
       iso := \<lparr>first_sector = 0, iso_position = 1, iso_length = 5\<rparr>\<rparr>],
     mounts := [\<lparr>m_used = True, m_target = ''/cd'', m_slot = 7,
       m_iso = \<lparr>iso_fs = no_fs, iso_slot = 7, iso_mounted = True\<rparr>\<rparr>], drv := demo_driver\<rparr>"


text \<open>
  C19: listing the root directory page by page misses and repeats nothing. A page that starts at a
  position holds exactly the entries from there to the position it ends at, in order, registered names
  first and then the mounted volumes; its records take the bytes returned and fit the buffer, and it
  ends before the end of the directory only when the next entry does not fit.
\<close>

theorem root_listing_pages:
  assumes "fd_open (int fd) s" and "is_dir (fd_table s ! fd)" and "kind (fd_table s ! fd) \<noteq> FD_ISO_DIR"
    and "unat (dir_pos (fd_table s ! fd)) = p" and "p \<le> root_end s" and "root_end s < 2 ^ 32"
    and "length (fd_table s) = MAX_FDS" and "sys_getdents64 T L (int fd) cap s = Some (r, ds, s')"
  shows "\<exists>q. p \<le> q \<and> q \<le> root_end s \<and> unat (dir_pos (fd_table s' ! fd)) = q \<and>
    ds = concat (map (root_entry s) [p..<q]) \<and> r = Inr (used_bytes ds) \<and> used_bytes ds \<le> cap \<and>
    (q < root_end s \<longrightarrow> (\<exists>e. root_entry s q = [e] \<and> cap < used_bytes ds + d_reclen e))"
proof -
  obtain es q u where l: "list_root cap p s = (es, q, u)" by (metis prod_cases3)
  note sp = list_root_spec [OF l assms(5)]
  have fd: "fd < length (fd_table s)" using assms(1,7) by (simp add: fd_open_def)
  have "ds = es \<and> r = Inr u \<and> s' = set_fd fd (\<lambda>f. f\<lparr>dir_pos := of_nat q\<rparr>) s"
    using assms(1-4,8) l by (simp add: sys_getdents64_def Let_def)
  moreover have "unat (of_nat q :: u32) = q" using sp assms(6) by (simp add: unat_of_nat take_bit_eq_mod)
  ultimately show ?thesis using sp fd by (intro exI [of _ q]) (auto simp: set_fd_nth)
qed

definition demo_dir :: "nat files" where
  "demo_dir = demo_off\<lparr>fd_table := (replicate 32 empty_fd)[3 := empty_fd\<lparr>in_use := True, kind := FD_ROOT_DIR,
       is_dir := True\<rparr>], names := [(5, ''a.wad''), (6, ''b.wad'')]\<rparr>"

theorem root_listing_pages_witness:
  "\<exists>q. sys_getdents64 pocket demo_lib 3 40 demo_dir = Some (Inr 32, [mk_dirent 6 0 False ''a.wad''], q)"
proof -
  have f: "fd_open (int 3) demo_dir" "is_dir (fd_table demo_dir ! 3)" "kind (fd_table demo_dir ! 3) \<noteq> FD_ISO_DIR"
    "unat (dir_pos (fd_table demo_dir ! 3)) = 0" "0 \<le> root_end demo_dir" "root_end demo_dir < 2 ^ 32"
    "length (fd_table demo_dir) = MAX_FDS"
    by (simp_all add: demo_dir_def demo_off_def fd_open_def MAX_FDS_def empty_fd_def root_end_def)
  obtain r ds s' where r: "sys_getdents64 pocket demo_lib (int 3) 40 demo_dir = Some (r, ds, s')"
    using f by (cases "list_root 40 0 demo_dir") (simp add: sys_getdents64_def Let_def)
  obtain q where q: "q \<le> root_end demo_dir" "ds = concat (map (root_entry demo_dir) [0..<q])" "r = Inr (used_bytes ds)"
    "used_bytes ds \<le> 40" "q < root_end demo_dir \<longrightarrow> (\<exists>e. root_entry demo_dir q = [e] \<and> 40 < used_bytes ds + d_reclen e)"
    using root_listing_pages [OF f r] by blast
  have e: "root_end demo_dir = 2" by (simp add: root_end_def demo_dir_def demo_off_def)
  have d: "root_entry demo_dir 0 = [mk_dirent 6 0 False ''a.wad'']" "root_entry demo_dir (Suc 0) = [mk_dirent 7 1 False ''b.wad'']"
    by (simp_all add: root_entry_def demo_dir_def)
  have "q = 0 \<or> q = 1 \<or> q = 2" using q(1) e by linarith
  then have "q = 1" using q d e
    by (elim disjE) (simp_all add: used_bytes_def mk_dirent_def dirent_reclen_def upt_rec numeral_2_eq_2)
  then have "ds = [mk_dirent 6 0 False ''a.wad'']" "r = Inr 32"
    using q(2,3) d by (simp_all add: used_bytes_def mk_dirent_def dirent_reclen_def)
  then show ?thesis using r by auto
qed

text \<open>
  Where listing a mounted directory loses an entry. The loop has already taken the next entry from
  the volume when it finds that it does not fit, and the descriptor keeps the advanced handle: a call
  whose buffer is too small for the next entry returns 0, which is end of directory, and a later call
  continues behind that entry.
\<close>

lemma iso_listing_drops_entry:
  assumes "fd_open (int fd) s" and "is_dir (fd_table s ! fd)" and "kind (fd_table s ! fd) = FD_ISO_DIR"
    and "mount_idx (fd_table s ! fd) = int k" and "length (fd_table s) = MAX_FDS"
    and "iso9660_read_dir L (iso_read_sector (cached_read T) (iso_slot (m_iso (mounts s ! k)))) (iso_fs (m_iso (mounts s ! k)))
      (iso (fd_table s ! fd)) (drv s, io s) = Some (Inr (Some ent), g, d', c')"
    and "cap < dirent_reclen (ent_name ent)" and "0 < cap"
    and "sys_getdents64 T L (int fd) cap s = Some (r, ds, s')"
  shows "r = Inr 0 \<and> ds = [] \<and> iso (fd_table s' ! fd) = g"
proof -
  have fd: "fd < length (fd_table s)" using assms(1,5) by (simp add: fd_open_def)
  show ?thesis
    using assms(1-4,6-9) fd
    by (auto simp: sys_getdents64_def Let_def list_iso.simps [where used = 0] set_fd_nth)
qed

definition demo_iso_dir :: "nat files" where
  "demo_iso_dir = demo_iso\<lparr>fd_table := (replicate 32 empty_fd)[3 := empty_fd\<lparr>in_use := True, kind := FD_ISO_DIR,
     is_dir := True\<rparr>]\<rparr>"

text \<open>
  A request that names a subdirectory can open a same-named file of another directory. When the
  target cannot resolve the full path, the lookup falls back to the basename: with \<^verbatim>\<open>PAK0.PAK\<close>
  registered for slot 1 and no sub-path support, \<^verbatim>\<open>HIPNOTIC/PAK0.PAK\<close> is slot 1.
\<close>

lemma subdir_lookup_degrades:
  assumes "names s = [(i, n)]" and "resolve_name H path (dev (drv s)) = (-1, d)" and "get_name H i d = (None, d')"
    and "stricmp path n \<noteq> 0" and "path \<noteq> []" and "hd path \<noteq> CHR ''/''" and "list_ex is_sep path"
    and "stricmp (path_basename path) n = 0"
  shows "fst (file_slot_lookup H path s) = sint i"
proof -
  have full: "dropWhile (\<lambda>c. c = CHR ''/'') path = path" using assms(5,6) by (cases path) simp_all
  show ?thesis
    using assms
    by (simp add: file_slot_lookup_def Let_def full registry_full_def registry_base_def hal_resolve_def hal_get_name_def)
qed

end
