(* ===== verification/Lzw.thy ===== *)
theory Lzw
  imports Prelude "HOL-Library.Monad_Syntax"
begin

text \<open>
  The LZW utility of \<open>os/hal/lzw.c\<close>: the three file-scope work buffers as a record that
  both entry points share, the caller's input and output areas as functions from the offset to the
  byte, and the two entry points as the code has them. \<open>short\<close> cells hold integers and are
  stored through the cast. A result \<open>None\<close> is a call that does not return or that writes a
  work buffer beyond its end.
\<close>

unbundle bit_operations_syntax

section \<open>Work buffers and byte access\<close>

definition LZWSIZE :: nat where "LZWSIZE = 16384"
definition LZWBUFSZ :: nat where "LZWBUFSZ = LZWSIZE + LZWSIZE div 16"

type_synonym area = "nat \<Rightarrow> u8"

record lzw =
  lzwbuf1 :: "nat \<Rightarrow> u8"
  lzwbuf2 :: "nat \<Rightarrow> int"
  lzwbuf3 :: "nat \<Rightarrow> int"

definition short :: "int \<Rightarrow> int" where "short = signed_take_bit 15"

definition put1 :: "nat \<Rightarrow> u8 \<Rightarrow> lzw \<Rightarrow> lzw" where
  "put1 i v b = b\<lparr>lzwbuf1 := (lzwbuf1 b)(i := v)\<rparr>"
definition put2 :: "nat \<Rightarrow> int \<Rightarrow> lzw \<Rightarrow> lzw" where
  "put2 i v b = b\<lparr>lzwbuf2 := (lzwbuf2 b)(i := short v)\<rparr>"
definition put3 :: "nat \<Rightarrow> int \<Rightarrow> lzw \<Rightarrow> lzw" where
  "put3 i v b = b\<lparr>lzwbuf3 := (lzwbuf3 b)(i := short v)\<rparr>"

definition read_le32 :: "area \<Rightarrow> nat \<Rightarrow> u32" where
  "read_le32 p k = le32 (p k) (p (k + 1)) (p (k + 2)) (p (k + 3))"

definition write_le32 :: "nat \<Rightarrow> u32 \<Rightarrow> area \<Rightarrow> area" where
  "write_le32 k v p = p(k := byte_at 0 v, k + 1 := byte_at 1 v, k + 2 := byte_at 2 v, k + 3 := byte_at 3 v)"

definition or_le32 :: "nat \<Rightarrow> u32 \<Rightarrow> area \<Rightarrow> area" where
  "or_le32 k v p = write_le32 k (read_le32 p k OR v) p"

definition read_le16 :: "area \<Rightarrow> nat \<Rightarrow> int" where
  "read_le16 p k = sint (ucast (le16 (p k) (p (k + 1))) :: u16)"

definition write_le16 :: "nat \<Rightarrow> int \<Rightarrow> area \<Rightarrow> area" where
  "write_le16 k v p = p(k := word_of_int v, k + 1 := word_of_int (drop_bit 8 v))"

section \<open>Compression\<close>

definition lzw_start :: "lzw \<Rightarrow> lzw" where
  "lzw_start b = b\<lparr>lzwbuf1 := (\<lambda>i. if i < 256 then of_nat i else lzwbuf1 b i),
                  lzwbuf2 := (\<lambda>i. if i < 256 then -1 else lzwbuf2 b i),
                  lzwbuf3 := (\<lambda>i. if i < 256 then int ((i + 1) mod 256) else lzwbuf3 b i)\<rparr>"

text \<open>The walk along the siblings of a node to the one that holds the next byte; a new node is
  linked at the end of the list.\<close>

partial_function (option) lzw_sibling :: "u8 \<Rightarrow> nat \<Rightarrow> nat \<Rightarrow> lzw \<Rightarrow> (nat \<times> lzw) option" where
  "lzw_sibling c addrcnt newaddr b =
     (if lzwbuf1 b newaddr \<noteq> c then
        let zx = lzwbuf3 b newaddr in
        if zx < 0 then Some (newaddr, put3 newaddr (int addrcnt) b)
        else lzw_sibling c addrcnt (nat zx) b
      else Some (newaddr, b))"

text \<open>The inner loop: follow the input down the dictionary and link the node \<open>addrcnt\<close> where
  the match ends.\<close>

partial_function (option) lzw_match ::
  "area \<Rightarrow> nat \<Rightarrow> nat \<Rightarrow> nat \<Rightarrow> nat \<Rightarrow> lzw \<Rightarrow> (nat \<times> nat \<times> lzw) option" where
  "lzw_match inp in_len addrcnt addr bytecnt1 b =
     (if bytecnt1 + 1 = in_len then Some (addr, bytecnt1 + 1, b)
      else if lzwbuf2 b addr < 0 then Some (addr, bytecnt1 + 1, put2 addr (int addrcnt) b)
      else do {
        (newaddr, b1) \<leftarrow> lzw_sibling (inp (bytecnt1 + 1)) addrcnt (nat (lzwbuf2 b addr)) b;
        if lzwbuf3 b1 newaddr = int addrcnt then Some (addr, bytecnt1 + 1, b1)
        else lzw_match inp in_len addrcnt newaddr (bytecnt1 + 1) b1
      })"

record packer =
  bytecnt :: nat
  addrcnt :: nat
  bitcnt :: nat
  numbits :: nat
  oneupnumbits :: nat
  outp :: area
  bufs :: lzw

definition short_code :: "nat \<Rightarrow> nat \<Rightarrow> nat \<Rightarrow> bool" where
  "short_code code cnt oneup \<longleftrightarrow>
     (code AND (oneup div 2 - 1)) > ((cnt - 1) AND (oneup div 2 - 1))"

definition put_code :: "nat \<Rightarrow> packer \<Rightarrow> packer" where
  "put_code addr s = s\<lparr>
     outp := or_le32 (bitcnt s div 8) (push_bit (bitcnt s mod 8) (of_nat addr)) (outp s),
     bitcnt := (let n = bitcnt s + numbits s in
                if short_code addr (addrcnt s) (oneupnumbits s) then n - 1 else n)\<rparr>"

definition next_code :: "packer \<Rightarrow> packer" where
  "next_code s = (let n = addrcnt s + 1 in
     if oneupnumbits s < n
     then s\<lparr>addrcnt := n, numbits := numbits s + 1, oneupnumbits := oneupnumbits s * 2\<rparr>
     else s\<lparr>addrcnt := n\<rparr>)"

definition new_node :: "u8 \<Rightarrow> nat \<Rightarrow> lzw \<Rightarrow> lzw" where
  "new_node c n b = put3 n (-1) (put2 n (-1) (put1 n c b))"

partial_function (option) lzw_codes :: "area \<Rightarrow> nat \<Rightarrow> packer \<Rightarrow> (nat \<times> packer) option" where
  "lzw_codes inp in_len s =
     (if LZWBUFSZ \<le> addrcnt s then None
      else do {
        (addr, n, b) \<leftarrow> lzw_match inp in_len (addrcnt s) (unat (inp (bytecnt s))) (bytecnt s) (bufs s);
        let s1 = next_code (put_code addr
                   (s\<lparr>bytecnt := n, bufs := new_node (inp n) (addrcnt s) b\<rparr>));
        if n < in_len \<and> bitcnt s1 < in_len * 8 then lzw_codes inp in_len s1
        else Some (addr, s1)
      })"

definition lzw_clear :: "nat \<Rightarrow> area \<Rightarrow> area" where
  "lzw_clear n out = (\<lambda>i. if i < (n + 15 + 3) div 4 * 4 then 0 else out i)"

definition lzw_finish :: "area \<Rightarrow> nat \<Rightarrow> packer \<Rightarrow> int \<times> area \<times> lzw" where
  "lzw_finish inp in_len s =
     (let o1 = write_le16 0 (short (int in_len)) (outp s); len = (bitcnt s + 7) div 8 in
      if len < in_len then (int len, write_le16 2 (short (int (addrcnt s))) o1, bufs s)
      else (let o2 = write_le16 2 0 o1 in
        (int in_len + 4, (\<lambda>i. if 4 \<le> i \<and> i < in_len + 4 then inp (i - 4) else o2 i), bufs s)))"

definition of_lzw_compress ::
  "area option \<Rightarrow> int \<Rightarrow> area option \<Rightarrow> lzw \<Rightarrow> (int \<times> area option \<times> lzw) option" where
  "of_lzw_compress src in_len dst b =
     (case (src, dst) of
        (Some inp, Some out) \<Rightarrow>
          if in_len \<le> 0 then Some (-1, dst, b)
          else let n = nat in_len in do {
            (addr, s) \<leftarrow> lzw_codes inp n
               \<lparr>bytecnt = 0, addrcnt = 256, bitcnt = 32, numbits = 8, oneupnumbits = 256,
                outp = lzw_clear n out, bufs = lzw_start b\<rparr>;
            let (r, o1, b1) = lzw_finish inp n (put_code addr s);
            Some (r, Some o1, b1)
          }
      | _ \<Rightarrow> Some (-1, dst, b))"

section \<open>Decompression\<close>

record unpacker =
  currstr :: nat
  rbitcnt :: nat
  rnumbits :: nat
  roneup :: nat
  outbytecnt :: nat
  rout :: area
  rbufs :: lzw

definition get_code :: "area \<Rightarrow> unpacker \<Rightarrow> nat \<times> nat" where
  "get_code inp s =
     (let dat = unat (signed_drop_bit (rbitcnt s mod 8) (read_le32 inp (rbitcnt s div 8))) AND (roneup s - 1);
          n = rbitcnt s + rnumbits s in
      if short_code dat (currstr s) (roneup s) then (dat AND (roneup s div 2 - 1), n - 1) else (dat, n))"

text \<open>The chain of prefixes of a code, pushed on \<open>lzwbuf1\<close> from its last byte on.\<close>

partial_function (option) lzw_chain :: "int \<Rightarrow> nat \<Rightarrow> lzw \<Rightarrow> (int \<times> nat \<times> lzw) option" where
  "lzw_chain dat leng b =
     (if 256 \<le> dat
      then if LZWBUFSZ \<le> leng \<or> LZWBUFSZ \<le> nat dat then None
           else lzw_chain (lzwbuf3 b (nat dat)) (leng + 1) (put1 leng (word_of_int (lzwbuf2 b (nat dat))) b)
      else Some (dat, leng, b))"

fun lzw_unwind :: "nat \<Rightarrow> nat \<Rightarrow> (nat \<Rightarrow> u8) \<Rightarrow> area \<Rightarrow> area" where
  "lzw_unwind at 0 stack out = out"
| "lzw_unwind at (Suc i) stack out = lzw_unwind (at + 1) i stack (out(at := stack i))"

definition next_string :: "unpacker \<Rightarrow> unpacker" where
  "next_string s = (let n = currstr s + 1 in
     if roneup s < n
     then s\<lparr>currstr := n, rnumbits := rnumbits s + 1, roneup := roneup s * 2\<rparr>
     else s\<lparr>currstr := n\<rparr>)"

partial_function (option) lzw_strings :: "area \<Rightarrow> int \<Rightarrow> unpacker \<Rightarrow> unpacker option" where
  "lzw_strings inp strtot s =
     (if LZWBUFSZ \<le> currstr s then None
      else do {
        let (code, n) = get_code inp s;
        (dat, leng, b) \<leftarrow> lzw_chain (int code) 0 (put3 (currstr s) (int code) (rbufs s));
        let o1 = lzw_unwind (outbytecnt s + 1) leng (lzwbuf1 b) ((rout s)(outbytecnt s := word_of_int dat));
        let s1 = next_string (s\<lparr>rbitcnt := n, rout := o1, outbytecnt := outbytecnt s + 1 + leng,
                   rbufs := put2 (currstr s) dat (put2 (currstr s - 1) dat b)\<rparr>);
        if int (currstr s1) < strtot then lzw_strings inp strtot s1 else Some s1
      })"

definition of_lzw_uncompress ::
  "area option \<Rightarrow> int \<Rightarrow> area option \<Rightarrow> lzw \<Rightarrow> (int \<times> area option \<times> lzw) option" where
  "of_lzw_uncompress src comp_len dst b =
     (case (src, dst) of
        (Some inp, Some out) \<Rightarrow>
          if comp_len < 4 then Some (-1, dst, b)
          else let strtot = read_le16 inp 2; uncompleng = read_le16 inp 0 in
            if strtot = 0 then
              if uncompleng < 0 then None
              else Some (uncompleng, Some (\<lambda>i. if i < nat uncompleng then inp (i + 4) else out i), b)
            else do {
              s \<leftarrow> lzw_strings inp strtot
                 \<lparr>currstr = 256, rbitcnt = 32, rnumbits = 8, roneup = 256, outbytecnt = 0, rout = out,
                  rbufs = b\<lparr>lzwbuf2 := (\<lambda>i. if i < 256 then int i else lzwbuf2 b i),
                           lzwbuf3 := (\<lambda>i. if i < 256 then int i else lzwbuf3 b i)\<rparr>\<rparr>;
              Some (uncompleng, Some (rout s), rbufs s)
            }
      | _ \<Rightarrow> Some (-1, dst, b))"

end
