(* ===== verification/LzwBits.thy ===== *)
theory LzwBits
  imports Lzw
begin

text \<open>
  The bit packing of the LZW code stream: areas read as sequences of bits, what storing a code of a
  given width does to them, the width of the code of each index, and the decoder's reading of one
  code. The stream of a list of codes is stated over bits, so that it does not mention the
  32-bit accesses of either side.
\<close>

unbundle bit_operations_syntax

section \<open>Areas as bits\<close>

definition area_bit :: "area \<Rightarrow> nat \<Rightarrow> bool" where
  "area_bit p i = bit (p (i div 8)) (i mod 8)"

lemma area_bit_at: "r < 8 \<Longrightarrow> area_bit p (8 * k + r) = bit (p k) r"
  by (simp add: area_bit_def)

lemma byte_split:
  fixes n :: nat
  assumes "n < 32"
  obtains q r where "n = 8 * q + r" "r < 8" "q = 0 \<or> q = 1 \<or> q = 2 \<or> q = 3"
proof (rule that [of "n div 8" "n mod 8"])
  show "n div 8 = 0 \<or> n div 8 = 1 \<or> n div 8 = 2 \<or> n div 8 = 3" using assms by linarith
qed simp_all

lemma bit_read_le32: "bit (read_le32 p k) n \<longleftrightarrow> n < 32 \<and> area_bit p (8 * k + n)"
proof (cases "n < 32")
  case True
  then obtain q r where n: "n = 8 * q + r" "r < 8" "q = 0 \<or> q = 1 \<or> q = 2 \<or> q = 3"
    by (rule byte_split)
  have "area_bit p (8 * k + n) = bit (p (k + q)) r"
    using area_bit_at [OF n(2), of p "k + q"] by (simp add: n(1) algebra_simps)
  then show ?thesis using n(2,3) True by (auto simp: read_le32_def bit_le32 n(1))
next
  case False
  then show ?thesis by (simp add: bit_le32 read_le32_def)
qed

lemma area_bit_or_le32:
  "area_bit (or_le32 k v p) i \<longleftrightarrow> area_bit p i \<or> 8 * k \<le> i \<and> i < 8 * k + 32 \<and> bit v (i - 8 * k)"
proof (cases "8 * k \<le> i \<and> i < 8 * k + 32")
  case True
  let ?n = "i - 8 * k"
  have n: "?n < 32" and i: "i = 8 * k + ?n" using True by auto
  have d: "i div 8 = k + ?n div 8" and m: "i mod 8 = ?n mod 8" by (subst i, simp)+
  have q: "?n div 8 \<in> {0, 1, 2, 3}" using n by auto
  have 1: "or_le32 k v p (i div 8) = byte_at (?n div 8) (read_le32 p k OR v)"
    using q unfolding d by (auto simp: or_le32_def write_le32_def)
  show ?thesis unfolding area_bit_def 1 m bit_byte_at using True n i
    by (simp add: bit_or_iff bit_read_le32 area_bit_def m d)
next
  case False
  then have "i div 8 < k \<or> k + 4 \<le> i div 8" by auto
  then show ?thesis using False by (auto simp: area_bit_def or_le32_def write_le32_def)
qed

lemma bit_below: "bit a n \<Longrightarrow> a < 2 ^ m \<Longrightarrow> n < m" for a :: nat
  by (metis bit_take_bit_iff take_bit_nat_eq_self)

lemma area_bit_put:
  assumes "a < 2 ^ 24"
  shows "area_bit (or_le32 (pos div 8) (push_bit (pos mod 8) (of_nat a)) p) i \<longleftrightarrow>
           area_bit p i \<or> pos \<le> i \<and> bit a (i - pos)"
proof -
  obtain q r where p: "pos = 8 * q + r" "r < 8" by (metis div_mod_decomp mult.commute mod_less_divisor zero_less_numeral)
  have q: "pos div 8 = q" and r: "pos mod 8 = r" using p by simp_all
  have "bit (push_bit r (of_nat a) :: u32) (i - 8 * q) \<longleftrightarrow> r \<le> i - 8 * q \<and> i - 8 * q < 32 \<and> bit a (i - 8 * q - r)"
    by (auto simp: bit_push_bit_iff bit_simps possible_bit_def)
  moreover have "i - 8 * q - r = i - pos" using p by simp
  moreover have "i - pos < 24" if "bit a (i - pos)" using that assms by (rule bit_below)
  ultimately show ?thesis unfolding area_bit_or_le32 q r using p by fastforce
qed

section \<open>The width of each code\<close>

text \<open>Code number \<open>j\<close> is written when the dictionary has \<open>256 + j\<close> nodes.\<close>

fun width :: "nat \<Rightarrow> nat" where
  "width 0 = 8"
| "width (Suc j) = (if 2 ^ width j < 257 + j then Suc (width j) else width j)"

lemma width_bounds: "2 ^ (width j - 1) < 256 + j \<and> 256 + j \<le> 2 ^ width j \<and> 8 \<le> width j"
proof (induction j)
  case (Suc j)
  then obtain w where w: "width j = Suc w" by (cases "width j") auto
  with Suc show ?case by auto
qed simp

lemma width_pos [simp]: "0 < width j" and width_ge: "8 \<le> width j"
  using width_bounds [of j] by auto

definition half :: "nat \<Rightarrow> nat" where "half j = 2 ^ (width j - 1)"

lemma twice_half: "2 ^ width j = 2 * half j"
  by (cases "width j") (use width_ge [of j] in \<open>auto simp: half_def\<close>)

lemma half_bounds: "half j < 256 + j" "256 + j \<le> 2 * half j"
  using width_bounds [of j] by (simp_all add: half_def flip: twice_half) (simp add: twice_half half_def)

lemma half_pos: "0 < half j" by (simp add: half_def)

lemma width_small: "j < 2 ^ 16 \<Longrightarrow> width j \<le> 17"
proof -
  assume "j < 2 ^ 16"
  then have "(2 :: nat) ^ (width j - 1) < 2 ^ 17" using width_bounds [of j] by simp
  then show ?thesis using power_less_imp_less_exp [of "2 :: nat" "width j - 1" 17] by simp
qed

definition code_len :: "nat \<Rightarrow> nat \<Rightarrow> nat" where
  "code_len j c = (if short_code c (256 + j) (2 ^ width j) then width j - 1 else width j)"

lemma and_mask_minus_1: "x AND (2 ^ n - 1) = x mod 2 ^ n" for x :: nat
  by (metis mask_eq_exp_minus_1 take_bit_eq_mask take_bit_eq_mod)

lemma short_code_mod:
  "short_code c (256 + j) (2 ^ width j) \<longleftrightarrow> (255 + j) mod half j < c mod half j"
proof -
  have "x AND (half j - 1) = x mod half j" for x :: nat
    by (metis half_def and_mask_minus_1)
  then show ?thesis by (simp add: short_code_def twice_half)
qed

lemma top_mod: "(255 + j) mod half j = 255 + j - half j"
proof -
  have "255 + j - half j < half j" using half_bounds [of j] by linarith
  moreover have "half j \<le> 255 + j" using half_bounds [of j] by linarith
  ultimately show ?thesis by (simp add: le_mod_geq)
qed

lemma short_code_small:
  assumes "c < 256 + j" "short_code c (256 + j) (2 ^ width j)"
  shows "c < half j"
proof (rule ccontr)
  assume h: "\<not> c < half j"
  then have "c mod half j = c - half j"
    using assms(1) half_bounds [of j] by (simp add: le_mod_geq)
  then show False using h assms half_bounds [of j] unfolding short_code_mod top_mod by linarith
qed

lemma code_fits: "c < 256 + j \<Longrightarrow> c < 2 ^ code_len j c"
  using short_code_small [of c j] half_bounds [of j]
  by (auto simp: code_len_def twice_half) (simp add: half_def)

section \<open>Code streams\<close>

definition code_at :: "area \<Rightarrow> nat \<Rightarrow> nat \<Rightarrow> nat \<Rightarrow> bool" where
  "code_at p pos n c \<longleftrightarrow> (\<forall>i<n. area_bit p (pos + i) = bit c i)"

fun bitlen :: "nat \<Rightarrow> nat list \<Rightarrow> nat" where
  "bitlen j [] = 0"
| "bitlen j (c # cs) = code_len j c + bitlen (Suc j) cs"

fun stream :: "area \<Rightarrow> nat \<Rightarrow> nat \<Rightarrow> nat list \<Rightarrow> bool" where
  "stream p pos j [] = True"
| "stream p pos j (c # cs) = (code_at p pos (code_len j c) c \<and> stream p (pos + code_len j c) (Suc j) cs)"

lemma bitlen_snoc: "bitlen j (cs @ [c]) = bitlen j cs + code_len (j + length cs) c"
  by (induction cs arbitrary: j) auto

lemma stream_snoc:
  "stream p pos j (cs @ [c]) \<longleftrightarrow>
     stream p pos j cs \<and> code_at p (pos + bitlen j cs) (code_len (j + length cs) c) c"
  by (induction cs arbitrary: pos j) (auto simp: add.assoc)

lemma stream_cong:
  "(\<And>i. pos \<le> i \<Longrightarrow> i < pos + bitlen j cs \<Longrightarrow> area_bit p i = area_bit q i) \<Longrightarrow>
     stream p pos j cs = stream q pos j cs"
proof (induction cs arbitrary: pos j)
  case (Cons c cs)
  have "code_at p pos (code_len j c) c = code_at q pos (code_len j c) c"
    using Cons.prems by (auto simp: code_at_def)
  moreover have "stream p (pos + code_len j c) (Suc j) cs = stream q (pos + code_len j c) (Suc j) cs"
    using Cons.prems by (intro Cons.IH) auto
  ultimately show ?case by simp
qed simp

lemma code_len_ge: "7 \<le> code_len j c" and code_len_le: "code_len j c \<le> width j"
  using width_ge [of j] by (auto simp: code_len_def)

lemma bitlen_ge: "7 * length cs \<le> bitlen j cs"
proof (induction cs arbitrary: j)
  case (Cons c cs)
  show ?case using Cons.IH [of "Suc j"] code_len_ge [of j c] by simp
qed simp

section \<open>Writing a code\<close>

definition packed :: "nat \<Rightarrow> nat list \<Rightarrow> packer \<Rightarrow> bool" where
  "packed n cs s \<longleftrightarrow>
     addrcnt s = 256 + length cs \<and> numbits s = width (length cs) \<and>
     oneupnumbits s = 2 ^ width (length cs) \<and> bitcnt s = 32 + bitlen 0 cs \<and>
     stream (outp s) 32 0 cs \<and> (\<forall>i. bitcnt s \<le> i \<longrightarrow> i < n \<longrightarrow> \<not> area_bit (outp s) i)"

lemma next_code_sel [simp]:
  "outp (next_code s) = outp s" "bitcnt (next_code s) = bitcnt s" "bufs (next_code s) = bufs s"
  "bytecnt (next_code s) = bytecnt s" "addrcnt (next_code s) = addrcnt s + 1"
  by (simp_all add: next_code_def Let_def)

lemma put_code_sel [simp]:
  "addrcnt (put_code c s) = addrcnt s" "bufs (put_code c s) = bufs s"
  "bytecnt (put_code c s) = bytecnt s" "numbits (put_code c s) = numbits s"
  "oneupnumbits (put_code c s) = oneupnumbits s"
  by (simp_all add: put_code_def)

lemma put_code_bits:
  assumes "packed n cs s" "c < 2 ^ 24"
  shows "area_bit (outp (put_code c s)) i \<longleftrightarrow> area_bit (outp s) i \<or> bitcnt s \<le> i \<and> bit c (i - bitcnt s)"
  by (simp add: put_code_def area_bit_put [OF assms(2)])

lemma put_code_bitcnt: "packed n cs s \<Longrightarrow> bitcnt (put_code c s) = bitcnt s + code_len (length cs) c"
  using width_pos [of "length cs"] by (auto simp: packed_def put_code_def code_len_def simp del: width_pos)

lemma code_24: "c < 256 + j \<Longrightarrow> j < 2 ^ 16 \<Longrightarrow> c < 2 ^ 24" for c :: nat
  by simp

lemma put_code_packed:
  assumes p: "packed n cs s" and c: "c < 256 + length cs" "length cs < 2 ^ 16" and n: "bitcnt s + 24 \<le> n"
  shows "packed n (cs @ [c]) (next_code (put_code c s))"
proof -
  let ?j = "length cs" and ?o = "outp (put_code c s)"
  note bits = put_code_bits [OF p code_24 [OF c]]
  have e: "bitcnt s = 32 + bitlen 0 cs" and clean: "\<And>i. bitcnt s \<le> i \<Longrightarrow> i < n \<Longrightarrow> \<not> area_bit (outp s) i"
    using p by (auto simp: packed_def)
  have "stream ?o 32 0 cs = stream (outp s) 32 0 cs" by (rule stream_cong) (simp add: bits e)
  moreover have "code_at ?o (bitcnt s) (code_len ?j c) c"
  proof -
    have "code_len ?j c \<le> 24" using code_len_le [of ?j c] width_small [OF c(2)] by simp
    then show ?thesis using clean n unfolding code_at_def bits by auto
  qed
  moreover have "\<not> area_bit ?o i" if "bitcnt s + code_len ?j c \<le> i" "i < n" for i
  proof -
    have "\<not> bit c (i - bitcnt s)" using that bit_below [OF _ code_fits [OF c(1)]] by fastforce
    then show ?thesis using that clean by (simp add: bits)
  qed
  ultimately show ?thesis using p put_code_bitcnt [OF p, of c]
    by (auto simp: packed_def stream_snoc bitlen_snoc next_code_def Let_def put_code_def)
qed

section \<open>Reading a code\<close>

lemma get_code_bits:
  assumes "roneup s = 2 ^ w" "w \<le> 24"
  shows "bit (unat (signed_drop_bit (rbitcnt s mod 8) (read_le32 inp (rbitcnt s div 8))) AND (roneup s - 1)) i
           \<longleftrightarrow> i < w \<and> area_bit inp (rbitcnt s + i)"
proof -
  have m: "rbitcnt s mod 8 + i < 31" if "i < w"
    using that assms(2) mod_less_divisor [of 8 "rbitcnt s"] by linarith
  have d: "8 * (rbitcnt s div 8) + (rbitcnt s mod 8 + i) = rbitcnt s + i" by simp
  have "roneup s - 1 = mask w" by (simp add: assms(1) mask_eq_exp_minus_1)
  then show ?thesis using m
    by (auto simp: bit_and_iff bit_mask_iff bit_unsigned_iff bit_signed_drop_bit_iff bit_read_le32 d
        simp flip: add.assoc)
qed

definition raw_code :: "area \<Rightarrow> unpacker \<Rightarrow> nat" where
  "raw_code inp s =
     unat (signed_drop_bit (rbitcnt s mod 8) (read_le32 inp (rbitcnt s div 8))) AND (roneup s - 1)"

lemma get_code_raw:
  assumes "roneup s = 2 ^ width j" "currstr s = 256 + j"
  shows "get_code inp s =
    (if short_code (raw_code inp s) (256 + j) (2 ^ width j)
     then (raw_code inp s mod half j, rbitcnt s + rnumbits s - 1) else (raw_code inp s, rbitcnt s + rnumbits s))"
proof -
  have "x AND (roneup s div 2 - 1) = x mod half j" for x
    by (simp add: assms(1) twice_half half_def and_mask_minus_1 [unfolded One_nat_def])
  then show ?thesis using assms by (simp add: get_code_def Let_def raw_code_def)
qed

lemma get_code_exact:
  assumes s: "roneup s = 2 ^ width j" "rnumbits s = width j" "currstr s = 256 + j" "j < 2 ^ 16"
    and c: "c < 256 + j" "code_at inp (rbitcnt s) (code_len j c) c"
  shows "get_code inp s = (c, rbitcnt s + code_len j c)"
proof -
  let ?d = "raw_code inp s"
  have w: "width j \<le> 24" using width_small [OF s(4)] by simp
  have d: "bit ?d i \<longleftrightarrow> i < width j \<and> area_bit inp (rbitcnt s + i)" for i
    unfolding raw_code_def by (rule get_code_bits [OF s(1) w])
  have c': "area_bit inp (rbitcnt s + i) = bit c i" if "i < code_len j c" for i
    using c(2) that by (simp add: code_at_def)
  have len: "width j - 1 \<le> code_len j c" by (simp add: code_len_def)
  have low: "?d mod half j = c mod half j"
    unfolding half_def take_bit_eq_mod [symmetric]
  proof (rule bit_eqI)
    fix i
    show "bit (take_bit (width j - 1) ?d) i = bit (take_bit (width j - 1) c) i"
      using len d [of i] c' [of i] unfolding bit_take_bit_iff by auto
  qed
  have same: "short_code ?d (256 + j) (2 ^ width j) \<longleftrightarrow> short_code c (256 + j) (2 ^ width j)"
    unfolding short_code_mod low ..
  show ?thesis
  proof (cases "short_code c (256 + j) (2 ^ width j)")
    case True
    then have "c mod half j = c" using short_code_small [OF c(1)] by simp
    moreover have "code_len j c = width j - 1" using True by (simp add: code_len_def)
    ultimately show ?thesis using True same low width_ge [of j]
      by (simp add: get_code_raw [OF s(1,3)] s(2))
  next
    case False
    then have l: "code_len j c = width j" by (simp add: code_len_def)
    have "?d = c"
    proof (rule bit_eqI)
      fix i
      show "bit ?d i = bit c i"
        using d [of i] c' [of i] l bit_below [OF _ code_fits [OF c(1)], of i] by auto
    qed
    then show ?thesis using False l by (simp add: get_code_raw [OF s(1,3)] s(2))
  qed
qed

lemma get_code_below:
  assumes s: "roneup s = 2 ^ width j" "currstr s = 256 + j"
  shows "fst (get_code inp s) < 256 + j"
proof -
  let ?d = "raw_code inp s"
  have h: "?d < 2 * half j"
    by (simp add: raw_code_def s(1) and_mask_minus_1 [unfolded One_nat_def] flip: twice_half)
  have m: "?d mod half j < half j" using half_pos by simp
  show ?thesis
  proof (cases "short_code ?d (256 + j) (2 ^ width j)")
    case True
    have "?d mod half j < 256 + j" using m half_bounds(1) [of j] by (rule order.strict_trans)
    then show ?thesis using True by (simp add: get_code_raw [OF s])
  next
    case False
    then have "?d mod half j \<le> 255 + j - half j" by (simp add: short_code_mod top_mod)
    then have "?d < 256 + j"
      using h half_bounds [of j] by (cases "?d < half j") (auto simp: le_mod_geq)
    then show ?thesis using False by (simp add: get_code_raw [OF s])
  qed
qed

end
