(* ===== verification/LzwEncode.thy ===== *)
theory LzwEncode
  imports LzwBits
begin

text \<open>
  The compressor against a dictionary of (prefix, byte) pairs. The child and sibling links of the
  work buffers form a trie over that dictionary; every match found by the inner loop spells the
  input it consumed; the codes written so far spell the input read so far.
\<close>

section \<open>Dictionaries and tries\<close>

type_synonym dict = "(nat \<times> u8) list"

definition wf_dict :: "dict \<Rightarrow> bool" where
  "wf_dict D \<longleftrightarrow> (\<forall>i<length D. fst (D ! i) < 256 + i)"

function spell :: "dict \<Rightarrow> nat \<Rightarrow> u8 list" where
  "spell D k =
     (if k < 256 then [of_nat k]
      else if fst (D ! (k - 256)) < k then spell D (fst (D ! (k - 256))) @ [snd (D ! (k - 256))]
      else [])"
  by pat_completeness auto
termination by (relation "measure snd") auto

declare spell.simps [simp del]

lemma spell_byte: "k < 256 \<Longrightarrow> spell D k = [of_nat k]"
  by (simp add: spell.simps)

lemma spell_node:
  "wf_dict D \<Longrightarrow> i < length D \<Longrightarrow> spell D (256 + i) = spell D (fst (D ! i)) @ [snd (D ! i)]"
  by (subst spell.simps) (auto simp: wf_dict_def)

lemma spell_append:
  assumes "wf_dict D" "k < 256 + length D"
  shows "spell (D @ E) k = spell D k"
  using assms(2)
proof (induction k rule: less_induct)
  case (less k)
  show ?case
  proof (cases "k < 256")
    case False
    then have i: "k - 256 < length D" using less.prems by simp
    then have p: "fst (D ! (k - 256)) < k" using assms(1) False unfolding wf_dict_def by fastforce
    then have "spell (D @ E) (fst (D ! (k - 256))) = spell D (fst (D ! (k - 256)))"
      using less.prems by (intro less.IH) auto
    then show ?thesis
      by (subst spell.simps, subst (2) spell.simps) (use False i p in \<open>simp add: nth_append\<close>)
  qed (simp add: spell_byte)
qed

lemma spell_nonempty:
  assumes "wf_dict D" "k < 256 + length D" shows "spell D k \<noteq> []"
proof (cases "k < 256")
  case False
  then show ?thesis using spell_node [OF assms(1), of "k - 256"] assms(2) by simp
qed (simp add: spell_byte)

definition trie :: "dict \<Rightarrow> lzw \<Rightarrow> bool" where
  "trie D b \<longleftrightarrow> wf_dict D \<and>
     (\<forall>i<length D. lzwbuf1 b (256 + i) = snd (D ! i)) \<and>
     (\<forall>a<256 + length D. lzwbuf2 b a < 0 \<or>
        (\<exists>i<length D. lzwbuf2 b a = int (256 + i) \<and> fst (D ! i) = a)) \<and>
     (\<forall>i<length D. lzwbuf3 b (256 + i) < 0 \<or>
        (\<exists>j<length D. i < j \<and> lzwbuf3 b (256 + i) = int (256 + j) \<and> fst (D ! j) = fst (D ! i)))"

lemma trieD:
  assumes "trie D b"
  shows "wf_dict D"
    and "i < length D \<Longrightarrow> lzwbuf1 b (256 + i) = snd (D ! i)"
    and "a < 256 + length D \<Longrightarrow> 0 \<le> lzwbuf2 b a \<Longrightarrow>
           \<exists>i<length D. lzwbuf2 b a = int (256 + i) \<and> fst (D ! i) = a"
    and "i < length D \<Longrightarrow> 0 \<le> lzwbuf3 b (256 + i) \<Longrightarrow>
           \<exists>j<length D. i < j \<and> lzwbuf3 b (256 + i) = int (256 + j) \<and> fst (D ! j) = fst (D ! i)"
  using assms unfolding trie_def by (fastforce simp: not_less)+

lemma short_id: "- (2 ^ 15) \<le> x \<Longrightarrow> x < 2 ^ 15 \<Longrightarrow> short x = x"
  unfolding short_def by (rule signed_take_bit_int_eq_self) simp_all

lemma short_nat [simp]: "n < 32768 \<Longrightarrow> short (int n) = int n"
  by (rule short_id) auto

lemma put_sel [simp]:
  "lzwbuf1 (put1 i v b) = (lzwbuf1 b)(i := v)" "lzwbuf2 (put1 i v b) = lzwbuf2 b" "lzwbuf3 (put1 i v b) = lzwbuf3 b"
  "lzwbuf1 (put2 i w b) = lzwbuf1 b" "lzwbuf2 (put2 i w b) = (lzwbuf2 b)(i := short w)" "lzwbuf3 (put2 i w b) = lzwbuf3 b"
  "lzwbuf1 (put3 i w b) = lzwbuf1 b" "lzwbuf2 (put3 i w b) = lzwbuf2 b" "lzwbuf3 (put3 i w b) = (lzwbuf3 b)(i := short w)"
  by (simp_all add: put1_def put2_def put3_def)

section \<open>Growing the trie\<close>

lemma wf_dict_snoc: "wf_dict D \<Longrightarrow> a < 256 + length D \<Longrightarrow> wf_dict (D @ [(a, c)])"
  by (auto simp: wf_dict_def nth_append less_Suc_eq)

definition grows :: "dict \<Rightarrow> nat \<Rightarrow> lzw \<Rightarrow> bool" where
  "grows D a b \<longleftrightarrow> (\<forall>c. trie (D @ [(a, c)]) (new_node c (256 + length D) b))"

lemma new_node_sel:
  "lzwbuf1 (new_node c n b) = (lzwbuf1 b)(n := c)"
  "lzwbuf2 (new_node c n b) = (lzwbuf2 b)(n := -1)"
  "lzwbuf3 (new_node c n b) = (lzwbuf3 b)(n := -1)"
  by (simp_all add: new_node_def short_id)

lemma grows_plain:
  assumes t: "trie D b" and a: "a < 256 + length D"
  shows "grows D a b"
  unfolding grows_def
proof
  fix c
  show "trie (D @ [(a, c)]) (new_node c (256 + length D) b)"
    unfolding trie_def new_node_sel
  proof (intro conjI allI impI)
    show "wf_dict (D @ [(a, c)])" using trieD(1) [OF t] a by (rule wf_dict_snoc)
  next
    fix i assume "i < length (D @ [(a, c)])"
    then show "((lzwbuf1 b)(256 + length D := c)) (256 + i) = snd ((D @ [(a, c)]) ! i)"
      using trieD(2) [OF t, of i] by (auto simp: nth_append less_Suc_eq)
  next
    fix x assume "x < 256 + length (D @ [(a, c)])"
    then show "((lzwbuf2 b)(256 + length D := -1)) x < 0 \<or> (\<exists>i<length (D @ [(a, c)]).
        ((lzwbuf2 b)(256 + length D := -1)) x = int (256 + i) \<and> fst ((D @ [(a, c)]) ! i) = x)"
      using trieD(3) [OF t, of x] by (fastforce simp: nth_append less_Suc_eq not_less)
  next
    fix i assume "i < length (D @ [(a, c)])"
    then show "((lzwbuf3 b)(256 + length D := -1)) (256 + i) < 0 \<or> (\<exists>j<length (D @ [(a, c)]).
        i < j \<and> ((lzwbuf3 b)(256 + length D := -1)) (256 + i) = int (256 + j) \<and>
        fst ((D @ [(a, c)]) ! j) = fst ((D @ [(a, c)]) ! i))"
      using trieD(4) [OF t, of i] by (fastforce simp: nth_append less_Suc_eq not_less)
  qed
qed

lemma trie_link_child:
  assumes t: "trie E b" and j: "j < length E" "256 + j < 32768"
  shows "trie E (put2 (fst (E ! j)) (int (256 + j)) b)"
  unfolding trie_def put_sel
proof (intro conjI allI impI)
  fix x assume "x < 256 + length E"
  then show "((lzwbuf2 b)(fst (E ! j) := short (int (256 + j)))) x < 0 \<or> (\<exists>i<length E.
      ((lzwbuf2 b)(fst (E ! j) := short (int (256 + j)))) x = int (256 + i) \<and> fst (E ! i) = x)"
    using trieD(3) [OF t, of x] j short_nat [OF j(2)] by (cases "x = fst (E ! j)"; cases "0 \<le> lzwbuf2 b x") auto
qed (use t in \<open>simp_all add: trie_def\<close>)

lemma trie_link_sibling:
  assumes t: "trie E b" and i: "i < j" "j < length E" "256 + j < 32768" "fst (E ! i) = fst (E ! j)"
  shows "trie E (put3 (256 + i) (int (256 + j)) b)"
  unfolding trie_def put_sel
proof (intro conjI allI impI)
  fix x assume "x < length E"
  then show "((lzwbuf3 b)(256 + i := short (int (256 + j)))) (256 + x) < 0 \<or> (\<exists>y<length E. x < y \<and>
      ((lzwbuf3 b)(256 + i := short (int (256 + j)))) (256 + x) = int (256 + y) \<and> fst (E ! y) = fst (E ! x))"
    using trieD(4) [OF t, of x] i short_nat [OF i(3)] by (cases "x = i"; cases "0 \<le> lzwbuf3 b (256 + x)") auto
qed (use t in \<open>simp_all add: trie_def\<close>)

lemma new_node_put2: "i \<noteq> n \<Longrightarrow> new_node c n (put2 i v b) = put2 i v (new_node c n b)"
  by (simp add: new_node_def put1_def put2_def put3_def fun_upd_twist)

lemma new_node_put3: "i \<noteq> n \<Longrightarrow> new_node c n (put3 i v b) = put3 i v (new_node c n b)"
  by (simp add: new_node_def put1_def put2_def put3_def fun_upd_twist)

lemma grows_child:
  assumes t: "trie D b" and a: "a < 256 + length D" "256 + length D < 32768"
  shows "grows D a (put2 a (int (256 + length D)) b)"
  unfolding grows_def
proof
  fix c
  have "trie (D @ [(a, c)]) (new_node c (256 + length D) b)"
    using grows_plain [OF t a(1)] by (simp add: grows_def)
  then have "trie (D @ [(a, c)]) (put2 (fst ((D @ [(a, c)]) ! length D)) (int (256 + length D))
               (new_node c (256 + length D) b))"
    using a(2) by (intro trie_link_child) simp_all
  then show "trie (D @ [(a, c)]) (new_node c (256 + length D) (put2 a (int (256 + length D)) b))"
    using a(1) by (simp add: new_node_put2)
qed

lemma grows_sibling:
  assumes t: "trie D b" and i: "i < length D" "256 + length D < 32768"
  shows "grows D (fst (D ! i)) (put3 (256 + i) (int (256 + length D)) b)"
  unfolding grows_def
proof
  fix c
  let ?E = "D @ [(fst (D ! i), c)]"
  have "fst (D ! i) < 256 + length D" using trieD(1) [OF t] i by (fastforce simp: wf_dict_def)
  then have "trie ?E (new_node c (256 + length D) b)"
    using grows_plain [OF t] by (simp add: grows_def)
  then have "trie ?E (put3 (256 + i) (int (256 + length D)) (new_node c (256 + length D) b))"
    using i by (intro trie_link_sibling) (simp_all add: nth_append)
  then show "trie ?E (new_node c (256 + length D) (put3 (256 + i) (int (256 + length D)) b))"
    using i by (simp add: new_node_put3)
qed

section \<open>Matching the input\<close>

lemma sibling_ok:
  assumes t: "trie D b" and i: "i < length D" "256 + length D < 32768"
  shows "\<exists>j<length D. fst (D ! j) = fst (D ! i) \<and>
     (lzw_sibling c (256 + length D) (256 + i) b = Some (256 + j, b) \<and> snd (D ! j) = c \<or>
      lzw_sibling c (256 + length D) (256 + i) b = Some (256 + j, put3 (256 + j) (int (256 + length D)) b))"
  using i(1)
proof (induction "length D - i" arbitrary: i rule: less_induct)
  case less
  note step = lzw_sibling.simps [of c "256 + length D" "256 + i" b]
  show ?case
  proof (cases "lzwbuf1 b (256 + i) = c")
    case True
    then show ?thesis using step trieD(2) [OF t less.prems] less.prems by auto
  next
    case ne: False
    show ?thesis
    proof (cases "lzwbuf3 b (256 + i) < 0")
      case True
      then show ?thesis using ne step less.prems by auto
    next
      case False
      then obtain j where j: "j < length D" "i < j" "lzwbuf3 b (256 + i) = int (256 + j)" "fst (D ! j) = fst (D ! i)"
        using trieD(4) [OF t less.prems] by (auto simp: not_less)
      have "lzw_sibling c (256 + length D) (256 + i) b = lzw_sibling c (256 + length D) (256 + j) b"
        using step ne j(3) by (simp add: Let_def nat_add_distrib)
      moreover have "length D - j < length D - i" using j less.prems by simp
      ultimately show ?thesis using less.hyps [of j] j(1,4) by simp
    qed
  qed
qed

abbreviation segment :: "area \<Rightarrow> nat \<Rightarrow> nat \<Rightarrow> u8 list" where
  "segment p i j \<equiv> map p [i..<j]"

lemma match_ok:
  assumes t: "trie D b" and l: "256 + length D < 32768"
    and a: "a < 256 + length D" "spell D a = segment inp s (k + 1)" "s \<le> k" "k < n"
  shows "\<exists>a' k' b'. lzw_match inp n (256 + length D) a k b = Some (a', k', b') \<and> k < k' \<and> k' \<le> n \<and>
     a' < 256 + length D \<and> spell D a' = segment inp s k' \<and> grows D a' b'"
  using a
proof (induction "n - k" arbitrary: a k rule: less_induct)
  case less
  let ?N = "256 + length D"
  note step = lzw_match.simps [of inp n ?N a k b]
  show ?case
  proof (cases "k + 1 = n \<or> lzwbuf2 b a < 0")
    case True
    then show ?thesis using step less.prems grows_plain [OF t less.prems(1)] grows_child [OF t less.prems(1) l]
      by auto
  next
    case False
    then obtain i where i: "i < length D" "lzwbuf2 b a = int (256 + i)" "fst (D ! i) = a"
      using trieD(3) [OF t less.prems(1)] by auto
    then have z: "nat (lzwbuf2 b a) = 256 + i" by simp
    obtain j where j: "j < length D" "fst (D ! j) = a"
      and r: "lzw_sibling (inp (k + 1)) ?N (256 + i) b = Some (256 + j, b) \<and> snd (D ! j) = inp (k + 1) \<or>
              lzw_sibling (inp (k + 1)) ?N (256 + i) b = Some (256 + j, put3 (256 + j) (int ?N) b)"
      using sibling_ok [OF t i(1) l, of "inp (k + 1)"] i(3) by auto
    show ?thesis
    proof (cases "lzw_sibling (inp (k + 1)) ?N (256 + i) b = Some (256 + j, put3 (256 + j) (int ?N) b)")
      case True
      have e: "lzwbuf3 (put3 (256 + j) (int ?N) b) (256 + j) = int ?N" using short_nat [OF l] by simp
      have "lzw_match inp n ?N a k b = Some (a, k + 1, put3 (256 + j) (int ?N) b)"
        using step False True z e by auto
      then show ?thesis using less.prems grows_sibling [OF t j(1) l] j(2) by auto
    next
      case no: False
      have ne: "lzwbuf3 b (256 + j) \<noteq> int ?N" using trieD(4) [OF t j(1)] by (cases "0 \<le> lzwbuf3 b (256 + j)") auto
      then have "lzw_match inp n ?N a k b = lzw_match inp n ?N (256 + j) (k + 1) b"
        using step False r no z by auto
      moreover have "spell D (256 + j) = segment inp s (k + 2)"
        using spell_node [OF trieD(1) [OF t] j(1)] j(2) less.prems r no by simp
      ultimately show ?thesis
        using less.hyps [of "k + 1" "256 + j"] less.prems False j(1) by fastforce
    qed
  qed
qed

section \<open>The code stream\<close>

definition room :: "nat \<Rightarrow> nat" where "room n = (n + 15 + 3) div 4 * 4"

definition chained :: "dict \<Rightarrow> nat list \<Rightarrow> bool" where
  "chained D cs \<longleftrightarrow> (\<forall>i. Suc i < length cs \<longrightarrow> snd (D ! i) = hd (spell D (cs ! Suc i)))"

text \<open>After some codes: the codes are the prefixes of the dictionary, they spell the input read
  so far, and each entry ends in the first byte of the next string.\<close>

definition encoded :: "area \<Rightarrow> nat \<Rightarrow> area \<Rightarrow> dict \<Rightarrow> packer \<Rightarrow> bool" where
  "encoded inp n out D s \<longleftrightarrow>
     packed (8 * room n) (map fst D) s \<and> trie D (bufs s) \<and>
     concat (map (spell D) (map fst D)) = segment inp 0 (bytecnt s) \<and>
     chained D (map fst D) \<and> (D \<noteq> [] \<longrightarrow> snd (last D) = inp (bytecnt s)) \<and>
     length D \<le> bytecnt s \<and> (\<forall>i. room n \<le> i \<longrightarrow> outp s i = out i)"

lemma room_bounds: "n + 15 \<le> room n"
  unfolding room_def by linarith

lemma or_le32_outside: "i < k \<or> k + 4 \<le> i \<Longrightarrow> or_le32 k v p i = p i"
  by (auto simp: or_le32_def write_le32_def)

lemma put_code_outside: "bitcnt s + 32 \<le> 8 * i \<Longrightarrow> outp (put_code c s) i = outp s i"
proof -
  assume "bitcnt s + 32 \<le> 8 * i"
  then have "bitcnt s div 8 + 4 \<le> i" by linarith
  then show ?thesis by (simp add: put_code_def or_le32_outside)
qed

lemma dict_codes: "wf_dict D \<Longrightarrow> c \<in> set (map fst D) \<Longrightarrow> c < 256 + length D"
  by (fastforce simp: wf_dict_def in_set_conv_nth)

lemma concat_spell_append:
  assumes "wf_dict D"
  shows "concat (map (spell (D @ E)) (map fst D)) = concat (map (spell D) (map fst D))"
proof -
  have "map (spell (D @ E)) (map fst D) = map (spell D) (map fst D)"
    using dict_codes [OF assms] by (intro map_cong refl spell_append [OF assms])
  then show ?thesis by (simp only:)
qed

lemma chained_snoc:
  assumes "wf_dict D" "chained D (map fst D)" "a < 256 + length D"
    and "D \<noteq> [] \<Longrightarrow> snd (last D) = hd (spell D a)"
  shows "chained (D @ [(a, c)]) (map fst (D @ [(a, c)]))"
  unfolding chained_def
proof (intro allI impI)
  fix i assume "Suc i < length (map fst (D @ [(a, c)]))"
  then have i: "i < length D" by simp
  show "snd ((D @ [(a, c)]) ! i) = hd (spell (D @ [(a, c)]) (map fst (D @ [(a, c)]) ! Suc i))"
  proof (cases "Suc i < length D")
    case True
    then have "fst (D ! Suc i) < 256 + length D" using dict_codes [OF assms(1), of "fst (D ! Suc i)"] by simp
    then show ?thesis using True i assms(2) spell_append [OF assms(1)]
      by (simp add: chained_def nth_append)
  next
    case False
    then have l: "Suc i = length D" using i by simp
    then have "D ! i = last D" by (metis diff_Suc_1 last_conv_nth length_greater_0_conv zero_less_Suc)
    moreover have "D \<noteq> []" using i by auto
    moreover have "map fst (D @ [(a, c)]) ! Suc i = a" using l by (simp add: nth_append)
    moreover have "(D @ [(a, c)]) ! i = D ! i" using i by (simp add: nth_append)
    ultimately show ?thesis using assms(4) spell_append [OF assms(1,3)] by simp
  qed
qed

lemma packed_irrelevant: "packed n cs (s\<lparr>bytecnt := k, bufs := b\<rparr>) = packed n cs s"
  by (simp add: packed_def)

definition code_step :: "area \<Rightarrow> nat \<Rightarrow> nat \<Rightarrow> lzw \<Rightarrow> packer \<Rightarrow> packer" where
  "code_step inp a k b s =
     next_code (put_code a (s\<lparr>bytecnt := k, bufs := new_node (inp k) (addrcnt s) b\<rparr>))"

lemma encoded_step:
  assumes e: "encoded inp n out D s" and l: "length D < 2 ^ 16" and w: "bitcnt s \<le> 8 * n + 32"
    and m: "bytecnt s < k" "a < 256 + length D" "spell D a = segment inp (bytecnt s) k" "grows D a b"
  shows "encoded inp n out (D @ [(a, inp k)]) (code_step inp a k b s)"
proof -
  let ?D = "D @ [(a, inp k)]"
  let ?s = "s\<lparr>bytecnt := k, bufs := new_node (inp k) (addrcnt s) b\<rparr>"
  have p: "packed (8 * room n) (map fst D) s" and t: "trie D (bufs s)"
    and c: "concat (map (spell D) (map fst D)) = segment inp 0 (bytecnt s)"
    and ch: "chained D (map fst D)" "D \<noteq> [] \<Longrightarrow> snd (last D) = inp (bytecnt s)"
    and len: "length D \<le> bytecnt s" and o: "\<And>i. room n \<le> i \<Longrightarrow> outp s i = out i"
    using e by (auto simp: encoded_def)
  note wf = trieD(1) [OF t]
  have "packed (8 * room n) (map fst D @ [a]) (next_code (put_code a ?s))"
    using m(2) l w room_bounds [of n] by (intro put_code_packed) (simp_all add: packed_irrelevant p)
  moreover have "trie ?D (new_node (inp k) (addrcnt s) b)"
    using m(4) p by (simp add: grows_def packed_def)
  moreover have "concat (map (spell ?D) (map fst ?D)) = segment inp 0 k"
  proof -
    have "map fst ?D = map fst D @ [a]" by simp
    then have "concat (map (spell ?D) (map fst ?D)) = segment inp 0 (bytecnt s) @ segment inp (bytecnt s) k"
      using concat_spell_append [OF wf, of "[(a, inp k)]"] spell_append [OF wf m(2), of "[(a, inp k)]"] c m(3)
      by (simp del: map_map)
    also have "\<dots> = segment inp 0 k"
      using upt_add_eq_append [of 0 "bytecnt s" "k - bytecnt s"] m(1) by simp
    finally show ?thesis .
  qed
  moreover have "hd (spell D a) = inp (bytecnt s)" using m(1,3) by (simp add: upt_conv_Cons)
  then have "chained ?D (map fst ?D)"
    using ch by (intro chained_snoc wf m(2)) auto
  moreover have "outp (put_code a ?s) i = out i" if "room n \<le> i" for i
    using put_code_outside [of ?s i a] that w room_bounds [of n] o [OF that] by simp
  ultimately show ?thesis using len m(1) by (simp add: encoded_def code_step_def)
qed

lemma byte_lt: "unat (c :: u8) < 256"
  using unsigned_less [of c, where 'a = nat] by simp

lemma codes_ok:
  assumes "encoded inp n out D s" "bytecnt s < n" "n \<le> LZWSIZE" "bitcnt s \<le> 8 * n + 32"
  shows "\<exists>a D' s'. lzw_codes inp n s = Some (a, s') \<and> encoded inp n out D' s' \<and> D' \<noteq> [] \<and>
     (bytecnt s' = n \<or> 8 * n \<le> bitcnt s') \<and> a < 256 + length D' \<and> bytecnt s' \<le> n \<and> bitcnt s' \<le> 8 * n + 49"
  using assms
proof (induction "n - bytecnt s" arbitrary: D s rule: less_induct)
  case less
  let ?k = "bytecnt s"
  have t: "trie D (bufs s)" and p: "packed (8 * room n) (map fst D) s" and len: "length D \<le> ?k"
    using less.prems(1) by (auto simp: encoded_def)
  have N: "addrcnt s = 256 + length D" using p by (simp add: packed_def)
  have l: "length D < 16384" using len less.prems(2,3) by (simp add: LZWSIZE_def)
  have l': "256 + length D < 32768" "length D < 2 ^ 16" using l by simp_all
  have "spell D (unat (inp ?k)) = segment inp ?k (?k + 1)"
    using byte_lt by (simp add: spell_byte)
  moreover have "unat (inp ?k) < 256 + length D"
    using byte_lt [of "inp ?k"] by simp
  ultimately obtain a k' b where m: "lzw_match inp n (256 + length D) (unat (inp ?k)) ?k (bufs s) = Some (a, k', b)"
    "?k < k'" "k' \<le> n" "a < 256 + length D" "spell D a = segment inp ?k k'" "grows D a b"
    using match_ok [OF t l'(1), of "unat (inp ?k)" inp ?k ?k n] less.prems(2) by auto
  let ?s = "code_step inp a k' b s"
  have e: "encoded inp n out (D @ [(a, inp k')]) ?s"
    using m(2) m(4) m(5) m(6) by (intro encoded_step [OF less.prems(1) l'(2) less.prems(4)])
  have k: "bytecnt ?s = k'" by (simp add: code_step_def)
  have w: "bitcnt ?s \<le> bitcnt s + 17"
    using put_code_bitcnt [of "8 * room n" "map fst D" "s\<lparr>bytecnt := k', bufs := new_node (inp k') (addrcnt s) b\<rparr>" a]
      code_len_le [of "length D" a] width_small [OF l'(2)] p
    by (simp add: packed_irrelevant code_step_def)
  have step: "lzw_codes inp n s = (if k' < n \<and> bitcnt ?s < n * 8 then lzw_codes inp n ?s else Some (a, ?s))"
    by (subst lzw_codes.simps) (use l N m(1) in \<open>simp add: LZWBUFSZ_def LZWSIZE_def code_step_def Let_def\<close>)
  show ?case
  proof (cases "k' < n \<and> bitcnt ?s < n * 8")
    case True
    then show ?thesis using less.hyps [OF _ e] k m(2) less.prems(2,3) step by auto
  next
    case False
    then have "bytecnt ?s = n \<or> 8 * n \<le> bitcnt ?s" "bitcnt ?s \<le> 8 * n + 49"
      using k m(3) w less.prems(4) by auto
    then show ?thesis using e step False k m(3,4) by (intro exI [of _ a] exI [of _ "D @ [(a, inp k')]"] exI [of _ ?s]) auto
  qed
qed

section \<open>The whole call\<close>

lemma bytes_clear: "\<not> area_bit (lzw_clear n out) i" if "i < 8 * room n"
proof -
  have "i div 8 < room n" using that by simp
  then show ?thesis by (simp add: area_bit_def lzw_clear_def room_def)
qed

definition first_packer :: "nat \<Rightarrow> area \<Rightarrow> lzw \<Rightarrow> packer" where
  "first_packer n out b =
     \<lparr>bytecnt = 0, addrcnt = 256, bitcnt = 32, numbits = 8, oneupnumbits = 256,
      outp = lzw_clear n out, bufs = lzw_start b\<rparr>"

lemma encoded_start: "encoded inp n out [] (first_packer n out b)"
  by (simp add: encoded_def packed_def first_packer_def trie_def wf_dict_def lzw_start_def chained_def bytes_clear)
    (simp add: lzw_clear_def room_def)

text \<open>What a finished call left: the last code once more behind the stream.\<close>

lemma compress_ok:
  assumes n: "0 < n" "n \<le> LZWSIZE"
  obtains D s where "encoded inp n out D s" "D \<noteq> []" "bytecnt s = n \<or> 8 * n \<le> bitcnt s"
    and "bytecnt s \<le> n" "bitcnt s \<le> 8 * n + 49"
    and "\<exists>a. a < 256 + length D \<and>
           of_lzw_compress (Some inp) (int n) (Some out) b =
             (case lzw_finish inp n (put_code a s) of (r, o1, b1) \<Rightarrow> Some (r, Some o1, b1))"
proof -
  obtain a D s where s: "lzw_codes inp n (first_packer n out b) = Some (a, s)" "encoded inp n out D s" "D \<noteq> []"
    "bytecnt s = n \<or> 8 * n \<le> bitcnt s" "a < 256 + length D" "bytecnt s \<le> n" "bitcnt s \<le> 8 * n + 49"
    using codes_ok [OF encoded_start [of inp n out b]] n by (auto simp: first_packer_def)
  have "of_lzw_compress (Some inp) (int n) (Some out) b =
      (case lzw_finish inp n (put_code a s) of (r, o1, b1) \<Rightarrow> Some (r, Some o1, b1))"
    using s(1) n(1) by (simp add: of_lzw_compress_def first_packer_def Let_def split: prod.split)
  then show ?thesis using s that by blast
qed

end
