(* ===== verification/LzwDecode.thy ===== *)
theory LzwDecode
  imports LzwEncode
begin

text \<open>
  The decompressor. Its two buffers are read as a dictionary; one turn of its loop appends the
  spelling of the code it reads and adds one entry. On every input the prefix links decrease, so
  each chain ends; on the stream of the compressor the dictionary agrees with the compressor's.
\<close>

section \<open>The decoder's dictionary\<close>

definition view :: "nat \<Rightarrow> lzw \<Rightarrow> dict" where
  "view j b = map (\<lambda>i. (nat (lzwbuf3 b (256 + i)), word_of_int (lzwbuf2 b (256 + i)))) [0..<j]"

definition linked :: "nat \<Rightarrow> lzw \<Rightarrow> bool" where
  "linked j b \<longleftrightarrow> (\<forall>i<j. 0 \<le> lzwbuf3 b (256 + i) \<and> lzwbuf3 b (256 + i) < int (256 + i))"

lemma view_sel [simp]:
  "length (view j b) = j"
  "i < j \<Longrightarrow> view j b ! i = (nat (lzwbuf3 b (256 + i)), word_of_int (lzwbuf2 b (256 + i)))"
  by (simp_all add: view_def)

lemma view_wf: "linked j b \<Longrightarrow> wf_dict (view j b)"
  by (auto simp: linked_def wf_dict_def nat_less_iff)

lemma view_cong:
  assumes "lzwbuf2 b' = lzwbuf2 b" "\<And>i. i < j \<Longrightarrow> lzwbuf3 b' (256 + i) = lzwbuf3 b (256 + i)"
  shows "view j b' = view j b"
  by (simp add: view_def assms)

text \<open>The chain pushes the spelling of a code, last byte first.\<close>

definition stacked :: "nat \<Rightarrow> nat \<Rightarrow> (nat \<Rightarrow> u8) \<Rightarrow> u8 list" where
  "stacked l m st = rev (map st [l..<l + m])"

lemma stacked_Suc: "stacked l (Suc m) st = stacked (Suc l) m st @ [st l]"
  by (simp add: stacked_def upt_conv_Cons del: upt_Suc)

lemma chain_ok:
  assumes l: "linked j b" and j: "256 + j \<le> LZWBUFSZ" and d: "d < 256 + j" and r: "leng + (d - 255) \<le> LZWBUFSZ"
  shows "\<exists>p m b'. lzw_chain (int d) leng b = Some (int p, leng + m, b') \<and> p < 256 \<and>
     spell (view j b) d = of_nat p # stacked leng m (lzwbuf1 b') \<and>
     lzwbuf2 b' = lzwbuf2 b \<and> lzwbuf3 b' = lzwbuf3 b \<and> (\<forall>i<leng. lzwbuf1 b' i = lzwbuf1 b i)"
  using d l r
proof (induction d arbitrary: leng b rule: less_induct)
  case (less d)
  show ?case
  proof (cases "d < 256")
    case True
    then show ?thesis by (subst lzw_chain.simps) (auto simp: spell_byte stacked_def intro!: exI [of _ d] exI [of _ 0])
  next
    case False
    define i where "i = d - 256"
    then have d: "d = 256 + i" "i < j" using False less.prems(1) by auto
    let ?b = "put1 leng (word_of_int (lzwbuf2 b d)) b"
    obtain e where e: "lzwbuf3 b d = int e" "e < d"
    proof (rule that [of "nat (lzwbuf3 b d)"])
      have "0 \<le> lzwbuf3 b d \<and> lzwbuf3 b d < int d" using less.prems(2) d by (simp add: linked_def)
      then show "lzwbuf3 b d = int (nat (lzwbuf3 b d))" "nat (lzwbuf3 b d) < d" by auto
    qed
    have V: "view j ?b = view j b" by (rule view_cong) simp_all
    have "linked j ?b" using less.prems(2) by (simp add: linked_def)
    then obtain p m b' where ih: "lzw_chain (int e) (leng + 1) ?b = Some (int p, leng + 1 + m, b')" "p < 256"
      "spell (view j b) e = of_nat p # stacked (leng + 1) m (lzwbuf1 b')"
      "lzwbuf2 b' = lzwbuf2 b" "lzwbuf3 b' = lzwbuf3 b" "\<forall>i<leng + 1. lzwbuf1 b' i = lzwbuf1 ?b i"
    proof -
      have "e < 256 + j" "leng + 1 + (e - 255) \<le> LZWBUFSZ" using e(2) d less.prems(1,3) by simp_all
      from less.IH [OF e(2) this(1) \<open>linked j ?b\<close> this(2)] show ?thesis using that V by auto
    qed
    have "d < LZWBUFSZ" "leng < LZWBUFSZ" using d j less.prems(3) by simp_all
    then have "lzw_chain (int d) leng b = Some (int p, leng + Suc m, b')"
      by (subst lzw_chain.simps) (use False ih(1) e(1) in simp)
    moreover have "spell (view j b) d = of_nat p # stacked leng (Suc m) (lzwbuf1 b')"
      using spell_node [OF view_wf [OF less.prems(2)], of i] d ih(3,6) e(1)
      by (simp add: stacked_Suc)
    ultimately show ?thesis using ih by (intro exI [of _ p] exI [of _ "Suc m"] exI [of _ b']) auto
  qed
qed

lemma unwind_eq:
  "lzw_unwind k m st out = (\<lambda>x. if k \<le> x \<and> x < k + m then stacked 0 m st ! (x - k) else out x)"
proof (induction m arbitrary: k out)
  case (Suc m)
  have s: "stacked 0 (Suc m) st = st m # stacked 0 m st" by (simp add: stacked_def)
  show ?case unfolding lzw_unwind.simps Suc.IH s by (rule ext) (auto simp: nth_Cons')
qed (rule ext, auto)

definition append_at :: "nat \<Rightarrow> u8 list \<Rightarrow> area \<Rightarrow> area" where
  "append_at k bs out = (\<lambda>x. if k \<le> x \<and> x < k + length bs then bs ! (x - k) else out x)"

lemma append_at_append: "append_at (k + length as) bs (append_at k as out) = append_at k (as @ bs) out"
  by (rule ext) (auto simp: append_at_def nth_append)

section \<open>One turn of the loop\<close>

definition decoding :: "nat \<Rightarrow> unpacker \<Rightarrow> bool" where
  "decoding j s \<longleftrightarrow> currstr s = 256 + j \<and> rnumbits s = width j \<and> roneup s = 2 ^ width j \<and>
     linked j (rbufs s)"

lemma next_string_sel [simp]:
  "rbitcnt (next_string s) = rbitcnt s" "rout (next_string s) = rout s" "rbufs (next_string s) = rbufs s"
  "outbytecnt (next_string s) = outbytecnt s" "currstr (next_string s) = currstr s + 1"
  by (simp_all add: next_string_def Let_def)

lemma next_string_width:
  "currstr s = 256 + j \<Longrightarrow> rnumbits s = width j \<Longrightarrow> roneup s = 2 ^ width j \<Longrightarrow>
     rnumbits (next_string s) = width (Suc j) \<and> roneup (next_string s) = 2 ^ width (Suc j)"
  by (simp add: next_string_def Let_def)

lemma strings_step:
  assumes d: "decoding j s" and j: "256 + j < LZWBUFSZ"
    and c: "get_code inp s = (c, n)" and str: "str = spell (view j (rbufs s)) c"
  shows "\<exists>s1 p. lzw_strings inp strtot s =
       (if int (257 + j) < strtot then lzw_strings inp strtot s1 else Some s1) \<and>
     decoding (Suc j) s1 \<and> rbitcnt s1 = n \<and> p < 256 \<and> str \<noteq> [] \<and> of_nat p = hd str \<and>
     lzwbuf3 (rbufs s1) = (lzwbuf3 (rbufs s))(256 + j := int c) \<and>
     lzwbuf2 (rbufs s1) = (lzwbuf2 (rbufs s))(255 + j := int p, 256 + j := int p) \<and>
     outbytecnt s1 = outbytecnt s + length str \<and>
     rout s1 = append_at (outbytecnt s) str (rout s) \<and> c < 256 + j"
proof -
  have cur: "currstr s = 256 + j" "rnumbits s = width j" "roneup s = 2 ^ width j" and l: "linked j (rbufs s)"
    using d by (auto simp: decoding_def)
  have c': "c < 256 + j" using get_code_below [OF cur(3,1), of inp] c by simp
  have sh: "short (int c) = int c" using c' j by (simp add: LZWBUFSZ_def LZWSIZE_def)
  let ?b = "put3 (256 + j) (int c) (rbufs s)"
  have l': "linked j ?b" using l by (simp add: linked_def)
  have V: "view j ?b = view j (rbufs s)" by (rule view_cong) simp_all
  obtain p m b where ch: "lzw_chain (int c) 0 ?b = Some (int p, m, b)" "p < 256"
    "str = of_nat p # stacked 0 m (lzwbuf1 b)"
    "lzwbuf2 b = lzwbuf2 (rbufs s)" "lzwbuf3 b = (lzwbuf3 (rbufs s))(256 + j := int c)"
  proof -
    have "0 + (c - 255) \<le> LZWBUFSZ" "256 + j \<le> LZWBUFSZ" using j c' by simp_all
    from chain_ok [OF l' this(2) c' this(1)] show ?thesis using that V str sh by auto
  qed
  define s1 where "s1 = next_string (s\<lparr>rbitcnt := n,
      rout := lzw_unwind (outbytecnt s + 1) m (lzwbuf1 b) ((rout s)(outbytecnt s := word_of_int (int p))),
      outbytecnt := outbytecnt s + 1 + m,
      rbufs := put2 (256 + j) (int p) (put2 (256 + j - 1) (int p) b)\<rparr>)"
  have k1: "currstr s1 = 257 + j" by (simp add: s1_def cur)
  have st: "lzw_strings inp strtot s = (if int (257 + j) < strtot then lzw_strings inp strtot s1 else Some s1)"
    by (subst lzw_strings.simps) (use j cur(1) c ch(1) in \<open>simp add: Let_def s1_def\<close>)
  have p: "short (int p) = int p" using ch(2) by simp
  have len: "length str = Suc m" by (simp add: ch(3) stacked_def)
  have o: "rout s1 = append_at (outbytecnt s) str (rout s)"
    unfolding s1_def next_string_sel unpacker.select_convs unpacker.update_convs
    by (rule ext) (auto simp: unwind_eq append_at_def len ch(3) nth_Cons' stacked_def)
  have b: "lzwbuf3 (rbufs s1) = (lzwbuf3 (rbufs s))(256 + j := int c)"
     "lzwbuf2 (rbufs s1) = (lzwbuf2 (rbufs s))(255 + j := int p, 256 + j := int p)"
    by (simp_all add: s1_def ch(4,5) p)
  have "decoding (Suc j) s1"
  proof -
    have "linked (Suc j) (rbufs s1)" using l c' by (auto simp: linked_def b less_Suc_eq)
    moreover have "rnumbits s1 = width (Suc j) \<and> roneup s1 = 2 ^ width (Suc j)"
      unfolding s1_def by (rule next_string_width) (simp_all add: cur)
    ultimately show ?thesis using k1 by (simp add: decoding_def)
  qed
  moreover have "outbytecnt s1 = outbytecnt s + length str" "rbitcnt s1 = n"
    by (simp_all add: s1_def len)
  moreover have "str \<noteq> []" "of_nat p = hd str" by (simp_all add: ch(3))
  ultimately show ?thesis using st o b c' ch(2) by blast
qed

end
