(* ===== verification/LzwSpec.thy ===== *)
theory LzwSpec
  imports LzwDecode
begin

text \<open>
  What the LZW utility promises: decompression returns on exactly the inputs whose header fits the
  work buffers, compression of a block of at most \<open>LZWSIZE\<close> bytes returns and stays inside
  the cleared output area, and decompressing what compression wrote gives the block back.
\<close>

section \<open>The decoder on every input\<close>

lemma strings_None: "LZWBUFSZ \<le> currstr s \<Longrightarrow> lzw_strings inp strtot s = None"
  by (subst lzw_strings.simps) simp

lemma strings_total:
  assumes "decoding j s" "256 + j < LZWBUFSZ"
  shows "(lzw_strings inp strtot s \<noteq> None) = (strtot \<le> int LZWBUFSZ)"
  using assms
proof (induction "LZWBUFSZ - j" arbitrary: j s rule: less_induct)
  case less
  obtain c n where c: "get_code inp s = (c, n)" by fastforce
  obtain s1 where s1: "lzw_strings inp strtot s =
       (if int (257 + j) < strtot then lzw_strings inp strtot s1 else Some s1)" "decoding (Suc j) s1"
    using strings_step [OF less.prems c refl, of strtot] by blast
  show ?case
  proof (cases "int (257 + j) < strtot")
    case True
    show ?thesis
    proof (cases "257 + j < LZWBUFSZ")
      case in_buf: True
      then show ?thesis using less.hyps [OF _ s1(2)] s1(1) True by (simp del: of_nat_add)
    next
      case False
      then have "LZWBUFSZ \<le> currstr s1" using s1(2) by (simp add: decoding_def)
      then show ?thesis using s1(1) True False less.prems(2) strings_None by (simp add: not_le)
    qed
  next
    case False
    then show ?thesis using s1(1) less.prems(2) by simp
  qed
qed

definition first_unpacker :: "area \<Rightarrow> lzw \<Rightarrow> unpacker" where
  "first_unpacker out b =
     \<lparr>currstr = 256, rbitcnt = 32, rnumbits = 8, roneup = 256, outbytecnt = 0, rout = out,
      rbufs = b\<lparr>lzwbuf2 := (\<lambda>i. if i < 256 then int i else lzwbuf2 b i),
               lzwbuf3 := (\<lambda>i. if i < 256 then int i else lzwbuf3 b i)\<rparr>\<rparr>"

lemma decoding_start: "decoding 0 (first_unpacker out b)"
  by (simp add: decoding_def first_unpacker_def linked_def)

lemma uncompress_strings:
  "4 \<le> len \<Longrightarrow> read_le16 inp 2 \<noteq> 0 \<Longrightarrow> of_lzw_uncompress (Some inp) len (Some out) b =
     map_option (\<lambda>s. (read_le16 inp 0, Some (rout s), rbufs s))
       (lzw_strings inp (read_le16 inp 2) (first_unpacker out b))"
  by (simp add: of_lzw_uncompress_def first_unpacker_def Let_def map_conv_bind_option comp_def)

lemma uncompress_defined:
  "(of_lzw_uncompress (Some inp) len (Some out) b \<noteq> None) =
     (len < 4 \<or> (if read_le16 inp 2 = 0 then 0 \<le> read_le16 inp 0 else read_le16 inp 2 \<le> int LZWBUFSZ))"
proof (cases "len < 4 \<or> read_le16 inp 2 = 0")
  case True
  then show ?thesis by (auto simp: of_lzw_uncompress_def Let_def)
next
  case False
  then show ?thesis using strings_total [OF decoding_start, of inp "read_le16 inp 2" out b]
    by (simp add: uncompress_strings not_less LZWBUFSZ_def LZWSIZE_def)
qed

section \<open>The decoder on the compressor's stream\<close>

lemma spell_agree:
  assumes "wf_dict D" "wf_dict E" "take m D = take m E" "m \<le> length D" "m \<le> length E" "k < 256 + m"
  shows "spell D k = spell E k"
proof -
  have t: "spell F k = spell (take m F) k" if "wf_dict F" "m \<le> length F" for F
  proof -
    have "wf_dict (take m F)" using that by (auto simp: wf_dict_def)
    then have "spell (take m F @ drop m F) k = spell (take m F) k"
      using assms(6) that(2) by (intro spell_append) simp_all
    then show ?thesis by (simp only: append_take_drop_id)
  qed
  show ?thesis unfolding t [OF assms(1,4)] t [OF assms(2,5)] assms(3) ..
qed

definition agrees :: "dict \<Rightarrow> nat \<Rightarrow> lzw \<Rightarrow> bool" where
  "agrees D j b \<longleftrightarrow> (\<forall>i<j. lzwbuf3 b (256 + i) = int (fst (D ! i))) \<and>
     (\<forall>i. Suc i < j \<longrightarrow> word_of_int (lzwbuf2 b (256 + i)) = snd (D ! i)) \<and>
     (0 < j \<longrightarrow> word_of_int (lzwbuf2 b (255 + j)) = hd (spell D (fst (D ! (j - 1)))))"

lemma agrees_spell:
  assumes wf: "wf_dict D" and ch: "chained D (map fst D)" and j: "j < length D" and a: "agrees D j b"
  shows "spell (view j b) (fst (D ! j)) = spell D (fst (D ! j))"
proof -
  let ?V = "view j b" and ?c = "fst (D ! j)"
  have c: "?c < 256 + j" using wf j by (simp add: wf_dict_def)
  have lk: "linked j b" unfolding linked_def
  proof (intro allI impI)
    fix i assume i: "i < j"
    then have "lzwbuf3 b (256 + i) = int (fst (D ! i))" "fst (D ! i) < 256 + i"
      using a wf j by (simp_all add: agrees_def wf_dict_def)
    then show "0 \<le> lzwbuf3 b (256 + i) \<and> lzwbuf3 b (256 + i) < int (256 + i)" by simp
  qed
  note wV = view_wf [OF lk]
  have "take (j - 1) ?V = take (j - 1) D"
    using a j by (intro nth_equalityI) (auto simp: agrees_def prod_eq_iff)
  then have below: "spell ?V k = spell D k" if "k < 256 + (j - 1)" for k
    using that j by (intro spell_agree [OF wV wf, of "j - 1"]) auto
  show ?thesis
  proof (cases "?c < 256 + (j - 1)")
    case False
    then obtain i where i: "j = Suc i" "?c = 256 + i" using c by (cases j) auto
    let ?p = "fst (D ! i)"
    have p: "?p < 256 + i" using wf j i by (simp add: wf_dict_def)
    then have pV: "spell ?V ?p = spell D ?p" using below i by simp
    have V: "spell ?V ?c = spell D ?p @ [hd (spell D ?p)]"
      using spell_node [OF wV, of i] a pV i by (simp add: agrees_def)
    have D: "spell D ?c = spell D ?p @ [snd (D ! i)]" using spell_node [OF wf, of i] i j by simp
    have "snd (D ! i) = hd (spell D ?c)" using ch i j by (simp add: chained_def)
    moreover have "spell D ?p \<noteq> []" using p i j by (intro spell_nonempty [OF wf]) simp
    ultimately show ?thesis using V D by simp
  qed (rule below)
qed

definition decoded :: "dict \<Rightarrow> area \<Rightarrow> nat \<Rightarrow> unpacker \<Rightarrow> bool" where
  "decoded D out j s \<longleftrightarrow> decoding j s \<and> agrees D j (rbufs s) \<and>
     rbitcnt s = 32 + bitlen 0 (map fst (take j D)) \<and>
     (let text = concat (map (spell D) (map fst (take j D))) in
      outbytecnt s = length text \<and> rout s = append_at 0 text out)"

lemma stream_append:
  "stream p k j (xs @ ys) \<longleftrightarrow> stream p k j xs \<and> stream p (k + bitlen j xs) (j + length xs) ys"
  by (induction xs arbitrary: k j) (auto simp: add.assoc)

lemma stream_nth:
  assumes "stream p k 0 (map fst D)" "j < length D"
  shows "code_at p (k + bitlen 0 (map fst (take j D))) (code_len j (fst (D ! j))) (fst (D ! j))"
proof -
  have "map fst D = map fst (take j D) @ fst (D ! j) # map fst (drop (Suc j) D)"
    using assms(2) by (metis id_take_nth_drop list.simps(9) map_append)
  then show ?thesis using assms by (simp add: stream_append min_def)
qed

lemma decoded_step:
  assumes D: "wf_dict D" "chained D (map fst D)" "stream inp 32 0 (map fst D)"
    and j: "j < length D" "256 + length D \<le> LZWBUFSZ" and d: "decoded D out j s"
  shows "\<exists>s1. decoded D out (Suc j) s1 \<and> lzw_strings inp strtot s =
       (if int (257 + j) < strtot then lzw_strings inp strtot s1 else Some s1)"
proof -
  let ?c = "fst (D ! j)"
  have c: "?c < 256 + j" using D(1) j(1) by (simp add: wf_dict_def)
  have s: "decoding j s" and a: "agrees D j (rbufs s)"
    and r: "rbitcnt s = 32 + bitlen 0 (map fst (take j D))" using d by (auto simp: decoded_def)
  have g: "get_code inp s = (?c, rbitcnt s + code_len j ?c)"
  proof (rule get_code_exact)
    show "j < 2 ^ 16" using j by (simp add: LZWBUFSZ_def LZWSIZE_def)
  qed (use s c stream_nth [OF D(3) j(1)] r in \<open>simp_all add: decoding_def\<close>)
  have sp: "spell D ?c = spell (view j (rbufs s)) ?c" using agrees_spell [OF D(1,2) j(1) a] by simp
  have jb: "256 + j < LZWBUFSZ" using j by simp
  obtain s1 p where s1: "lzw_strings inp strtot s =
       (if int (257 + j) < strtot then lzw_strings inp strtot s1 else Some s1)"
     "decoding (Suc j) s1" "rbitcnt s1 = rbitcnt s + code_len j ?c" "p < 256" "spell D ?c \<noteq> []"
     "of_nat p = hd (spell D ?c)"
     "lzwbuf3 (rbufs s1) = (lzwbuf3 (rbufs s))(256 + j := int ?c)"
     "lzwbuf2 (rbufs s1) = (lzwbuf2 (rbufs s))(255 + j := int p, 256 + j := int p)"
     "outbytecnt s1 = outbytecnt s + length (spell D ?c)"
     "rout s1 = append_at (outbytecnt s) (spell D ?c) (rout s)"
    using strings_step [OF s jb g sp, of strtot] by blast
  have T: "take (Suc j) D = take j D @ [D ! j]" using j(1) by (rule take_Suc_conv_app_nth)
  have "agrees D (Suc j) (rbufs s1)"
    unfolding agrees_def
  proof (intro conjI allI impI)
    fix i assume "i < Suc j"
    then show "lzwbuf3 (rbufs s1) (256 + i) = int (fst (D ! i))"
      using a by (auto simp: agrees_def s1(7) less_Suc_eq)
  next
    fix i assume i: "Suc i < Suc j"
    show "word_of_int (lzwbuf2 (rbufs s1) (256 + i)) = snd (D ! i)"
    proof (cases "Suc i = j")
      case True
      then have "snd (D ! i) = hd (spell D ?c)" using D(2) j(1) by (auto simp: chained_def)
      then show ?thesis using True s1(6) by (auto simp: s1(8))
    next
      case False
      then show ?thesis using a i by (auto simp: agrees_def s1(8))
    qed
  qed (simp add: s1(6,8))
  then show ?thesis using s1(1-3,9,10) d append_at_append [of 0]
    by (intro exI [of _ s1]) (auto simp: decoded_def Let_def T bitlen_snoc min_absorb2 less_imp_le [OF j(1)] r)
qed

lemma strings_exact:
  assumes D: "wf_dict D" "chained D (map fst D)" "stream inp 32 0 (map fst D)" "256 + length D \<le> LZWBUFSZ"
    and "decoded D out j s" "j < length D"
  shows "\<exists>s1. lzw_strings inp (int (256 + length D)) s = Some s1 \<and> decoded D out (length D) s1"
  using assms(5,6)
proof (induction "length D - j" arbitrary: j s rule: less_induct)
  case less
  obtain s1 where s1: "decoded D out (Suc j) s1" "lzw_strings inp (int (256 + length D)) s =
       (if int (257 + j) < int (256 + length D) then lzw_strings inp (int (256 + length D)) s1 else Some s1)"
    using decoded_step [OF D(1-3) less.prems(2) D(4) less.prems(1)] by blast
  show ?case
  proof (cases "Suc j < length D")
    case True
    then show ?thesis using less.hyps [OF _ s1(1)] s1(2) by auto
  next
    case False
    then have "Suc j = length D" using less.prems(2) by simp
    then show ?thesis using s1 by auto
  qed
qed

section \<open>Headers and the whole call\<close>

lemma read_le16_value:
  assumes "0 \<le> v" "v < 32768" "p k = word_of_int v" "p (k + 1) = word_of_int (drop_bit 8 v)"
  shows "read_le16 p k = v"
proof -
  have "le16 (p k) (p (k + 1)) = take_bit 16 (word_of_int v)"
    unfolding assms(3,4)
    by (rule bit_word_eqI) (auto simp: bit_le16 bit_simps possible_bit_def)
  then have "(ucast (le16 (p k) (p (k + 1))) :: u16) = word_of_int v"
    by (simp only:) (rule bit_word_eqI, auto simp: bit_simps possible_bit_def)
  then show ?thesis using assms(1,2)
    by (simp add: read_le16_def sint_sbintrunc' signed_take_bit_int_eq_self)
qed

lemma write_le16_sel:
  "write_le16 k v p k = word_of_int v" "write_le16 k v p (k + 1) = word_of_int (drop_bit 8 v)"
  "i \<noteq> k \<Longrightarrow> i \<noteq> k + 1 \<Longrightarrow> write_le16 k v p i = p i"
  by (simp_all add: write_le16_def)

text \<open>The header and the body of a finished output area, as the decoder sees them.\<close>

lemma header_reads:
  assumes "\<And>i. i < 4 \<Longrightarrow> mem i = write_le16 2 v (write_le16 0 u p) i" "0 \<le> u" "u < 32768" "0 \<le> v" "v < 32768"
  shows "read_le16 mem 0 = u" "read_le16 mem 2 = v"
proof -
  show "read_le16 mem 0 = u" using assms(1) [of 0] assms(1) [of 1] assms(2,3)
    by (intro read_le16_value) (simp_all add: write_le16_def)
  show "read_le16 mem 2 = v" using assms(1) [of 2] assms(1) [of 3] assms(4,5)
    by (intro read_le16_value) (simp_all add: write_le16_def)
qed

lemma stream_in_memory:
  assumes e: "encoded inp n out D s" and a: "a < 256 + length D"
    and len: "bitcnt s + 7 \<le> 8 * m" and l: "length D < 2 ^ 16"
    and mem: "\<And>i. i < m \<Longrightarrow> 4 \<le> i \<Longrightarrow> mem i = outp (put_code a s) i"
  shows "stream mem 32 0 (map fst D)"
proof -
  have p: "packed (8 * room n) (map fst D) s" using e by (simp add: encoded_def)
  have "a < 2 ^ 24" using a l by simp
  note bits = put_code_bits [OF p this]
  have "stream mem 32 0 (map fst D) = stream (outp s) 32 0 (map fst D)"
  proof (rule stream_cong)
    fix i assume i: "32 \<le> i" "i < 32 + bitlen 0 (map fst D)"
    then have "i < bitcnt s" using p by (simp add: packed_def)
    moreover have "i div 8 < m" "4 \<le> i div 8" using i(1) calculation len by linarith+
    ultimately show "area_bit mem i = area_bit (outp s) i" using bits [of i] mem [of "i div 8"]
      by (simp add: area_bit_def)
  qed
  then show ?thesis using p by (simp add: packed_def)
qed

lemma encoded_size:
  assumes "encoded inp n out D s" "bytecnt s \<le> n" "n \<le> LZWSIZE"
  shows "length D \<le> 16384" "addrcnt s = 256 + length D" "wf_dict D" "chained D (map fst D)"
  using assms by (auto simp: encoded_def packed_def LZWSIZE_def dest: trieD(1))

lemma compress_roundtrip:
  assumes n: "0 < n" "n \<le> LZWSIZE"
  shows "\<exists>r o1 b1. of_lzw_compress (Some inp) (int n) (Some out) b = Some (r, Some o1, b1) \<and>
     4 \<le> r \<and> r \<le> int n + 4 \<and> (\<forall>i. room n \<le> i \<longrightarrow> o1 i = out i) \<and>
     (\<forall>mem dst c. (\<forall>i. int i < r \<longrightarrow> mem i = o1 i) \<longrightarrow>
        (\<exists>c1. of_lzw_uncompress (Some mem) r (Some dst) c =
           Some (int n, Some (\<lambda>i. if i < n then inp i else dst i), c1)))"
proof -
  obtain D s a where s: "encoded inp n out D s" "D \<noteq> []" "bytecnt s = n \<or> 8 * n \<le> bitcnt s"
    "bytecnt s \<le> n" "bitcnt s \<le> 8 * n + 49" "a < 256 + length D"
    and c: "of_lzw_compress (Some inp) (int n) (Some out) b =
       (case lzw_finish inp n (put_code a s) of (r, o1, b1) \<Rightarrow> Some (r, Some o1, b1))"
    using compress_ok [OF n, of inp out b] by metis
  note size = encoded_size [OF s(1,4) n(2)]
  let ?s = "put_code a s" and ?r = "(bitcnt (put_code a s) + 7) div 8"
  have p: "packed (8 * room n) (map fst D) s" and o: "\<And>i. room n \<le> i \<Longrightarrow> outp s i = out i"
    using s(1) by (auto simp: encoded_def)
  have bit: "bitcnt ?s = bitcnt s + code_len (length D) a" "32 \<le> bitcnt s"
    using put_code_bitcnt [OF p, of a] p by (simp_all add: packed_def)
  have frame: "outp ?s i = out i" if "room n \<le> i" for i
    using put_code_outside [of s i a] that s(5) room_bounds [of n] o [OF that] by simp
  have sn: "short (int n) = int n" "short (int (addrcnt s)) = int (256 + length D)"
    using n(2) size(1,2) short_nat [of "256 + length D"] by (simp_all add: LZWSIZE_def)
  have room: "n + 4 \<le> room n" "4 \<le> room n" using room_bounds [of n] by simp_all
  show ?thesis
  proof (cases "?r < n")
    case True
    let ?o = "write_le16 2 (int (256 + length D)) (write_le16 0 (int n) (outp ?s))"
    have full: "bytecnt s = n" using s(3) True bit(1) by linarith
    have r7: "bitcnt s + 7 \<le> 8 * ?r" using bit(1) code_len_ge [of "length D" a] by linarith
    have fin: "lzw_finish inp n ?s = (int ?r, ?o, bufs s)"
      using True sn by (simp add: lzw_finish_def Let_def)
    have dec: "\<exists>c1. of_lzw_uncompress (Some mem) (int ?r) (Some dst) c =
           Some (int n, Some (\<lambda>i. if i < n then inp i else dst i), c1)"
      if mem: "\<And>i. i < ?r \<Longrightarrow> mem i = ?o i" for mem dst c
    proof -
      have r4: "4 \<le> ?r" using r7 bit(2) by linarith
      have h: "read_le16 mem 0 = int n" "read_le16 mem 2 = int (256 + length D)"
      proof -
        have m: "mem i = ?o i" if "i < 4" for i using mem that r4 by simp
        show "read_le16 mem 0 = int n" "read_le16 mem 2 = int (256 + length D)"
          using header_reads [OF m] n(2) size(1) by (simp_all add: LZWSIZE_def)
      qed
      have st: "stream mem 32 0 (map fst D)"
        using size(1) mem by (intro stream_in_memory [OF s(1,6) r7]) (auto simp: write_le16_def)
      have d0: "decoded D dst 0 (first_unpacker dst c)"
        using decoding_start by (simp add: decoded_def agrees_def append_at_def) (simp add: first_unpacker_def)
      obtain s1 where s1: "lzw_strings mem (int (256 + length D)) (first_unpacker dst c) = Some s1"
        "decoded D dst (length D) s1"
        using strings_exact [OF size(3,4) st _ d0] size(1) s(2) by (auto simp: LZWBUFSZ_def LZWSIZE_def)
      have "rout s1 = append_at 0 (segment inp 0 n) dst"
        using s1(2) s(1) full by (simp add: decoded_def encoded_def Let_def)
      also have "\<dots> = (\<lambda>i. if i < n then inp i else dst i)" by (rule ext) (simp add: append_at_def)
      finally show ?thesis using uncompress_strings [of "int ?r" mem dst c] r4 h s1(1) by auto
    qed
    have "?o i = out i" if "room n \<le> i" for i
      using frame [OF that] that room by (simp add: write_le16_def)
    then show ?thesis using c fin dec True r7 bit(2) by fastforce
  next
    case False
    let ?o = "(\<lambda>i. if 4 \<le> i \<and> i < n + 4 then inp (i - 4) else write_le16 2 0 (write_le16 0 (int n) (outp ?s)) i)"
    have fin: "lzw_finish inp n ?s = (int n + 4, ?o, bufs s)"
      using False sn by (simp add: lzw_finish_def Let_def)
    have dec: "\<exists>c1. of_lzw_uncompress (Some mem) (int n + 4) (Some dst) c =
           Some (int n, Some (\<lambda>i. if i < n then inp i else dst i), c1)"
      if mem: "\<And>i. i < n + 4 \<Longrightarrow> mem i = ?o i" for mem dst c
    proof -
      have h: "read_le16 mem 0 = int n" "read_le16 mem 2 = 0"
      proof -
        have m: "mem i = write_le16 2 0 (write_le16 0 (int n) (outp ?s)) i" if "i < 4" for i
          using mem that by simp
        show "read_le16 mem 0 = int n" "read_le16 mem 2 = 0"
          using header_reads [OF m] n(2) by (simp_all add: LZWSIZE_def)
      qed
      have "mem (i + 4) = inp i" if "i < n" for i using mem [of "i + 4"] that by simp
      then have "(\<lambda>i. if i < n then mem (i + 4) else dst i) = (\<lambda>i. if i < n then inp i else dst i)" by auto
      then show ?thesis using h by (simp add: of_lzw_uncompress_def Let_def)
    qed
    have "?o i = out i" if "room n \<le> i" for i
      using frame [OF that] that room by (simp add: write_le16_def)
    then show ?thesis using c fin dec by fastforce
  qed
qed

section \<open>Properties\<close>

text \<open>
  C20: Decompressing what compression wrote gives the block back, for every block of 1 to
  \<open>LZWSIZE\<close> bytes and whatever the work buffers held: with the compressed bytes
  anywhere in memory, the decompressor returns the length of the block and writes the block and
  nothing else.
\<close>

theorem lzw_roundtrip:
  assumes "0 < n" and "n \<le> LZWSIZE"
  shows "\<exists>r o1 b1. of_lzw_compress (Some inp) (int n) (Some out) b = Some (r, Some o1, b1) \<and>
     (\<forall>mem dst c. (\<forall>i. int i < r \<longrightarrow> mem i = o1 i) \<longrightarrow>
        (\<exists>c1. of_lzw_uncompress (Some mem) r (Some dst) c =
           Some (int n, Some (\<lambda>i. if i < n then inp i else dst i), c1)))"
  using compress_roundtrip [OF assms, of inp out b] by blast

lemma lzw_roundtrip_witness:
  "\<exists>r o1 b1. of_lzw_compress (Some (\<lambda>i. of_nat (i mod 3))) (int 30) (Some (\<lambda>_. 0))
       \<lparr>lzwbuf1 = (\<lambda>_. 0), lzwbuf2 = (\<lambda>_. 0), lzwbuf3 = (\<lambda>_. 0)\<rparr> = Some (r, Some o1, b1) \<and>
     (\<forall>mem dst c. (\<forall>i. int i < r \<longrightarrow> mem i = o1 i) \<longrightarrow>
        (\<exists>c1. of_lzw_uncompress (Some mem) r (Some dst) c =
           Some (int 30, Some (\<lambda>i. if i < 30 then of_nat (i mod 3) else dst i), c1)))"
  by (rule lzw_roundtrip) (simp_all add: LZWSIZE_def)

text \<open>
  C21: Compression of 1 to \<open>LZWSIZE\<close> bytes returns, never writes a work buffer beyond
  its end, produces between 4 and \<open>in_len + 4\<close> bytes and leaves everything behind
  the cleared part of the output area, \<open>in_len + 15\<close> rounded up to a word, unchanged.
\<close>

theorem lzw_compress_bounds:
  assumes "0 < n" and "n \<le> LZWSIZE"
  shows "\<exists>r o1 b1. of_lzw_compress (Some inp) (int n) (Some out) b = Some (r, Some o1, b1) \<and>
     4 \<le> r \<and> r \<le> int n + 4 \<and> (\<forall>i. (n + 15 + 3) div 4 * 4 \<le> i \<longrightarrow> o1 i = out i)"
  using compress_roundtrip [OF assms, of inp out b] unfolding room_def by blast

lemma lzw_compress_bounds_witness:
  "\<exists>r o1 b1. of_lzw_compress (Some (\<lambda>_. 0x55)) (int 16384) (Some (\<lambda>_. 0))
       \<lparr>lzwbuf1 = (\<lambda>_. 0), lzwbuf2 = (\<lambda>_. 0), lzwbuf3 = (\<lambda>_. 0)\<rparr> = Some (r, Some o1, b1) \<and>
     4 \<le> r \<and> r \<le> int 16384 + 4 \<and> (\<forall>i. (16384 + 15 + 3) div 4 * 4 \<le> i \<longrightarrow> o1 i = (0 :: u8))"
  by (rule lzw_compress_bounds) (simp_all add: LZWSIZE_def)

text \<open>
  C22: Decompression returns, without writing a work buffer beyond its end, on exactly the inputs
  with a string count of at most \<open>LZWBUFSZ\<close> (or, for a stored block, a non-negative
  length): no code sequence makes the chain of prefixes loop, and a larger count in the header
  always overruns the buffers, because the code checks neither.
\<close>

theorem lzw_uncompress_returns:
  "(\<exists>r. of_lzw_uncompress (Some inp) len (Some out) b = Some r) =
     (if len < 4 then True
      else if read_le16 inp 2 = 0 then 0 \<le> read_le16 inp 0
      else read_le16 inp 2 \<le> int LZWBUFSZ)"
  using uncompress_defined [of inp len out b] by auto

end
