(* ===== verification/Disk.thy ===== *)
theory Disk
  imports Platform IoCache
begin

text \<open>
  The read side of the disk layer: the bus memory, with the uncached SDRAM window folded onto SDRAM;
  the dispatcher of \<open>hal/disk.c\<close> between the boot ROM's disk service and the bridge, with its late
  probe and its fallback; and the bridge backend of \<open>targets/pocket/file.c\<close>, which moves every chunk
  through the scratch window of CRAM0 (on the MiSTer the backend of that name stores straight to the
  destination). The boot service and the raw transfer of the bridge are the parameters: what they
  answer and the bytes they deliver, also before they fail. No asynchronous transfer is in flight, no
  idle hook runs, and the mode register of CRAM0 and cache maintenance have no effect on this memory.
\<close>

unbundle bit_operations_syntax

section \<open>The bus\<close>

definition canon :: "target \<Rightarrow> u32 \<Rightarrow> u32" where
  "canon T a = (if a - sdram_uncached_base T < sdram_size T
                then a - sdram_uncached_base T + sdram_base T else a)"

fun bus_store :: "target \<Rightarrow> u32 \<Rightarrow> u8 list \<Rightarrow> mem \<Rightarrow> mem" where
  "bus_store T a [] m = m"
| "bus_store T a (b # bs) m = bus_store T (a + 1) bs (m(canon T a := b))"

definition bus_bytes :: "target \<Rightarrow> u32 \<Rightarrow> nat \<Rightarrow> mem \<Rightarrow> u8 list" where
  "bus_bytes T a n m = map (\<lambda>i. m (canon T (a + of_nat i))) [0..<n]"

definition bus_load :: "target \<Rightarrow> u32 \<Rightarrow> mem \<Rightarrow> u32" where
  "bus_load T a m = le32 (m (canon T a)) (m (canon T (a + 1))) (m (canon T (a + 2))) (m (canon T (a + 3)))"

definition bus_word :: "u32 \<Rightarrow> u8 list" where
  "bus_word w = [byte_at 0 w, byte_at 1 w, byte_at 2 w, byte_at 3 w]"

section \<open>Backends\<close>

definition OF_ERR_NOT_SUPPORTED :: int where "OF_ERR_NOT_SUPPORTED = -2"
definition OS_BIN_SLOT_ID :: u32 where "OS_BIN_SLOT_ID = 1"

definition CRAM0_SCRATCH :: "target \<Rightarrow> u32" where
  "CRAM0_SCRATCH T = cram0_base T + cram0_scratch_offset T"

datatype backend = Disk_boot | Disk_bridge

text \<open>
  \<^verbatim>\<open>dev_read\<close>, of the driver record, is the boot ROM's service, \<^verbatim>\<open>raw_read\<close> the bridge transfer
  \<^verbatim>\<open>of_file_read_raw\<close>; both work on the state of the devices.
\<close>

record 'd disk = "'d driver" +
  raw_read :: "'d \<Rightarrow> u32 \<Rightarrow> u32 \<Rightarrow> nat \<Rightarrow> int \<times> u8 list \<times> 'd"
  boot_probe :: "'d \<Rightarrow> bool"
  bridge_probe :: "'d \<Rightarrow> bool"
  active_disk :: "backend option"
  bridge_warmed :: bool

type_synonym 'd bus = "'d disk \<times> mem"

section \<open>The bridge\<close>

text \<open>A destination is a bus address, or nothing for a structure on the kernel's stack.\<close>

definition put :: "target \<Rightarrow> u32 option \<Rightarrow> u32 \<Rightarrow> u8 list \<Rightarrow> mem \<Rightarrow> mem" where
  "put T dest k bs m = (case dest of None \<Rightarrow> m | Some a \<Rightarrow> bus_store T (a + k) bs m)"

definition direct_cram0 :: "target \<Rightarrow> u32 option \<Rightarrow> u32 \<Rightarrow> bool" where
  "direct_cram0 T dest n = (case dest of None \<Rightarrow> False
     | Some a \<Rightarrow> cram0_base T \<le> a \<and> n \<le> cram_size T \<and> a \<le> cram0_base T + cram_size T - n)"

lemma bridge_chunk:
  fixes rd n c :: u32
  assumes "rd < n" and "c \<noteq> 0"
  defines "chunk \<equiv> (if c < n - rd then c else n - rd)"
  shows "unat n - unat (rd + chunk) < unat n - unat rd" and "unat (rd + chunk) = unat rd + unat chunk"
    and "rd + chunk \<le> n" and "chunk \<le> c" and "0 < chunk"
proof -
  have "n - rd \<noteq> 0" using assms(1) by auto
  then have c: "chunk \<le> n - rd" "chunk \<noteq> 0" using assms(2) by (auto simp: chunk_def)
  from rd_progress [OF assms(1) c] show "unat n - unat (rd + chunk) < unat n - unat rd"
    "unat (rd + chunk) = unat rd + unat chunk" "rd + chunk \<le> n" .
  show "chunk \<le> c" "0 < chunk" using c(2) by (auto simp: chunk_def word_gt_0)
qed

text \<open>
  The chunk loop, for a transfer size other than 0 (the size is a positive constant of each target).
  A direct transfer lands in the destination; any other lands in the scratch window and is copied from
  there.
\<close>

function bridge_loop ::
  "target \<Rightarrow> u32 \<Rightarrow> u32 \<Rightarrow> u32 option \<Rightarrow> u32 \<Rightarrow> u32 \<Rightarrow> u8 list \<Rightarrow> 'd bus \<Rightarrow> int \<times> u8 list \<times> 'd bus" where
  "bridge_loop T slot off dest n rd out s =
     (if rd < n \<and> cram0_dma_chunk_size T \<noteq> 0 then
        let chunk = (if cram0_dma_chunk_size T < n - rd then cram0_dma_chunk_size T else n - rd);
            direct = direct_cram0 T dest n;
            bridge_addr = (if direct then the dest + rd else CRAM0_SCRATCH T)
        in (case raw_read (fst s) (dev (fst s)) slot (off + rd) (unat chunk) of (rc, bs, dv) \<Rightarrow>
          let d = (fst s)\<lparr>dev := dv\<rparr>; m = bus_store T bridge_addr bs (snd s) in
          if rc < 0 then (rc, out, d, m)
          else if direct then bridge_loop T slot off dest n (rd + chunk) (out @ bs) (d, m)
          else let cs = bus_bytes T (CRAM0_SCRATCH T) (unat chunk) m
            in bridge_loop T slot off dest n (rd + chunk) (out @ cs) (d, put T dest rd cs m))
      else (0, out, s))"
  by pat_completeness auto

termination
  by (relation "measure (\<lambda>(_, _, _, _, n, rd, _). unat n - unat rd)") (auto simp: Let_def bridge_chunk(1))

declare bridge_loop.simps [simp del]

text \<open>The first bridge read after boot is preceded by a warm-up: four bytes of the OS slot into the
  scratch window, then its trailer for a diagnostic.\<close>

definition bridge_warmup_once :: "target \<Rightarrow> 'd bus \<Rightarrow> 'd bus" where
  "bridge_warmup_once T s =
     (if bridge_warmed (fst s) then s
      else
        let s1 = snd (snd (bridge_loop T OS_BIN_SLOT_ID 0 (Some (CRAM0_SCRATCH T)) 4 0 [] s));
            os_size = of_file_size (fst s1) OS_BIN_SLOT_ID;
            s2 = (if 8 \<le> os_size
                  then snd (snd (bridge_loop T OS_BIN_SLOT_ID (word_of_int os_size - 8) None 8 0 [] s1)) else s1)
        in ((fst s2)\<lparr>bridge_warmed := True\<rparr>, snd s2))"

definition bridge_read_impl ::
  "target \<Rightarrow> u32 \<Rightarrow> u32 \<Rightarrow> u32 option \<Rightarrow> u32 \<Rightarrow> 'd bus \<Rightarrow> int \<times> u8 list \<times> 'd bus" where
  "bridge_read_impl T slot off dest n s =
     (if platform_id T = OF_PLATFORM_MISTER
      then case raw_read (fst s) (dev (fst s)) slot off (unat n) of (rc, bs, dv) \<Rightarrow>
        (rc, bs, (fst s)\<lparr>dev := dv\<rparr>, put T dest 0 bs (snd s))
      else bridge_loop T slot off dest n 0 [] (bridge_warmup_once T s))"

section \<open>The dispatcher\<close>

definition of_disk_init :: "'d disk \<Rightarrow> 'd disk" where
  "of_disk_init d =
     d\<lparr>active_disk := (if boot_probe d (dev d) then Some Disk_boot
                       else if bridge_probe d (dev d) then Some Disk_bridge else None)\<rparr>"

definition reprobe_if_unbound :: "'d disk \<Rightarrow> 'd disk" where
  "reprobe_if_unbound d = (if active_disk d = None then of_disk_init d else d)"

definition of_disk_read ::
  "target \<Rightarrow> u32 \<Rightarrow> u32 \<Rightarrow> u32 option \<Rightarrow> u32 \<Rightarrow> 'd bus \<Rightarrow> int \<times> u8 list \<times> 'd bus" where
  "of_disk_read T slot off dest n s =
     (let d = reprobe_if_unbound (fst s); m = snd s in
      case active_disk d of
        None \<Rightarrow> (OF_ERR_NOT_SUPPORTED, [], d, m)
      | Some Disk_bridge \<Rightarrow> bridge_read_impl T slot off dest n (d, m)
      | Some Disk_boot \<Rightarrow>
          (case dev_read d (dev d) slot off (unat n) of (rc, bs, dv) \<Rightarrow>
            let s1 = (d\<lparr>dev := dv\<rparr>, put T dest 0 bs m) in
            if rc < 0 then
              (case bridge_read_impl T slot off dest n s1 of (rc2, out, d2, m2) \<Rightarrow>
                 (rc2, out, if rc2 = 0 then d2\<lparr>active_disk := Some Disk_bridge\<rparr> else d2, m2))
            else (rc, bs, s1)))"

section \<open>Stores and what they leave alone\<close>

definition within :: "(u32 \<Rightarrow> bool) \<Rightarrow> mem \<Rightarrow> mem \<Rightarrow> bool" where
  "within P m m' \<longleftrightarrow> (\<forall>x. m' x \<noteq> m x \<longrightarrow> P x)"

lemma within_refl [simp, intro]: "within P m m"
  by (simp add: within_def)

lemma within_trans: "within P m m1 \<Longrightarrow> within P m1 m2 \<Longrightarrow> within P m m2"
  unfolding within_def by metis

lemma within_mono: "within P m m' \<Longrightarrow> (\<And>x. P x \<Longrightarrow> Q x) \<Longrightarrow> within Q m m'"
  by (auto simp: within_def)

lemma within_fold:
  assumes "\<And>x m. x \<in> set xs \<Longrightarrow> within P m (f x m)"
  shows "within P m (fold f xs m)"
  using assms
proof (induction xs arbitrary: m)
  case (Cons x xs)
  then show ?case using within_trans [of P m "f x m"] by simp
qed simp

definition span :: "target \<Rightarrow> u32 \<Rightarrow> nat \<Rightarrow> u32 \<Rightarrow> bool" where
  "span T a n x \<longleftrightarrow> (\<exists>i<n. x = canon T (a + of_nat i))"

lemma span_mono: "span T a n x \<Longrightarrow> n \<le> k \<Longrightarrow> span T a k x"
  unfolding span_def using order.strict_trans2 by blast

lemma span_part: "span T (a + of_nat k) n x \<Longrightarrow> k + n \<le> t \<Longrightarrow> span T a t x"
  unfolding span_def by (metis add.assoc add_mono_thms_linordered_field(4) group_cancel.add1 le_refl
      nat_add_left_cancel_less of_nat_add order.strict_trans2)

lemma bus_store_within: "within (span T a (length bs)) m (bus_store T a bs m)"
proof (induction bs arbitrary: a m)
  case (Cons b bs)
  have "within (span T a (Suc (length bs))) m (m(canon T a := b))"
    by (auto simp: within_def span_def intro!: exI [of _ 0])
  moreover have "within (span T a (Suc (length bs))) (m(canon T a := b)) (bus_store T (a + 1) bs (m(canon T a := b)))"
    by (rule within_mono [OF Cons.IH]) (use span_part [of T a 1 "length bs" _ "Suc (length bs)"] in simp)
  ultimately show ?case by (auto intro: within_trans)
qed simp

end
