(* ===== verification/Loader.thy ===== *)
theory Loader
  imports Disk Save "HOL-Library.Monad_Syntax"
begin

text \<open>
  The ELF loader of \<open>os/kernel/loader.c\<close>. Memory is the byte memory of the bus with the
  uncached SDRAM window folded onto SDRAM; the file is read through the disk layer of theory Disk.
  Loads that a broken chunk size would never finish are \<open>None\<close>; error codes are the negative integers
  of the code. Cache maintenance has no effect on this memory.
\<close>

unbundle bit_operations_syntax

section \<open>ELF structures\<close>

definition ET_EXEC :: u16 where "ET_EXEC = 2"
definition ET_DYN :: u16 where "ET_DYN = 3"
definition EM_RISCV :: u16 where "EM_RISCV = 243"
definition PT_LOAD :: u32 where "PT_LOAD = 1"
definition PT_DYNAMIC :: u32 where "PT_DYNAMIC = 2"
definition DT_NULL :: u32 where "DT_NULL = 0"
definition DT_RELA :: u32 where "DT_RELA = 7"
definition DT_RELASZ :: u32 where "DT_RELASZ = 8"
definition DT_RELAENT :: u32 where "DT_RELAENT = 9"
definition R_RISCV_RELATIVE :: u32 where "R_RISCV_RELATIVE = 3"

record elf_ehdr =
  e_ident :: "u8 list"
  e_type :: u16
  e_machine :: u16
  e_entry :: u32
  e_phoff :: u32
  e_phentsize :: u16
  e_phnum :: u16

record elf_phdr =
  p_type :: u32
  p_offset :: u32
  p_vaddr :: u32
  p_filesz :: u32
  p_memsz :: u32

record elf_rela =
  r_offset :: u32
  r_info :: u32
  r_addend :: u32

record elf_load_result =
  entry :: u32
  load_base :: u32
  res_bss_end :: u32
  stack_top :: u32

definition half_at :: "u8 list \<Rightarrow> nat \<Rightarrow> u16" where
  "half_at bs k = ucast (le16 (bs ! k) (bs ! (k + 1)))"

definition word_at :: "u8 list \<Rightarrow> nat \<Rightarrow> u32" where
  "word_at bs k = le32 (bs ! k) (bs ! (k + 1)) (bs ! (k + 2)) (bs ! (k + 3))"

definition ehdr_size :: u32 where "ehdr_size = 52"
definition phdr_size :: u32 where "phdr_size = 32"

definition ehdr_of :: "u8 list \<Rightarrow> elf_ehdr" where
  "ehdr_of bs = \<lparr>e_ident = take 16 bs, e_type = half_at bs 16, e_machine = half_at bs 18,
     e_entry = word_at bs 24, e_phoff = word_at bs 28, e_phentsize = half_at bs 42, e_phnum = half_at bs 44\<rparr>"

definition phdr_of :: "u8 list \<Rightarrow> elf_phdr" where
  "phdr_of bs = \<lparr>p_type = word_at bs 0, p_offset = word_at bs 4, p_vaddr = word_at bs 8,
     p_filesz = word_at bs 16, p_memsz = word_at bs 20\<rparr>"

section \<open>The app memory map\<close>

definition APP_VMAP_V1_BRAM_BASE :: u32 where "APP_VMAP_V1_BRAM_BASE = 0x4000"
definition APP_VMAP_V1_BRAM_END :: u32 where "APP_VMAP_V1_BRAM_END = 0x7800"
definition APP_VMAP_V1_SDRAM_BASE :: u32 where "APP_VMAP_V1_SDRAM_BASE = 0x10400000"

definition seg_in_app_vmap :: "target \<Rightarrow> u32 \<Rightarrow> u32 \<Rightarrow> bool" where
  "seg_in_app_vmap T vaddr memsz =
     (if memsz = 0 then True
      else if 0xFFFFFFFF - memsz < vaddr then False
      else let e = vaddr + memsz in
        if APP_VMAP_V1_BRAM_BASE \<le> vaddr \<and> e \<le> APP_VMAP_V1_BRAM_END then True
        else APP_VMAP_V1_SDRAM_BASE \<le> vaddr \<and> e \<le> app_static_end T)"

definition target_has_app_bram :: "target \<Rightarrow> bool" where
  "target_has_app_bram T \<longleftrightarrow>
     app_bram_base T \<le> APP_VMAP_V1_BRAM_BASE \<and> APP_VMAP_V1_BRAM_END \<le> app_bram_end T"

section \<open>Reading the file\<close>

definition of_file_read :: "target \<Rightarrow> u32 \<Rightarrow> u32 \<Rightarrow> u32 \<Rightarrow> u32 \<Rightarrow> 'd bus \<Rightarrow> int \<times> 'd bus" where
  "of_file_read T slot off dest n s = (case of_disk_read T slot off (Some dest) n s of (rc, bs, s1) \<Rightarrow> (rc, s1))"

text \<open>A read into a structure on the kernel stack.\<close>

definition elf_read :: "target \<Rightarrow> u32 \<Rightarrow> u32 \<Rightarrow> u32 \<Rightarrow> 'd bus \<Rightarrow> int \<times> u8 list \<times> 'd bus" where
  "elf_read T slot off n s =
     (if dma_chunk_size T < n then (-1, [], s) else of_disk_read T slot off None n s)"

partial_function (option) elf_copy_to_bram ::
  "target \<Rightarrow> u32 \<Rightarrow> u32 \<Rightarrow> u32 \<Rightarrow> u32 \<Rightarrow> u32 \<Rightarrow> 'd bus \<Rightarrow> (int \<times> 'd bus) option" where
  "elf_copy_to_bram T slot off dest n rd s =
     (if rd < n then
        let chunk = (if dma_chunk_size T < n - rd then dma_chunk_size T else n - rd) in
        (case of_file_read T slot (off + rd) (dest + rd) chunk s of (rc, s1) \<Rightarrow>
           if rc < 0 then Some (rc, s1) else elf_copy_to_bram T slot off dest n (rd + chunk) s1)
      else Some (0, s))"

partial_function (option) of_file_read_chunked ::
  "target \<Rightarrow> u32 \<Rightarrow> u32 \<Rightarrow> u32 \<Rightarrow> u32 \<Rightarrow> u32 \<Rightarrow> 'd bus \<Rightarrow> (int \<times> 'd bus) option" where
  "of_file_read_chunked T slot off dest n rd s =
     (if rd < n then
        let chunk = (if dma_chunk_size T < n - rd then dma_chunk_size T else n - rd) in
        (case of_file_read T slot (off + rd) (dest + rd) chunk s of (rc, s1) \<Rightarrow>
           if rc < 0 then Some (rc, s1) else of_file_read_chunked T slot off dest n (rd + chunk) s1)
      else Some (0, s))"

definition read_phdr :: "target \<Rightarrow> u32 \<Rightarrow> elf_ehdr \<Rightarrow> nat \<Rightarrow> 'd bus \<Rightarrow> int \<times> elf_phdr \<times> 'd bus" where
  "read_phdr T slot eh i s =
     (case elf_read T slot (e_phoff eh + of_nat i * ucast (e_phentsize eh)) phdr_size s of
        (rc, bs, s1) \<Rightarrow> (rc, phdr_of bs, s1))"

section \<open>Segments\<close>

record loading =
  bss_end :: u32
  dynamic_offset :: u32
  dynamic_size :: u32

definition zero_tail :: "target \<Rightarrow> u32 \<Rightarrow> elf_phdr \<Rightarrow> mem \<Rightarrow> mem" where
  "zero_tail T a ph m =
     (if p_filesz ph < p_memsz ph
      then bus_store T (a + p_filesz ph) (replicate (unat (p_memsz ph - p_filesz ph)) 0) m else m)"

definition load_bram_segment :: "target \<Rightarrow> u32 \<Rightarrow> elf_phdr \<Rightarrow> 'd bus \<Rightarrow> (int \<times> 'd bus) option" where
  "load_bram_segment T slot ph s =
     (if APP_VMAP_V1_BRAM_END - p_vaddr ph < p_memsz ph then Some (-7, s)
      else if \<not> target_has_app_bram T then Some (-8, s)
      else do {
        (rc, s1) \<leftarrow> (if 0 < p_filesz ph
                     then elf_copy_to_bram T slot (p_offset ph) (p_vaddr ph) (p_filesz ph) 0 s
                     else Some (0, s));
        Some (if rc < 0 then (-6, s1) else (0, fst s1, zero_tail T (p_vaddr ph) ph (snd s1)))
      })"

definition load_sdram_segment ::
  "target \<Rightarrow> u32 \<Rightarrow> u32 \<Rightarrow> elf_phdr \<Rightarrow> loading \<times> 'd bus \<Rightarrow> (int \<times> loading \<times> 'd bus) option" where
  "load_sdram_segment T slot base ph ls =
     (let l = fst ls; s = snd ls; seg_addr = base + p_vaddr ph in
      if seg_addr < base \<or> \<not> seg_in_app_vmap T seg_addr (p_memsz ph) then Some (-7, ls)
      else let seg_uc = seg_addr + (sdram_uncached_base T - sdram_base T) in do {
        (rc, s1) \<leftarrow> (if 0 < p_filesz ph
                     then of_file_read_chunked T slot (p_offset ph) seg_uc (p_filesz ph) 0 s
                     else Some (0, s));
        Some (if rc < 0 then (-6, l, s1)
          else let seg_end = seg_addr + p_memsz ph in
            (0, (if bss_end l < seg_end then l\<lparr>bss_end := seg_end\<rparr> else l),
             fst s1, zero_tail T seg_uc ph (snd s1)))
      })"

definition load_segment ::
  "target \<Rightarrow> u32 \<Rightarrow> elf_ehdr \<Rightarrow> u32 \<Rightarrow> elf_phdr \<Rightarrow> loading \<times> 'd bus \<Rightarrow> (int \<times> loading \<times> 'd bus) option" where
  "load_segment T slot eh base ph ls =
     (if p_type ph = PT_LOAD then
        if e_type eh \<noteq> ET_DYN \<and> \<not> seg_in_app_vmap T (p_vaddr ph) (p_memsz ph) then Some (-7, ls)
        else if APP_VMAP_V1_BRAM_BASE \<le> p_vaddr ph \<and> p_vaddr ph < APP_VMAP_V1_BRAM_END
        then map_option (\<lambda>(rc, s). (rc, fst ls, s)) (load_bram_segment T slot ph (snd ls))
        else load_sdram_segment T slot base ph ls
      else if p_type ph = PT_DYNAMIC
      then Some (0, (fst ls)\<lparr>dynamic_offset := p_offset ph, dynamic_size := p_filesz ph\<rparr>, snd ls)
      else Some (0, ls))"

fun load_segments ::
  "target \<Rightarrow> u32 \<Rightarrow> elf_ehdr \<Rightarrow> u32 \<Rightarrow> nat list \<Rightarrow> loading \<times> 'd bus \<Rightarrow> (int \<times> loading \<times> 'd bus) option" where
  "load_segments T slot eh base [] ls = Some (0, ls)"
| "load_segments T slot eh base (i # is) ls =
     (case read_phdr T slot eh i (snd ls) of (rc, ph, s) \<Rightarrow>
        if rc < 0 then Some (-5, fst ls, s)
        else do {
          (rc, ls1) \<leftarrow> load_segment T slot eh base ph (fst ls, s);
          if rc < 0 then Some (rc, ls1) else load_segments T slot eh base is ls1
        })"

text \<open>The base of an executable: the load address when its first segment is linked at 0.\<close>

fun first_load ::
  "target \<Rightarrow> u32 \<Rightarrow> elf_ehdr \<Rightarrow> u32 \<Rightarrow> nat list \<Rightarrow> 'd bus \<Rightarrow> (int + u32) \<times> 'd bus" where
  "first_load T slot eh load_addr [] s = (Inr 0, s)"
| "first_load T slot eh load_addr (i # is) s =
     (case read_phdr T slot eh i s of (rc, ph, s1) \<Rightarrow>
        if rc < 0 then (Inl (-5), s1)
        else if p_type ph = PT_LOAD then (Inr (if p_vaddr ph = 0 then load_addr else 0), s1)
        else first_load T slot eh load_addr is s1)"

section \<open>Relocations\<close>

fun find_dynamic ::
  "target \<Rightarrow> u32 \<Rightarrow> elf_ehdr \<Rightarrow> u32 \<Rightarrow> nat list \<Rightarrow> 'd bus \<Rightarrow> (int + u32) \<times> 'd bus" where
  "find_dynamic T slot eh vaddr [] s = (Inr vaddr, s)"
| "find_dynamic T slot eh vaddr (i # is) s =
     (case read_phdr T slot eh i s of (rc, ph, s1) \<Rightarrow>
        if rc < 0 then (Inl (-5), s1)
        else if p_type ph = PT_DYNAMIC then (Inr (p_vaddr ph), s1)
        else find_dynamic T slot eh vaddr is s1)"

record rela_info =
  rela_addr :: u32
  rela_size :: u32
  rela_ent :: u32

fun scan_dynamic :: "target \<Rightarrow> mem \<Rightarrow> u32 \<Rightarrow> nat list \<Rightarrow> rela_info \<Rightarrow> rela_info" where
  "scan_dynamic T m dyn [] r = r"
| "scan_dynamic T m dyn (i # is) r =
     (let d_tag = bus_load T (dyn + of_nat i * 8) m; d_val = bus_load T (dyn + of_nat i * 8 + 4) m in
      if d_tag = DT_NULL then r
      else scan_dynamic T m dyn is
        (if d_tag = DT_RELA then r\<lparr>rela_addr := d_val\<rparr>
         else if d_tag = DT_RELASZ then r\<lparr>rela_size := d_val\<rparr>
         else if d_tag = DT_RELAENT then r\<lparr>rela_ent := d_val\<rparr> else r))"

definition rela_at :: "target \<Rightarrow> mem \<Rightarrow> u32 \<Rightarrow> nat \<Rightarrow> elf_rela" where
  "rela_at T m rela i =
     (let a = rela + of_nat i * 12 in
      \<lparr>r_offset = bus_load T a m, r_info = bus_load T (a + 4) m, r_addend = bus_load T (a + 8) m\<rparr>)"

definition relocate :: "target \<Rightarrow> u32 \<Rightarrow> u32 \<Rightarrow> u32 \<Rightarrow> elf_rela \<Rightarrow> mem \<Rightarrow> mem" where
  "relocate T base img_lo img_hi r m =
     (if r_info r AND 0xFF = R_RISCV_RELATIVE then
        let tgt = base + r_offset r in
        if tgt < img_lo \<or> img_hi < tgt + 4 \<or> tgt < base then m
        else bus_store T tgt (bus_word (base + r_addend r)) m
      else m)"

definition process_rela ::
  "target \<Rightarrow> u32 \<Rightarrow> u32 \<Rightarrow> u32 \<Rightarrow> u32 \<Rightarrow> nat \<Rightarrow> mem \<Rightarrow> mem" where
  "process_rela T base img_lo img_hi rela n m =
     fold (\<lambda>i m. relocate T base img_lo img_hi (rela_at T m rela i) m) [0..<n] m"

definition apply_dynamic :: "target \<Rightarrow> u32 \<Rightarrow> u32 \<Rightarrow> u32 \<Rightarrow> u32 \<Rightarrow> mem \<Rightarrow> int \<times> mem" where
  "apply_dynamic T base img_hi dyn_vaddr dsize m =
     (let dyn_addr = base + dyn_vaddr in
      if dyn_addr < base \<or> img_hi - dyn_addr < dsize then (-9, m)
      else let r = scan_dynamic T m dyn_addr [0..<unat (dsize div 8)] \<lparr>rela_addr = 0, rela_size = 0, rela_ent = 0\<rparr> in
        if rela_addr r \<noteq> 0 \<and> rela_size r \<noteq> 0 \<and> rela_ent r = 12 then
          let rela_lo = base + rela_addr r in
          if base \<le> rela_lo \<and> rela_size r \<le> img_hi - rela_lo
          then (0, process_rela T base base img_hi rela_lo (unat (rela_size r div rela_ent r)) m)
          else (0, m)
        else (0, m))"

section \<open>Loading\<close>

definition elf_magic :: "u8 list" where "elf_magic = [0x7f, 0x45, 0x4c, 0x46]"

definition elf_finish :: "target \<Rightarrow> elf_ehdr \<Rightarrow> u32 \<Rightarrow> loading \<Rightarrow> elf_load_result" where
  "elf_finish T eh base l = \<lparr>entry = base + e_entry eh, load_base = base,
     res_bss_end = (bss_end l + 15) AND NOT 15, stack_top = app_stack_top T\<rparr>"

definition elf_relocate ::
  "target \<Rightarrow> u32 \<Rightarrow> elf_ehdr \<Rightarrow> u32 \<Rightarrow> loading \<times> 'd bus \<Rightarrow> int \<times> 'd bus" where
  "elf_relocate T slot eh base ls =
     (let l = fst ls; s = snd ls in
      if 0 < dynamic_size l \<and> e_type eh = ET_DYN then
        case find_dynamic T slot eh (dynamic_offset l) [0..<unat (e_phnum eh)] s of
          (Inl rc, s1) \<Rightarrow> (rc, s1)
        | (Inr vaddr, s1) \<Rightarrow>
            (case apply_dynamic T base (bss_end l) vaddr (dynamic_size l) (snd s1) of
               (rc, m) \<Rightarrow> (rc, fst s1, m))
      else (0, s))"

definition elf_load ::
  "target \<Rightarrow> u32 \<Rightarrow> u32 \<Rightarrow> 'd bus \<Rightarrow> ((int + elf_load_result) \<times> 'd bus) option" where
  "elf_load T slot load_addr s =
     (case elf_read T slot 0 ehdr_size s of (rc, bs, s1) \<Rightarrow>
        let eh = ehdr_of bs in
        if rc < 0 then Some (Inl (-1), s1)
        else if take 4 (e_ident eh) \<noteq> elf_magic then Some (Inl (-2), s1)
        else if e_machine eh \<noteq> EM_RISCV then Some (Inl (-3), s1)
        else if e_type eh \<noteq> ET_DYN \<and> e_type eh \<noteq> ET_EXEC then Some (Inl (-4), s1)
        else
          case (if e_type eh = ET_DYN then (Inr load_addr, s1)
                else first_load T slot eh load_addr [0..<unat (e_phnum eh)] s1) of
            (Inl rc, s2) \<Rightarrow> Some (Inl rc, s2)
          | (Inr base, s2) \<Rightarrow> do {
              (rc, l, s3) \<leftarrow> load_segments T slot eh base [0..<unat (e_phnum eh)]
                 (\<lparr>bss_end = 0, dynamic_offset = 0, dynamic_size = 0\<rparr>, s2);
              if rc < 0 then Some (Inl rc, s3)
              else case elf_relocate T slot eh base (l, s3) of (rc, s4) \<Rightarrow>
                Some (if rc < 0 then Inl rc else Inr (elf_finish T eh base l), s4)
            })"

section \<open>The initial stack\<close>

definition AT_NULL :: u32 where "AT_NULL = 0"
definition AT_PAGESZ :: u32 where "AT_PAGESZ = 6"
definition AT_HWCAP :: u32 where "AT_HWCAP = 16"
definition AT_RANDOM :: u32 where "AT_RANDOM = 25"
definition AT_OF_CAPS :: u32 where "AT_OF_CAPS = 0xC0DE0001"
definition AT_OF_SVC :: u32 where "AT_OF_SVC = 0xC0DE0002"

definition push :: "target \<Rightarrow> u32 \<Rightarrow> u32 \<times> mem \<Rightarrow> u32 \<times> mem" where
  "push T w s = (fst s - 4, bus_store T (fst s - 4) (bus_word w) (snd s))"

text \<open>What \<open>elf_exec\<close> leaves for the app before it jumps to the entry point: the stack
  pointer and the memory; the two table addresses are parameters.\<close>

definition elf_exec ::
  "target \<Rightarrow> u32 \<Rightarrow> u32 \<Rightarrow> elf_load_result \<Rightarrow> u32 list \<Rightarrow> mem \<Rightarrow> u32 \<times> mem" where
  "elf_exec T services_table caps_table res argv m =
     (let s = fold (push T) [0, AT_NULL, services_table, AT_OF_SVC, caps_table, AT_OF_CAPS,
                            0, AT_RANDOM, 0, AT_HWCAP, 4096, AT_PAGESZ, 0, 0] (stack_top res, m);
          s1 = fold (push T) (rev argv) s
      in push T (of_nat (length argv)) s1)"

end
