(* ===== verification/DiskSpec.thy ===== *)
theory DiskSpec
  imports Disk IoCacheInv
begin

text \<open>
  What the disk layer promises the loader, on every backend and across the fallback from the boot
  ROM's service to the bridge: a read that succeeds delivers the bytes of the slot, and any read
  changes memory only at its destination and in the scratch window of the bridge.
\<close>

section \<open>Devices and windows\<close>

text \<open>
  Both backends serve the file in the slot, and never store more than they were asked for; what a
  failing transfer stored before it failed is arbitrary.
\<close>

definition reads :: "u8 list \<Rightarrow> u32 \<Rightarrow> ('d, 'x) disk_scheme \<Rightarrow> bool" where
  "reads file slot d \<longleftrightarrow> (\<forall>f\<in>{dev_read d, raw_read d}. \<forall>dv i off n rc bs dv'. f dv i off n = (rc, bs, dv') \<longrightarrow>
     length bs \<le> n \<and> (i = slot \<and> 0 \<le> rc \<longrightarrow> length bs = n \<and> agrees file (unat off) bs))"

lemma reads_upd [simp]:
  "reads file slot (d\<lparr>dev := dv\<rparr>) = reads file slot d" "reads file slot (d\<lparr>active_disk := a\<rparr>) = reads file slot d"
  "reads file slot (d\<lparr>bridge_warmed := w\<rparr>) = reads file slot d"
  by (simp_all add: reads_def)

lemma readsD:
  assumes "reads file slot d" and "dev_read d dv i off n = (rc, bs, dv') \<or> raw_read d dv i off n = (rc, bs, dv')"
  shows "length bs \<le> n" and "i = slot \<Longrightarrow> 0 \<le> rc \<Longrightarrow> length bs = n" and "i = slot \<Longrightarrow> 0 \<le> rc \<Longrightarrow> agrees file (unat off) bs"
  using assms unfolding reads_def by blast+

definition scratch_window :: "target \<Rightarrow> u32 \<Rightarrow> bool" where
  "scratch_window T x \<longleftrightarrow> platform_id T \<noteq> OF_PLATFORM_MISTER \<and>
     unat (CRAM0_SCRATCH T) \<le> unat x \<and> unat x < unat (CRAM0_SCRATCH T) + unat (cram0_dma_chunk_size T)"

definition disk_target :: "target \<Rightarrow> bool" where
  "disk_target T \<longleftrightarrow> 52 \<le> unat (cram0_dma_chunk_size T) \<and>
     unat (CRAM0_SCRATCH T) + unat (cram0_dma_chunk_size T) \<le> unat (sdram_uncached_base T) \<and>
     unat (sdram_base T) + unat (sdram_size T) \<le> unat (sdram_uncached_base T) \<and>
     unat (sdram_uncached_base T) + unat (sdram_size T) < 2 ^ 32 \<and>
     (platform_id T \<noteq> OF_PLATFORM_MISTER \<longrightarrow>
        unat (sdram_base T) + unat (sdram_size T) \<le> unat (CRAM0_SCRATCH T) \<and>
        unat (sdram_base T) + unat (sdram_size T) \<le> unat (cram0_base T) \<and>
        unat (cram0_base T) + unat (cram_size T) \<le> unat (sdram_uncached_base T))"

lemma disk_targets: "T \<in> {pocket, mister, sim} \<Longrightarrow> disk_target T"
  by (auto simp: disk_target_def CRAM0_SCRATCH_def target_consts OF_PLATFORM_MISTER_def)

lemma canon_id: "unat x < unat (sdram_uncached_base T) \<Longrightarrow> unat (sdram_uncached_base T) + unat (sdram_size T) < 2 ^ 32 \<Longrightarrow> canon T x = x"
proof -
  assume a: "unat x < unat (sdram_uncached_base T)" "unat (sdram_uncached_base T) + unat (sdram_size T) < 2 ^ 32"
  then have "\<not> x - sdram_uncached_base T < sdram_size T" by (auto simp: word_less_nat_alt unat_sub_if')
  then show ?thesis by (simp add: canon_def)
qed

lemma unat_offset: "unat (a :: u32) + i < 2 ^ 32 \<Longrightarrow> unat (a + of_nat i) = unat a + i"
proof -
  assume a: "unat a + i < 2 ^ 32"
  then have i: "unat (of_nat i :: u32) = i" by (simp add: unat_of_nat take_bit_nat_eq_self)
  then show ?thesis using a by (simp add: unat_word_ariths)
qed

lemma span_scratch:
  assumes "disk_target T" "platform_id T \<noteq> OF_PLATFORM_MISTER" "n \<le> unat (cram0_dma_chunk_size T)"
    and "span T (CRAM0_SCRATCH T) n x"
  shows "scratch_window T x"
proof -
  obtain i where i: "i < n" "x = canon T (CRAM0_SCRATCH T + of_nat i)" using assms(4) by (auto simp: span_def)
  have lt: "unat (CRAM0_SCRATCH T) + i < unat (sdram_uncached_base T)" using assms(1,3) i(1) by (simp add: disk_target_def)
  then have u: "unat (CRAM0_SCRATCH T + of_nat i) = unat (CRAM0_SCRATCH T) + i"
    using unat_lt_2p32 [of "sdram_uncached_base T"] by (intro unat_offset) simp
  have "canon T (CRAM0_SCRATCH T + of_nat i) = CRAM0_SCRATCH T + of_nat i"
    using assms(1) lt u by (intro canon_id) (simp_all add: disk_target_def)
  then show ?thesis using i u assms(2,3) by (simp add: scratch_window_def)
qed

section \<open>Bytes on the bus\<close>

lemma length_bus_bytes [simp]: "length (bus_bytes T a n m) = n"
  by (simp add: bus_bytes_def)

lemma bus_bytes_cong:
  "(\<And>i. i < n \<Longrightarrow> m' (canon T (a + of_nat i)) = m (canon T (a + of_nat i))) \<Longrightarrow> bus_bytes T a n m' = bus_bytes T a n m"
  by (simp add: bus_bytes_def)

definition distinct_bus :: "target \<Rightarrow> u32 \<Rightarrow> nat \<Rightarrow> bool" where
  "distinct_bus T a n \<longleftrightarrow> inj_on (\<lambda>i. canon T (a + of_nat i)) {..<n}"

lemma distinct_busD:
  "distinct_bus T a n \<Longrightarrow> canon T (a + of_nat i) = canon T (a + of_nat j) \<Longrightarrow> i < n \<Longrightarrow> j < n \<Longrightarrow> i = j"
  by (auto simp: distinct_bus_def inj_on_def)

lemma distinct_bus_part: "distinct_bus T a n \<Longrightarrow> k + j \<le> n \<Longrightarrow> distinct_bus T (a + of_nat k) j"
proof -
  assume d: "distinct_bus T a n" and k: "k + j \<le> n"
  have "i = i'" if i: "i < j" "i' < j" "canon T (a + of_nat k + of_nat i) = canon T (a + of_nat k + of_nat i')" for i i'
  proof -
    have "canon T (a + of_nat (k + i)) = canon T (a + of_nat (k + i'))" using i(3) by (simp add: add.assoc)
    then have "k + i = k + i'" by (rule distinct_busD [OF d]) (use i k in simp_all)
    then show ?thesis by simp
  qed
  then show ?thesis by (auto simp: distinct_bus_def inj_on_def)
qed

lemma bus_store_outside: "\<not> span T a (length bs) x \<Longrightarrow> bus_store T a bs m x = m x"
  using bus_store_within [of T a bs m] by (auto simp: within_def)

lemma bus_store_at:
  "distinct_bus T a (length bs) \<Longrightarrow> j < length bs \<Longrightarrow> bus_store T a bs m (canon T (a + of_nat j)) = bs ! j"
proof (induction bs arbitrary: a j m)
  case (Cons b bs)
  have d: "distinct_bus T (a + 1) (length bs)" using distinct_bus_part [OF Cons.prems(1), of 1 "length bs"] by simp
  show ?case
  proof (cases j)
    case 0
    have "\<not> span T (a + 1) (length bs) (canon T a)"
    proof
      assume "span T (a + 1) (length bs) (canon T a)"
      then obtain i where i: "i < length bs" "canon T (a + of_nat 0) = canon T (a + of_nat (Suc i))"
        by (auto simp: span_def add.assoc)
      from distinct_busD [OF Cons.prems(1) i(2)] i(1) show False by simp
    qed
    then show ?thesis by (simp add: 0 bus_store_outside)
  next
    case (Suc k)
    then show ?thesis using Cons.IH [OF d, of k] Cons.prems(2) by (simp add: add.assoc)
  qed
qed simp

lemma bus_bytes_store:
  assumes "distinct_bus T a n" and "k + length bs \<le> n"
  shows "bus_bytes T a (k + length bs) (bus_store T (a + of_nat k) bs m) = bus_bytes T a k m @ bs"
proof (rule nth_equalityI)
  fix j
  assume "j < length (bus_bytes T a (k + length bs) (bus_store T (a + of_nat k) bs m))"
  then have j: "j < k + length bs" by simp
  show "bus_bytes T a (k + length bs) (bus_store T (a + of_nat k) bs m) ! j = (bus_bytes T a k m @ bs) ! j"
  proof (cases "j < k")
    case True
    have "\<not> span T (a + of_nat k) (length bs) (canon T (a + of_nat j))"
    proof
      assume "span T (a + of_nat k) (length bs) (canon T (a + of_nat j))"
      then obtain i where i: "i < length bs" "canon T (a + of_nat j) = canon T (a + of_nat (k + i))"
        by (auto simp: span_def add.assoc)
      from distinct_busD [OF assms(1) i(2)] i(1) True assms(2) show False by simp
    qed
    then show ?thesis using True j by (simp add: bus_bytes_def nth_append bus_store_outside)
  next
    case False
    then obtain i where i: "j = k + i" by (metis le_add_diff_inverse not_less)
    have "distinct_bus T (a + of_nat k) (length bs)" by (rule distinct_bus_part [OF assms])
    from bus_store_at [OF this, of i m] i j show ?thesis
      by (simp add: bus_bytes_def nth_append add.assoc)
  qed
qed simp

lemma scratch_distinct: "disk_target T \<Longrightarrow> distinct_bus T (CRAM0_SCRATCH T) (unat (cram0_dma_chunk_size T))"
  unfolding distinct_bus_def
proof (rule inj_onI)
  fix i j
  assume T: "disk_target T" and i: "i \<in> {..<unat (cram0_dma_chunk_size T)}" and j: "j \<in> {..<unat (cram0_dma_chunk_size T)}"
    and e: "canon T (CRAM0_SCRATCH T + of_nat i) = canon T (CRAM0_SCRATCH T + of_nat j)"
  have u: "unat (CRAM0_SCRATCH T + of_nat k) = unat (CRAM0_SCRATCH T) + k \<and>
      canon T (CRAM0_SCRATCH T + of_nat k) = CRAM0_SCRATCH T + of_nat k" if "k < unat (cram0_dma_chunk_size T)" for k
  proof -
    have lt: "unat (CRAM0_SCRATCH T) + k < unat (sdram_uncached_base T)" using T that by (simp add: disk_target_def)
    then have u: "unat (CRAM0_SCRATCH T + of_nat k) = unat (CRAM0_SCRATCH T) + k"
      using unat_lt_2p32 [of "sdram_uncached_base T"] by (intro unat_offset) simp
    then show ?thesis using T lt by (auto intro!: canon_id simp: disk_target_def)
  qed
  have "unat (CRAM0_SCRATCH T + of_nat i) = unat (CRAM0_SCRATCH T + of_nat j)" using e u i j by simp
  then show "i = j" using u i j by simp
qed

lemma scratch_bytes:
  assumes "disk_target T" and "length bs \<le> unat (cram0_dma_chunk_size T)"
  shows "bus_bytes T (CRAM0_SCRATCH T) (length bs) (bus_store T (CRAM0_SCRATCH T) bs m) = bs"
  using bus_bytes_store [OF scratch_distinct [OF assms(1)], of 0 bs m] assms(2) by (simp add: bus_bytes_def)

section \<open>The bridge\<close>

text \<open>Where a read to a destination may write.\<close>

definition read_area :: "target \<Rightarrow> u32 option \<Rightarrow> nat \<Rightarrow> u32 \<Rightarrow> bool" where
  "read_area T dest n x \<longleftrightarrow> scratch_window T x \<or> (\<exists>a. dest = Some a \<and> span T a n x)"

lemma put_within: "length bs \<le> n \<Longrightarrow> unat k + n \<le> t \<Longrightarrow> within (read_area T dest t) m (put T dest k bs m)"
proof (cases dest)
  case (Some a)
  assume n: "length bs \<le> n" "unat k + n \<le> t"
  have "within (span T (a + k) (length bs)) m (put T dest k bs m)" by (simp add: Some put_def bus_store_within)
  then show ?thesis
  proof (rule within_mono)
    fix x
    assume "span T (a + k) (length bs) x"
    then have "span T a t x" using span_part [of T a "unat k" "length bs" x t] n by simp
    then show "read_area T dest t x" by (simp add: read_area_def Some)
  qed
qed (simp add: put_def)

text \<open>One chunk of the bridge.\<close>

definition bridge_step ::
  "target \<Rightarrow> u32 \<Rightarrow> u32 \<Rightarrow> u32 option \<Rightarrow> u32 \<Rightarrow> u32 \<Rightarrow> u32 \<Rightarrow> 'd bus \<Rightarrow> int \<times> u8 list \<times> 'd bus" where
  "bridge_step T slot off dest n rd chunk s =
     (case raw_read (fst s) (dev (fst s)) slot (off + rd) (unat chunk) of (rc, bs, dv) \<Rightarrow>
        let d = (fst s)\<lparr>dev := dv\<rparr>;
            m = bus_store T (if direct_cram0 T dest n then the dest + rd else CRAM0_SCRATCH T) bs (snd s) in
        if rc < 0 then (rc, [], d, m)
        else if direct_cram0 T dest n then (0, bs, d, m)
        else let cs = bus_bytes T (CRAM0_SCRATCH T) (unat chunk) m in (0, cs, d, put T dest rd cs m))"

lemma bridge_loop_step:
  assumes "rd < n" and "cram0_dma_chunk_size T \<noteq> 0"
    and "chunk = (if cram0_dma_chunk_size T < n - rd then cram0_dma_chunk_size T else n - rd)"
  shows "bridge_loop T slot off dest n rd out s = (case bridge_step T slot off dest n rd chunk s of (rc, bs, s1) \<Rightarrow>
     if rc < 0 then (rc, out, s1) else bridge_loop T slot off dest n (rd + chunk) (out @ bs) s1)"
  using assms by (subst bridge_loop.simps) (auto simp: bridge_step_def Let_def split: prod.splits)

lemma bridge_step_ok:
  assumes T: "disk_target T" "platform_id T \<noteq> OF_PLATFORM_MISTER" and r: "reads file slot (fst s)"
    and c: "unat chunk \<le> unat (cram0_dma_chunk_size T)" "unat rd + unat chunk \<le> unat n"
    and q: "bridge_step T i off dest n rd chunk s = (rc, bs, s1)"
  shows "within (read_area T dest (unat n)) (snd s) (snd s1)" and "reads file slot (fst s1)"
    and "i = slot \<Longrightarrow> \<not> rc < 0 \<Longrightarrow> rc = 0 \<and> length bs = unat chunk \<and> agrees file (unat (off + rd)) bs \<and>
      (\<exists>m. within (scratch_window T) (snd s) m \<and> snd s1 = put T dest rd bs m)"
proof -
  obtain rw cs dv where w: "raw_read (fst s) (dev (fst s)) i (off + rd) (unat chunk) = (rw, cs, dv)" by (metis prod_cases3)
  note rd = readsD [OF r disjI2 [OF w]]
  let ?sc = "bus_store T (CRAM0_SCRATCH T) cs (snd s)"
  have sc: "within (scratch_window T) (snd s) ?sc"
    by (rule within_mono [OF bus_store_within]) (use span_scratch [OF T, of "length cs"] rd(1) c(1) in simp)
  then have sc': "within (read_area T dest (unat n)) (snd s) ?sc" by (rule within_mono) (simp add: read_area_def)
  have dir: "bus_store T (the dest + rd) cs (snd s) = put T dest rd cs (snd s)" if "direct_cram0 T dest n"
    using that by (simp add: direct_cram0_def put_def split: option.splits)
  have pd: "within (read_area T dest (unat n)) (snd s) (put T dest rd cs (snd s))"
    by (rule put_within [OF rd(1)]) (use c(2) in simp)
  have pb: "within (read_area T dest (unat n)) m (put T dest rd (bus_bytes T (CRAM0_SCRATCH T) (unat chunk) m) m)" for m
    by (rule put_within [of _ "unat chunk"]) (use c(2) in simp_all)
  show "within (read_area T dest (unat n)) (snd s) (snd s1)"
  proof (cases "direct_cram0 T dest n")
    case True
    then show ?thesis using q w dir pd by (auto simp: bridge_step_def Let_def split: if_splits)
  next
    case False
    then show ?thesis using q w sc' within_trans [OF sc' pb [of ?sc]] by (auto simp: bridge_step_def Let_def split: if_splits)
  qed
  show "reads file slot (fst s1)" using q w r by (auto simp: bridge_step_def Let_def split: if_splits)
  assume i: "i = slot" and ok: "\<not> rc < 0"
  have rw: "0 \<le> rw" using q w ok by (auto simp: bridge_step_def Let_def split: if_splits)
  have l: "length cs = unat chunk" "agrees file (unat (off + rd)) cs" using rd(2,3) i rw by simp_all
  have b: "bus_bytes T (CRAM0_SCRATCH T) (unat chunk) ?sc = cs" using scratch_bytes [OF T(1), of cs "snd s"] l(1) c(1) by simp
  show "rc = 0 \<and> length bs = unat chunk \<and> agrees file (unat (off + rd)) bs \<and>
      (\<exists>m. within (scratch_window T) (snd s) m \<and> snd s1 = put T dest rd bs m)"
  proof (cases "direct_cram0 T dest n")
    case True
    then have "rc = 0" "bs = cs" "snd s1 = put T dest rd cs (snd s)"
      using q w dir rw by (auto simp: bridge_step_def Let_def split: if_splits)
    then show ?thesis using l by auto
  next
    case False
    then have "rc = 0" "bs = cs" "snd s1 = put T dest rd cs ?sc"
      using q w rw b by (auto simp: bridge_step_def Let_def split: if_splits)
    then show ?thesis using l sc by auto
  qed
qed

text \<open>A destination on which no store of the scratch window shows.\<close>

definition clear_dest :: "target \<Rightarrow> u32 \<Rightarrow> nat \<Rightarrow> bool" where
  "clear_dest T a n \<longleftrightarrow> distinct_bus T a n \<and> (\<forall>i<n. \<not> scratch_window T (canon T (a + of_nat i)))"

lemma put_bytes:
  assumes "clear_dest T a n" and "unat k + length bs \<le> n" and "within (scratch_window T) m0 m"
  shows "bus_bytes T a (unat k + length bs) (put T (Some a) k bs m) = bus_bytes T a (unat k) m0 @ bs"
proof -
  have "bus_bytes T a (unat k) m = bus_bytes T a (unat k) m0"
    by (rule bus_bytes_cong) (use assms in \<open>auto simp: clear_dest_def within_def\<close>)
  then show ?thesis
    using bus_bytes_store [of T a n "unat k" bs m] assms(1,2) by (simp add: put_def clear_dest_def)
qed

definition landed_ok :: "target \<Rightarrow> u8 list \<Rightarrow> u32 \<Rightarrow> u32 option \<Rightarrow> u32 \<Rightarrow> u8 list \<Rightarrow> mem \<Rightarrow> bool" where
  "landed_ok T file off dest n out m \<longleftrightarrow> length out = unat n \<and> agrees file (unat off) out \<and>
     (\<forall>a. dest = Some a \<longrightarrow> bus_bytes T a (unat n) m = out)"

lemma bridge_loop_ok:
  assumes T: "disk_target T" "platform_id T \<noteq> OF_PLATFORM_MISTER" and r: "reads file slot (fst s)" and rd: "rd \<le> n"
    and q: "bridge_loop T i off dest n rd out s = (rc, bs, s1)"
  shows "within (read_area T dest (unat n)) (snd s) (snd s1)" and "reads file slot (fst s1)"
    and "i = slot \<Longrightarrow> \<not> rc < 0 \<Longrightarrow> (\<And>a. dest = Some a \<Longrightarrow> clear_dest T a (unat n)) \<Longrightarrow>
      rd = 0 \<and> n \<le> cram0_dma_chunk_size T \<or> rd = n \<or> unat off + unat n \<le> 2 ^ 32 \<Longrightarrow>
      landed_ok T file off dest rd out (snd s) \<Longrightarrow> rc = 0 \<and> landed_ok T file off dest n bs (snd s1)"
proof -
  have "within (read_area T dest (unat n)) (snd s) (snd s1) \<and> reads file slot (fst s1) \<and>
    (i = slot \<longrightarrow> \<not> rc < 0 \<longrightarrow> (\<forall>a. dest = Some a \<longrightarrow> clear_dest T a (unat n)) \<longrightarrow>
      rd = 0 \<and> n \<le> cram0_dma_chunk_size T \<or> rd = n \<or> unat off + unat n \<le> 2 ^ 32 \<longrightarrow>
      landed_ok T file off dest rd out (snd s) \<longrightarrow> rc = 0 \<and> landed_ok T file off dest n bs (snd s1))"
    using r rd q
  proof (induction "unat n - unat rd" arbitrary: rd out s rule: less_induct)
    case less
    have c0: "cram0_dma_chunk_size T \<noteq> 0" using T(1) by (auto simp: disk_target_def)
    show ?case
    proof (cases "rd < n")
      case False
      then have "bridge_loop T i off dest n rd out s = (0, out, s)" by (subst bridge_loop.simps) simp
      then have "rc = 0" "bs = out" "s1 = s" using less.prems(3) by auto
      moreover have "rd = n" using False less.prems(2) by simp
      ultimately show ?thesis using less.prems(1) by simp
    next
      case True
      define chunk where "chunk = (if cram0_dma_chunk_size T < n - rd then cram0_dma_chunk_size T else n - rd)"
      note ch = bridge_chunk [OF True c0, folded chunk_def]
      obtain rc1 cs s2 where st: "bridge_step T i off dest n rd chunk s = (rc1, cs, s2)" by (metis prod_cases3)
      have b: "unat chunk \<le> unat (cram0_dma_chunk_size T)" "unat rd + unat chunk \<le> unat n"
        using ch by (simp_all add: word_le_nat_alt)
      note ok = bridge_step_ok [OF T less.prems(1) b st]
      note run = less.prems(3) [unfolded bridge_loop_step [OF True c0 chunk_def], unfolded st prod.case]
      show ?thesis
      proof (cases "rc1 < 0")
        case True
        then show ?thesis using run ok(1,2) by simp
      next
        case False
        then have rec: "bridge_loop T i off dest n (rd + chunk) (out @ cs) s2 = (rc, bs, s1)" using run by simp
        note ih = less.hyps [OF ch(1) ok(2) ch(3) rec]
        have "rc = 0 \<and> landed_ok T file off dest n bs (snd s1)"
          if "i = slot" "\<not> rc < 0" "\<forall>a. dest = Some a \<longrightarrow> clear_dest T a (unat n)"
            "rd = 0 \<and> n \<le> cram0_dma_chunk_size T \<or> rd = n \<or> unat off + unat n \<le> 2 ^ 32"
            "landed_ok T file off dest rd out (snd s)"
        proof -
          note h = that and clear = that(3) and fine = that(5)
          obtain m where m: "length cs = unat chunk" "agrees file (unat (off + rd)) cs" "within (scratch_window T) (snd s) m"
            "snd s2 = put T dest rd cs m" using ok(3) [OF h(1) False] by blast
          have lt: "unat rd < unat n" using True by (simp add: word_less_nat_alt)
          have cur: "unat (off + rd) = unat off + unat rd"
          proof (cases "rd = 0")
            case False
            then have "unat off + unat rd < 2 ^ 32" using h(4) True lt by auto
            then show ?thesis by (simp add: unat_word_ariths)
          qed simp
          have fin: "rd + chunk = 0 \<and> n \<le> cram0_dma_chunk_size T \<or> rd + chunk = n \<or> unat off + unat n \<le> 2 ^ 32"
            using h(4) True by (auto simp: chunk_def)
          have bytes: "bus_bytes T a (unat rd + unat chunk) (snd s2) = out @ cs" if d: "dest = Some a" for a
            using put_bytes [OF _ _ m(3), of a "unat n" rd cs] clear fine d b(2) m(1,4) by (simp add: landed_ok_def)
          have "landed_ok T file off dest (rd + chunk) (out @ cs) (snd s2)"
            using h(5) m(1,2) bytes cur by (auto simp: landed_ok_def ch(2) intro!: agrees_append)
          then show ?thesis using ih h(1-3) fin by blast
        qed
        then show ?thesis using ih within_trans [OF ok(1)] by blast
      qed
    qed
  qed
  then show "within (read_area T dest (unat n)) (snd s) (snd s1)" "reads file slot (fst s1)"
    "i = slot \<Longrightarrow> \<not> rc < 0 \<Longrightarrow> (\<And>a. dest = Some a \<Longrightarrow> clear_dest T a (unat n)) \<Longrightarrow>
      rd = 0 \<and> n \<le> cram0_dma_chunk_size T \<or> rd = n \<or> unat off + unat n \<le> 2 ^ 32 \<Longrightarrow>
      landed_ok T file off dest rd out (snd s) \<Longrightarrow> rc = 0 \<and> landed_ok T file off dest n bs (snd s1)"
    by blast+
qed

lemma landed_start: "landed_ok T file off dest 0 [] m"
  by (simp add: landed_ok_def bus_bytes_def)

lemma warmup_ok:
  assumes T: "disk_target T" "platform_id T \<noteq> OF_PLATFORM_MISTER" and r: "reads file slot (fst s)"
  shows "within (scratch_window T) (snd s) (snd (bridge_warmup_once T s))" and "reads file slot (fst (bridge_warmup_once T s))"
proof -
  let ?i = "OS_BIN_SLOT_ID" and ?d = "Some (CRAM0_SCRATCH T)"
  obtain r1 b1 s1 where 1: "bridge_loop T ?i 0 ?d 4 0 [] s = (r1, b1, s1)" by (metis prod_cases3)
  obtain r2 b2 s2 where 2: "bridge_loop T ?i (word_of_int (of_file_size (fst s1) ?i) - 8) None 8 0 [] s1 = (r2, b2, s2)"
    by (metis prod_cases3)
  note ok1 = bridge_loop_ok [OF T r word_zero_le 1]
  note ok2 = bridge_loop_ok [OF T ok1(2) word_zero_le 2]
  have "4 \<le> unat (cram0_dma_chunk_size T)" using T(1) unfolding disk_target_def by linarith
  then have "scratch_window T x" if "read_area T ?d 4 x" for x
    using that span_scratch [OF T, of 4 x] by (auto simp: read_area_def)
  then have w1: "within (scratch_window T) (snd s) (snd s1)" by (intro within_mono [OF ok1(1)]) simp
  have "within (scratch_window T) (snd s1) (snd s2)"
    by (rule within_mono [OF ok2(1)]) (simp add: read_area_def)
  then have w2: "within (scratch_window T) (snd s) (snd s2)" by (rule within_trans [OF w1])
  show "within (scratch_window T) (snd s) (snd (bridge_warmup_once T s))" "reads file slot (fst (bridge_warmup_once T s))"
    using 1 2 r w1 w2 ok1(2) ok2(2) by (auto simp: bridge_warmup_once_def Let_def)
qed

definition settled :: "target \<Rightarrow> u32 \<Rightarrow> u32 option \<Rightarrow> u32 \<Rightarrow> bool" where
  "settled T off dest n \<longleftrightarrow> (\<forall>a. dest = Some a \<longrightarrow> clear_dest T a (unat n)) \<and>
     (n \<le> cram0_dma_chunk_size T \<or> unat off + unat n \<le> 2 ^ 32)"

text \<open>A transfer that stores straight to the destination.\<close>

lemma direct_ok:
  assumes r: "reads file slot d" and q: "dev_read d dv slot off (unat n) = (rc, bs, dv') \<or> raw_read d dv slot off (unat n) = (rc, bs, dv')"
  shows "within (read_area T dest (unat n)) m (put T dest 0 bs m)"
    and "0 \<le> rc \<Longrightarrow> settled T off dest n \<Longrightarrow> landed_ok T file off dest n bs (put T dest 0 bs m)"
proof -
  note rd = readsD [OF r q]
  show "within (read_area T dest (unat n)) m (put T dest 0 bs m)" by (rule put_within [OF rd(1)]) simp
  assume rc: "0 \<le> rc" and st: "settled T off dest n"
  have "bus_bytes T a (unat n) (put T dest 0 bs m) = bs" if "dest = Some a" for a
    using put_bytes [of T a "unat n" 0 bs m m] st that rd(2) [OF refl rc]
    by (simp add: settled_def bus_bytes_def)
  then show "landed_ok T file off dest n bs (put T dest 0 bs m)"
    using rd(2,3) [OF refl rc] by (simp add: landed_ok_def)
qed

lemma bridge_read_ok:
  assumes T: "disk_target T" and r: "reads file slot (fst s)" and q: "bridge_read_impl T slot off dest n s = (rc, bs, s1)"
  shows "within (read_area T dest (unat n)) (snd s) (snd s1)" and "reads file slot (fst s1)"
    and "0 \<le> rc \<Longrightarrow> settled T off dest n \<Longrightarrow> landed_ok T file off dest n bs (snd s1)"
proof -
  have "within (read_area T dest (unat n)) (snd s) (snd s1) \<and> reads file slot (fst s1) \<and>
    (0 \<le> rc \<longrightarrow> settled T off dest n \<longrightarrow> landed_ok T file off dest n bs (snd s1))"
  proof (cases "platform_id T = OF_PLATFORM_MISTER")
    case True
    obtain dv where w: "raw_read (fst s) (dev (fst s)) slot off (unat n) = (rc, bs, dv)"
      "s1 = ((fst s)\<lparr>dev := dv\<rparr>, put T dest 0 bs (snd s))"
      using q True by (auto simp: bridge_read_impl_def split: prod.splits)
    then show ?thesis using direct_ok [OF r disjI2 [OF w(1)]] r by simp
  next
    case False
    note wu = warmup_ok [OF T False r]
    have lp: "bridge_loop T slot off dest n 0 [] (bridge_warmup_once T s) = (rc, bs, s1)"
      using q False by (simp add: bridge_read_impl_def)
    note ok = bridge_loop_ok [OF T False wu(2) word_zero_le lp]
    have "within (read_area T dest (unat n)) (snd s) (snd (bridge_warmup_once T s))"
      by (rule within_mono [OF wu(1)]) (simp add: read_area_def)
    then have "within (read_area T dest (unat n)) (snd s) (snd s1)" using ok(1) by (rule within_trans)
    moreover have "landed_ok T file off dest n bs (snd s1)" if "0 \<le> rc" "settled T off dest n"
      using ok(3) that landed_start by (auto simp: settled_def not_less)
    ultimately show ?thesis using ok(2) by simp
  qed
  then show "within (read_area T dest (unat n)) (snd s) (snd s1)" "reads file slot (fst s1)"
    "0 \<le> rc \<Longrightarrow> settled T off dest n \<Longrightarrow> landed_ok T file off dest n bs (snd s1)" by blast+
qed

section \<open>The dispatcher\<close>

lemma reprobe_fields [simp]:
  "reads file slot (reprobe_if_unbound d) = reads file slot d" "dev (reprobe_if_unbound d) = dev d"
  "dev_read (reprobe_if_unbound d) = dev_read d"
  by (simp_all add: reprobe_if_unbound_def of_disk_init_def)

lemma disk_read_ok:
  assumes T: "disk_target T" and r: "reads file slot (fst s)" and q: "of_disk_read T slot off dest n s = (rc, bs, s1)"
  shows "within (read_area T dest (unat n)) (snd s) (snd s1)" and "reads file slot (fst s1)"
    and "0 \<le> rc \<Longrightarrow> settled T off dest n \<Longrightarrow> landed_ok T file off dest n bs (snd s1)"
proof -
  let ?d = "reprobe_if_unbound (fst s)" and ?m = "snd s"
  have rd: "reads file slot (fst (?d, ?m))" using r by simp
  have "within (read_area T dest (unat n)) ?m (snd s1) \<and> reads file slot (fst s1) \<and>
    (0 \<le> rc \<longrightarrow> settled T off dest n \<longrightarrow> landed_ok T file off dest n bs (snd s1))"
  proof (cases "active_disk ?d")
    case None
    then show ?thesis using q rd by (auto simp: of_disk_read_def Let_def OF_ERR_NOT_SUPPORTED_def)
  next
    case (Some b)
    show ?thesis
    proof (cases b)
      case Disk_bridge
      then have "bridge_read_impl T slot off dest n (?d, ?m) = (rc, bs, s1)"
        using q Some by (simp add: of_disk_read_def Let_def)
      from bridge_read_ok [OF T rd this] show ?thesis by simp
    next
      case Disk_boot
      obtain rc1 cs dv where w: "dev_read (fst s) (dev (fst s)) slot off (unat n) = (rc1, cs, dv)" by (metis prod_cases3)
      let ?s = "(?d\<lparr>dev := dv\<rparr>, put T dest 0 cs ?m)"
      have r2: "reads file slot (fst ?s)" using r by simp
      note dir = direct_ok [OF r disjI1 [OF w], of T dest "snd s"]
      show ?thesis
      proof (cases "rc1 < 0")
        case False
        then have "rc = rc1" "bs = cs" "s1 = ?s" using q Some Disk_boot w by (auto simp: of_disk_read_def Let_def)
        then show ?thesis using dir r2 False by simp
      next
        case True
        obtain rc2 out d2 m2 where b: "bridge_read_impl T slot off dest n ?s = (rc2, out, d2, m2)" by (metis surj_pair)
        note ok = bridge_read_ok [OF T r2 b]
        have "rc = rc2" "bs = out" "snd s1 = m2" "reads file slot (fst s1)"
          using q Some Disk_boot w True b ok(2) by (auto simp: of_disk_read_def Let_def split: if_splits)
        then show ?thesis using ok within_trans [OF dir(1)] by simp
      qed
    qed
  qed
  then show "within (read_area T dest (unat n)) (snd s) (snd s1)" "reads file slot (fst s1)"
    "0 \<le> rc \<Longrightarrow> settled T off dest n \<Longrightarrow> landed_ok T file off dest n bs (snd s1)" by blast+
qed

text \<open>A read keeps the devices' functions, and a bound backend stays bound.\<close>

definition same_devices :: "'d disk \<Rightarrow> 'd disk \<Rightarrow> bool" where
  "same_devices d d' \<longleftrightarrow> dev_read d' = dev_read d \<and> raw_read d' = raw_read d \<and> (active_disk d \<noteq> None \<longrightarrow> active_disk d' \<noteq> None)"

lemma same_devices_trans: "same_devices d e \<Longrightarrow> same_devices e f \<Longrightarrow> same_devices d f"
  by (simp add: same_devices_def)

lemma same_devices_upd [simp]:
  "same_devices d d" "same_devices d (d\<lparr>dev := dv\<rparr>)" "same_devices d (d\<lparr>bridge_warmed := w\<rparr>)"
  "same_devices d (d\<lparr>active_disk := Some b\<rparr>)" "same_devices d (reprobe_if_unbound d)"
  by (simp_all add: same_devices_def reprobe_if_unbound_def of_disk_init_def)

lemma bridge_loop_same: "bridge_loop T i off dest n rd out s = (rc, bs, s1) \<Longrightarrow> same_devices (fst s) (fst s1)"
proof (induction "unat n - unat rd" arbitrary: rd out s rule: less_induct)
  case less
  show ?case
  proof (cases "rd < n \<and> cram0_dma_chunk_size T \<noteq> 0")
    case False
    have "bridge_loop T i off dest n rd out s = (0, out, s)" by (subst bridge_loop.simps) (simp only: False if_False)
    then show ?thesis using less.prems by simp
  next
    case True
    define chunk where "chunk = (if cram0_dma_chunk_size T < n - rd then cram0_dma_chunk_size T else n - rd)"
    obtain rc1 cs s2 where st: "bridge_step T i off dest n rd chunk s = (rc1, cs, s2)" by (metis prod_cases3)
    have s2: "same_devices (fst s) (fst s2)"
      using st by (auto simp: bridge_step_def Let_def split: prod.splits if_splits)
    have lt: "unat n - unat (rd + chunk) < unat n - unat rd" using True bridge_chunk(1) [of rd n] by (simp add: chunk_def)
    show ?thesis
      using less.prems st s2 less.hyps [OF lt] same_devices_trans [OF s2]
      by (auto simp: bridge_loop_step [OF conjunct1 [OF True] conjunct2 [OF True] chunk_def] split: if_splits)
  qed
qed

lemma warmup_same: "same_devices (fst s) (fst (bridge_warmup_once T s))"
proof -
  let ?i = "OS_BIN_SLOT_ID" and ?d = "Some (CRAM0_SCRATCH T)"
  obtain r1 b1 s1 where 1: "bridge_loop T ?i 0 ?d 4 0 [] s = (r1, b1, s1)" by (metis prod_cases3)
  obtain r2 b2 s2 where 2: "bridge_loop T ?i (word_of_int (of_file_size (fst s1) ?i) - 8) None 8 0 [] s1 = (r2, b2, s2)"
    by (metis prod_cases3)
  note k1 = bridge_loop_same [OF 1] and k2 = same_devices_trans [OF bridge_loop_same [OF 1] bridge_loop_same [OF 2]]
  show ?thesis
    using 1 2 k1 k2 same_devices_trans [OF k1 same_devices_upd(3)] same_devices_trans [OF k2 same_devices_upd(3)]
    by (simp add: bridge_warmup_once_def Let_def)
qed

lemma bridge_read_same:
  assumes q: "bridge_read_impl T slot off dest n s = (rc, bs, s')"
  shows "same_devices (fst s) (fst s')"
proof (cases "platform_id T = OF_PLATFORM_MISTER")
  case True
  then show ?thesis using q by (auto simp: bridge_read_impl_def split: prod.splits)
next
  case False
  then have "bridge_loop T slot off dest n 0 [] (bridge_warmup_once T s) = (rc, bs, s')"
    using q by (simp add: bridge_read_impl_def)
  from same_devices_trans [OF warmup_same bridge_loop_same [OF this]] show ?thesis .
qed

text \<open>
  A read fails only when the bridge transfer does or no backend answers: a failing boot service is made
  up for. Over backends that never fail, one of them bound, no read fails.
\<close>

definition bridge_serves :: "u32 \<Rightarrow> 'd disk \<Rightarrow> bool" where
  "bridge_serves i d \<longleftrightarrow> (\<forall>dv off n. 0 \<le> fst (raw_read d dv i off n))"

lemma bridge_serves_same: "bridge_serves i d \<Longrightarrow> same_devices d d' \<Longrightarrow> bridge_serves i d'"
  by (simp add: bridge_serves_def same_devices_def)

definition steady :: "'d disk \<Rightarrow> bool" where
  "steady d \<longleftrightarrow> (\<forall>dv i off n. 0 \<le> fst (dev_read d dv i off n) \<and> 0 \<le> fst (raw_read d dv i off n)) \<and> active_disk d \<noteq> None"

lemma steady_same: "steady d \<Longrightarrow> same_devices d d' \<Longrightarrow> steady d'"
  by (auto simp: steady_def same_devices_def)

lemma served_loop: "bridge_loop T i off dest n rd out s = (rc, bs, s') \<Longrightarrow> bridge_serves i (fst s) \<Longrightarrow> rc = 0"
proof (induction "unat n - unat rd" arbitrary: rd out s rule: less_induct)
  case less
  show ?case
  proof (cases "rd < n \<and> cram0_dma_chunk_size T \<noteq> 0")
    case False
    have "bridge_loop T i off dest n rd out s = (0, out, s)" by (subst bridge_loop.simps) (simp only: False if_False)
    then show ?thesis using less.prems by simp
  next
    case True
    define chunk where "chunk = (if cram0_dma_chunk_size T < n - rd then cram0_dma_chunk_size T else n - rd)"
    obtain rc1 cs s2 where st: "bridge_step T i off dest n rd chunk s = (rc1, cs, s2)" by (metis prod_cases3)
    obtain rw ds dv where w: "raw_read (fst s) (dev (fst s)) i (off + rd) (unat chunk) = (rw, ds, dv)" by (metis prod_cases3)
    have "0 \<le> rw" using less.prems(2) w unfolding bridge_serves_def by (metis fst_conv)
    then have rc1: "rc1 = 0" and s2: "same_devices (fst s) (fst s2)"
      using st w by (auto simp: bridge_step_def Let_def split: if_splits)
    have lt: "unat n - unat (rd + chunk) < unat n - unat rd" using True bridge_chunk(1) [of rd n] by (simp add: chunk_def)
    have "bridge_loop T i off dest n (rd + chunk) (out @ cs) s2 = (rc, bs, s')"
      using less.prems(1) st rc1 by (simp add: bridge_loop_step [OF conjunct1 [OF True] conjunct2 [OF True] chunk_def])
    from less.hyps [OF lt this bridge_serves_same [OF less.prems(2) s2]] show ?thesis .
  qed
qed

lemma served_bridge_read:
  assumes "bridge_serves slot (fst s)" and "bridge_read_impl T slot off dest n s = (rc, bs, s')"
  shows "0 \<le> rc" and "platform_id T \<noteq> OF_PLATFORM_MISTER \<Longrightarrow> rc = 0"
proof -
  show z: "rc = 0" if m: "platform_id T \<noteq> OF_PLATFORM_MISTER"
  proof -
    have "bridge_loop T slot off dest n 0 [] (bridge_warmup_once T s) = (rc, bs, s')"
      using assms(2) m by (simp add: bridge_read_impl_def)
    from served_loop [OF this bridge_serves_same [OF assms(1) warmup_same]] show ?thesis .
  qed
  show "0 \<le> rc"
  proof (cases "platform_id T = OF_PLATFORM_MISTER")
    case True
    then show ?thesis using assms unfolding bridge_serves_def bridge_read_impl_def
      by (metis (mono_tags, lifting) case_prod_beta fst_conv)
  qed (use z in simp)
qed

lemma served_read:
  assumes "bridge_serves slot (fst s)"
    and "active_disk (fst s) \<noteq> None \<or> boot_probe (fst s) (dev (fst s)) \<or> bridge_probe (fst s) (dev (fst s))"
    and "of_disk_read T slot off dest n s = (rc, bs, s')"
  shows "0 \<le> rc"
proof -
  let ?d = "reprobe_if_unbound (fst s)"
  have d: "bridge_serves slot ?d"
    using assms(1) by (simp add: bridge_serves_def reprobe_if_unbound_def of_disk_init_def)
  have "active_disk ?d \<noteq> None" using assms(2) by (auto simp add: reprobe_if_unbound_def of_disk_init_def)
  then obtain b where b: "active_disk ?d = Some b" by blast
  show ?thesis
  proof (cases b)
    case Disk_bridge
    then have "bridge_read_impl T slot off dest n (?d, snd s) = (rc, bs, s')" using assms(3) b by (simp add: of_disk_read_def Let_def)
    then show ?thesis using served_bridge_read(1) [of slot "(?d, snd s)"] d by simp
  next
    case Disk_boot
    obtain rc1 cs dv where w: "dev_read ?d (dev ?d) slot off (unat n) = (rc1, cs, dv)" by (metis prod_cases3)
    let ?s = "(?d\<lparr>dev := dv\<rparr>, put T dest 0 cs (snd s))"
    obtain rc2 out d2 m2 where br: "bridge_read_impl T slot off dest n ?s = (rc2, out, d2, m2)" by (metis surj_pair)
    have "bridge_serves slot (fst ?s)" using d by (simp add: bridge_serves_def)
    from served_bridge_read(1) [OF this br] show ?thesis
      using assms(3) b Disk_boot w br by (auto simp: of_disk_read_def Let_def split: if_splits)
  qed
qed

lemma steady_read:
  assumes st: "steady (fst s)" and q: "of_disk_read T slot off dest n s = (rc, bs, s')"
  shows "0 \<le> rc" and "steady (fst s')"
proof -
  have d: "reprobe_if_unbound (fst s) = fst s" using st by (auto simp: steady_def reprobe_if_unbound_def)
  obtain b where b: "active_disk (fst s) = Some b" using st by (auto simp: steady_def)
  have "0 \<le> rc \<and> steady (fst s')"
  proof (cases b)
    case Disk_boot
    obtain rc1 cs dv where w: "dev_read (fst s) (dev (fst s)) slot off (unat n) = (rc1, cs, dv)" by (metis prod_cases3)
    have "0 \<le> rc1" using st w unfolding steady_def by (metis fst_conv)
    then have "rc = rc1" "s' = ((fst s)\<lparr>dev := dv\<rparr>, put T dest 0 cs (snd s))"
      using q d b Disk_boot w by (auto simp: of_disk_read_def Let_def)
    then show ?thesis using \<open>0 \<le> rc1\<close> st by (simp add: steady_def)
  next
    case Disk_bridge
    then have br: "bridge_read_impl T slot off dest n s = (rc, bs, s')"
      using q d b by (simp add: of_disk_read_def Let_def)
    have "bridge_serves slot (fst s)" using st by (simp add: steady_def bridge_serves_def)
    from served_bridge_read(1) [OF this br] have "0 \<le> rc" .
    then show ?thesis using steady_same [OF st bridge_read_same [OF br]] by simp
  qed
  then show "0 \<le> rc" "steady (fst s')" by blast+
qed

section \<open>Destinations in SDRAM\<close>

definition in_sdram :: "target \<Rightarrow> u32 \<Rightarrow> nat \<Rightarrow> bool" where
  "in_sdram T a n \<longleftrightarrow>
     unat (sdram_base T) \<le> unat a \<and> unat a + n \<le> unat (sdram_base T) + unat (sdram_size T) \<or>
     unat (sdram_uncached_base T) \<le> unat a \<and> unat a + n \<le> unat (sdram_uncached_base T) + unat (sdram_size T)"

lemma canon_in_sdram:
  assumes T: "disk_target T" and a: "in_sdram T a n" and i: "i < n"
  shows "unat (canon T (a + of_nat i)) = unat (sdram_base T) + i +
    (if unat (sdram_uncached_base T) \<le> unat a then unat a - unat (sdram_uncached_base T) else unat a - unat (sdram_base T))"
    and "unat (canon T (a + of_nat i)) < unat (sdram_base T) + unat (sdram_size T)"
proof -
  note t = T [unfolded disk_target_def]
  have u: "unat (a + of_nat i) = unat a + i" using t a i by (intro unat_offset) (auto simp: in_sdram_def)
  have "unat (canon T (a + of_nat i)) = unat (sdram_base T) + i +
    (if unat (sdram_uncached_base T) \<le> unat a then unat a - unat (sdram_uncached_base T) else unat a - unat (sdram_base T)) \<and>
    unat (canon T (a + of_nat i)) < unat (sdram_base T) + unat (sdram_size T)"
  proof (cases "unat (sdram_uncached_base T) \<le> unat a")
    case True
    then have al: "unat a + i < unat (sdram_uncached_base T) + unat (sdram_size T)" using t a i by (auto simp: in_sdram_def)
    have d: "unat (a + of_nat i - sdram_uncached_base T) = unat a + i - unat (sdram_uncached_base T)"
      using True u by (simp add: unat_sub word_le_nat_alt)
    have "a + of_nat i - sdram_uncached_base T < sdram_size T"
      unfolding word_less_nat_alt d using al True by linarith
    then have c: "canon T (a + of_nat i) = (a + of_nat i - sdram_uncached_base T) + sdram_base T"
      by (simp add: canon_def)
    have "unat (canon T (a + of_nat i)) = unat a + i - unat (sdram_uncached_base T) + unat (sdram_base T)"
    proof -
      have "unat a + i - unat (sdram_uncached_base T) + unat (sdram_base T) < 2 ^ 32"
        using al t True by linarith
      then show ?thesis unfolding c unat_word_ariths d by simp
    qed
    then show ?thesis using True al by simp arith
  next
    case False
    then have al: "unat (sdram_base T) \<le> unat a" "unat a + i < unat (sdram_base T) + unat (sdram_size T)"
      using a i by (auto simp: in_sdram_def)
    then have "canon T (a + of_nat i) = a + of_nat i" using t u by (intro canon_id) simp_all
    then show ?thesis using False al u by simp
  qed
  then show "unat (canon T (a + of_nat i)) = unat (sdram_base T) + i +
    (if unat (sdram_uncached_base T) \<le> unat a then unat a - unat (sdram_uncached_base T) else unat a - unat (sdram_base T))"
    "unat (canon T (a + of_nat i)) < unat (sdram_base T) + unat (sdram_size T)" by blast+
qed

lemma sdram_clear:
  assumes T: "disk_target T" and a: "in_sdram T a n"
  shows "clear_dest T a n"
proof -
  have "i = j" if "i < n" "j < n" "canon T (a + of_nat i) = canon T (a + of_nat j)" for i j
  proof -
    let ?o = "if unat (sdram_uncached_base T) \<le> unat a then unat a - unat (sdram_uncached_base T) else unat a - unat (sdram_base T)"
    have "unat (sdram_base T) + i + ?o = unat (sdram_base T) + j + ?o"
      unfolding canon_in_sdram(1) [OF T a that(1), symmetric] canon_in_sdram(1) [OF T a that(2), symmetric] that(3) ..
    then show ?thesis by simp
  qed
  moreover have "\<not> scratch_window T (canon T (a + of_nat i))" if "i < n" for i
  proof
    assume "scratch_window T (canon T (a + of_nat i))"
    then have "platform_id T \<noteq> OF_PLATFORM_MISTER" "unat (CRAM0_SCRATCH T) \<le> unat (canon T (a + of_nat i))"
      unfolding scratch_window_def by blast+
    moreover have "platform_id T \<noteq> OF_PLATFORM_MISTER \<Longrightarrow> unat (sdram_base T) + unat (sdram_size T) \<le> unat (CRAM0_SCRATCH T)"
      using T by (simp add: disk_target_def)
    ultimately show False using canon_in_sdram(2) [OF T a that] by linarith
  qed
  ultimately show ?thesis by (auto simp: clear_dest_def distinct_bus_def inj_on_def)
qed

section \<open>Properties\<close>

text \<open>
  C33: A disk read into SDRAM (through either window) that succeeds has put exactly the requested bytes
  of the slot there, whether the boot ROM's service or the bridge served it, also when the service
  failed half-way and the bridge took over, and also through the scratch window of CRAM0 and on the
  first read, which warms the bridge up. It fails only if the bridge transfer does or no backend answers
  the probe. Whatever its result, a read changes memory only at its destination and, on the Pocket and
  the simulator, in the scratch window.
\<close>

theorem disk_read_exact:
  assumes "T \<in> {pocket, mister, sim}" and "reads file slot d" and "in_sdram T a (unat n)"
    and "unat off + unat n \<le> length file" and "length file \<le> 2 ^ 32"
    and "of_disk_read T slot off (Some a) n (d, m) = (rc, bs, d', m')"
  shows "(0 \<le> rc \<longrightarrow> bus_bytes T a (unat n) m' = take (unat n) (drop (unat off) file)) \<and>
    (bridge_serves slot d \<and> (active_disk d \<noteq> None \<or> boot_probe d (dev d) \<or> bridge_probe d (dev d)) \<longrightarrow> 0 \<le> rc) \<and>
    (\<forall>x. m' x \<noteq> m x \<longrightarrow> span T a (unat n) x \<or> scratch_window T x)"
proof -
  have T: "disk_target T" by (rule disk_targets [OF assms(1)])
  have "reads file slot (fst (d, m))" using assms(2) by simp
  note ok = disk_read_ok [OF T this assms(6)]
  have st: "settled T off (Some a) n" using sdram_clear [OF T assms(3)] assms(4,5) by (simp add: settled_def)
  have "bus_bytes T a (unat n) m' = take (unat n) (drop (unat off) file)" if "0 \<le> rc"
    using ok(3) [OF that st] agrees_exact [of _ "unat off" bs] assms(4) by (simp add: landed_ok_def)
  moreover have "span T a (unat n) x \<or> scratch_window T x" if "m' x \<noteq> m x" for x
    using ok(1) that by (auto simp: within_def read_area_def)
  moreover have "0 \<le> rc" if "bridge_serves slot d" "active_disk d \<noteq> None \<or> boot_probe d (dev d) \<or> bridge_probe d (dev d)"
    using served_read [of slot "(d, m)" T off "Some a" n] that assms(6) by simp
  ultimately show ?thesis by blast
qed

text \<open>A boot service that stores one byte and fails, and a bridge that serves the file.\<close>

definition demo_disk :: "u8 list \<Rightarrow> unit disk" where
  "demo_disk file = \<lparr>dev = (), dev_read = (\<lambda>dv slot off n. (-13, take n [0xEE], dv)), dev_size = (\<lambda>_. 0),
     raw_read = (\<lambda>dv slot off n. (0, take n (drop (unat off) file @ replicate n 0), dv)),
     boot_probe = (\<lambda>_. True), bridge_probe = (\<lambda>_. True), active_disk = None, bridge_warmed = False\<rparr>"

lemma demo_disk_reads: "reads file slot (demo_disk file)"
  by (auto simp: reads_def demo_disk_def agrees_def nth_append)

theorem disk_read_exact_witness:
  "case of_disk_read pocket 3 1 (Some 0x50400000) 3 (demo_disk [1, 2, 3, 4, 5], \<lambda>_. 0) of (rc, bs, d', m') \<Rightarrow>
     0 \<le> rc \<and> bus_bytes pocket 0x50400000 3 m' = [2, 3, 4]"
proof -
  obtain rc bs d' m' where r: "of_disk_read pocket 3 1 (Some 0x50400000) 3 (demo_disk [1, 2, 3, 4, 5], \<lambda>_. 0) = (rc, bs, d', m')"
    by (metis surj_pair)
  let ?d = "demo_disk [1, 2, 3, 4, 5]"
  have "bridge_serves 3 ?d" "boot_probe ?d (dev ?d)" by (simp_all add: bridge_serves_def demo_disk_def)
  moreover have "(0 \<le> rc \<longrightarrow> bus_bytes pocket 0x50400000 (unat (3 :: u32)) m' = take (unat (3 :: u32)) (drop (unat (1 :: u32)) [1, 2, 3, 4, 5])) \<and>
    (bridge_serves 3 ?d \<and> (active_disk ?d \<noteq> None \<or> boot_probe ?d (dev ?d) \<or> bridge_probe ?d (dev ?d)) \<longrightarrow> 0 \<le> rc) \<and>
    (\<forall>x. m' x \<noteq> (\<lambda>_. 0 :: u8) x \<longrightarrow> span pocket 0x50400000 (unat (3 :: u32)) x \<or> scratch_window pocket x)"
    by (rule disk_read_exact [OF _ demo_disk_reads _ _ _ r]) (simp_all add: in_sdram_def pocket_def)
  ultimately have "0 \<le> rc" "0 \<le> rc \<longrightarrow> bus_bytes pocket 0x50400000 3 m' = [2, 3, 4]" by simp_all
  then show ?thesis unfolding r by simp
qed

end
