(* ===== verification/LoaderInv.thy ===== *)
theory LoaderInv
  imports Loader DiskSpec
begin

text \<open>
  What the loader writes. Every store goes through \<open>bus_store\<close>; the lemmas follow the
  addresses from one chunk to the whole file and show which of them lie in the app windows.
\<close>

section \<open>Targets\<close>

definition loader_target :: "target \<Rightarrow> bool" where
  "loader_target T \<longleftrightarrow> disk_target T \<and>
     sdram_base T \<le> APP_VMAP_V1_SDRAM_BASE \<and> app_static_end T \<le> sdram_base T + (sdram_size T - 1) \<and>
     sdram_base T \<le> sdram_base T + (sdram_size T - 1) \<and> 0 < sdram_size T \<and>
     sdram_base T + (sdram_size T - 1) < sdram_uncached_base T \<and> APP_VMAP_V1_BRAM_END \<le> sdram_uncached_base T \<and>
     sdram_uncached_base T \<le> sdram_uncached_base T + (sdram_size T - 1) \<and>
     sdram_uncached_base T + (sdram_size T - 1) < 0xFFFFFFFC \<and>
     APP_VMAP_V1_SDRAM_BASE \<le> app_static_end T \<and> 0 < dma_chunk_size T"

lemma loader_targets: "T \<in> {pocket, mister, sim} \<Longrightarrow> loader_target T"
  using disk_targets [of T]
  by (auto simp: loader_target_def app_static_end_def pocket_def mister_def sim_def
      APP_VMAP_V1_SDRAM_BASE_def APP_VMAP_V1_BRAM_END_def)

lemma before_window:
  fixes x u s :: u32
  assumes "x < u" "u \<le> u + (s - 1)"
  shows "\<not> x - u < s"
  using assms by unat_arith

lemma canon_below: "loader_target T \<Longrightarrow> x < sdram_uncached_base T \<Longrightarrow> canon T x = x"
  using before_window [of x "sdram_uncached_base T" "sdram_size T"] by (simp add: canon_def loader_target_def)

definition app_bram_window :: "u32 \<Rightarrow> bool" where
  "app_bram_window x \<longleftrightarrow> APP_VMAP_V1_BRAM_BASE \<le> x \<and> x < APP_VMAP_V1_BRAM_END"

definition app_sdram_window :: "target \<Rightarrow> u32 \<Rightarrow> bool" where
  "app_sdram_window T x \<longleftrightarrow> APP_VMAP_V1_SDRAM_BASE \<le> x \<and> x < app_static_end T"

abbreviation app_window :: "target \<Rightarrow> u32 \<Rightarrow> bool" where
  "app_window T x \<equiv> app_bram_window x \<or> app_sdram_window T x"

text \<open>What a load may write: the app windows, and the scratch window that a bridge read uses.\<close>

definition load_window :: "target \<Rightarrow> u32 \<Rightarrow> bool" where
  "load_window T x \<longleftrightarrow> app_window T x \<or> scratch_window T x"

lemma canon_bram: "loader_target T \<Longrightarrow> app_bram_window x \<Longrightarrow> canon T x = x"
  by (rule canon_below) (auto simp: loader_target_def app_bram_window_def)

lemma canon_sdram: "loader_target T \<Longrightarrow> app_sdram_window T x \<Longrightarrow> canon T x = x"
  by (rule canon_below) (auto simp: loader_target_def app_sdram_window_def)

lemma canon_alias:
  assumes "loader_target T" "app_sdram_window T x"
  shows "canon T (x + (sdram_uncached_base T - sdram_base T)) = x"
proof -
  have "sdram_base T \<le> x" "x \<le> sdram_base T + (sdram_size T - 1)" "0 < sdram_size T"
    using assms by (auto simp: loader_target_def app_sdram_window_def)
  then have "x - sdram_base T < sdram_size T" by unat_arith
  then show ?thesis by (simp add: canon_def algebra_simps)
qed

section \<open>Reading\<close>

definition chunk_area :: "target \<Rightarrow> u32 \<Rightarrow> nat \<Rightarrow> u32 \<Rightarrow> bool" where
  "chunk_area T a n x \<longleftrightarrow> span T a n x \<or> scratch_window T x"

lemma file_read_within:
  assumes "disk_target T" "reads file slot (fst s)" "of_file_read T slot off dest n s = (rc, s1)"
  shows "within (chunk_area T dest (unat n)) (snd s) (snd s1)" "reads file slot (fst s1)"
proof -
  obtain bs where q: "of_disk_read T slot off (Some dest) n s = (rc, bs, s1)"
    using assms(3) by (auto simp: of_file_read_def split: prod.splits)
  note ok = disk_read_ok [OF assms(1,2) q]
  show "within (chunk_area T dest (unat n)) (snd s) (snd s1)"
    by (rule within_mono [OF ok(1)]) (auto simp: read_area_def chunk_area_def)
  show "reads file slot (fst s1)" by (rule ok(2))
qed

text \<open>Both chunked reads are instances of one loop.\<close>

lemma chunks_within:
  assumes f: "\<And>rd s. f rd s = (if rd < n then
        let chunk = (if dma_chunk_size T < n - rd then dma_chunk_size T else n - rd) in
        (case of_file_read T slot (off + rd) (dest + rd) chunk s of (rc, s1) \<Rightarrow>
           if rc < 0 then Some (rc, s1) else f (rd + chunk) s1)
      else Some (0 :: int, s))"
    and T: "loader_target T" and r: "reads file slot (fst s)" and rd: "rd \<le> n"
  shows "\<exists>rc s1. f rd s = Some (rc, s1) \<and> within (chunk_area T dest (unat n)) (snd s) (snd s1) \<and> reads file slot (fst s1)"
proof -
  have dt: "disk_target T" using T by (simp add: loader_target_def)
  show ?thesis
  using r rd
proof (induction "unat n - unat rd" arbitrary: rd s rule: less_induct)
  case less
  show ?case
  proof (cases "rd < n")
    case True
    define chunk where "chunk = (if dma_chunk_size T < n - rd then dma_chunk_size T else n - rd)"
    have c: "0 < chunk" "unat chunk \<le> unat n - unat rd"
    proof -
      have "0 < n - rd" using True by (auto simp: word_gt_0)
      then show "0 < chunk" using T by (auto simp: chunk_def loader_target_def)
      have "unat (n - rd) = unat n - unat rd" using True by (simp add: unat_sub)
      then show "unat chunk \<le> unat n - unat rd" by (auto simp: chunk_def word_less_nat_alt)
    qed
    have le: "unat rd < unat n" using True by (simp add: word_less_nat_alt)
    have sum: "unat (rd + chunk) = unat rd + unat chunk"
      using c(2) le unat_lt_2p32 [of n] by (intro unat_add_lem [THEN iffD1]) simp
    obtain rc s1 where q: "of_file_read T slot (off + rd) (dest + rd) chunk s = (rc, s1)" by (metis surj_pair)
    note q' = file_read_within [OF dt less.prems(1) q]
    have w: "within (chunk_area T dest (unat n)) (snd s) (snd s1)"
      by (rule within_mono [OF q'(1)])
        (use span_part [of T dest "unat rd" "unat chunk" _ "unat n"] c(2) le in \<open>auto simp: chunk_area_def\<close>)
    have step: "f rd s = (if rc < 0 then Some (rc, s1) else f (rd + chunk) s1)"
      by (subst f) (simp add: True q flip: chunk_def)
    show ?thesis
    proof (cases "rc < 0")
      case True
      then show ?thesis using step w q'(2) by simp
    next
      case False
      have "rd + chunk \<le> n" using sum c(2) le by (simp add: word_le_nat_alt)
      moreover have "unat n - unat (rd + chunk) < unat n - unat rd"
        using sum c le by (simp add: word_less_nat_alt)
      ultimately obtain rc2 s2 where "f (rd + chunk) s1 = Some (rc2, s2)"
        "within (chunk_area T dest (unat n)) (snd s1) (snd s2)" "reads file slot (fst s2)"
        using less.hyps [OF _ q'(2)] by blast
      then show ?thesis using step False within_trans [OF w] by simp
    qed
  next
    case False
    then show ?thesis using less.prems by (subst f) simp
  qed
qed
qed

lemmas bram_chunks = chunks_within [where f = "elf_copy_to_bram T slot off dest n" for T slot off dest n,
    OF elf_copy_to_bram.simps]
lemmas sdram_chunks = chunks_within [where f = "of_file_read_chunked T slot off dest n" for T slot off dest n,
    OF of_file_read_chunked.simps]

section \<open>Segments\<close>

lemma zero_tail_within:
  assumes "p_filesz ph \<le> p_memsz ph"
  shows "within (span T a (unat (p_memsz ph))) m (zero_tail T a ph m)"
proof (cases "p_filesz ph < p_memsz ph")
  case True
  let ?k = "unat (p_memsz ph - p_filesz ph)"
  have k: "unat (p_filesz ph) + ?k = unat (p_memsz ph)" using assms by (simp add: unat_sub word_le_nat_alt)
  have "span T a (unat (p_memsz ph)) x" if "span T (a + p_filesz ph) ?k x" for x
    using span_part [of T a "unat (p_filesz ph)" ?k x "unat (p_memsz ph)"] that k by simp
  then show ?thesis using within_mono [OF bus_store_within [of T "a + p_filesz ph" "replicate ?k 0" m]] True
    by (simp add: zero_tail_def)
qed (simp add: zero_tail_def)

lemma tail: "p_filesz ph \<le> p_memsz ph \<Longrightarrow> within (chunk_area T a (unat (p_memsz ph))) m (zero_tail T a ph m)"
  by (rule within_mono [OF zero_tail_within]) (auto simp: chunk_area_def)

lemma span_bram:
  assumes T: "loader_target T" and a: "APP_VMAP_V1_BRAM_BASE \<le> a" "a < APP_VMAP_V1_BRAM_END" "n \<le> APP_VMAP_V1_BRAM_END - a"
    and x: "span T a (unat n) x"
  shows "app_bram_window x"
proof -
  obtain i where i: "i < unat n" "x = canon T (a + of_nat i)" using x by (auto simp: span_def)
  define k :: u32 where "k = of_nat i"
  have "k < n" using i(1) by (simp add: k_def word_less_nat_alt unat_of_nat take_bit_eq_mod)
  then have "app_bram_window (a + k)" unfolding app_bram_window_def using a by unat_arith
  then show ?thesis using canon_bram [OF T] i(2) by (simp add: k_def)
qed

lemma no_wrap_sum:
  fixes a n :: u32
  assumes "a \<le> 0xFFFFFFFF - n"
  shows "unat (a + n) = unat a + unat n"
proof -
  have "n \<le> 0xFFFFFFFF" using unat_lt_2p32 [of n] by (simp add: word_le_nat_alt)
  then have "unat (0xFFFFFFFF - n) = 0xFFFFFFFF - unat n" by (simp add: unat_sub)
  then have "unat a \<le> 0xFFFFFFFF - unat n" using assms by (simp add: word_le_nat_alt)
  then have "unat a + unat n < 2 ^ 32" using unat_lt_2p32 [of n] by simp
  then show ?thesis by (intro unat_add_lem [THEN iffD1]) simp
qed

lemma span_sdram:
  assumes T: "loader_target T" and a: "seg_in_app_vmap T a n" "\<not> app_bram_window a"
    and x: "span T (a + (sdram_uncached_base T - sdram_base T)) (unat n) x"
  shows "app_sdram_window T x"
proof -
  obtain i where i: "i < unat n" "x = canon T (a + (sdram_uncached_base T - sdram_base T) + of_nat i)"
    using x by (auto simp: span_def)
  define k :: u32 where "k = of_nat i"
  have k: "k < n" using i(1) by (simp add: k_def word_less_nat_alt unat_of_nat take_bit_eq_mod)
  have n: "n \<noteq> 0" "a \<le> 0xFFFFFFFF - n" "APP_VMAP_V1_SDRAM_BASE \<le> a" "a + n \<le> app_static_end T"
  proof -
    show n0: "n \<noteq> 0" using k by auto
    then show le: "a \<le> 0xFFFFFFFF - n" using a(1) by (auto simp: seg_in_app_vmap_def not_less split: if_splits)
    have lt: "a < a + n" using no_wrap_sum [OF le] n0 by (simp add: word_less_nat_alt unat_gt_0)
    show "APP_VMAP_V1_SDRAM_BASE \<le> a" "a + n \<le> app_static_end T"
      using a n0 lt by (auto simp: seg_in_app_vmap_def app_bram_window_def Let_def split: if_splits)
  qed
  have kn: "unat k < unat n" using k by (simp add: word_less_nat_alt)
  have "unat a + unat k < 2 ^ 32" using kn no_wrap_sum [OF n(2)] unat_lt_2p32 [of "a + n"] by linarith
  then have "unat (a + k) = unat a + unat k" by (intro unat_add_lem [THEN iffD1]) simp
  then have "app_sdram_window T (a + k)"
    using n(3,4) kn no_wrap_sum [OF n(2)] unfolding app_sdram_window_def word_le_nat_alt word_less_nat_alt by linarith
  moreover have "x = canon T (a + k + (sdram_uncached_base T - sdram_base T))"
    by (simp add: i(2) k_def algebra_simps)
  ultimately show ?thesis using canon_alias [OF T] by simp
qed

definition sound_phdr :: "elf_phdr \<Rightarrow> bool" where
  "sound_phdr ph \<longleftrightarrow> (p_type ph = PT_LOAD \<longrightarrow> 0 < p_memsz ph \<and> p_filesz ph \<le> p_memsz ph)"

lemma bram_segment_ok:
  assumes T: "loader_target T" and r: "reads file slot (fst s)" and ph: "p_filesz ph \<le> p_memsz ph"
    and v: "APP_VMAP_V1_BRAM_BASE \<le> p_vaddr ph" "p_vaddr ph < APP_VMAP_V1_BRAM_END"
  shows "\<exists>rc s1. load_bram_segment T slot ph s = Some (rc, s1) \<and> within (load_window T) (snd s) (snd s1) \<and>
     reads file slot (fst s1)"
proof (cases "APP_VMAP_V1_BRAM_END - p_vaddr ph < p_memsz ph \<or> \<not> target_has_app_bram T")
  case True
  then show ?thesis using r by (cases s) (auto simp: load_bram_segment_def)
next
  case False
  then have m: "p_memsz ph \<le> APP_VMAP_V1_BRAM_END - p_vaddr ph" by (simp add: not_less)
  have W: "within (load_window T) m0 m1" if "within (chunk_area T (p_vaddr ph) (unat n)) m0 m1" "n \<le> p_memsz ph" for m0 m1 n
    by (rule within_mono [OF that(1)])
      (use span_bram [OF T v order.trans [OF that(2) m]] in \<open>auto simp: chunk_area_def load_window_def\<close>)
  obtain rc s1 where c: "(if 0 < p_filesz ph then elf_copy_to_bram T slot (p_offset ph) (p_vaddr ph) (p_filesz ph) 0 s
        else Some (0, s)) = Some (rc, s1)" "within (chunk_area T (p_vaddr ph) (unat (p_filesz ph))) (snd s) (snd s1)"
      "reads file slot (fst s1)"
  proof (cases "0 < p_filesz ph")
    case True
    have "0 \<le> p_filesz ph" by simp
    from bram_chunks [OF T r this, of "p_offset ph" "p_vaddr ph"] show ?thesis using that True by auto
  next
    case False
    then show ?thesis using that r by simp
  qed
  have w1: "within (load_window T) (snd s) (snd s1)" by (rule W [OF c(2) ph])
  moreover have "within (load_window T) (snd s1) (zero_tail T (p_vaddr ph) ph (snd s1))"
    by (rule W [OF tail [OF ph] order.refl])
  ultimately have "within (load_window T) (snd s) (zero_tail T (p_vaddr ph) ph (snd s1))"
    by (rule within_trans)
  then show ?thesis using False c w1 by (cases s1) (auto simp: load_bram_segment_def)
qed

lemma sdram_segment_ok:
  assumes T: "loader_target T" and r: "reads file slot (fst s)" and ph: "0 < p_memsz ph" "p_filesz ph \<le> p_memsz ph"
    and v: "\<not> app_bram_window (base + p_vaddr ph)" and b: "bss_end l \<le> app_static_end T"
  shows "\<exists>rc l1 s1. load_sdram_segment T slot base ph (l, s) = Some (rc, l1, s1) \<and>
     within (load_window T) (snd s) (snd s1) \<and> reads file slot (fst s1) \<and> bss_end l1 \<le> app_static_end T"
proof (cases "base + p_vaddr ph < base \<or> \<not> seg_in_app_vmap T (base + p_vaddr ph) (p_memsz ph)")
  case True
  then show ?thesis using r b by (cases s) (auto simp: load_sdram_segment_def Let_def)
next
  case False
  let ?a = "base + p_vaddr ph" and ?uc = "base + p_vaddr ph + (sdram_uncached_base T - sdram_base T)"
  have seg: "seg_in_app_vmap T ?a (p_memsz ph)" using False by simp
  have e: "?a + p_memsz ph \<le> app_static_end T"
  proof -
    have le: "?a \<le> 0xFFFFFFFF - p_memsz ph" using seg ph(1) by (auto simp: seg_in_app_vmap_def not_less split: if_splits)
    have "?a < ?a + p_memsz ph" using no_wrap_sum [OF le] ph(1) by (simp add: word_less_nat_alt)
    then show ?thesis using seg ph(1) v by (auto simp: seg_in_app_vmap_def app_bram_window_def Let_def split: if_splits)
  qed
  have W: "within (load_window T) m0 m1" if "within (chunk_area T ?uc (unat n)) m0 m1" "n \<le> p_memsz ph" for m0 m1 n
  proof (rule within_mono [OF that(1)])
    fix x assume "chunk_area T ?uc (unat n) x"
    then have "span T ?uc (unat (p_memsz ph)) x \<or> scratch_window T x"
      using that(2) span_mono by (metis chunk_area_def word_le_nat_alt)
    then show "load_window T x" using span_sdram [OF T seg v] by (auto simp: load_window_def)
  qed
  obtain rc s1 where c: "(if 0 < p_filesz ph then of_file_read_chunked T slot (p_offset ph) ?uc (p_filesz ph) 0 s
        else Some (0, s)) = Some (rc, s1)" "within (chunk_area T ?uc (unat (p_filesz ph))) (snd s) (snd s1)"
      "reads file slot (fst s1)"
  proof (cases "0 < p_filesz ph")
    case True
    have "0 \<le> p_filesz ph" by simp
    from sdram_chunks [OF T r this, of "p_offset ph" ?uc] show ?thesis using that True by auto
  next
    case False
    then show ?thesis using that r by simp
  qed
  have w1: "within (load_window T) (snd s) (snd s1)" by (rule W [OF c(2) ph(2)])
  moreover have "within (load_window T) (snd s1) (zero_tail T ?uc ph (snd s1))"
    by (rule W [OF tail [OF ph(2)] order.refl])
  ultimately have "within (load_window T) (snd s) (zero_tail T ?uc ph (snd s1))"
    by (rule within_trans)
  then show ?thesis using False c w1 e b by (cases s1) (auto simp: load_sdram_segment_def Let_def)
qed

text \<open>A loader state inside the windows, with the image end inside the static region.\<close>

definition confined :: "target \<Rightarrow> u8 list \<Rightarrow> u32 \<Rightarrow> mem \<Rightarrow> loading \<times> 'd bus \<Rightarrow> bool" where
  "confined T file slot m0 ls \<longleftrightarrow>
     within (load_window T) m0 (snd (snd ls)) \<and> reads file slot (fst (snd ls)) \<and>
     bss_end (fst ls) \<le> app_static_end T"

lemma segment_ok:
  assumes T: "loader_target T" and c: "confined T file slot m0 ls" and ph: "sound_phdr ph"
    and base: "base = 0 \<and> e_type eh \<noteq> ET_DYN \<or> APP_VMAP_V1_SDRAM_BASE \<le> base"
  shows "\<exists>rc ls1. load_segment T slot eh base ph ls = Some (rc, ls1) \<and> confined T file slot m0 ls1"
proof -
  obtain l s where ls: "ls = (l, s)" by (cases ls)
  have w: "within (load_window T) m0 (snd s)" and r: "reads file slot (fst s)" and b: "bss_end l \<le> app_static_end T"
    using c by (auto simp: confined_def ls)
  consider "p_type ph \<noteq> PT_LOAD"
    | "p_type ph = PT_LOAD" "e_type eh \<noteq> ET_DYN \<and> \<not> seg_in_app_vmap T (p_vaddr ph) (p_memsz ph)"
    | "p_type ph = PT_LOAD" "\<not> (e_type eh \<noteq> ET_DYN \<and> \<not> seg_in_app_vmap T (p_vaddr ph) (p_memsz ph))"
      "app_bram_window (p_vaddr ph)"
    | "p_type ph = PT_LOAD" "\<not> (e_type eh \<noteq> ET_DYN \<and> \<not> seg_in_app_vmap T (p_vaddr ph) (p_memsz ph))"
      "\<not> app_bram_window (p_vaddr ph)"
    by blast
  then show ?thesis
  proof cases
    case 1
    then show ?thesis using c by (cases s) (auto simp: load_segment_def confined_def ls)
  next
    case 2
    then show ?thesis using c by (cases s) (auto simp: load_segment_def ls)
  next
    case 3
    have "p_filesz ph \<le> p_memsz ph" "APP_VMAP_V1_BRAM_BASE \<le> p_vaddr ph" "p_vaddr ph < APP_VMAP_V1_BRAM_END"
      using ph 3 by (auto simp: sound_phdr_def app_bram_window_def)
    from bram_segment_ok [OF T r this] obtain rc s1 where "load_bram_segment T slot ph s = Some (rc, s1)"
      "within (load_window T) (snd s) (snd s1)" "reads file slot (fst s1)" by blast
    then show ?thesis using 3 b within_trans [OF w]
      by (cases s1) (auto simp: load_segment_def confined_def ls app_bram_window_def)
  next
    case 4
    have p: "0 < p_memsz ph" "p_filesz ph \<le> p_memsz ph" using ph 4(1) by (auto simp: sound_phdr_def)
    have nb: "\<not> APP_VMAP_V1_BRAM_BASE \<le> p_vaddr ph \<or> \<not> p_vaddr ph < APP_VMAP_V1_BRAM_END"
      using 4(3) by (auto simp: app_bram_window_def)
    show ?thesis
    proof (cases "app_bram_window (base + p_vaddr ph)")
      case True
      then have "base + p_vaddr ph < 0x7800" "base \<noteq> 0"
        using 4(3) by (auto simp: app_bram_window_def APP_VMAP_V1_BRAM_END_def)
      moreover from this have "0x7800 \<le> base"
        using base by (auto simp: APP_VMAP_V1_SDRAM_BASE_def intro: order.trans [rotated])
      ultimately have "base + p_vaddr ph < base" by (meson order.strict_trans2)
      then have "load_sdram_segment T slot base ph (l, s) = Some (-7, l, s)"
        by (simp add: load_sdram_segment_def Let_def)
      then show ?thesis using 4 nb c by (cases s) (auto simp: load_segment_def ls)
    next
      case False
      from sdram_segment_ok [OF T r p this b] obtain rc l1 s1 where
        "load_sdram_segment T slot base ph (l, s) = Some (rc, l1, s1)" "within (load_window T) (snd s) (snd s1)"
        "reads file slot (fst s1)" "bss_end l1 \<le> app_static_end T" by blast
      then show ?thesis using 4 nb within_trans [OF w]
        by (cases s1) (auto simp: load_segment_def confined_def ls)
    qed
  qed
qed

section \<open>Headers\<close>

definition phdr_off :: "elf_ehdr \<Rightarrow> nat \<Rightarrow> nat" where
  "phdr_off eh i = unat (e_phoff eh + of_nat i * ucast (e_phentsize eh))"

definition elf_header :: "u8 list \<Rightarrow> elf_ehdr" where
  "elf_header file = ehdr_of (take 52 file)"

definition elf_phdr_at :: "u8 list \<Rightarrow> nat \<Rightarrow> elf_phdr" where
  "elf_phdr_at file i = phdr_of (take 32 (drop (phdr_off (elf_header file) i) file))"

text \<open>The headers lie inside the file, and every segment to load has a size that covers its
  bytes in the file.\<close>

definition sound_elf :: "u8 list \<Rightarrow> bool" where
  "sound_elf file \<longleftrightarrow> 52 \<le> length file \<and>
     (\<forall>i\<in>set [0..<unat (e_phnum (elf_header file))].
        phdr_off (elf_header file) i + 32 \<le> length file \<and> sound_phdr (elf_phdr_at file i))"

lemma elf_read_ok:
  assumes T: "loader_target T" and r: "reads file slot (fst s)" and q: "elf_read T slot off n s = (rc, bs, s1)" and n: "n \<le> 52"
  shows "within (scratch_window T) (snd s) (snd s1)" "reads file slot (fst s1)"
    and "0 \<le> rc \<Longrightarrow> unat off + unat n \<le> length file \<Longrightarrow> bs = take (unat n) (drop (unat off) file)"
proof -
  have dt: "disk_target T" using T by (simp add: loader_target_def)
  have "within (scratch_window T) (snd s) (snd s1) \<and> reads file slot (fst s1) \<and>
    (0 \<le> rc \<longrightarrow> unat off + unat n \<le> length file \<longrightarrow> bs = take (unat n) (drop (unat off) file))"
  proof (cases "dma_chunk_size T < n")
    case True
    then show ?thesis using q r by (auto simp: elf_read_def)
  next
    case False
    then have d: "of_disk_read T slot off None n s = (rc, bs, s1)" using q by (simp add: elf_read_def)
    note ok = disk_read_ok [OF dt r d]
    have w: "within (scratch_window T) (snd s) (snd s1)"
      by (rule within_mono [OF ok(1)]) (simp add: read_area_def)
    have "n \<le> cram0_dma_chunk_size T" using n dt by (simp add: disk_target_def word_le_nat_alt)
    then have "settled T off None n" by (simp add: settled_def)
    then have "landed_ok T file off None n bs (snd s1)" if "0 \<le> rc" using ok(3) that by blast
    then show ?thesis using w ok(2) agrees_exact [of _ "unat off" bs] by (auto simp: landed_ok_def)
  qed
  then show "within (scratch_window T) (snd s) (snd s1)" "reads file slot (fst s1)"
    "0 \<le> rc \<Longrightarrow> unat off + unat n \<le> length file \<Longrightarrow> bs = take (unat n) (drop (unat off) file)" by blast+
qed

lemma read_phdr_ok:
  assumes T: "loader_target T" and r: "reads file slot (fst s)" and e: "sound_elf file" and i: "i < unat (e_phnum (elf_header file))"
    and q: "read_phdr T slot (elf_header file) i s = (rc, ph, s1)"
  shows "within (scratch_window T) (snd s) (snd s1)" "reads file slot (fst s1)" "0 \<le> rc \<Longrightarrow> ph = elf_phdr_at file i"
proof -
  obtain bs where b: "elf_read T slot (e_phoff (elf_header file) + of_nat i * ucast (e_phentsize (elf_header file)))
      phdr_size s = (rc, bs, s1)" "ph = phdr_of bs"
    using q by (auto simp: read_phdr_def split: prod.splits)
  have "phdr_size \<le> 52" by (simp add: phdr_size_def)
  note ok = elf_read_ok [OF T r b(1) this]
  show "within (scratch_window T) (snd s) (snd s1)" "reads file slot (fst s1)" by (rule ok)+
  show "ph = elf_phdr_at file i" if "0 \<le> rc"
    using ok(3) [OF that] e i b(2) by (auto simp: sound_elf_def elf_phdr_at_def phdr_off_def phdr_size_def)
qed

lemma segments_ok:
  assumes T: "loader_target T" and e: "sound_elf file" and sub: "set is \<subseteq> {0..<unat (e_phnum (elf_header file))}"
    and base: "base = 0 \<and> e_type (elf_header file) \<noteq> ET_DYN \<or> APP_VMAP_V1_SDRAM_BASE \<le> base"
    and c: "confined T file slot m0 ls"
  shows "\<exists>rc ls1. load_segments T slot (elf_header file) base is ls = Some (rc, ls1) \<and> confined T file slot m0 ls1"
  using sub c
proof (induction "is" arbitrary: ls)
  case (Cons i "is")
  obtain l s where ls: "ls = (l, s)" by (cases ls)
  have i: "i < unat (e_phnum (elf_header file))" using Cons.prems(1) by simp
  obtain rc ph s1 where q: "read_phdr T slot (elf_header file) i s = (rc, ph, s1)" by (metis prod_cases3)
  have r: "reads file slot (fst s)" using Cons.prems(2) by (simp add: confined_def ls)
  note ok = read_phdr_ok [OF T r e i q]
  have "within (load_window T) (snd s) (snd s1)" by (rule within_mono [OF ok(1)]) (simp add: load_window_def)
  then have c1: "confined T file slot m0 (l, s1)"
    using Cons.prems(2) ok(2) by (auto simp: confined_def ls intro: within_trans)
  show ?case
  proof (cases "rc < 0")
    case True
    then show ?thesis using q c1 by (auto simp: ls)
  next
    case False
    then have "sound_phdr ph" using ok(3) e i by (simp add: sound_elf_def)
    from segment_ok [OF T c1 this base] obtain rc2 ls2 where
      s2: "load_segment T slot (elf_header file) base ph (l, s1) = Some (rc2, ls2)" "confined T file slot m0 ls2"
      by blast
    show ?thesis
    proof (cases "rc2 < 0")
      case True
      then show ?thesis using q False s2 by (auto simp: ls)
    next
      case no: False
      obtain rc3 ls3 where "load_segments T slot (elf_header file) base is ls2 = Some (rc3, ls3)"
        "confined T file slot m0 ls3" using Cons.IH [OF _ s2(2)] Cons.prems(1) by auto
      then show ?thesis using q False s2(1) no by (simp add: ls)
    qed
  qed
qed simp

lemma first_load_ok:
  assumes T: "loader_target T" and e: "sound_elf file" and "set is \<subseteq> {0..<unat (e_phnum (elf_header file))}"
    and "reads file slot (fst s)" and "first_load T slot (elf_header file) a is s = (x, s1)"
  shows "within (scratch_window T) (snd s) (snd s1) \<and> reads file slot (fst s1) \<and> x \<in> {Inl (-5), Inr 0, Inr a}"
  using assms(3-5)
proof (induction "is" arbitrary: s)
  case (Cons i "is")
  obtain rc ph s2 where q: "read_phdr T slot (elf_header file) i s = (rc, ph, s2)" by (metis prod_cases3)
  have i: "i < unat (e_phnum (elf_header file))" using Cons.prems(1) by simp
  note ok = read_phdr_ok [OF T Cons.prems(2) e i q]
  show ?case using Cons.IH [of s2] Cons.prems q ok(1,2) by (auto split: if_splits intro: within_trans)
qed auto

lemma find_dynamic_ok:
  assumes T: "loader_target T" and e: "sound_elf file" and "set is \<subseteq> {0..<unat (e_phnum (elf_header file))}"
    and "reads file slot (fst s)" and "find_dynamic T slot (elf_header file) v is s = (x, s1)"
  shows "within (scratch_window T) (snd s) (snd s1) \<and> reads file slot (fst s1)"
  using assms(3-5)
proof (induction "is" arbitrary: s)
  case (Cons i "is")
  obtain rc ph s2 where q: "read_phdr T slot (elf_header file) i s = (rc, ph, s2)" by (metis prod_cases3)
  have i: "i < unat (e_phnum (elf_header file))" using Cons.prems(1) by simp
  note ok = read_phdr_ok [OF T Cons.prems(2) e i q]
  show ?case using Cons.IH [of s2] Cons.prems q ok(1,2) by (auto split: if_splits intro: within_trans)
qed auto

section \<open>Relocations\<close>

text \<open>The test of a relocation target adds 4 without a check for wrap-around: the last four
  addresses pass it whatever the image is.\<close>

definition top_word :: "u32 \<Rightarrow> bool" where
  "top_word x \<longleftrightarrow> 0xFFFFFFFC \<le> x \<or> x < 3"

lemma after_window:
  fixes x u s :: u32
  assumes "u + (s - 1) < x" "u \<le> u + (s - 1)" "0 < s"
  shows "\<not> x - u < s"
  using assms by unat_arith

lemma canon_top: "loader_target T \<Longrightarrow> top_word x \<Longrightarrow> canon T x = x"
proof -
  assume T: "loader_target T" and "top_word x"
  then consider "0xFFFFFFFC \<le> x" | "x < 3" by (auto simp: top_word_def)
  then show ?thesis
  proof cases
    case 1
    have "sdram_uncached_base T + (sdram_size T - 1) < 0xFFFFFFFC" using T by (simp add: loader_target_def)
    then have "sdram_uncached_base T + (sdram_size T - 1) < x" using 1 by (rule order.strict_trans2)
    then show ?thesis using after_window [of "sdram_uncached_base T" "sdram_size T" x] T
      by (simp add: canon_def loader_target_def)
  next
    case 2
    have "x < APP_VMAP_V1_BRAM_END" unfolding APP_VMAP_V1_BRAM_END_def
      using 2 by (rule order.strict_trans) simp
    then show ?thesis using T by (intro canon_below) (auto simp: loader_target_def)
  qed
qed

lemma top_span:
  assumes "0xFFFFFFFC \<le> (a :: u32)" "i < 4"
  shows "top_word (a + of_nat i)"
proof -
  have "i = 0 \<or> i = 1 \<or> i = 2 \<or> i = 3" using assms(2) by auto
  then show ?thesis unfolding top_word_def using assms(1) by (elim disjE; simp; unat_arith)
qed

lemma word_offset:
  fixes a :: u32
  assumes "a < 0xFFFFFFFC" "i < 4"
  shows "a \<le> a + of_nat i" "a + of_nat i < a + 4"
proof -
  have "i = 0 \<or> i = 1 \<or> i = 2 \<or> i = 3" using assms(2) by auto
  then show "a \<le> a + of_nat i" "a + of_nat i < a + 4"
    using assms(1) by (elim disjE; simp; unat_arith)+
qed

lemma relocate_within:
  assumes T: "loader_target T" and lo: "APP_VMAP_V1_SDRAM_BASE \<le> base" and hi: "img_hi \<le> app_static_end T"
  shows "within (\<lambda>x. load_window T x \<or> top_word x) m (relocate T base base img_hi r m)"
proof (cases "r_info r AND 0xFF = R_RISCV_RELATIVE \<and>
    \<not> (base + r_offset r < base \<or> img_hi < base + r_offset r + 4 \<or> base + r_offset r < base)")
  case True
  let ?t = "base + r_offset r"
  have t: "base \<le> ?t" "?t + 4 \<le> img_hi" using True by (auto simp: not_less)
  have "relocate T base base img_hi r m = bus_store T ?t (bus_word (base + r_addend r)) m"
    using True by (simp add: relocate_def Let_def)
  moreover have win: "load_window T x \<or> top_word x" if sp: "span T ?t 4 x" for x
  proof -
    obtain i where i: "i < 4" "x = canon T (?t + of_nat i)" using sp unfolding span_def by blast
    show ?thesis
    proof (cases "0xFFFFFFFC \<le> ?t")
      case True
      then show ?thesis using top_span [OF True i(1)] canon_top [OF T] i(2) by simp
    next
      case False
      then have "?t < 0xFFFFFFFC" by (simp add: not_le)
      note o = word_offset [OF this i(1)]
      have "app_sdram_window T (?t + of_nat i)" unfolding app_sdram_window_def
        using order.trans [OF lo order.trans [OF t(1) o(1)]]
          order.strict_trans2 [OF o(2) order.trans [OF t(2) hi]] by simp
      then show ?thesis using canon_sdram [OF T] i(2) by (simp add: load_window_def)
    qed
  qed
  moreover have "within (span T ?t 4) m (bus_store T ?t (bus_word (base + r_addend r)) m)"
  proof -
    have l: "length (bus_word (base + r_addend r)) = 4" by (simp add: bus_word_def)
    show ?thesis using bus_store_within [of T ?t "bus_word (base + r_addend r)" m] unfolding l .
  qed
  then have "within (\<lambda>x. load_window T x \<or> top_word x) m (bus_store T ?t (bus_word (base + r_addend r)) m)"
    by (rule within_mono) (rule win)
  ultimately show ?thesis by simp
next
  case False
  then have "relocate T base base img_hi r m = m" by (auto simp: relocate_def Let_def)
  then show ?thesis by simp
qed

lemma apply_dynamic_within:
  assumes "loader_target T" "APP_VMAP_V1_SDRAM_BASE \<le> base" "img_hi \<le> app_static_end T"
  shows "within (\<lambda>x. load_window T x \<or> top_word x) m (snd (apply_dynamic T base img_hi v n m))"
  by (auto simp: apply_dynamic_def Let_def process_rela_def simp del: disj_assoc
      intro!: within_fold relocate_within [OF assms])

section \<open>The whole load\<close>

lemma elf_load_ok:
  assumes T: "loader_target T" and e: "sound_elf file" and r: "reads file slot (fst s)"
    and base: "APP_VMAP_V1_SDRAM_BASE \<le> load_addr" and chunk: "52 \<le> dma_chunk_size T"
  shows "\<exists>res s1. elf_load T slot load_addr s = Some (res, s1) \<and>
     within (\<lambda>x. load_window T x \<or> top_word x) (snd s) (snd s1) \<and>
     (\<forall>q. res = Inr q \<longrightarrow> load_base q = 0 \<or> load_base q = load_addr)"
proof -
  obtain rc bs s1 where h: "elf_read T slot 0 ehdr_size s = (rc, bs, s1)" by (metis prod_cases3)
  have "ehdr_size \<le> 52" by (simp add: ehdr_size_def)
  note ok = elf_read_ok [OF T r h this]
  have sw: "within (\<lambda>x. load_window T x \<or> top_word x) m m'" if "within (scratch_window T) m m'" for m m'
    by (rule within_mono [OF that]) (simp add: load_window_def)
  let ?eh = "ehdr_of bs"
  show ?thesis
  proof (cases "rc < 0 \<or> take 4 (e_ident ?eh) \<noteq> elf_magic \<or> e_machine ?eh \<noteq> EM_RISCV \<or>
      (e_type ?eh \<noteq> ET_DYN \<and> e_type ?eh \<noteq> ET_EXEC)")
    case True
    then show ?thesis using sw [OF ok(1)] by (cases s1) (auto simp: elf_load_def h Let_def)
  next
    case False
    then have eh: "?eh = elf_header file"
      using ok(3) e by (simp add: sound_elf_def elf_header_def ehdr_size_def)
    define idx where "idx = [0..<unat (e_phnum (elf_header file))]"
    have idx': "set idx \<subseteq> {0..<unat (e_phnum (elf_header file))}" by (simp add: idx_def)
    obtain x s2 where b: "(if e_type ?eh = ET_DYN then (Inr load_addr, s1)
        else first_load T slot (elf_header file) load_addr idx s1) = (x, s2)" by (metis surj_pair)
    have s2: "within (scratch_window T) (snd s) (snd s2)" "reads file slot (fst s2)" "x \<in> {Inl (-5), Inr 0, Inr load_addr}"
      "e_type ?eh = ET_DYN \<Longrightarrow> x = Inr load_addr"
      using b first_load_ok [OF T e idx' ok(2), of load_addr x s2] ok(1,2) within_trans [OF ok(1), of "snd s2"]
      by (auto split: if_splits)
    show ?thesis
    proof (cases x)
      case (Inl rc2)
      then show ?thesis using b False sw [OF s2(1)] by (cases s2) (auto simp: elf_load_def h Let_def eh idx_def)
    next
      case (Inr base)
      have bs: "base = 0 \<and> e_type (elf_header file) \<noteq> ET_DYN \<or> APP_VMAP_V1_SDRAM_BASE \<le> base"
        using s2(3,4) Inr \<open>APP_VMAP_V1_SDRAM_BASE \<le> load_addr\<close> eh by (auto simp: APP_VMAP_V1_SDRAM_BASE_def)
      have c: "confined T file slot (snd s) (\<lparr>bss_end = 0, dynamic_offset = 0, dynamic_size = 0\<rparr>, s2)"
        using s2(2) within_mono [OF s2(1), of "load_window T"] by (simp add: confined_def load_window_def)
      obtain rc3 l3 s3 where s3: "load_segments T slot (elf_header file) base idx
          (\<lparr>bss_end = 0, dynamic_offset = 0, dynamic_size = 0\<rparr>, s2) = Some (rc3, l3, s3)"
        "confined T file slot (snd s) (l3, s3)"
        using segments_ok [OF T e idx' bs c] by auto
      have w3: "within (\<lambda>x. load_window T x \<or> top_word x) (snd s) (snd s3)" "reads file slot (fst s3)"
          "bss_end l3 \<le> app_static_end T"
        using s3(2) by (auto simp: confined_def elim: within_mono)
      obtain rc4 s4 where s4: "elf_relocate T slot (elf_header file) base (l3, s3) = (rc4, s4)" by (metis surj_pair)
      have load: "elf_load T slot load_addr s = Some (if rc3 < 0 then (Inl rc3, s3)
          else (if rc4 < 0 then Inl rc4 else Inr (elf_finish T (elf_header file) base l3), s4))"
        using False b Inr s3(1) s4 by (auto simp: elf_load_def h Let_def eh idx_def)
      have "within (\<lambda>x. load_window T x \<or> top_word x) (snd s3) (snd s4)"
      proof (cases "0 < dynamic_size l3 \<and> e_type (elf_header file) = ET_DYN")
        case True
        obtain y s5 where y: "find_dynamic T slot (elf_header file) (dynamic_offset l3) idx s3 = (y, s5)" by (metis surj_pair)
        have m5: "within (\<lambda>x. load_window T x \<or> top_word x) (snd s3) (snd s5)"
          using find_dynamic_ok [OF T e idx' w3(2) y] by (intro sw) simp
        have "APP_VMAP_V1_SDRAM_BASE \<le> base" using bs True by simp
        note w = apply_dynamic_within [OF T this w3(3), of "snd s5"]
        show ?thesis
        proof (cases y)
          case (Inl rc5)
          then have "s4 = s5" using s4 True y by (simp add: elf_relocate_def Let_def idx_def)
          then show ?thesis using m5 by simp
        next
          case (Inr v)
          obtain rc6 m6 where a: "apply_dynamic T base (bss_end l3) v (dynamic_size l3) (snd s5) = (rc6, m6)"
            by (metis surj_pair)
          then have "snd s4 = m6" using s4 True y Inr by (auto simp: elf_relocate_def Let_def idx_def)
          then show ?thesis using within_trans [OF m5 w [of v "dynamic_size l3"]] a by simp
        qed
      next
        case False
        then have "s4 = s3" using s4 by (auto simp: elf_relocate_def Let_def split: if_splits)
        then show ?thesis by simp
      qed
      then have "within (\<lambda>x. load_window T x \<or> top_word x) (snd s) (snd s4)"
        by (rule within_trans [OF w3(1)])
      moreover have "base = 0 \<or> base = load_addr" using s2(3) Inr by auto
      ultimately show ?thesis using load s4 w3(1) by (cases s3; cases s4) (auto simp: elf_finish_def)
    qed
  qed
qed

end
