(* ===== verification/LoaderSpec.thy ===== *)
theory LoaderSpec
  imports LoaderInv
begin

text \<open>
  What the loader promises: for a file whose segments cover their bytes it returns and writes only
  inside the app windows and the scratch window of the bridge (and, through an unchecked addition, a
  word that starts in the last four bytes of the address space);
  an executable linked at 0 is always refused; and the stack it builds for the app reads back as
  the argument vector and the auxiliary vector the C library looks up.
\<close>

section \<open>Executables linked at 0\<close>

definition exec_at_zero :: "u8 list \<Rightarrow> nat \<Rightarrow> bool" where
  "exec_at_zero file k \<longleftrightarrow>
     take 4 file = elf_magic \<and> e_machine (elf_header file) = EM_RISCV \<and> e_type (elf_header file) = ET_EXEC \<and>
     52 \<le> length file \<and> k < unat (e_phnum (elf_header file)) \<and>
     (\<forall>i\<in>set [0..<k + 1]. phdr_off (elf_header file) i + 32 \<le> length file) \<and>
     (\<forall>i\<in>set [0..<k]. p_type (elf_phdr_at file i) \<noteq> PT_LOAD) \<and>
     p_type (elf_phdr_at file k) = PT_LOAD \<and> p_vaddr (elf_phdr_at file k) = 0 \<and> 0 < p_memsz (elf_phdr_at file k)"

text \<open>A loader that reads over backends that never fail, and has stored only in the scratch window.\<close>

definition calm :: "target \<Rightarrow> u8 list \<Rightarrow> u32 \<Rightarrow> mem \<Rightarrow> 'd bus \<Rightarrow> bool" where
  "calm T file slot m0 s \<longleftrightarrow> reads file slot (fst s) \<and> steady (fst s) \<and> within (scratch_window T) m0 (snd s)"

lemma calm_elf_read:
  assumes T: "loader_target T" and c: "calm T file slot m0 s" and n: "n \<le> 52" "n \<le> dma_chunk_size T"
    and l: "unat off + unat n \<le> length file"
  shows "\<exists>rc s1. elf_read T slot off n s = (rc, take (unat n) (drop (unat off) file), s1) \<and> 0 \<le> rc \<and> calm T file slot m0 s1"
proof -
  obtain rc bs s1 where q: "elf_read T slot off n s = (rc, bs, s1)" by (metis prod_cases3)
  have r: "reads file slot (fst s)" "steady (fst s)" "within (scratch_window T) m0 (snd s)" using c by (simp_all add: calm_def)
  have "\<not> dma_chunk_size T < n" using n(2) by (simp add: not_less)
  then have "of_disk_read T slot off None n s = (rc, bs, s1)" using q by (simp add: elf_read_def)
  note st = steady_read [OF r(2) this]
  note ok = elf_read_ok [OF T r(1) q n(1)]
  have "calm T file slot m0 s1" using st(2) ok(2) within_trans [OF r(3) ok(1)] by (simp add: calm_def)
  then show ?thesis using q st(1) ok(3) [OF st(1) l] by auto
qed

lemma calm_phdr:
  assumes T: "loader_target T" and c: "calm T file slot m0 s" and i: "phdr_off (elf_header file) i + 32 \<le> length file"
    and d: "52 \<le> dma_chunk_size T"
  shows "\<exists>rc s1. read_phdr T slot (elf_header file) i s = (rc, elf_phdr_at file i, s1) \<and> 0 \<le> rc \<and> calm T file slot m0 s1"
proof -
  let ?o = "e_phoff (elf_header file) + of_nat i * ucast (e_phentsize (elf_header file))"
  have n: "phdr_size \<le> 52" by (simp add: phdr_size_def)
  then have n': "phdr_size \<le> dma_chunk_size T" using d by (rule order.trans)
  have l: "unat ?o + unat phdr_size \<le> length file" using i by (simp add: phdr_off_def phdr_size_def)
  obtain rc s1 where "elf_read T slot ?o phdr_size s = (rc, take (unat phdr_size) (drop (unat ?o) file), s1)" "0 \<le> rc"
    "calm T file slot m0 s1" using calm_elf_read [OF T c n n' l] by blast
  then show ?thesis by (simp add: read_phdr_def elf_phdr_at_def phdr_off_def phdr_size_def)
qed

lemma first_load_zero:
  assumes T: "loader_target T" and c: "calm T file slot m0 s" and d: "52 \<le> dma_chunk_size T"
    and i: "\<And>i. i \<in> set idx \<Longrightarrow> phdr_off (elf_header file) i + 32 \<le> length file \<and> p_type (elf_phdr_at file i) \<noteq> PT_LOAD"
    and k: "phdr_off (elf_header file) k + 32 \<le> length file" "p_type (elf_phdr_at file k) = PT_LOAD"
      "p_vaddr (elf_phdr_at file k) = 0"
  shows "\<exists>s1. first_load T slot (elf_header file) a (idx @ k # rest) s = (Inr a, s1) \<and> calm T file slot m0 s1"
  using c i
proof (induction idx arbitrary: s)
  case Nil
  show ?case using calm_phdr [OF T Nil(1) k(1) d] k(2,3) by auto
next
  case (Cons i idx)
  obtain rc s1 where q: "read_phdr T slot (elf_header file) i s = (rc, elf_phdr_at file i, s1)" "0 \<le> rc" "calm T file slot m0 s1"
    using calm_phdr [OF T Cons.prems(1) _ d, of i] Cons.prems(2) by auto
  show ?case using Cons.IH [OF q(3)] Cons.prems(2) q by auto
qed

lemma load_segments_zero:
  assumes T: "loader_target T" and c: "calm T file slot m0 s" and d: "52 \<le> dma_chunk_size T"
    and i: "\<And>i. i \<in> set idx \<Longrightarrow> phdr_off (elf_header file) i + 32 \<le> length file \<and> p_type (elf_phdr_at file i) \<noteq> PT_LOAD"
    and k: "phdr_off (elf_header file) k + 32 \<le> length file" "p_type (elf_phdr_at file k) = PT_LOAD"
      "p_vaddr (elf_phdr_at file k) = 0" "0 < p_memsz (elf_phdr_at file k)"
    and e: "e_type (elf_header file) \<noteq> ET_DYN"
  shows "\<exists>l1 s1. load_segments T slot (elf_header file) base (idx @ k # rest) (l, s) = Some (-7, l1, s1) \<and> calm T file slot m0 s1"
  using c i
proof (induction idx arbitrary: s l)
  case Nil
  have "\<not> seg_in_app_vmap T 0 (p_memsz (elf_phdr_at file k))"
    using k(4) by (auto simp: seg_in_app_vmap_def APP_VMAP_V1_BRAM_BASE_def APP_VMAP_V1_SDRAM_BASE_def Let_def)
  then show ?case using calm_phdr [OF T Nil(1) k(1) d] k(2,3) e by (auto simp: load_segment_def)
next
  case (Cons i idx)
  obtain rc s1 where q: "read_phdr T slot (elf_header file) i s = (rc, elf_phdr_at file i, s1)" "0 \<le> rc" "calm T file slot m0 s1"
    using calm_phdr [OF T Cons.prems(1) _ d, of i] Cons.prems(2) by auto
  obtain l2 where l2: "load_segment T slot (elf_header file) base (elf_phdr_at file i) (l, s1) = Some (0, l2, s1)"
    using Cons.prems(2) [of i] by (cases "p_type (elf_phdr_at file i) = PT_DYNAMIC") (auto simp: load_segment_def)
  show ?case using Cons.IH [OF q(3)] Cons.prems(2) q l2 by auto
qed

lemma exec_at_zero_refused:
  assumes T: "loader_target T" and r: "reads file slot d" "steady d" and c: "52 \<le> dma_chunk_size T" and z: "exec_at_zero file k"
  shows "\<exists>s1. elf_load T slot load_addr (d, m) = Some (Inl (-7), s1) \<and> within (scratch_window T) m (snd s1)"
proof -
  note z' = z [unfolded exec_at_zero_def]
  let ?eh = "elf_header file" and ?n = "unat (e_phnum (elf_header file))"
  have c0: "calm T file slot m (d, m)" using r by (simp add: calm_def)
  have h: "ehdr_size \<le> 52" "ehdr_size \<le> dma_chunk_size T" "unat (0 :: u32) + unat ehdr_size \<le> length file"
    using c z' by (simp_all add: ehdr_size_def)
  obtain rc s1 where q: "elf_read T slot 0 ehdr_size (d, m) = (rc, take (unat ehdr_size) (drop (unat (0 :: u32)) file), s1)" "0 \<le> rc"
    "calm T file slot m s1" using calm_elf_read [OF T c0 h] by blast
  have eh: "ehdr_of (take (unat ehdr_size) (drop (unat (0 :: u32)) file)) = ?eh" by (simp add: elf_header_def ehdr_size_def)
  have split: "[0..<?n] = [0..<k] @ k # [k + 1..<?n]"
    using z' by (metis less_imp_add_positive upt_add_eq_append upt_conv_Cons le0 Suc_eq_plus1 less_or_eq_imp_le
        le_add_diff_inverse)
  have idx: "phdr_off ?eh i + 32 \<le> length file \<and> p_type (elf_phdr_at file i) \<noteq> PT_LOAD" if "i \<in> set [0..<k]" for i
    using z' that by simp
  have k: "phdr_off ?eh k + 32 \<le> length file" "p_type (elf_phdr_at file k) = PT_LOAD"
    "p_vaddr (elf_phdr_at file k) = 0" "0 < p_memsz (elf_phdr_at file k)" using z' by simp_all
  have ty: "e_type ?eh \<noteq> ET_DYN" "e_type ?eh = ET_EXEC" using z' by (simp_all add: ET_DYN_def ET_EXEC_def)
  have magic: "take 4 (e_ident ?eh) = elf_magic" using z' by (simp add: elf_header_def ehdr_of_def)
  obtain s2 where f: "first_load T slot ?eh load_addr [0..<?n] s1 = (Inr load_addr, s2)" "calm T file slot m s2"
    using first_load_zero [OF T q(3) c idx k(1-3), where idx = "[0..<k]" and a = load_addr and rest = "[k + 1..<?n]"]
    unfolding split by auto
  obtain l1 s3 where g: "load_segments T slot ?eh load_addr [0..<?n]
      (\<lparr>bss_end = 0, dynamic_offset = 0, dynamic_size = 0\<rparr>, s2) = Some (-7, l1, s3)" "calm T file slot m s3"
    using load_segments_zero [OF T f(2) c idx k ty(1), where idx = "[0..<k]" and rest = "[k + 1..<?n]" and base = load_addr
        and l = "\<lparr>bss_end = 0, dynamic_offset = 0, dynamic_size = 0\<rparr>"] unfolding split by auto
  have "elf_load T slot load_addr (d, m) = Some (Inl (-7), s3)"
    using q(1,2) eh magic ty z' f(1) g(1) by (auto simp: elf_load_def Let_def)
  then show ?thesis using g(2) by (auto simp: calm_def)
qed

section \<open>The initial stack\<close>

text \<open>The C library's view of the stack: the words from the stack pointer on, and the walk along
  the auxiliary vector that \<open>getauxval\<close> is.\<close>

definition stack_word :: "target \<Rightarrow> mem \<Rightarrow> u32 \<Rightarrow> nat \<Rightarrow> u32" where
  "stack_word T m sp k = bus_load T (sp + 4 * of_nat k) m"

fun auxv_find :: "u32 \<Rightarrow> u32 list \<Rightarrow> u32 option" where
  "auxv_find tag (t # v # ws) = (if t = AT_NULL then None else if t = tag then Some v else auxv_find tag ws)"
| "auxv_find tag _ = None"

definition stack_image :: "u32 \<Rightarrow> u32 \<Rightarrow> u32 list \<Rightarrow> u32 list" where
  "stack_image svc caps argv = of_nat (length argv) # argv @
     [0, 0, AT_PAGESZ, 4096, AT_HWCAP, 0, AT_RANDOM, 0, AT_OF_CAPS, caps, AT_OF_SVC, svc, AT_NULL, 0]"

lemma length_bus_word [simp]: "length (bus_word w) = 4"
  by (simp add: bus_word_def)

lemma bus_load_word:
  assumes "\<And>i. i < 4 \<Longrightarrow> canon T (a + of_nat i) = a + of_nat i"
  shows "bus_load T a (bus_store T a (bus_word w) m) = w"
proof -
  have c: "canon T a = a" "canon T (a + 1) = a + 1" "canon T (a + 2) = a + 2" "canon T (a + 3) = a + 3"
    using assms [of 0] assms [of 1] assms [of 2] assms [of 3] by simp_all
  have s: "bus_store T a (bus_word w) m = store_le a w m"
    using c by (simp add: bus_word_def store_le_def add.assoc)
  show ?thesis by (simp add: s bus_load_def c store_le_def le_simps)
qed

text \<open>A stack region of \<open>n\<close> words below \<open>hi\<close> that the bus does not alias.\<close>

definition plain_stack :: "target \<Rightarrow> u32 \<Rightarrow> nat \<Rightarrow> bool" where
  "plain_stack T hi n \<longleftrightarrow> 4 * n \<le> unat hi \<and> sdram_base T \<le> hi - of_nat (4 * n) \<and>
     hi \<le> sdram_base T + (sdram_size T - 1)"

definition pushed :: "target \<Rightarrow> u32 \<Rightarrow> u32 list \<Rightarrow> u32 \<times> mem \<Rightarrow> bool" where
  "pushed T hi ws s \<longleftrightarrow> fst s = hi - of_nat (4 * length ws) \<and>
     (\<forall>k<length ws. stack_word T (snd s) (fst s) k = ws ! k)"

lemma plain_canon:
  assumes T: "loader_target T" and p: "plain_stack T hi n" and i: "i < 4 * n"
  shows "canon T (hi - of_nat (4 * n) + of_nat i) = hi - of_nat (4 * n) + of_nat i"
    and "unat (hi - of_nat (4 * n) + of_nat i) = unat hi - 4 * n + i"
proof -
  have n: "4 * n \<le> unat hi" using p by (simp add: plain_stack_def)
  then have "unat (of_nat (4 * n) :: u32) = 4 * n" using unat_lt_2p32 [of hi]
    by (simp add: unat_of_nat take_bit_eq_mod del: of_nat_mult)
  then have b: "unat (hi - of_nat (4 * n)) = unat hi - 4 * n"
    using n by (simp add: unat_sub word_le_nat_alt del: of_nat_mult)
  have o: "unat (of_nat i :: u32) = i"
    using i n unat_lt_2p32 [of hi] by (simp add: unat_of_nat take_bit_eq_mod)
  have "unat hi - 4 * n + i < 2 ^ 32" using i n unat_lt_2p32 [of hi] by simp
  then show u: "unat (hi - of_nat (4 * n) + of_nat i) = unat hi - 4 * n + i"
    using b o by (subst unat_plus_if') (simp del: of_nat_mult)
  have "hi - of_nat (4 * n) + of_nat i \<le> hi" using u i n by (simp add: word_le_nat_alt)
  also have "\<dots> \<le> sdram_base T + (sdram_size T - 1)" using p by (simp add: plain_stack_def)
  also have "\<dots> < sdram_uncached_base T" using T by (simp add: loader_target_def)
  finally show "canon T (hi - of_nat (4 * n) + of_nat i) = hi - of_nat (4 * n) + of_nat i"
    by (rule canon_below [OF T])
qed

lemma plain_less: "plain_stack T hi n \<Longrightarrow> k \<le> n \<Longrightarrow> plain_stack T hi k"
proof -
  assume p: "plain_stack T hi n" and k: "k \<le> n"
  have n: "4 * n \<le> unat hi" using p by (simp add: plain_stack_def)
  have u: "unat (hi - of_nat (4 * j)) = unat hi - 4 * j" if "j \<le> n" for j
  proof -
    have j: "4 * j \<le> unat hi" using that n by simp
    then have "unat (of_nat (4 * j) :: u32) = 4 * j" using unat_lt_2p32 [of hi]
      by (simp add: unat_of_nat take_bit_eq_mod del: of_nat_mult)
    then show ?thesis using j by (simp add: unat_sub word_le_nat_alt del: of_nat_mult)
  qed
  have "hi - of_nat (4 * n) \<le> hi - of_nat (4 * k)" using u [OF k] u [of n] k by (simp add: word_le_nat_alt del: of_nat_mult)
  then show ?thesis using p k n by (auto simp: plain_stack_def simp del: of_nat_mult)
qed

lemma push_pushed:
  assumes T: "loader_target T" and p: "plain_stack T hi (Suc (length ws))" and s: "pushed T hi ws s"
  shows "pushed T hi (w # ws) (push T w s)"
proof -
  let ?n = "Suc (length ws)" and ?a = "fst s - 4"
  have a: "?a = hi - of_nat (4 * ?n)" using s by (simp add: pushed_def algebra_simps)
  note c = plain_canon [OF T p, folded a]
  have word: "stack_word T (bus_store T ?a (bus_word w) (snd s)) ?a 0 = w"
    unfolding stack_word_def by (simp, rule bus_load_word) (use c(1) in simp)
  have keep: "stack_word T (bus_store T ?a (bus_word w) (snd s)) ?a (Suc k) = ws ! k" if k: "k < length ws" for k
  proof -
    have same: "bus_store T ?a (bus_word w) (snd s) (canon T (fst s + 4 * of_nat k + of_nat i)) =
        snd s (canon T (fst s + 4 * of_nat k + of_nat i))" if i: "i < 4" for i
    proof (rule ccontr)
      assume "\<not> ?thesis"
      then have "span T ?a 4 (canon T (fst s + 4 * of_nat k + of_nat i))"
        using bus_store_within [of T ?a "bus_word w" "snd s"] unfolding within_def length_bus_word by blast
      then obtain j where j: "j < 4" "canon T (fst s + 4 * of_nat k + of_nat i) = canon T (?a + of_nat j)"
        unfolding span_def by blast
      have e: "fst s + 4 * of_nat k + of_nat i = ?a + of_nat (4 + 4 * k + i)" by (simp add: algebra_simps)
      have l: "4 + 4 * k + i < 4 * ?n" "j < 4 * ?n" using k i j(1) by simp_all
      have "?a + of_nat (4 + 4 * k + i) = ?a + of_nat j"
        using j(2) unfolding e c(1) [OF l(1)] c(1) [OF l(2)] .
      then have "unat hi - 4 * ?n + (4 + 4 * k + i) = unat hi - 4 * ?n + j"
        unfolding c(2) [OF l(1), symmetric] c(2) [OF l(2), symmetric] by (rule arg_cong)
      then show False using j(1) by simp
    qed
    have z: "?a + 4 * of_nat (Suc k) = fst s + 4 * of_nat k" by (simp add: algebra_simps)
    have "stack_word T (bus_store T ?a (bus_word w) (snd s)) ?a (Suc k) = stack_word T (snd s) (fst s) k"
      unfolding stack_word_def bus_load_def z using same [of 0] same [of 1] same [of 2] same [of 3] by simp
    moreover have "stack_word T (snd s) (fst s) k = ws ! k" using s k unfolding pushed_def by blast
    ultimately show ?thesis by (rule trans)
  qed
  show ?thesis unfolding pushed_def push_def fst_conv snd_conv
    using a word keep by (auto simp: nth_Cons split: nat.split)
qed

lemma fold_push:
  assumes T: "loader_target T" and p: "plain_stack T hi (length vs + length ws)" and s: "pushed T hi ws s"
  shows "pushed T hi (rev vs @ ws) (fold (push T) vs s)"
  using p s
proof (induction vs arbitrary: ws s)
  case (Cons v vs)
  have "plain_stack T hi (Suc (length ws))" using Cons.prems(1) by (rule plain_less) simp
  from push_pushed [OF T this Cons.prems(2), of v] have "pushed T hi (v # ws) (push T v s)" .
  then show ?case using Cons.IH [of "v # ws" "push T v s"] Cons.prems(1) by simp
qed simp

lemma exec_stack:
  assumes T: "loader_target T" and p: "plain_stack T (stack_top res) (length argv + 15)"
  shows "pushed T (stack_top res) (stack_image svc caps argv) (elf_exec T svc caps res argv m)"
proof -
  let ?hi = "stack_top res"
  let ?aux = "[0, AT_NULL, svc, AT_OF_SVC, caps, AT_OF_CAPS, 0, AT_RANDOM, 0, AT_HWCAP, 4096, AT_PAGESZ, 0, 0]"
  have s0: "pushed T ?hi [] (?hi, m)" by (simp add: pushed_def)
  have "plain_stack T ?hi (length ?aux + length ([] :: u32 list))" by (rule plain_less [OF p]) simp
  from fold_push [OF T this s0] have s1: "pushed T ?hi (rev ?aux) (fold (push T) ?aux (?hi, m))" by simp
  have "plain_stack T ?hi (length (rev argv) + length (rev ?aux))" by (rule plain_less [OF p]) simp
  from fold_push [OF T this s1] have
    s2: "pushed T ?hi (argv @ rev ?aux) (fold (push T) (rev argv) (fold (push T) ?aux (?hi, m)))" by simp
  have "plain_stack T ?hi (Suc (length (argv @ rev ?aux)))" by (rule plain_less [OF p]) simp
  from push_pushed [OF T this s2, of "of_nat (length argv)"] show ?thesis
    unfolding elf_exec_def Let_def stack_image_def by simp
qed

section \<open>Properties\<close>

text \<open>A file of 104 bytes of the given type: one segment that loads it whole at offset 0.\<close>

definition demo_elf :: "u8 \<Rightarrow> u8 list" where
  "demo_elf ty = elf_magic @ replicate 12 0 @ [ty, 0, 243, 0] @ replicate 4 0 @ [52, 0, 0, 0] @ [52, 0, 0, 0] @
     replicate 10 0 @ [32, 0, 1, 0] @ replicate 6 0 @
     [1, 0, 0, 0, 0, 0, 0, 0, 0, 0, 0, 0, 0, 0, 0, 0, 104, 0, 0, 0, 128, 0, 0, 0] @ replicate 20 0"


lemma demo_exec_zero: "exec_at_zero (demo_elf 2) 0"
  by code_simp



text \<open>
  An executable (not position-independent) whose first loadable segment is linked at 0 is
  always refused with error -7, although no read fails, and nothing is written outside the scratch
  window, because the check against the app memory map is made on the unrelocated address; the
  loader's comments promise to load such a file at the load address.
\<close>

lemma elf_exec_at_zero_refused:
  assumes "T \<in> {pocket, mister, sim}" and "exec_at_zero file k" and "reads file slot d" and "steady d"
  shows "\<exists>s1. elf_load T slot load_addr (d, m) = Some (Inl (-7), s1) \<and> within (scratch_window T) m (snd s1)"
proof -
  have "52 \<le> dma_chunk_size T" using assms(1) by (auto simp: pocket_def mister_def sim_def)
  from exec_at_zero_refused [OF loader_targets [OF assms(1)] assms(3,4) this assms(2)] show ?thesis .
qed

text \<open>
  C24: The stack that \<open>elf_exec\<close> hands to the app reads as the C library expects: the argument
  count at the stack pointer, the argument pointers in order, the two terminators, and an auxiliary
  vector in which a lookup finds the page size, the service table and the capability table and
  nothing else.
\<close>

theorem elf_exec_stack:
  assumes "T \<in> {pocket, mister, sim}" and "plain_stack T (stack_top res) (length argv + 15)"
    and "(sp, m1) = elf_exec T svc caps res argv m"
    and "words = map (stack_word T m1 sp) [0..<length argv + 15]"
  shows "words ! 0 = of_nat (length argv) \<and> take (length argv) (drop 1 words) = argv \<and>
     take 2 (drop (length argv + 1) words) = [0, 0] \<and>
     auxv_find AT_PAGESZ (drop (length argv + 3) words) = Some 4096 \<and>
     auxv_find AT_OF_SVC (drop (length argv + 3) words) = Some svc \<and>
     auxv_find AT_OF_CAPS (drop (length argv + 3) words) = Some caps \<and>
     (\<forall>tag. auxv_find tag (drop (length argv + 3) words) \<noteq> None \<longrightarrow>
        tag \<in> {AT_PAGESZ, AT_HWCAP, AT_RANDOM, AT_OF_CAPS, AT_OF_SVC})"
proof -
  have l: "length (stack_image svc caps argv) = length argv + 15" by (simp add: stack_image_def)
  have "pushed T (stack_top res) (stack_image svc caps argv) (sp, m1)"
    unfolding assms(3) by (rule exec_stack [OF loader_targets [OF assms(1)] assms(2)])
  then have "words = stack_image svc caps argv"
    unfolding assms(4) by (intro nth_equalityI) (auto simp: pushed_def l)
  moreover have "drop (length argv + n) words = drop (n - 1) (drop (length argv) (drop 1 words))" if "0 < n" for n
    using that by (cases n) (simp_all add: add.commute)
  ultimately show ?thesis
    by (simp add: stack_image_def AT_NULL_def AT_PAGESZ_def AT_HWCAP_def AT_RANDOM_def AT_OF_CAPS_def AT_OF_SVC_def)
qed

definition demo_result :: elf_load_result where
  "demo_result = \<lparr>entry = 0x10400034, load_base = 0x10400000, res_bss_end = 0x10401000, stack_top = 0x13B00000\<rparr>"

lemma elf_exec_stack_witness:
  "auxv_find AT_OF_SVC (drop (length [0x10402000 :: u32] + 3)
     (map (stack_word pocket (snd (elf_exec pocket 0x5000 0x6000 demo_result [0x10402000] (\<lambda>_. 0)))
             (fst (elf_exec pocket 0x5000 0x6000 demo_result [0x10402000] (\<lambda>_. 0))))
       [0..<length [0x10402000 :: u32] + 15])) = Some 0x5000"
  by (rule elf_exec_stack [where T = pocket and res = demo_result and caps = "0x6000" and m = "\<lambda>_. 0", OF _ _ _ refl, THEN conjunct2, THEN conjunct2,
        THEN conjunct2, THEN conjunct2, THEN conjunct1])
    (simp_all add: demo_result_def plain_stack_def pocket_def)

end
