(* ===== verification/HidMouse.thy ===== *)
theory HidMouse
  imports Prelude
begin

text \<open>
  The mouse decoder of \<open>os/hal/hid_mouse.c\<close>: the state an app reads, the decode context, and the
  four operations. The \<open>int32_t\<close> deltas are 32-bit words, so sums wrap. The second part shows that
  whatever mixture of torn and repeated register snapshots and of reads occurs, the motion
  taken and pending is the sum of the reports' true deltas.
\<close>

unbundle bit_operations_syntax

section \<open>State\<close>

definition OF_INPUT_TYPE_MOUSE :: u32 where "OF_INPUT_TYPE_MOUSE = 5"
definition HID_MOUSE_XY_ACCUM :: u8 where "HID_MOUSE_XY_ACCUM = 1"
definition HID_MOUSE_XY_PAIR8 :: u8 where "HID_MOUSE_XY_PAIR8 = 2"

record of_mouse_state =
  present :: bool
  buttons :: u16
  buttons_pressed :: u16
  buttons_released :: u16
  report_counter :: u16
  dx :: u32
  dy :: u32

record hid_mouse =
  mstate :: of_mouse_state
  prev_buttons :: u16
  prev_report_counter :: u16
  prev_x :: u16
  prev_y :: u16
  added_x :: u16
  added_y :: u16
  report_valid :: bool
  xy_mode :: u8

section \<open>Operations\<close>

definition pair8_delta :: "u16 \<Rightarrow> u32" where
  "pair8_delta v = scast (ucast (drop_bit 8 v) :: u8) + scast (ucast (v AND 0xFF) :: u8)"

definition hid_mouse_init :: "u8 \<Rightarrow> hid_mouse" where
  "hid_mouse_init mode = \<lparr>
     mstate = \<lparr>present = False, buttons = 0, buttons_pressed = 0, buttons_released = 0,
               report_counter = 0, dx = 0, dy = 0\<rparr>,
     prev_buttons = 0, prev_report_counter = 0, prev_x = 0, prev_y = 0, added_x = 0, added_y = 0,
     report_valid = False, xy_mode = mode\<rparr>"

definition hid_mouse_disconnect :: "hid_mouse \<Rightarrow> hid_mouse" where
  "hid_mouse_disconnect m = m\<lparr>
     mstate := (mstate m)\<lparr>present := False, buttons := 0,
       buttons_released := buttons_released (mstate m) OR prev_buttons m,
       report_counter := 0, dx := 0, dy := 0\<rparr>,
     prev_buttons := 0, prev_report_counter := 0, added_x := 0, added_y := 0, report_valid := False\<rparr>"

definition move :: "u32 \<Rightarrow> u32 \<Rightarrow> hid_mouse \<Rightarrow> hid_mouse" where
  "move x y m = m\<lparr>mstate := (mstate m)\<lparr>dx := dx (mstate m) + x, dy := dy (mstate m) + y\<rparr>\<rparr>"

text \<open>The X/Y part of a decode: first report, new counter, or the same counter with another
  payload.\<close>

definition decode_xy :: "u16 \<Rightarrow> u16 \<Rightarrow> u16 \<Rightarrow> hid_mouse \<Rightarrow> hid_mouse" where
  "decode_xy counter x y m =
     (if \<not> report_valid m then m\<lparr>prev_x := x, prev_y := y, added_x := x, added_y := y\<rparr>
      else if counter \<noteq> prev_report_counter m then
        (if xy_mode m = HID_MOUSE_XY_ACCUM then move (scast (x - prev_x m)) (scast (y - prev_y m)) m
         else if xy_mode m = HID_MOUSE_XY_PAIR8
         then (move (pair8_delta x) (pair8_delta y) m)\<lparr>added_x := x, added_y := y\<rparr>
         else (move (scast x) (scast y) m)\<lparr>added_x := x, added_y := y\<rparr>)\<lparr>prev_x := x, prev_y := y\<rparr>
      else if xy_mode m \<noteq> HID_MOUSE_XY_ACCUM \<and> (x \<noteq> added_x m \<or> y \<noteq> added_y m) then
        (if xy_mode m = HID_MOUSE_XY_PAIR8
         then move (pair8_delta x - pair8_delta (added_x m)) (pair8_delta y - pair8_delta (added_y m)) m
         else move (scast x - scast (added_x m)) (scast y - scast (added_y m)) m)
          \<lparr>added_x := x, added_y := y, prev_x := x, prev_y := y\<rparr>
      else m)"

definition hid_mouse_decode :: "u32 \<Rightarrow> u32 \<Rightarrow> u32 \<Rightarrow> hid_mouse \<Rightarrow> hid_mouse" where
  "hid_mouse_decode key joy trig m =
     (if drop_bit 28 key \<noteq> OF_INPUT_TYPE_MOUSE then hid_mouse_disconnect m
      else let counter = ucast (key AND 0xFFFF); btn = ucast (drop_bit 16 joy AND 0xFFFF);
               x = ucast (joy AND 0xFFFF); y = ucast (trig AND 0xFFFF); s = mstate m;
               m1 = m\<lparr>mstate := s\<lparr>present := True, buttons := btn,
                 buttons_pressed := buttons_pressed s OR (btn AND NOT (prev_buttons m)),
                 buttons_released := buttons_released s OR (NOT btn AND prev_buttons m),
                 report_counter := counter\<rparr>\<rparr>
           in (decode_xy counter x y m1)
                \<lparr>report_valid := True, prev_report_counter := counter, prev_buttons := btn\<rparr>)"

definition hid_mouse_read :: "hid_mouse \<Rightarrow> of_mouse_state \<times> hid_mouse" where
  "hid_mouse_read m = (mstate m,
     m\<lparr>mstate := (mstate m)\<lparr>dx := 0, dy := 0, buttons_pressed := 0, buttons_released := 0\<rparr>\<rparr>)"

section \<open>Reports as the hardware shows them\<close>

text \<open>A report reaches the decoder as register snapshots with its counter; all but the last may show
  X/Y fields of another report. Reads by the app may fall anywhere.\<close>

datatype mouse_event = Snapshot u16 u16 u16 | Take

definition mouse_key :: "u16 \<Rightarrow> u32" where
  "mouse_key counter = push_bit 28 5 OR ucast counter"

definition mouse_joy :: "u16 \<Rightarrow> u16 \<Rightarrow> u32" where
  "mouse_joy btn x = push_bit 16 (ucast btn) OR ucast x"

fun event_step :: "u16 \<Rightarrow> mouse_event \<Rightarrow> of_mouse_state list \<times> hid_mouse \<Rightarrow> of_mouse_state list \<times> hid_mouse" where
  "event_step counter (Snapshot btn x y) (taken, m) =
     (taken, hid_mouse_decode (mouse_key counter) (mouse_joy btn x) (ucast y) m)"
| "event_step counter Take (taken, m) = (case hid_mouse_read m of (s, m1) \<Rightarrow> (taken @ [s], m1))"

definition report_step :: "u16 \<times> mouse_event list \<Rightarrow> of_mouse_state list \<times> hid_mouse \<Rightarrow> of_mouse_state list \<times> hid_mouse" where
  "report_step r s = fold (event_step (fst r)) (snd r) s"

fun payload :: "mouse_event list \<Rightarrow> (u16 \<times> u16) option" where
  "payload [] = None"
| "payload (Take # es) = payload es"
| "payload (Snapshot b x y # es) = (case payload es of None \<Rightarrow> Some (x, y) | Some p \<Rightarrow> Some p)"

text \<open>The motion a report stands for in the two delta modes, and the motion taken and pending.\<close>

definition delta_of :: "u8 \<Rightarrow> u16 \<Rightarrow> u32" where
  "delta_of mode v = (if mode = HID_MOUSE_XY_PAIR8 then pair8_delta v else scast v)"

definition moved_x :: "of_mouse_state list \<times> hid_mouse \<Rightarrow> u32" where
  "moved_x s = sum_list (map dx (fst s)) + dx (mstate (snd s))"

definition moved_y :: "of_mouse_state list \<times> hid_mouse \<Rightarrow> u32" where
  "moved_y s = sum_list (map dy (fst s)) + dy (mstate (snd s))"

fun fresh_counters :: "u16 \<Rightarrow> (u16 \<times> mouse_event list) list \<Rightarrow> bool" where
  "fresh_counters c [] = True"
| "fresh_counters c (r # rs) = (fst r \<noteq> c \<and> payload (snd r) \<noteq> None \<and> fresh_counters (fst r) rs)"

lemma key_fields:
  "drop_bit 28 (mouse_key c) = OF_INPUT_TYPE_MOUSE" "ucast (mouse_key c AND 0xFFFF) = c"
proof -
  have "drop_bit 28 (ucast c :: u32) = 0"
    by (rule bit_word_eqI) (auto simp: bit_simps dest: bit_imp_le_length)
  then show "drop_bit 28 (mouse_key c) = OF_INPUT_TYPE_MOUSE"
    by (simp add: mouse_key_def OF_INPUT_TYPE_MOUSE_def drop_bit_or)
  have m: "(0xFFFF :: u32) = mask 16" by (simp add: mask_eq_exp_minus_1)
  have "mouse_key c AND 0xFFFF = (push_bit 28 5 AND 0xFFFF) OR (ucast c AND 0xFFFF)"
    unfolding mouse_key_def by (simp only: bit.conj_disj_distrib2)
  also have "(push_bit 28 5 AND 0xFFFF) = (0 :: u32)" by simp
  finally show "ucast (mouse_key c AND 0xFFFF) = c" unfolding m
    by (simp only: or.left_neutral) (rule bit_word_eqI, auto simp: bit_simps dest: bit_imp_le_length)
qed

lemma joy_fields:
  "(ucast (drop_bit 16 (mouse_joy b x) AND 0xFFFF) :: u16) = b" "(ucast (mouse_joy b x AND 0xFFFF) :: u16) = x"
  "(ucast (ucast (y :: u16) AND 0xFFFF :: u32) :: u16) = y"
proof -
  have m: "(0xFFFF :: u32) = mask 16" by (simp add: mask_eq_exp_minus_1)
  show "(ucast (drop_bit 16 (mouse_joy b x) AND 0xFFFF) :: u16) = b"
    "(ucast (mouse_joy b x AND 0xFFFF) :: u16) = x" "(ucast (ucast (y :: u16) AND 0xFFFF :: u32) :: u16) = y"
    unfolding m by (rule bit_word_eqI; auto simp: mouse_joy_def bit_simps dest: bit_imp_le_length)+
qed

section \<open>Motion is neither lost nor invented\<close>

lemma decode_snapshot:
  "hid_mouse_decode (mouse_key c) (mouse_joy b x) (ucast y) m =
     (decode_xy c x y (m\<lparr>mstate := (mstate m)\<lparr>present := True, buttons := b,
        buttons_pressed := buttons_pressed (mstate m) OR (b AND NOT (prev_buttons m)),
        buttons_released := buttons_released (mstate m) OR (NOT b AND prev_buttons m), report_counter := c\<rparr>\<rparr>))
       \<lparr>report_valid := True, prev_report_counter := c, prev_buttons := b\<rparr>"
  by (simp add: hid_mouse_decode_def key_fields joy_fields Let_def)

text \<open>The decoder has credited the payload \<open>added_x\<close>, \<open>added_y\<close> for the counter \<open>c\<close>, and everything
  before it is \<open>bx\<close>, \<open>by\<close>.\<close>

definition credited :: "u8 \<Rightarrow> u16 \<Rightarrow> u32 \<Rightarrow> u32 \<Rightarrow> of_mouse_state list \<times> hid_mouse \<Rightarrow> bool" where
  "credited mode c bx by s \<longleftrightarrow> report_valid (snd s) \<and> xy_mode (snd s) = mode \<and> prev_report_counter (snd s) = c \<and>
     moved_x s = bx + delta_of mode (added_x (snd s)) \<and> moved_y s = by + delta_of mode (added_y (snd s))"

lemma credited_same:
  assumes "credited mode c bx by s" "mode \<noteq> HID_MOUSE_XY_ACCUM"
  shows "credited mode c bx by (event_step c e s)"
    and "case e of Take \<Rightarrow> added_x (snd (event_step c e s)) = added_x (snd s) \<and> added_y (snd (event_step c e s)) = added_y (snd s)
         | Snapshot b x y \<Rightarrow> added_x (snd (event_step c e s)) = x \<and> added_y (snd (event_step c e s)) = y"
  using assms
  by (cases s; cases e; auto simp: credited_def decode_snapshot decode_xy_def move_def moved_x_def moved_y_def
      delta_of_def hid_mouse_read_def algebra_simps)+

lemma credited_run:
  assumes "credited mode c bx by s" "mode \<noteq> HID_MOUSE_XY_ACCUM"
  shows "credited mode c bx by (fold (event_step c) es s) \<and>
    (added_x (snd (fold (event_step c) es s)), added_y (snd (fold (event_step c) es s))) =
      (case payload es of None \<Rightarrow> (added_x (snd s), added_y (snd s)) | Some p \<Rightarrow> p)"
  using assms(1)
proof (induction es arbitrary: s)
  case (Cons e es)
  note st = credited_same [OF Cons.prems assms(2), of e]
  show ?case using Cons.IH [OF st(1)] st(2)
    by (cases e) (auto split: option.splits)
qed simp

text \<open>Between reports only the motion so far matters.\<close>

definition settled :: "u8 \<Rightarrow> u16 \<Rightarrow> of_mouse_state list \<times> hid_mouse \<Rightarrow> bool" where
  "settled mode c s \<longleftrightarrow> report_valid (snd s) \<and> xy_mode (snd s) = mode \<and> prev_report_counter (snd s) = c"

lemma settled_take:
  "settled mode c s \<Longrightarrow> settled mode c (event_step d Take s) \<and> moved_x (event_step d Take s) = moved_x s \<and>
     moved_y (event_step d Take s) = moved_y s"
  by (cases s) (auto simp: settled_def hid_mouse_read_def moved_x_def moved_y_def)

lemma first_snapshot:
  assumes "settled mode c0 s" "mode \<noteq> HID_MOUSE_XY_ACCUM" "c \<noteq> c0"
  shows "credited mode c (moved_x s) (moved_y s) (event_step c (Snapshot b x y) s)"
    and "added_x (snd (event_step c (Snapshot b x y) s)) = x" "added_y (snd (event_step c (Snapshot b x y) s)) = y"
  using assms
  by (cases s; auto simp: settled_def credited_def decode_snapshot decode_xy_def move_def moved_x_def moved_y_def
      delta_of_def algebra_simps)+

lemma report_credit:
  assumes "settled mode c0 s" "mode \<noteq> HID_MOUSE_XY_ACCUM" "c \<noteq> c0" "payload es = Some (x, y)"
  shows "settled mode c (fold (event_step c) es s) \<and>
    moved_x (fold (event_step c) es s) = moved_x s + delta_of mode x \<and>
    moved_y (fold (event_step c) es s) = moved_y s + delta_of mode y"
  using assms(1,4)
proof (induction es arbitrary: s)
  case (Cons e es)
  show ?case
  proof (cases e)
    case (Snapshot b u v)
    note f = first_snapshot [OF Cons.prems(1) assms(2,3), of b u v]
    show ?thesis using credited_run [OF f(1) assms(2), of es] f(2,3) Cons.prems(2) Snapshot
      by (auto simp: credited_def settled_def split: option.splits)
  next
    case Take
    then show ?thesis using Cons.IH [of "event_step c Take s"] Cons.prems settled_take [OF Cons.prems(1), of c] by simp
  qed
qed simp

definition true_x :: "u8 \<Rightarrow> (u16 \<times> mouse_event list) list \<Rightarrow> u32" where
  "true_x mode rs = sum_list (map (\<lambda>r. delta_of mode (fst (the (payload (snd r))))) rs)"

definition true_y :: "u8 \<Rightarrow> (u16 \<times> mouse_event list) list \<Rightarrow> u32" where
  "true_y mode rs = sum_list (map (\<lambda>r. delta_of mode (snd (the (payload (snd r))))) rs)"

lemma reports_credit:
  assumes "settled mode c s" "mode \<noteq> HID_MOUSE_XY_ACCUM" "fresh_counters c rs"
  shows "moved_x (fold report_step rs s) = moved_x s + true_x mode rs \<and>
         moved_y (fold report_step rs s) = moved_y s + true_y mode rs"
  using assms(1,3)
proof (induction rs arbitrary: c s)
  case (Cons r rs)
  obtain d es where r: "r = (d, es)" by (cases r)
  obtain x y where p: "payload es = Some (x, y)" "d \<noteq> c" using Cons.prems(2) r by auto
  note st = report_credit [OF Cons.prems(1) assms(2) p(2,1)]
  have "settled mode d (report_step r s)" "fresh_counters d rs"
    using st Cons.prems(2) r by (simp_all add: report_step_def)
  from Cons.IH [OF this] show ?case using st p by (simp add: r report_step_def true_x_def true_y_def algebra_simps)
qed (simp add: true_x_def true_y_def)

text \<open>The accumulator mode: the motion reported so far stays congruent to the hardware accumulator.\<close>

lemma take_bit_sum_wide: "take_bit 16 (take_bit 32 a + take_bit 32 b) = take_bit 16 (a + b)" for a b :: int
proof -
  have "take_bit 16 (take_bit 32 a + take_bit 32 b) = take_bit 16 (take_bit 16 (take_bit 32 a) + take_bit 16 (take_bit 32 b))"
    by (simp only: take_bit_add)
  also have "\<dots> = take_bit 16 (take_bit 16 a + take_bit 16 b)"
    by simp
  also have "\<dots> = take_bit 16 (a + b)"
    by (simp only: take_bit_add)
  finally show ?thesis .
qed

lemma ucast_add16: "(ucast (a + b :: u32) :: u16) = ucast a + ucast b"
  by transfer (simp add: take_bit_sum_wide)

lemma ucast_scast16: "(ucast (scast (d :: u16) :: u32) :: u16) = d"
  by (rule bit_word_eqI) (auto simp: bit_simps)

lemma accumulator_step:
  assumes "report_valid (snd s)" "xy_mode (snd s) = HID_MOUSE_XY_ACCUM"
  shows "report_valid (snd (event_step c e s)) \<and> xy_mode (snd (event_step c e s)) = HID_MOUSE_XY_ACCUM \<and>
    ucast (moved_x (event_step c e s)) - prev_x (snd (event_step c e s)) = ucast (moved_x s) - prev_x (snd s) \<and>
    ucast (moved_y (event_step c e s)) - prev_y (snd (event_step c e s)) = ucast (moved_y s) - prev_y (snd s)"
  using assms
  by (cases s; cases e)
    (auto simp: decode_snapshot decode_xy_def move_def moved_x_def moved_y_def hid_mouse_read_def ucast_add16 ucast_scast16)

text \<open>
  C25: In the delta modes (one signed value, or two packed sample deltas) the motion an app takes,
  together with what is still pending, is the motion before plus the sum of the true deltas of the
  reports: snapshots that show a new counter with stale X/Y fields, repeated snapshots and reads at
  any moment neither lose nor add motion.
\<close>

theorem mouse_motion_exact:
  assumes "report_valid m" and "xy_mode m = mode" and "mode \<noteq> HID_MOUSE_XY_ACCUM"
    and "fresh_counters (prev_report_counter m) rs" and "s = fold report_step rs ([], m)"
  shows "sum_list (map dx (fst s)) + dx (mstate (snd s)) = dx (mstate m) + true_x mode rs \<and>
         sum_list (map dy (fst s)) + dy (mstate (snd s)) = dy (mstate m) + true_y mode rs"
  using reports_credit [of mode "prev_report_counter m" "([], m)" rs] assms
  by (simp add: settled_def moved_x_def moved_y_def)

lemma mouse_motion_exact_witness:
  "let m = hid_mouse_decode (mouse_key 7) (mouse_joy 0 0) 0 (hid_mouse_init HID_MOUSE_XY_PAIR8);
       rs = [(8, [Snapshot 0 0 0, Take, Snapshot 1 0x01FF 0x0203]),
             (9, [Snapshot 1 0x01FF 0x0203, Snapshot 0 0xFFFF 0x0100, Take])];
       s = fold report_step rs ([], m)
   in sum_list (map dx (fst s)) + dx (mstate (snd s)) = dx (mstate m) + true_x HID_MOUSE_XY_PAIR8 rs \<and>
      sum_list (map dy (fst s)) + dy (mstate (snd s)) = dy (mstate m) + true_y HID_MOUSE_XY_PAIR8 rs"
  unfolding Let_def
  by (rule mouse_motion_exact)
    (simp_all add: decode_snapshot [where y = 0, unfolded unsigned_0] decode_xy_def hid_mouse_init_def HID_MOUSE_XY_PAIR8_def HID_MOUSE_XY_ACCUM_def)

end
