(* ===== verification/Phdp.thy ===== *)
theory Phdp
  imports Crc
begin

text \<open>
  The PHDP debug link of the boot ROM: the polled UART of \<open>os/shared/uart_poll.inc.c\<close> and the codec
  of \<open>os/shared/phdp_codec.inc.c\<close>. The hardware the code polls is a trace: the values that successive
  reads of the cycle counter give, what successive receive polls find, and how many status reads show
  a full transmit FIFO before each byte. A result \<open>None\<close> means that the trace ends while the code
  is still polling. The packet buffer is a function from offsets, so a store beyond
  its end would show.
\<close>

unbundle bit_operations_syntax

section \<open>The checksum\<close>

definition crc16_bit :: "u16 \<Rightarrow> u16" where
  "crc16_bit crc = (if crc AND 0x8000 \<noteq> 0 then push_bit 1 crc XOR 0x1021 else push_bit 1 crc)"

definition crc16_byte :: "u16 \<Rightarrow> u8 \<Rightarrow> u16" where
  "crc16_byte crc b = (crc16_bit ^^ 8) (crc XOR push_bit 8 (ucast b))"

definition phdp_crc16 :: "(nat \<Rightarrow> u8) \<Rightarrow> nat \<Rightarrow> u16" where
  "phdp_crc16 data len = foldl crc16_byte 0xFFFF (map data [0..<len])"

lemma xor_cancel:
  fixes x y z :: "'a::len word"
  shows "x XOR z = y XOR z \<Longrightarrow> x = y" "z XOR x = z XOR y \<Longrightarrow> x = y"
  by (drule arg_cong [of _ _ "\<lambda>w. w XOR z"], simp add: xor.assoc)
    (drule arg_cong [of _ _ "\<lambda>w. z XOR w"], simp add: xor.assoc [symmetric])

lemma crc16_bit_if: "crc16_bit c = push_bit 1 c XOR (if bit c 15 then 0x1021 else 0)"
proof -
  have "(c AND 0x8000 \<noteq> 0) = bit c 15"
    using and_exp_eq_0_iff_not_bit [of c 15] by simp
  then show ?thesis by (simp add: crc16_bit_def)
qed

lemma bit_shift: "bit (push_bit 1 c :: u16) 0 = False" "n < 15 \<Longrightarrow> bit (push_bit 1 c :: u16) (Suc n) = bit c n"
  by (simp_all only: bit_push_bit_iff) auto

lemma crc16_bit_low: "bit (crc16_bit c) 0 = bit c 15"
  by (auto simp: crc16_bit_if bit_xor_iff bit_shift simp del: push_bit_Suc push_bit_of_1 simp flip: One_nat_def)

lemma crc16_bit_inj: "crc16_bit c = crc16_bit d \<Longrightarrow> c = d"
proof -
  assume eq: "crc16_bit c = crc16_bit d"
  then have 15: "bit c 15 = bit d 15" using crc16_bit_low by metis
  have "push_bit 1 c = push_bit 1 d"
    by (rule xor_cancel(1) [of _ "if bit d 15 then 0x1021 else 0"]) (use eq 15 in \<open>simp only: crc16_bit_if\<close>)
  then have low: "bit c n = bit d n" if "n < 15" for n using bit_shift(2) [OF that] by metis
  show "c = d"
  proof (rule bit_word_eqI)
    show "bit c n = bit d n" if "n < LENGTH(16)" for n
      using that 15 low [of n] by (cases "n = 15") auto
  qed
qed

lemma crc16_bits_inj: "(crc16_bit ^^ n) c = (crc16_bit ^^ n) d \<Longrightarrow> c = d"
  by (induction n) (auto dest: crc16_bit_inj)

interpretation crc16: checksum crc16_byte
proof unfold_locales
  show "s = t" if "crc16_byte s b = crc16_byte t b" for s t b
    using crc16_bits_inj [OF that [unfolded crc16_byte_def]] by (rule xor_cancel)
  show "b = c" if "crc16_byte s b = crc16_byte s c" for s b c
  proof -
    have e: "push_bit 8 (ucast b :: u16) = push_bit 8 (ucast c)"
      using crc16_bits_inj [OF that [unfolded crc16_byte_def]] by (rule xor_cancel)
    show ?thesis
    proof (rule bit_word_eqI)
      show "bit b n = bit c n" if "n < LENGTH(8)" for n
        using arg_cong [OF e, of "\<lambda>w. bit w (8 + n)"] that by (simp add: bit_push_bit_iff bit_ucast_iff)
    qed
  qed
qed

section \<open>The polled UART\<close>

record phdp =
  buf :: "nat \<Rightarrow> u8"
  seq :: u8
  clock :: "u32 list"
  rx :: "u8 option list"
  tx :: "u8 list"
  stall :: "nat \<Rightarrow> nat"
  puts :: nat

definition sys_cycle_lo :: "phdp \<Rightarrow> (u32 \<times> phdp) option" where
  "sys_cycle_lo s = (case clock s of [] \<Rightarrow> None | t # ts \<Rightarrow> Some (t, s\<lparr>clock := ts\<rparr>))"

definition uart_putc :: "u8 \<Rightarrow> phdp \<Rightarrow> phdp" where
  "uart_putc c s = s\<lparr>tx := (if stall s (puts s) < 100000 then tx s @ [c] else tx s), puts := puts s + 1\<rparr>"

definition uart_getc :: "phdp \<Rightarrow> (u8 option \<times> phdp) option" where
  "uart_getc s = (case rx s of [] \<Rightarrow> None | c # cs \<Rightarrow> Some (c, s\<lparr>rx := cs\<rparr>))"

section \<open>Packets\<close>

definition PHDP_STX :: u8 where "PHDP_STX = 0x02"
definition PHDP_HEADER_SIZE :: nat where "PHDP_HEADER_SIZE = 7"
definition PHDP_CRC_SIZE :: nat where "PHDP_CRC_SIZE = 2"
definition PHDP_MAX_CHUNK :: u32 where "PHDP_MAX_CHUNK = 256"
definition PHDP_BUF_SIZE :: nat where "PHDP_BUF_SIZE = PHDP_HEADER_SIZE + unat PHDP_MAX_CHUNK + PHDP_CRC_SIZE"

text \<open>A null payload leaves what the buffer held.\<close>

definition put_payload :: "u8 list option \<Rightarrow> u32 \<Rightarrow> (nat \<Rightarrow> u8) \<Rightarrow> nat \<Rightarrow> u8" where
  "put_payload payload len b = (case payload of None \<Rightarrow> b
     | Some src \<Rightarrow> fold (\<lambda>i b. b(PHDP_HEADER_SIZE + i := src ! i)) [0..<unat len] b)"

definition phdp_send :: "u8 \<Rightarrow> u8 list option \<Rightarrow> u32 \<Rightarrow> phdp \<Rightarrow> phdp" where
  "phdp_send cmd payload len s =
     (if PHDP_MAX_CHUNK < len then s
      else let b1 = (buf s)(0 := PHDP_STX, 1 := seq s, 2 := cmd, 3 := byte_at 0 len, 4 := byte_at 1 len,
                            5 := byte_at 2 len, 6 := byte_at 3 len);
               b2 = put_payload payload len b1;
               body = PHDP_HEADER_SIZE + unat len;
               crc = phdp_crc16 b2 body;
               b3 = b2(body := ucast crc, body + 1 := ucast (drop_bit 8 crc))
           in fold (\<lambda>i. uart_putc (b3 i)) [0..<body + PHDP_CRC_SIZE] (s\<lparr>buf := b3, seq := seq s + 1\<rparr>))"

record rframe =
  pos :: nat
  payload_len :: u32
  need :: nat
  have_header :: bool

text \<open>What a byte does: the accepted command and length, the state of the frame, the buffer.\<close>

definition recv_frame :: "rframe \<Rightarrow> (nat \<Rightarrow> u8) \<Rightarrow> (u8 \<times> u32) option \<times> rframe \<times> (nat \<Rightarrow> u8)" where
  "recv_frame r b =
     (if have_header r \<and> pos r = need r then
        let body = PHDP_HEADER_SIZE + unat (payload_len r);
            got = ucast (le16 (b body) (b (body + 1)))
        in if phdp_crc16 b body \<noteq> got
           then (None, r\<lparr>pos := 0, have_header := False, need := PHDP_HEADER_SIZE\<rparr>, b)
           else (Some (b 2, payload_len r), r, b)
      else (None, r, b))"

definition recv_byte :: "u8 \<Rightarrow> rframe \<Rightarrow> (nat \<Rightarrow> u8) \<Rightarrow> (u8 \<times> u32) option \<times> rframe \<times> (nat \<Rightarrow> u8)" where
  "recv_byte c r b =
     (if pos r = 0 \<and> c \<noteq> PHDP_STX then (None, r, b)
      else let b1 = b(pos r := c); r1 = r\<lparr>pos := pos r + 1\<rparr>
           in if \<not> have_header r1 \<and> pos r1 = PHDP_HEADER_SIZE then
                let n = le32 (b1 3) (b1 4) (b1 5) (b1 6); r2 = r1\<lparr>payload_len := n\<rparr>
                in if PHDP_MAX_CHUNK < n then (None, r2\<lparr>pos := 0\<rparr>, b1)
                   else recv_frame (r2\<lparr>need := PHDP_HEADER_SIZE + unat n + PHDP_CRC_SIZE, have_header := True\<rparr>) b1
              else recv_frame r1 b1)"

function recv_loop :: "u32 \<Rightarrow> u32 \<Rightarrow> rframe \<Rightarrow> phdp \<Rightarrow> ((u8 \<times> u32) option \<times> phdp) option" where
  "recv_loop timeout start r s =
     (case sys_cycle_lo s of None \<Rightarrow> None
      | Some (now, s1) \<Rightarrow>
          if \<not> now - start < timeout then Some (None, s1)
          else case uart_getc s1 of None \<Rightarrow> None
            | Some (None, s2) \<Rightarrow> recv_loop timeout start r s2
            | Some (Some c, s2) \<Rightarrow>
                (case recv_byte c r (buf s2) of
                   (Some p, r1, b) \<Rightarrow> Some (Some p, s2\<lparr>buf := b\<rparr>)
                 | (None, r1, b) \<Rightarrow> recv_loop timeout start r1 (s2\<lparr>buf := b\<rparr>)))"
  by pat_completeness auto
termination
  by (relation "measure (\<lambda>(T, t, r, s). length (clock s))")
    (auto simp: sys_cycle_lo_def uart_getc_def split: list.splits)

declare recv_loop.simps [simp del]

definition phdp_recv :: "u32 \<Rightarrow> phdp \<Rightarrow> ((u8 \<times> u32) option \<times> phdp) option" where
  "phdp_recv timeout_cycles s =
     (case sys_cycle_lo s of None \<Rightarrow> None
      | Some (start, s1) \<Rightarrow> recv_loop timeout_cycles start
          \<lparr>pos = 0, payload_len = 0, need = PHDP_HEADER_SIZE, have_header = False\<rparr> s1)"

end
