(* ===== verification/PhdpSpec.thy ===== *)
theory PhdpSpec
  imports Phdp "HOL-Library.Sublist"
begin

text \<open>
  What the PHDP codec promises: what is sent is what is received, whatever line noise precedes it; a
  frame with a changed byte is dropped and the next one received, unless the length was changed to
  another one in range; a receive stays inside its buffer and accepts only frames that really arrived,
  with a matching checksum; and it returns once its time is over.
\<close>

section \<open>Frames as byte lists\<close>

definition header_of :: "u8 \<Rightarrow> u8 \<Rightarrow> u32 \<Rightarrow> u8 list" where
  "header_of q cmd n = [PHDP_STX, q, cmd, byte_at 0 n, byte_at 1 n, byte_at 2 n, byte_at 3 n]"

definition frame_of :: "u8 \<Rightarrow> u8 \<Rightarrow> u8 list \<Rightarrow> u8 list" where
  "frame_of q cmd p = (let body = header_of q cmd (of_nat (length p)) @ p; crc = crc16.digest 0xFFFF body
     in body @ [ucast crc, ucast (drop_bit 8 crc)])"

definition shaped :: "u8 list \<Rightarrow> u32 \<Rightarrow> bool" where
  "shaped w n \<longleftrightarrow> n \<le> PHDP_MAX_CHUNK \<and> length w = 9 + unat n \<and> w ! 0 = PHDP_STX \<and>
     le32 (w ! 3) (w ! 4) (w ! 5) (w ! 6) = n"

definition crc_ok :: "u8 list \<Rightarrow> bool" where
  "crc_ok w \<longleftrightarrow> crc16.digest 0xFFFF (take (length w - 2) w) = ucast (le16 (w ! (length w - 2)) (w ! (length w - 1)))"

lemma phdp_crc16_digest: "phdp_crc16 b n = crc16.digest 0xFFFF (map b [0..<n])"
  by (simp add: phdp_crc16_def crc16.digest_def)

lemma unat_max_chunk [simp]: "unat PHDP_MAX_CHUNK = 256"
  by (simp add: PHDP_MAX_CHUNK_def)

lemma max_chunk_nat: "n \<le> PHDP_MAX_CHUNK \<longleftrightarrow> unat n \<le> 256"
  by (simp add: word_le_nat_alt)

lemma crc_bytes: "ucast (le16 (ucast (c :: u16)) (ucast (drop_bit 8 c))) = c"
proof -
  have "bit (ucast (le16 (ucast c) (ucast (drop_bit 8 c))) :: u16) n = bit c n" if "n < 16" for n
    using that by (auto simp: bit_ucast_iff bit_le16 bit_drop_bit_eq)
  then show ?thesis by (intro bit_word_eqI) simp
qed

lemma length_frame [simp]: "length (frame_of q cmd p) = 9 + length p"
  by (simp add: frame_of_def header_of_def Let_def)

lemma nth_frame: "frame_of q cmd p ! 0 = PHDP_STX" "frame_of q cmd p ! 2 = cmd"
  "i < length p \<Longrightarrow> frame_of q cmd p ! (7 + i) = p ! i"
  by (auto simp: frame_of_def header_of_def Let_def nth_append)

lemma frame_shaped: "length p \<le> 256 \<Longrightarrow> shaped (frame_of q cmd p) (of_nat (length p))"
  unfolding shaped_def max_chunk_nat
  by (simp add: unat_of_nat take_bit_eq_mod nth_frame) (simp add: frame_of_def header_of_def Let_def le_simps)

lemma frame_crc_ok: "crc_ok (frame_of q cmd p)"
  by (simp add: crc_ok_def frame_of_def Let_def nth_append crc_bytes header_of_def)

section \<open>Sending\<close>

lemma putc_fields [simp]:
  "buf (uart_putc c s) = buf s" "seq (uart_putc c s) = seq s" "clock (uart_putc c s) = clock s"
  "rx (uart_putc c s) = rx s" "stall (uart_putc c s) = stall s"
  by (simp_all add: uart_putc_def)

lemma puts_fields:
  "buf (fold (\<lambda>i. uart_putc (b i)) is s) = buf s" "seq (fold (\<lambda>i. uart_putc (b i)) is s) = seq s"
  "clock (fold (\<lambda>i. uart_putc (b i)) is s) = clock s" "rx (fold (\<lambda>i. uart_putc (b i)) is s) = rx s"
  "stall (fold (\<lambda>i. uart_putc (b i)) is s) = stall s"
  by (induction "is" arbitrary: s) simp_all

lemma puts_tx:
  "(\<And>k. stall s k < 100000) \<Longrightarrow> tx (fold (\<lambda>i. uart_putc (b i)) is s) = tx s @ map b is"
  by (induction "is" arbitrary: s) (simp_all add: uart_putc_def)

lemma put_payload_at:
  "put_payload (Some p) n b i = (if 7 \<le> i \<and> i < 7 + unat n then p ! (i - 7) else b i)"
proof -
  have "fold (\<lambda>i b. b(PHDP_HEADER_SIZE + i := p ! i)) [0..<k] b i =
      (if 7 \<le> i \<and> i < 7 + k then p ! (i - 7) else b i)" for k
    by (induction k) (auto simp: PHDP_HEADER_SIZE_def)
  then show ?thesis by (simp add: put_payload_def)
qed

lemma map_frame:
  assumes "\<And>i. i < length p \<Longrightarrow> f (7 + i) = p ! i"
    and "map f [0..<7] = header_of q cmd (of_nat (length p))"
  shows "map f [0..<7 + length p] = header_of q cmd (of_nat (length p)) @ p"
proof -
  have "[0..<7 + length p] = [0..<7] @ [7..<7 + length p]" by (rule upt_add_eq_append) simp
  moreover have "map f [7..<7 + length p] = p"
    using assms(1) by (intro nth_equalityI) auto
  ultimately show ?thesis using assms(2) by simp
qed

lemma send_frame:
  assumes "length p = unat n" "n \<le> PHDP_MAX_CHUNK" "\<And>k. stall s k < 100000"
  shows "tx (phdp_send cmd (Some p) n s) = tx s @ frame_of (seq s) cmd p"
    and "seq (phdp_send cmd (Some p) n s) = seq s + 1" "rx (phdp_send cmd (Some p) n s) = rx s"
    "clock (phdp_send cmd (Some p) n s) = clock s" "stall (phdp_send cmd (Some p) n s) = stall s"
proof -
  have small: "(PHDP_MAX_CHUNK < n) = False" using assms(2) by simp
  have n: "of_nat (length p) = n" using assms(1) by simp
  define b1 where "b1 = (buf s)(0 := PHDP_STX, 1 := seq s, 2 := cmd, 3 := byte_at 0 n, 4 := byte_at 1 n,
    5 := byte_at 2 n, 6 := byte_at 3 n)"
  define b2 where "b2 = put_payload (Some p) n b1"
  have m: "map b2 [0..<7 + length p] = header_of (seq s) cmd (of_nat (length p)) @ p"
    by (rule map_frame) (simp_all add: b2_def b1_def put_payload_at assms(1) header_of_def n [unfolded assms(1)] upt_rec)
  define b3 where "b3 = b2(7 + length p := ucast (phdp_crc16 b2 (7 + length p)),
    7 + length p + 1 := ucast (drop_bit 8 (phdp_crc16 b2 (7 + length p))))"
  have u: "[0..<7 + length p + 2] = [0..<7 + length p] @ [7 + length p, 7 + length p + 1]"
    using upt_add_eq_append [of 0 "7 + length p" 2] by (simp add: upt_rec)
  have "map b3 [0..<7 + length p] = map b2 [0..<7 + length p]" by (simp add: b3_def)
  then have w: "map b3 [0..<7 + length p + 2] = frame_of (seq s) cmd p"
    unfolding u map_append m by (simp add: b3_def frame_of_def phdp_crc16_digest m Let_def)
  have e: "phdp_send cmd (Some p) n s =
      fold (\<lambda>i. uart_putc (b3 i)) [0..<7 + length p + 2] (s\<lparr>buf := b3, seq := seq s + 1\<rparr>)"
    using small unfolding b3_def b2_def b1_def
    by (simp only: phdp_send_def if_False assms(1) PHDP_HEADER_SIZE_def PHDP_CRC_SIZE_def Let_def)
  show "tx (phdp_send cmd (Some p) n s) = tx s @ frame_of (seq s) cmd p"
    unfolding e w [symmetric] by (subst puts_tx) (simp_all add: assms(3))
  show "seq (phdp_send cmd (Some p) n s) = seq s + 1" "rx (phdp_send cmd (Some p) n s) = rx s"
    "clock (phdp_send cmd (Some p) n s) = clock s" "stall (phdp_send cmd (Some p) n s) = stall s"
    unfolding e puts_fields by simp_all
qed

section \<open>Receiving a frame\<close>

fun heard :: "u8 option list \<Rightarrow> u8 list" where
  "heard [] = []"
| "heard (None # ps) = heard ps"
| "heard (Some c # ps) = c # heard ps"

text \<open>The first \<open>k\<close> bytes of \<open>w\<close> are in the buffer.\<close>

definition reading :: "u8 list \<Rightarrow> u32 \<Rightarrow> nat \<Rightarrow> rframe \<Rightarrow> (nat \<Rightarrow> u8) \<Rightarrow> bool" where
  "reading w n k r b \<longleftrightarrow> pos r = k \<and> (\<forall>i<k. b i = w ! i) \<and> have_header r = (7 \<le> k) \<and>
     (7 \<le> k \<longrightarrow> payload_len r = n \<and> need r = 9 + unat n)"

lemma reading_step:
  assumes "shaped w n" "reading w n k r b" "k < length w"
  shows "Suc k < length w \<Longrightarrow> \<exists>r' b'. recv_byte (w ! k) r b = (None, r', b') \<and> reading w n (Suc k) r' b'"
    and "Suc k = length w \<Longrightarrow> crc_ok w \<Longrightarrow>
      \<exists>r' b'. recv_byte (w ! k) r b = (Some (w ! 2, n), r', b') \<and> (\<forall>i<length w. b' i = w ! i)"
    and "Suc k = length w \<Longrightarrow> \<not> crc_ok w \<Longrightarrow>
      \<exists>r' b'. recv_byte (w ! k) r b = (None, r', b') \<and> reading w n 0 r' b'"
proof -
  let ?b = "b(k := w ! k)"
  have b: "\<forall>i<Suc k. ?b i = w ! i" using assms(2) by (auto simp: reading_def less_Suc_eq)
  have stx: "\<not> (pos r = 0 \<and> w ! k \<noteq> PHDP_STX)"
    using assms(1,2) by (cases "k = 0") (auto simp: reading_def shaped_def)
  have n: "\<not> PHDP_MAX_CHUNK < n" "length w = 9 + unat n" "le32 (w ! 3) (w ! 4) (w ! 5) (w ! 6) = n"
    using assms(1) by (auto simp: shaped_def dest: leD)
  show "\<exists>r' b'. recv_byte (w ! k) r b = (None, r', b') \<and> reading w n (Suc k) r' b'" if "Suc k < length w"
  proof (cases "Suc k = 7")
    case True
    then have h: "?b 3 = w ! 3" "?b 4 = w ! 4" "?b 5 = w ! 5" "?b 6 = w ! 6"
      using b [rule_format, of 3] b [rule_format, of 4] b [rule_format, of 5] b [rule_format, of 6] by simp_all
    show ?thesis using stx n assms(2) b True h
      by (auto simp: recv_byte_def recv_frame_def reading_def Let_def PHDP_HEADER_SIZE_def PHDP_CRC_SIZE_def)
  next
    case False
    then show ?thesis using stx n assms(2) b that
      by (auto simp: recv_byte_def recv_frame_def reading_def Let_def PHDP_HEADER_SIZE_def PHDP_CRC_SIZE_def)
  qed
  have full: "recv_byte (w ! k) r b = recv_frame (r\<lparr>pos := Suc k\<rparr>) ?b" if "Suc k = length w"
    using stx assms(2) that n by (auto simp: recv_byte_def reading_def PHDP_HEADER_SIZE_def)
  have m: "map ?b [0..<7 + unat n] = take (length w - 2) w" if "Suc k = length w"
  proof (rule nth_equalityI)
    show "map ?b [0..<7 + unat n] ! i = take (length w - 2) w ! i" if "i < length (map ?b [0..<7 + unat n])" for i
      using b [rule_format, of i] that \<open>Suc k = length w\<close> n(2) by simp
  qed (use n in simp)
  have l: "le16 (?b (7 + unat n)) (?b (7 + unat n + 1)) = le16 (w ! (length w - 2)) (w ! (length w - 1))"
    if "Suc k = length w"
    using b [rule_format, of "7 + unat n"] b [rule_format, of "8 + unat n"] that n(2) by simp
  have f: "have_header r" "payload_len r = n" "need r = Suc k" if "Suc k = length w"
    using assms(2) that n by (auto simp: reading_def)
  show "\<exists>r' b'. recv_byte (w ! k) r b = (Some (w ! 2, n), r', b') \<and> (\<forall>i<length w. b' i = w ! i)"
    if "Suc k = length w" "crc_ok w"
  proof -
    have "?b 2 = w ! 2" using b [rule_format, of 2] that(1) n(2) by simp
    then show ?thesis using full [OF that(1)] m [OF that(1)] l [OF that(1)] f [OF that(1)] b that
      by (auto simp: recv_frame_def Let_def PHDP_HEADER_SIZE_def phdp_crc16_digest crc_ok_def simp del: fun_upd_apply)
  qed
  show "\<exists>r' b'. recv_byte (w ! k) r b = (None, r', b') \<and> reading w n 0 r' b'" if "Suc k = length w" "\<not> crc_ok w"
    using full [OF that(1)] m [OF that(1)] l [OF that(1)] f [OF that(1)] that(2)
    by (auto simp: recv_frame_def Let_def PHDP_HEADER_SIZE_def phdp_crc16_digest crc_ok_def reading_def simp del: fun_upd_apply)
qed

lemma recv_loop_poll:
  assumes "clock s = t # cs" "rx s = p # ps" "t - start < T"
  shows "recv_loop T start r s = (case p of None \<Rightarrow> recv_loop T start r (s\<lparr>clock := cs, rx := ps\<rparr>)
    | Some c \<Rightarrow> (case recv_byte c r (buf s) of
         (Some q, r1, b) \<Rightarrow> Some (Some q, s\<lparr>clock := cs, rx := ps, buf := b\<rparr>)
       | (None, r1, b) \<Rightarrow> recv_loop T start r1 (s\<lparr>clock := cs, rx := ps, buf := b\<rparr>)))"
  using assms by (subst recv_loop.simps)
    (auto simp: sys_cycle_lo_def uart_getc_def split: option.splits prod.splits)

text \<open>Line noise without a start byte may still come, then the rest of \<open>w\<close>.\<close>

definition coming :: "u8 list \<Rightarrow> u32 \<Rightarrow> rframe \<Rightarrow> (nat \<Rightarrow> u8) \<Rightarrow> u8 list \<Rightarrow> bool" where
  "coming w n r b bs \<longleftrightarrow> (\<exists>noise k. reading w n k r b \<and> bs = noise @ drop k w \<and> k < length w \<and>
     PHDP_STX \<notin> set noise \<and> (noise \<noteq> [] \<longrightarrow> k = 0))"

lemma heard_Nil: "heard ps = [] \<Longrightarrow> ps \<noteq> [] \<Longrightarrow> last ps = None"
  by (induction ps rule: heard.induct) (auto split: if_splits)

lemma coming_step:
  assumes "shaped w n" "coming w n r b (c # bs)"
  shows "(\<exists>r' b'. recv_byte c r b = (None, r', b') \<and> coming w n r' b' bs) \<or>
    bs = [] \<and> (if crc_ok w then \<exists>r' b'. recv_byte c r b = (Some (w ! 2, n), r', b') \<and> (\<forall>i<length w. b' i = w ! i)
      else \<exists>r' b'. recv_byte c r b = (None, r', b') \<and> reading w n 0 r' b')"
proof -
  obtain noise k where c: "reading w n k r b" "c # bs = noise @ drop k w" "k < length w" "PHDP_STX \<notin> set noise"
    "noise \<noteq> [] \<longrightarrow> k = 0" using assms(2) unfolding coming_def by blast
  show ?thesis
  proof (cases noise)
    case (Cons x xs)
    then have "recv_byte c r b = (None, r, b)" using c by (auto simp: recv_byte_def reading_def)
    moreover have "coming w n r b bs" unfolding coming_def
      by (rule exI [of _ xs], rule exI [of _ k]) (use c Cons in auto)
    ultimately show ?thesis by blast
  next
    case Nil
    then have d: "c = w ! k" "bs = drop (Suc k) w" using c by (auto simp: Cons_nth_drop_Suc [symmetric])
    note st = reading_step [OF assms(1) c(1,3)]
    show ?thesis
    proof (cases "Suc k < length w")
      case True
      obtain r' b' where n: "recv_byte (w ! k) r b = (None, r', b')" "reading w n (Suc k) r' b'" using st(1) [OF True] by blast
      then have "coming w n r' b' bs" unfolding coming_def
        by (intro exI [of _ "[]"] exI [of _ "Suc k"]) (use d True in simp)
      then show ?thesis using n(1) d by blast
    next
      case False
      then have "Suc k = length w" using c(3) by simp
      then show ?thesis using st(2,3) d by auto
    qed
  qed
qed

lemma recv_coming:
  assumes "shaped w n" "coming w n r (buf s) (heard ps)" "rx s = ps @ rest" "clock s = cs @ cs'" "length cs = length ps"
    "\<forall>t\<in>set cs. t - start < T" "last ps \<noteq> None"
  shows "\<exists>r' s'. rx s' = rest \<and> clock s' = cs' \<and>
    (if crc_ok w then recv_loop T start r s = Some (Some (w ! 2, n), s') \<and> (\<forall>i<length w. buf s' i = w ! i)
     else recv_loop T start r s = recv_loop T start r' s' \<and> reading w n 0 r' (buf s'))"
  using assms(2-)
proof (induction ps arbitrary: r s cs)
  case Nil
  then show ?case by (auto simp: coming_def)
next
  case (Cons p ps)
  obtain t ts where t: "cs = t # ts" "length ts = length ps" "t - start < T" "\<forall>t\<in>set ts. t - start < T"
    using Cons.prems(4,5) by (cases cs) auto
  have poll: "clock s = t # ts @ cs'" "rx s = p # ps @ rest" using Cons.prems(2,3) t by simp_all
  note u = recv_loop_poll [OF poll t(3), of r]
  have go: ?case if "recv_loop T start r s = recv_loop T start r1 s1" "coming w n r1 (buf s1) (heard ps)"
      "rx s1 = ps @ rest" "clock s1 = ts @ cs'" for r1 s1
  proof -
    have "heard ps \<noteq> []" using that(2) by (auto simp: coming_def)
    then have "last ps \<noteq> None" using Cons.prems(6) by (cases ps) auto
    from Cons.IH [OF that(2,3,4) t(2,4) this] show ?thesis unfolding that(1) .
  qed
  show ?case
  proof (cases p)
    case None
    then show ?thesis using u Cons.prems(1)
      by (intro go [of r "s\<lparr>clock := ts @ cs', rx := ps @ rest\<rparr>"]) simp_all
  next
    case (Some c)
    have "coming w n r (buf s) (c # heard ps)" using Cons.prems(1) Some by simp
    from coming_step [OF assms(1) this] show ?thesis
    proof (elim disjE exE conjE)
      fix r' b' assume "recv_byte c r (buf s) = (None, r', b')" "coming w n r' b' (heard ps)"
      then show ?thesis using u Some by (intro go [of r' "s\<lparr>clock := ts @ cs', rx := ps @ rest, buf := b'\<rparr>"]) simp_all
    next
      assume e: "heard ps = []" and l: "if crc_ok w then \<exists>r' b'. recv_byte c r (buf s) = (Some (w ! 2, n), r', b') \<and> (\<forall>i<length w. b' i = w ! i)
        else \<exists>r' b'. recv_byte c r (buf s) = (None, r', b') \<and> reading w n 0 r' b'"
      have "ps = []" using heard_Nil [OF e] Cons.prems(6) by (cases "ps = []") auto
      let ?s = "\<lambda>b'. s\<lparr>clock := ts @ cs', rx := ps @ rest, buf := b'\<rparr>"
      show ?thesis
      proof (cases "crc_ok w")
        case True
        then obtain r' b' where "recv_byte c r (buf s) = (Some (w ! 2, n), r', b')" "\<forall>i<length w. b' i = w ! i"
          using l by auto
        then show ?thesis using u Some \<open>ps = []\<close> t True by (intro exI [of _ r'] exI [of _ "?s b'"]) simp
      next
        case False
        then obtain r' b' where "recv_byte c r (buf s) = (None, r', b')" "reading w n 0 r' b'"
          using l by auto
        then show ?thesis using u Some \<open>ps = []\<close> t False by (intro exI [of _ r'] exI [of _ "?s b'"]) simp
      qed
    qed
  qed
qed

section \<open>Round trip and resynchronisation\<close>

text \<open>The bytes a send puts on the wire.\<close>

definition wire :: "u8 \<Rightarrow> u8 list \<Rightarrow> phdp \<Rightarrow> u8 list" where
  "wire cmd p s = drop (length (tx s)) (tx (phdp_send cmd (Some p) (of_nat (length p)) s))"

lemma wire_frame:
  assumes "length p \<le> 256" "\<And>k. stall s k < 100000"
  shows "wire cmd p s = frame_of (seq s) cmd p"
proof -
  have "unat (of_nat (length p) :: u32) = length p" using assms(1) by (simp add: unat_of_nat take_bit_eq_mod)
  then show ?thesis
    using send_frame(1) [of p "of_nat (length p)" s cmd] assms by (simp add: wire_def max_chunk_nat)
qed

lemma fresh_reading: "reading w n 0 \<lparr>pos = 0, payload_len = 0, need = PHDP_HEADER_SIZE, have_header = False\<rparr> b"
  by (simp add: reading_def)

lemma coming_fresh:
  assumes "reading v m 0 r b" "shaped w n" "PHDP_STX \<notin> set noise"
  shows "coming w n r b (noise @ w)"
proof -
  have "reading w n 0 r b" using assms(1) by (simp add: reading_def)
  moreover have "0 < length w" using assms(2) by (auto simp: shaped_def)
  ultimately show ?thesis unfolding coming_def by (intro exI [of _ noise] exI [of _ 0]) (use assms(3) in simp)
qed

lemma phdp_recv_poll:
  "clock r = start # ts \<Longrightarrow> phdp_recv T r = recv_loop T start
     \<lparr>pos = 0, payload_len = 0, need = PHDP_HEADER_SIZE, have_header = False\<rparr> (r\<lparr>clock := ts\<rparr>)"
  by (simp add: phdp_recv_def sys_cycle_lo_def)

lemma received_payload:
  assumes "\<forall>i<length (frame_of q cmd p). b i = frame_of q cmd p ! i"
  shows "map (\<lambda>i. b (PHDP_HEADER_SIZE + i)) [0..<length p] = p"
  using assms by (intro nth_equalityI) (simp_all add: PHDP_HEADER_SIZE_def nth_frame)

lemma recv_noisy_frame:
  assumes "length p \<le> 256" "heard ps = noise @ frame_of q cmd p" "PHDP_STX \<notin> set noise"
    "last ps \<noteq> None" "rx r = ps @ rest" "clock r = start # ts @ ts'" "length ts = length ps" "\<forall>t\<in>set ts. t - start < T"
  shows "\<exists>r'. phdp_recv T r = Some (Some (cmd, of_nat (length p)), r') \<and> rx r' = rest \<and> clock r' = ts' \<and>
    map (\<lambda>i. buf r' (PHDP_HEADER_SIZE + i)) [0..<length p] = p"
proof -
  let ?w = "frame_of q cmd p" and ?n = "of_nat (length p) :: u32"
  let ?f = "\<lparr>pos = 0, payload_len = 0, need = PHDP_HEADER_SIZE, have_header = False\<rparr>"
  have sh: "shaped ?w ?n" by (rule frame_shaped [OF assms(1)])
  have c: "coming ?w ?n ?f (buf (r\<lparr>clock := ts @ ts'\<rparr>)) (heard ps)"
    unfolding assms(2) by (rule coming_fresh [OF fresh_reading sh assms(3)])
  have q: "rx (r\<lparr>clock := ts @ ts'\<rparr>) = ps @ rest" "clock (r\<lparr>clock := ts @ ts'\<rparr>) = ts @ ts'" using assms(5) by simp_all
  obtain r' where r': "rx r' = rest" "clock r' = ts'" "recv_loop T start ?f (r\<lparr>clock := ts @ ts'\<rparr>) = Some (Some (?w ! 2, ?n), r')"
    "\<forall>i<length ?w. buf r' i = ?w ! i"
    using recv_coming [OF sh c q assms(7,8,4)] by (auto simp: frame_crc_ok)
  show ?thesis
    using r'(1-3) received_payload [OF r'(4)] by (simp add: phdp_recv_poll [OF assms(6)] nth_frame)
qed

text \<open>One corrupted byte outside the start byte and the length.\<close>

lemma corrupt_shaped:
  assumes "i \<notin> {0, 3, 4, 5, 6}" "shaped w n"
  shows "shaped (w[i := x]) n"
  using assms by (auto simp: shaped_def)

lemma le16_inj:
  assumes "ucast (le16 a b) = (ucast (le16 c d) :: u16)"
  shows "a = c" "b = d"
proof -
  have e: "(k < 8 \<longrightarrow> bit a k = bit c k) \<and> (k < 8 \<longrightarrow> bit b k = bit d k)" for k
  proof -
    have *: "bit (le16 a b) j = bit (le16 c d) j" if "j < 16" for j
      using arg_cong [OF assms, of "\<lambda>w. bit w j"] that by (simp add: bit_ucast_iff)
    show ?thesis using * [of k] * [of "8 + k"] by (auto simp: bit_le16)
  qed
  show "a = c" by (rule bit_word_eqI) (use e in simp)
  show "b = d" by (rule bit_word_eqI) (use e in simp)
qed

lemma corrupt_crc:
  assumes "crc_ok w" "i < length w" "x \<noteq> w ! i" "2 < length w"
  shows "\<not> crc_ok (w[i := x])"
proof
  assume bad: "crc_ok (w[i := x])"
  let ?k = "length w - 2"
  show False
  proof (cases "i < ?k")
    case True
    then have "crc16.digest 0xFFFF (take ?k (w[i := x])) = crc16.digest 0xFFFF (take ?k w)"
      using bad assms(1,4) by (simp add: crc_ok_def)
    moreover have "crc16.digest 0xFFFF (take ?k (w[i := x])) \<noteq> crc16.digest 0xFFFF (take ?k w)"
      by (rule crc16.digest_single_change [of _ _ i]) (use True assms in auto)
    ultimately show False by simp
  next
    case False
    then have "ucast (le16 (w[i := x] ! ?k) (w[i := x] ! (length w - 1))) = (ucast (le16 (w ! ?k) (w ! (length w - 1))) :: u16)"
      using bad assms(1) by (simp add: crc_ok_def)
    from le16_inj [OF this] False assms(2,3,4) show False by (cases "i = ?k") (auto simp: nth_list_update split: if_splits)
  qed
qed

text \<open>Bytes the receiver takes without returning a packet.\<close>

fun feed :: "u8 list \<Rightarrow> rframe \<Rightarrow> (nat \<Rightarrow> u8) \<Rightarrow> (rframe \<times> (nat \<Rightarrow> u8)) option" where
  "feed [] r b = Some (r, b)"
| "feed (c # cs) r b = (case recv_byte c r b of (None, r', b') \<Rightarrow> feed cs r' b' | (Some _, _, _) \<Rightarrow> None)"

lemma feed_append: "feed (bs @ cs) r b = (case feed bs r b of None \<Rightarrow> None | Some (r', b') \<Rightarrow> feed cs r' b')"
  by (induction bs arbitrary: r b) (auto split: option.splits prod.splits)

lemma feed_noise: "pos r = 0 \<Longrightarrow> PHDP_STX \<notin> set bs \<Longrightarrow> feed bs r b = Some (r, b)"
  by (induction bs) (auto simp: recv_byte_def)

lemma feed_header:
  assumes "PHDP_MAX_CHUNK < le32 a3 a4 a5 a6"
  shows "\<exists>r b'. feed [PHDP_STX, a1, a2, a3, a4, a5, a6]
      \<lparr>pos = 0, payload_len = 0, need = PHDP_HEADER_SIZE, have_header = False\<rparr> b = Some (r, b') \<and> reading w n 0 r b'"
  using assms by (simp add: recv_byte_def recv_frame_def PHDP_HEADER_SIZE_def reading_def)

lemma recv_feed:
  assumes "feed (heard ps) r (buf s) = Some (r', b')" "rx s = ps @ rest" "clock s = cs @ cs'" "length cs = length ps"
    "\<forall>t\<in>set cs. t - start < T"
  shows "recv_loop T start r s = recv_loop T start r' (s\<lparr>rx := rest, clock := cs', buf := b'\<rparr>)"
  using assms
proof (induction ps arbitrary: r s cs)
  case Nil
  then show ?case by (cases s) simp
next
  case (Cons p ps)
  obtain t ts where t: "cs = t # ts" "length ts = length ps" "t - start < T" "\<forall>t\<in>set ts. t - start < T"
    using Cons.prems(4,5) by (cases cs) auto
  have poll: "clock s = t # ts @ cs'" "rx s = p # ps @ rest" using Cons.prems(2,3) t by simp_all
  note u = recv_loop_poll [OF poll t(3), of r]
  show ?case
  proof (cases p)
    case None
    then show ?thesis using u Cons.prems(1) Cons.IH [of r "s\<lparr>clock := ts @ cs', rx := ps @ rest\<rparr>" ts] t by simp
  next
    case (Some c)
    then obtain r1 b1 where b: "recv_byte c r (buf s) = (None, r1, b1)" "feed (heard ps) r1 b1 = Some (r', b')"
      using Cons.prems(1) by (auto split: prod.splits option.splits)
    then show ?thesis using u Some Cons.IH [of r1 "s\<lparr>clock := ts @ cs', rx := ps @ rest, buf := b1\<rparr>" ts] t by simp
  qed
qed

text \<open>
  A changed frame the receiver throws away as a whole: by its checksum, because the start byte is gone,
  or because its length is out of range; in the last two cases what follows must not start a frame.
\<close>

definition thrown_away :: "nat \<Rightarrow> u8 list \<Rightarrow> bool" where
  "thrown_away i v \<longleftrightarrow> i \<notin> {0, 3, 4, 5, 6} \<or> i = 0 \<and> PHDP_STX \<notin> set v \<or>
     i \<in> {3, 4, 5, 6} \<and> PHDP_MAX_CHUNK < le32 (v ! 3) (v ! 4) (v ! 5) (v ! 6) \<and> PHDP_STX \<notin> set (drop 7 v)"

lemma recv_thrown_away:
  assumes "length p \<le> 256" "i < length (frame_of q cmd p)" "x \<noteq> frame_of q cmd p ! i"
    and "thrown_away i ((frame_of q cmd p)[i := x])"
    and "heard ps = (frame_of q cmd p)[i := x]" "last ps \<noteq> None"
    and "rx r = ps @ rest" "clock r = ts @ ts'" "length ts = length ps" "\<forall>t\<in>set ts. t - start < T"
  shows "\<exists>r1 s1. rx s1 = rest \<and> clock s1 = ts' \<and> reading (frame_of q cmd p) n 0 r1 (buf s1) \<and>
    recv_loop T start \<lparr>pos = 0, payload_len = 0, need = PHDP_HEADER_SIZE, have_header = False\<rparr> r = recv_loop T start r1 s1"
proof -
  let ?w = "frame_of q cmd p" and ?n = "of_nat (length p) :: u32"
  let ?v = "?w[i := x]" and ?f = "\<lparr>pos = 0, payload_len = 0, need = PHDP_HEADER_SIZE, have_header = False\<rparr>"
  have fed: ?thesis if "feed ?v ?f (buf r) = Some (r1, b1)" "reading ?w n 0 r1 b1" for r1 b1
    using recv_feed [OF that(1) [folded assms(5)] assms(7-10)] that(2)
    by (intro exI [of _ r1] exI [of _ "r\<lparr>rx := rest, clock := ts', buf := b1\<rparr>"]) simp
  from assms(4) consider (sum) "i \<notin> {0, 3, 4, 5, 6}" | (start) "i = 0" "PHDP_STX \<notin> set ?v"
    | (long) "i \<in> {3, 4, 5, 6}" "PHDP_MAX_CHUNK < le32 (?v ! 3) (?v ! 4) (?v ! 5) (?v ! 6)" "PHDP_STX \<notin> set (drop 7 ?v)"
    unfolding thrown_away_def by argo
  then show ?thesis
  proof cases
    case sum
    have sv: "shaped ?v ?n" by (rule corrupt_shaped [OF sum frame_shaped [OF assms(1)]])
    have nv: "\<not> crc_ok ?v" using corrupt_crc [OF frame_crc_ok, of i q cmd p x] assms(2,3) by simp
    have c1: "coming ?v ?n ?f (buf r) (heard ps)"
      using coming_fresh [OF fresh_reading sv, of "[]"] by (simp add: assms(5))
    show ?thesis using recv_coming [OF sv c1 assms(7-10,6)] nv by (auto simp: reading_def)
  next
    case start
    show ?thesis by (rule fed [OF feed_noise [OF _ start(2)]]) (simp_all add: reading_def)
  next
    case long
    have l: "7 \<le> length ?v" and h: "?v ! 0 = PHDP_STX"
      using frame_shaped [OF assms(1), of q cmd] long(1) by (auto simp: shaped_def)
    have "take 7 ?v = [?v ! 0, ?v ! 1, ?v ! 2, ?v ! 3, ?v ! 4, ?v ! 5, ?v ! 6]"
      using l by (intro nth_equalityI) (auto simp: less_Suc_eq numeral_eq_Suc)
    then have v: "?v = [PHDP_STX, ?v ! 1, ?v ! 2, ?v ! 3, ?v ! 4, ?v ! 5, ?v ! 6] @ drop 7 ?v"
      using append_take_drop_id [of 7 ?v] h by metis
    obtain r1 b1 where f: "feed [PHDP_STX, ?v ! 1, ?v ! 2, ?v ! 3, ?v ! 4, ?v ! 5, ?v ! 6] ?f (buf r) = Some (r1, b1)"
      "reading ?w n 0 r1 b1" using feed_header [OF long(2), of "?v ! 1" "?v ! 2" "buf r" ?w n] by blast
    have "feed (drop 7 ?v) r1 b1 = Some (r1, b1)" by (rule feed_noise [OF _ long(3)]) (use f(2) in \<open>simp add: reading_def\<close>)
    then have "feed ?v ?f (buf r) = Some (r1, b1)" by (subst v, subst feed_append, simp only: f(1) option.case prod.case)
    then show ?thesis by (rule fed [OF _ f(2)])
  qed
qed

text \<open>
  A length that is in range is believed: until that many bytes and the checksum have arrived the
  receiver takes whatever comes for the body of the frame, complete frames too. So a length that the
  line changed to a larger one in range swallows the frames behind it.
\<close>

lemma feed_partial:
  assumes "shaped v n" and "k < length v"
  shows "\<exists>r b'. feed (take k v) \<lparr>pos = 0, payload_len = 0, need = PHDP_HEADER_SIZE, have_header = False\<rparr> b = Some (r, b') \<and>
    reading v n k r b'"
  using assms(2)
proof (induction k)
  case 0
  then show ?case using fresh_reading by simp
next
  case (Suc k)
  then obtain r b1 where f: "feed (take k v) \<lparr>pos = 0, payload_len = 0, need = PHDP_HEADER_SIZE, have_header = False\<rparr> b =
    Some (r, b1)" "reading v n k r b1" by auto
  obtain r' b2 where "recv_byte (v ! k) r b1 = (None, r', b2)" "reading v n (Suc k) r' b2"
    using reading_step(1) [OF assms(1) f(2)] Suc.prems by auto
  then show ?case using f(1) Suc.prems by (simp add: take_Suc_conv_app_nth feed_append)
qed

lemma length_in_range_swallows:
  assumes "shaped v n" and "k < length v" and "heard ps = take k v" and "rx r = ps @ rest"
    and "clock r = start # ts @ late # ts'" and "length ts = length ps" and "\<forall>t\<in>set ts. t - start < T"
    and "\<not> late - start < T"
  shows "\<exists>r'. phdp_recv T r = Some (None, r') \<and> rx r' = rest"
proof -
  let ?r = "r\<lparr>clock := ts @ late # ts'\<rparr>"
  obtain r1 b1 where "feed (heard ps) \<lparr>pos = 0, payload_len = 0, need = PHDP_HEADER_SIZE, have_header = False\<rparr> (buf ?r) = Some (r1, b1)"
    using feed_partial [OF assms(1,2), of "buf ?r"] assms(3) by auto
  from recv_feed [OF this, of rest ts "late # ts'"] show ?thesis
    using assms(4-) by (simp add: phdp_recv_poll [OF assms(5)]) (simp add: recv_loop.simps sys_cycle_lo_def)
qed

lemma recv_corrupt_then_frame:
  assumes "length p \<le> 256" "\<And>k. stall s k < 100000" "length p' \<le> 256" "\<And>k. stall s' k < 100000"
    and "i < length (wire cmd p s)" "x \<noteq> wire cmd p s ! i" "thrown_away i ((wire cmd p s)[i := x])"
    and "heard ps = (wire cmd p s)[i := x]" "last ps \<noteq> None"
    and "heard ps' = noise @ wire cmd' p' s'" "PHDP_STX \<notin> set noise" "last ps' \<noteq> None"
    and "rx r = ps @ ps' @ rest" "clock r = start # ts @ ts' @ ts''" "length ts = length ps" "length ts' = length ps'"
      "\<forall>t\<in>set (ts @ ts'). t - start < T"
  shows "\<exists>r'. phdp_recv T r = Some (Some (cmd', of_nat (length p')), r') \<and> rx r' = rest \<and>
    map (\<lambda>i. buf r' (PHDP_HEADER_SIZE + i)) [0..<length p'] = p'"
proof -
  let ?w = "frame_of (seq s) cmd p" and ?w' = "frame_of (seq s') cmd' p'"
    and ?n' = "of_nat (length p') :: u32" and ?r = "r\<lparr>clock := ts @ ts' @ ts''\<rparr>"
  let ?f = "\<lparr>pos = 0, payload_len = 0, need = PHDP_HEADER_SIZE, have_header = False\<rparr>"
  note w = wire_frame [OF assms(1,2)] wire_frame [OF assms(3,4)]
  have q: "rx ?r = ps @ (ps' @ rest)" "clock ?r = ts @ (ts' @ ts'')" "\<forall>t\<in>set ts. t - start < T" "\<forall>t\<in>set ts'. t - start < T"
    using assms(13,17) by auto
  obtain r1 s1 where 1: "rx s1 = ps' @ rest" "clock s1 = ts' @ ts''" "recv_loop T start ?f ?r = recv_loop T start r1 s1"
    "reading ?w 0 0 r1 (buf s1)"
    using recv_thrown_away [OF assms(1) assms(5-8) [unfolded w] assms(9) q(1,2) assms(15) q(3)] by blast
  have sh: "shaped ?w' ?n'" by (rule frame_shaped [OF assms(3)])
  have c2: "coming ?w' ?n' r1 (buf s1) (heard ps')"
    unfolding assms(10) w by (rule coming_fresh [OF 1(4) sh assms(11)])
  obtain r' where r': "rx r' = rest" "recv_loop T start r1 s1 = Some (Some (?w' ! 2, ?n'), r')"
    "\<forall>i<length ?w'. buf r' i = ?w' ! i"
    using recv_coming [OF sh c2 1(1,2) assms(16) q(4) assms(12)] by (auto simp: frame_crc_ok)
  show ?thesis using r' 1(3) received_payload [OF r'(3)] by (simp add: phdp_recv_poll [OF assms(14)] nth_frame)
qed

section \<open>Whatever arrives\<close>

text \<open>The frame in the buffer is one the receiver may accept.\<close>

definition accepted :: "(nat \<Rightarrow> u8) \<Rightarrow> u8 \<Rightarrow> u32 \<Rightarrow> bool" where
  "accepted b cmd n \<longleftrightarrow> n \<le> PHDP_MAX_CHUNK \<and> b 0 = PHDP_STX \<and> b 2 = cmd \<and> le32 (b 3) (b 4) (b 5) (b 6) = n \<and>
     phdp_crc16 b (PHDP_HEADER_SIZE + unat n) =
       ucast (le16 (b (PHDP_HEADER_SIZE + unat n)) (b (PHDP_HEADER_SIZE + unat n + 1)))"

definition frame_inv :: "rframe \<Rightarrow> (nat \<Rightarrow> u8) \<Rightarrow> u8 list \<Rightarrow> bool" where
  "frame_inv r b hs \<longleftrightarrow> (if have_header r then payload_len r \<le> PHDP_MAX_CHUNK \<and> need r = 9 + unat (payload_len r) \<and>
       7 \<le> pos r \<and> pos r < need r \<and> le32 (b 3) (b 4) (b 5) (b 6) = payload_len r
     else pos r < 7) \<and>
     (0 < pos r \<longrightarrow> b 0 = PHDP_STX) \<and> suffix (map b [0..<pos r]) hs"

lemma suffix_store: "suffix (map b [0..<k]) hs \<Longrightarrow> suffix (map (b(k := c)) [0..<Suc k]) (hs @ [c])"
  by simp

lemma buf_size [simp]: "PHDP_BUF_SIZE = 265"
  by (simp add: PHDP_BUF_SIZE_def PHDP_HEADER_SIZE_def PHDP_CRC_SIZE_def)

lemma recv_byte_inv:
  assumes "frame_inv r b hs" "recv_byte c r b = (res, r', b')"
  shows "(\<forall>i\<ge>PHDP_BUF_SIZE. b' i = b i) \<and> (case res of None \<Rightarrow> frame_inv r' b' (hs @ [c])
    | Some (cmd, n) \<Rightarrow> accepted b' cmd n \<and> suffix (map b' [0..<9 + unat n]) (hs @ [c]))"
proof -
  let ?b = "b(pos r := c)"
  have p: "pos r < 265" using assms(1) by (auto simp: frame_inv_def max_chunk_nat split: if_splits)
  have suf: "suffix (map ?b [0..<Suc (pos r)]) (hs @ [c])"
    using assms(1) suffix_store [of b "pos r" hs c] by (simp add: frame_inv_def)
  have nil: "suffix (map f [0..<0]) ys" for f :: "nat \<Rightarrow> u8" and ys by simp
  consider (skip) "pos r = 0" "c \<noteq> PHDP_STX" | (low) "\<not> have_header r" "Suc (pos r) < 7" "pos r = 0 \<longrightarrow> c = PHDP_STX"
    | (header) "\<not> have_header r" "pos r = 6" | (body) "have_header r" "7 \<le> pos r" "Suc (pos r) < need r"
    | (full) "have_header r" "7 \<le> pos r" "Suc (pos r) = need r"
    using assms(1) unfolding frame_inv_def by (cases "have_header r"; fastforce)
  then show ?thesis
  proof cases
    case skip
    then show ?thesis using assms by (auto simp: recv_byte_def frame_inv_def split: if_splits)
  next
    case low
    then have "res = None" "r' = r\<lparr>pos := Suc (pos r)\<rparr>" "b' = ?b"
      using assms(2) by (auto simp: recv_byte_def recv_frame_def PHDP_HEADER_SIZE_def)
    then show ?thesis using low assms(1) suf p by (auto simp: frame_inv_def simp del: upt_Suc)
  next
    case header
    then show ?thesis using assms suf p
      by (auto simp: recv_byte_def recv_frame_def frame_inv_def Let_def PHDP_HEADER_SIZE_def PHDP_CRC_SIZE_def not_less
          simp del: upt_Suc split: if_splits)
  next
    case body
    then have "res = None" "r' = r\<lparr>pos := Suc (pos r)\<rparr>" "b' = ?b"
      using assms(2) by (auto simp: recv_byte_def recv_frame_def)
    then show ?thesis using body assms(1) suf p by (auto simp: frame_inv_def simp del: upt_Suc)
  next
    case full
    then have f: "(res, r', b') = recv_frame (r\<lparr>pos := Suc (pos r)\<rparr>) ?b"
      using assms(2) by (auto simp: recv_byte_def)
    have i: "payload_len r \<le> PHDP_MAX_CHUNK" "need r = 9 + unat (payload_len r)" "?b 0 = PHDP_STX"
      "le32 (?b 3) (?b 4) (?b 5) (?b 6) = payload_len r"
      using assms(1) full by (auto simp: frame_inv_def)
    show ?thesis
    proof (cases "phdp_crc16 ?b (7 + unat (payload_len r)) = ucast (le16 (?b (7 + unat (payload_len r))) (?b (7 + unat (payload_len r) + 1)))")
      case True
      then have "res = Some (?b 2, payload_len r)" "b' = ?b"
        using f full by (auto simp: recv_frame_def Let_def PHDP_HEADER_SIZE_def simp del: fun_upd_apply)
      moreover have "suffix (map ?b [0..<9 + unat (payload_len r)]) (hs @ [c])"
        using suf unfolding full(3) i(2) .
      ultimately show ?thesis using True i p
        by (auto simp: accepted_def PHDP_HEADER_SIZE_def simp del: fun_upd_apply) (simp add: fun_upd_apply)
    next
      case False
      then have "res = None" "b' = ?b" "pos r' = 0" "have_header r' = False"
        using f full by (auto simp: recv_frame_def Let_def PHDP_HEADER_SIZE_def simp del: fun_upd_apply)
      then show ?thesis using p by (auto simp: frame_inv_def)
    qed
  qed
qed

lemma heard_append: "heard (ps @ qs) = heard ps @ heard qs"
  by (induction ps rule: heard.induct) simp_all

text \<open>What a receive may return: nothing, or the frame that just arrived.\<close>

definition delivered :: "(u8 \<times> u32) option \<Rightarrow> (nat \<Rightarrow> u8) \<Rightarrow> u8 list \<Rightarrow> bool" where
  "delivered res b bs \<longleftrightarrow> (case res of None \<Rightarrow> True
     | Some (cmd, n) \<Rightarrow> accepted b cmd n \<and> suffix (map b [0..<9 + unat n]) bs)"

lemma recv_loop_safe:
  assumes "recv_loop T start r s = Some (res, s')" "frame_inv r (buf s) hs"
  shows "(\<forall>i\<ge>PHDP_BUF_SIZE. buf s' i = buf s i) \<and> (\<exists>ps. rx s = ps @ rx s' \<and> delivered res (buf s') (hs @ heard ps))"
  using assms
proof (induction "length (clock s)" arbitrary: r s hs rule: less_induct)
  case less
  obtain t ts where c: "clock s = t # ts"
    using less.prems(1) by (cases "clock s") (simp_all add: recv_loop.simps [of T start r s] sys_cycle_lo_def)
  show ?case
  proof (cases "t - start < T")
    case False
    then show ?thesis using less.prems(1) c
      by (auto simp: recv_loop.simps [of T start r s] sys_cycle_lo_def delivered_def)
  next
    case True
    obtain p ps where x: "rx s = p # ps"
      using less.prems(1) c True by (cases "rx s") (simp_all add: recv_loop.simps [of T start r s] sys_cycle_lo_def uart_getc_def)
    note u = less.prems(1) [unfolded recv_loop_poll [OF c x True]]
    show ?thesis
    proof (cases p)
      case None
      let ?s = "s\<lparr>clock := ts, rx := ps\<rparr>"
      have r: "recv_loop T start r ?s = Some (res, s')" "frame_inv r (buf ?s) hs" using u None less.prems(2) by simp_all
      have l: "length (clock ?s) < length (clock s)" using c by simp
      from less.hyps [OF l r] obtain qs where q: "ps = qs @ rx s'" "\<forall>i\<ge>PHDP_BUF_SIZE. buf s' i = buf s i"
        "delivered res (buf s') (hs @ heard qs)"
        by auto
      then show ?thesis using x None by (intro conjI exI [of _ "None # qs"]) simp_all
    next
      case (Some ch)
      obtain o1 r1 b1 where b: "recv_byte ch r (buf s) = (o1, r1, b1)" by (metis prod_cases3)
      note inv = recv_byte_inv [OF less.prems(2) b]
      show ?thesis
      proof (cases o1)
        case None
        let ?s = "s\<lparr>clock := ts, rx := ps, buf := b1\<rparr>"
        have r: "recv_loop T start r1 ?s = Some (res, s')" "frame_inv r1 (buf ?s) (hs @ [ch])"
          using u Some None b inv by simp_all
        have l: "length (clock ?s) < length (clock s)" using c by simp
        from less.hyps [OF l r] obtain qs where q: "ps = qs @ rx s'" "\<forall>i\<ge>PHDP_BUF_SIZE. buf s' i = b1 i"
          "delivered res (buf s') ((hs @ [ch]) @ heard qs)"
          by auto
        then show ?thesis using x Some inv
          by (intro conjI exI [of _ "Some ch # qs"]) simp_all
      next
        case (Some q)
        then show ?thesis using u \<open>p = Some ch\<close> b inv x
          by (intro conjI exI [of _ "[Some ch]"]) (auto simp: delivered_def split: prod.splits)
      qed
    qed
  qed
qed

lemma recv_loop_returns:
  "\<exists>t\<in>set (clock s). \<not> t - start < T \<Longrightarrow> length (clock s) \<le> length (rx s) \<Longrightarrow> recv_loop T start r s \<noteq> None"
proof (induction "length (clock s)" arbitrary: r s rule: less_induct)
  case less
  obtain t ts p ps where c: "clock s = t # ts" "rx s = p # ps"
    using less.prems by (cases "clock s"; cases "rx s") auto
  show ?case
  proof (cases "t - start < T")
    case False
    then show ?thesis using c by (auto simp: recv_loop.simps [of T start r s] sys_cycle_lo_def)
  next
    case True
    have ih: "recv_loop T start r1 s1 \<noteq> None" if "clock s1 = ts" "rx s1 = ps" for r1 s1
      using less.hyps [of s1 r1] less.prems c True that by auto
    show ?thesis using ih unfolding recv_loop_poll [OF c True]
      by (auto split: option.splits prod.splits)
  qed
qed

section \<open>The codec's contract\<close>

text \<open>
  C26: What \<open>phdp_send\<close> puts on the wire is what \<open>phdp_recv\<close> returns: for every command and payload of up to
  256 bytes, after any line noise without a start byte, with idle polls at any place, as long as every
  clock reading is within the timeout. The bytes behind the frame stay in the FIFO.
\<close>

theorem phdp_frame_roundtrip:
  assumes "length p \<le> 256" and "\<And>k. stall s k < 100000"
    and "heard ps = noise @ wire cmd p s" and "PHDP_STX \<notin> set noise" and "last ps \<noteq> None"
    and "rx r = ps @ rest" and "clock r = start # ts @ ts'" and "length ts = length ps" and "\<forall>t\<in>set ts. t - start < T"
  shows "\<exists>r'. phdp_recv T r = Some (Some (cmd, of_nat (length p)), r') \<and> rx r' = rest \<and> clock r' = ts' \<and>
    map (\<lambda>i. buf r' (PHDP_HEADER_SIZE + i)) [0..<length p] = p"
  using recv_noisy_frame [OF assms(1) assms(3) [unfolded wire_frame [OF assms(1,2)]] assms(4-9)] .

definition idle_link :: "u32 list \<Rightarrow> u8 option list \<Rightarrow> phdp" where
  "idle_link ts ps = \<lparr>buf = (\<lambda>_. 0), seq = 7, clock = ts, rx = ps, tx = [], stall = (\<lambda>_. 3), puts = 0\<rparr>"

lemma wrapped_clock: "(5 - 0xFFFFFFF0 :: u32) < 100"
  by code_simp

lemma phdp_frame_roundtrip_witness:
  "let w = wire 0x20 [1, 2, 3] (idle_link [] []); ps = [Some 0x55, None] @ map Some w;
       r = idle_link (0xFFFFFFF0 # replicate (length ps) 5 @ [9]) (ps @ [Some 4])
   in \<exists>r'. phdp_recv 100 r = Some (Some (0x20, of_nat (length [1 :: u8, 2, 3])), r') \<and> rx r' = [Some 4] \<and> clock r' = [9] \<and>
      map (\<lambda>i. buf r' (PHDP_HEADER_SIZE + i)) [0..<length [1 :: u8, 2, 3]] = [1, 2, 3]"
  unfolding Let_def
proof (rule phdp_frame_roundtrip [where ts = "replicate (length ([Some 0x55, None] @ map Some (wire 0x20 [1, 2, 3] (idle_link [] [])))) 5"])
  have h: "heard (map Some w) = w" for w by (induction w) simp_all
  have w: "wire 0x20 [1, 2, 3] (idle_link [] []) = frame_of 7 0x20 [1, 2, 3]"
    by (subst wire_frame) (simp_all add: idle_link_def)
  show "heard ([Some 0x55, None] @ map Some (wire 0x20 [1, 2, 3] (idle_link [] []))) = [0x55] @ wire 0x20 [1, 2, 3] (idle_link [] [])"
    by (simp add: h)
  show "last ([Some 0x55, None] @ map Some (wire 0x20 [1, 2, 3] (idle_link [] []))) \<noteq> None"
    unfolding w by (auto simp: last_map frame_of_def Let_def)
  show "\<forall>t\<in>set (replicate n 5). t - 0xFFFFFFF0 < (100 :: u32)" for n
    by (cases "n = 0") (use wrapped_clock in \<open>simp_all only: set_replicate set_replicate_conv_if if_False if_True\<close>, auto)
qed (simp_all add: idle_link_def PHDP_STX_def del: replicate_Suc)

text \<open>
  C27: The receiver recovers from a frame in which the line changed one byte, and takes the next frame
  that arrives within its timeout: when the byte is neither the start byte nor one of the four length
  bytes, by the checksum; when the start byte is lost and no other byte of the frame is a start byte;
  when the length became larger than a packet and no byte after the header is a start byte. A length
  changed to another one in range is not among them (\<open>length_in_range_swallows\<close>).
\<close>

theorem phdp_resync_after_corruption:
  assumes "length p \<le> 256" and "\<And>k. stall s k < 100000" and "length p' \<le> 256" and "\<And>k. stall s' k < 100000"
    and "i < length (wire cmd p s)" and "x \<noteq> wire cmd p s ! i" and "thrown_away i ((wire cmd p s)[i := x])"
    and "heard ps = (wire cmd p s)[i := x]" and "last ps \<noteq> None"
    and "heard ps' = noise @ wire cmd' p' s'" and "PHDP_STX \<notin> set noise" and "last ps' \<noteq> None"
    and "rx r = ps @ ps' @ rest" and "clock r = start # ts @ ts' @ ts''"
    and "length ts = length ps" and "length ts' = length ps'" and "\<forall>t\<in>set (ts @ ts'). t - start < T"
  shows "\<exists>r'. phdp_recv T r = Some (Some (cmd', of_nat (length p')), r') \<and> rx r' = rest \<and>
    map (\<lambda>i. buf r' (PHDP_HEADER_SIZE + i)) [0..<length p'] = p'"
  using recv_corrupt_then_frame [of p s p' s' i cmd x ps ps' noise cmd' r rest start ts ts' ts'' T] assms by blast

text \<open>
  C28: Whatever bytes arrive, once the clock shows that the timeout is over a receive has returned. It
  writes only inside the packet buffer, and a frame it returns is the last bytes that arrived, starts
  with the start byte, carries the returned command and a length of at most 256, and its checksum
  matches.
\<close>

theorem phdp_recv_safe:
  assumes "clock s = start # ts" and "\<exists>t\<in>set ts. \<not> t - start < T" and "length ts \<le> length (rx s)"
  shows "\<exists>res s' ps. phdp_recv T s = Some (res, s') \<and> rx s = ps @ rx s' \<and> (\<forall>i\<ge>PHDP_BUF_SIZE. buf s' i = buf s i) \<and>
    delivered res (buf s') (heard ps)"
proof -
  let ?r = "\<lparr>pos = 0, payload_len = 0, need = PHDP_HEADER_SIZE, have_header = False\<rparr>" and ?s = "s\<lparr>clock := ts\<rparr>"
  obtain res s' where r: "recv_loop T start ?r ?s = Some (res, s')"
    using recv_loop_returns [of ?s start T ?r] assms by auto
  have "frame_inv ?r (buf ?s) []" by (simp add: frame_inv_def)
  from recv_loop_safe [OF r this] obtain ps where "rx s = ps @ rx s'" "\<forall>i\<ge>PHDP_BUF_SIZE. buf s' i = buf s i"
    "delivered res (buf s') (heard ps)"
    by auto
  then show ?thesis using r by (intro exI [of _ res] exI [of _ s'] exI [of _ ps]) (simp add: phdp_recv_poll [OF assms(1)])
qed

lemma phdp_resync_after_corruption_witness:
  "let w = wire 0x20 [1, 2, 3] (idle_link [] []); w' = wire 0x21 [4] (idle_link [] []);
       ps = map Some (w[8 := 9]); ps' = map Some w';
       r = idle_link (5 # replicate (length ps) 6 @ replicate (length ps') 7) (ps @ ps')
   in \<exists>r'. phdp_recv 100 r = Some (Some (0x21, of_nat (length [4 :: u8])), r') \<and> rx r' = [] \<and>
      map (\<lambda>i. buf r' (PHDP_HEADER_SIZE + i)) [0..<length [4 :: u8]] = [4]"
proof -
  have h: "heard (map Some w) = w" for w by (induction w) simp_all
  have w: "wire 0x20 [1, 2, 3] (idle_link [] []) = frame_of 7 0x20 [1, 2, 3]"
    "wire 0x21 [4] (idle_link [] []) = frame_of 7 0x21 [4]"
    by (subst wire_frame; simp add: idle_link_def)+
  show ?thesis unfolding Let_def
  proof (rule phdp_resync_after_corruption [where p = "[1, 2, 3]" and s = "idle_link [] []" and s' = "idle_link [] []" and cmd = "0x20"
        and i = 8 and x = 9 and noise = "[]" and rest = "[]" and ts'' = "[]" and start = 5
        and ts = "replicate (length (map Some ((wire 0x20 [1, 2, 3] (idle_link [] []))[8 := 9]))) 6"
        and ts' = "replicate (length (map Some (wire 0x21 [4] (idle_link [] [])))) 7"
        and ps = "map Some ((wire 0x20 [1, 2, 3] (idle_link [] []))[8 := 9])"
        and ps' = "map Some (wire 0x21 [4] (idle_link [] []))"])
    show "(9 :: u8) \<noteq> wire 0x20 [1, 2, 3] (idle_link [] []) ! 8"
      unfolding w by (simp add: frame_of_def header_of_def Let_def)
    show "last (map Some ((wire 0x20 [1, 2, 3] (idle_link [] []))[8 := 9])) \<noteq> None"
      "last (map Some (wire 0x21 [4] (idle_link [] []))) \<noteq> None"
      unfolding w by (auto simp: last_map frame_of_def header_of_def Let_def)
    show "8 < length (wire 0x20 [1, 2, 3] (idle_link [] []))" by (simp add: w)
    show "thrown_away 8 ((wire 0x20 [1, 2, 3] (idle_link [] []))[8 := 9])" by (simp add: thrown_away_def)
    show "\<forall>t\<in>set (replicate n 6 @ replicate m 7). t - 5 < (100 :: u32)" for n m
      by (auto simp: set_replicate_conv_if split: if_splits)
  qed (simp_all add: h idle_link_def del: replicate_Suc)
qed

lemma phdp_recv_safe_witness:
  "let s = idle_link [0, 5, 10, 200] [Some 2, None, Some 3]
   in \<exists>res s' ps. phdp_recv 100 s = Some (res, s') \<and> rx s = ps @ rx s' \<and> (\<forall>i\<ge>PHDP_BUF_SIZE. buf s' i = buf s i) \<and>
    delivered res (buf s') (heard ps)"
  unfolding Let_def by (rule phdp_recv_safe [of _ 0 "[5, 10, 200]"]) (simp_all add: idle_link_def)

end
