(* ===== verification/BootDisk.thy ===== *)
theory BootDisk
  imports PhdpSpec
begin

text \<open>
  The PHDP session of the boot ROM (\<open>targets/pocket/boot/boot.c\<close>): discovery of a host, the
  override request, the chunk loop that copies a window of the streamed slot, and the disk service
  that the kernel calls after boot. The destination of a read is a function from offsets.
\<close>

unbundle bit_operations_syntax

section \<open>Constants\<close>

definition PHDP_EVT_BOOT_ALIVE :: u8 where "PHDP_EVT_BOOT_ALIVE = 0x01"
definition PHDP_CMD_CLIENT_READY :: u8 where "PHDP_CMD_CLIENT_READY = 0x02"
definition PHDP_REQ_OVERRIDE :: u8 where "PHDP_REQ_OVERRIDE = 0x10"
definition PHDP_RES_STREAM :: u8 where "PHDP_RES_STREAM = 0x11"
definition PHDP_RES_USE_SD :: u8 where "PHDP_RES_USE_SD = 0x12"
definition PHDP_DATA_CHUNK :: u8 where "PHDP_DATA_CHUNK = 0x20"
definition PHDP_REPORT_PROGRESS :: u8 where "PHDP_REPORT_PROGRESS = 0x21"
definition PHDP_CMD_NAK_RETRY :: u8 where "PHDP_CMD_NAK_RETRY = 0x22"
definition PHDP_CORE_ID :: u32 where "PHDP_CORE_ID = 0x4F464F53"
definition PHDP_VERSION :: u32 where "PHDP_VERSION = 0x0100"

definition PHDP_DISCOVERY_CYCLES :: u32 where "PHDP_DISCOVERY_CYCLES = 25000000"
definition PHDP_ALIVE_INTERVAL :: u32 where "PHDP_ALIVE_INTERVAL = 5000000"
definition PHDP_OVERRIDE_CYCLES :: u32 where "PHDP_OVERRIDE_CYCLES = 20000000"
definition PHDP_CHUNK_CYCLES :: u32 where "PHDP_CHUNK_CYCLES = 100000000"
definition PHDP_MAX_RETRIES :: nat where "PHDP_MAX_RETRIES = 5"

definition OF_ERR_INVALID_PARAM :: int where "OF_ERR_INVALID_PARAM = -3"
definition OF_ERR_TIMEOUT :: int where "OF_ERR_TIMEOUT = -12"
definition OF_ERR_IO :: int where "OF_ERR_IO = -13"

definition boot_store_le32 :: "u32 \<Rightarrow> u8 list" where
  "boot_store_le32 v = [byte_at 0 v, byte_at 1 v, byte_at 2 v, byte_at 3 v]"

section \<open>Every receive consumes clock readings\<close>

lemma recv_loop_clock: "recv_loop T start r s = Some (res, s') \<Longrightarrow> length (clock s') < length (clock s)"
proof (induction "length (clock s)" arbitrary: r s rule: less_induct)
  case less
  obtain t ts where c: "clock s = t # ts"
    using less.prems(1) by (cases "clock s") (simp_all add: recv_loop.simps [of T start r s] sys_cycle_lo_def)
  show ?case
  proof (cases "t - start < T")
    case False
    then show ?thesis using less.prems c by (auto simp: recv_loop.simps [of T start r s] sys_cycle_lo_def)
  next
    case True
    obtain p ps where x: "rx s = p # ps"
      using less.prems(1) c True by (cases "rx s") (simp_all add: recv_loop.simps [of T start r s] sys_cycle_lo_def uart_getc_def)
    have ih: "length (clock s') < length ts" if "recv_loop T start r1 s1 = Some (res, s')" "clock s1 = ts" for r1 s1
      using less.hyps [OF _ that(1)] that(2) c by simp
    show ?thesis using less.prems [unfolded recv_loop_poll [OF c x True]] c
      by (auto split: option.splits prod.splits dest: ih)
  qed
qed

lemma phdp_recv_clock: "phdp_recv T s = Some (res, s') \<Longrightarrow> length (clock s') < length (clock s)"
  by (auto simp: phdp_recv_def sys_cycle_lo_def split: list.splits dest: recv_loop_clock)

lemma phdp_send_clock [simp]: "clock (phdp_send cmd payload n s) = clock s"
  by (simp add: phdp_send_def Let_def puts_fields)

section \<open>Discovery\<close>

function discover_loop :: "u32 \<Rightarrow> u32 \<Rightarrow> phdp \<Rightarrow> (bool \<times> phdp) option" where
  "discover_loop disc_start last_alive s =
     (case sys_cycle_lo s of None \<Rightarrow> None
      | Some (t, s1) \<Rightarrow>
          if \<not> t - disc_start < PHDP_DISCOVERY_CYCLES then Some (False, s1)
          else case sys_cycle_lo s1 of None \<Rightarrow> None
            | Some (now, s2) \<Rightarrow>
                let alive = PHDP_ALIVE_INTERVAL \<le> now - last_alive;
                    payload = boot_store_le32 PHDP_CORE_ID @ [byte_at 0 PHDP_VERSION, byte_at 1 PHDP_VERSION,
                      byte_at 0 PHDP_MAX_CHUNK, byte_at 1 PHDP_MAX_CHUNK];
                    s3 = (if alive then phdp_send PHDP_EVT_BOOT_ALIVE (Some payload) 8 s2 else s2)
                in case phdp_recv 1000000 s3 of None \<Rightarrow> None
                   | Some (cmd, s4) \<Rightarrow>
                       if map_option fst cmd = Some PHDP_CMD_CLIENT_READY then Some (True, s4)
                       else discover_loop disc_start (if alive then now else last_alive) s4)"
  by pat_completeness auto
termination
  by (relation "measure (\<lambda>(d, l, s). length (clock s))")
    (auto simp: sys_cycle_lo_def split: list.splits if_splits dest!: phdp_recv_clock)

definition phdp_discover :: "phdp \<Rightarrow> (bool \<times> phdp) option" where
  "phdp_discover s = (case sys_cycle_lo s of None \<Rightarrow> None | Some (t, s1) \<Rightarrow> discover_loop t 0 s1)"

section \<open>Override request\<close>

text \<open>The result is the total size and the chunk size, or nothing: the host says to use the SD card,
  asks for too much, or does not answer.\<close>

primrec override_loop :: "nat \<Rightarrow> phdp \<Rightarrow> ((u32 \<times> u16) option \<times> phdp) option" where
  "override_loop 0 s = Some (None, s)"
| "override_loop (Suc attempts) s =
     (case phdp_recv PHDP_OVERRIDE_CYCLES s of None \<Rightarrow> None
      | Some (None, s1) \<Rightarrow> Some (None, s1)
      | Some (Some (cmd, len), s1) \<Rightarrow>
          if cmd = PHDP_RES_USE_SD then Some (None, s1)
          else if cmd = PHDP_RES_STREAM \<and> 6 \<le> len then
            let p = \<lambda>i. buf s1 (PHDP_HEADER_SIZE + i); total_size = le32 (p 0) (p 1) (p 2) (p 3);
                chunk_size = ucast (le16 (p 4) (p 5)) :: u16
            in if 16 * 1024 * 1024 < total_size then Some (None, s1)
               else Some (Some (total_size, if ucast PHDP_MAX_CHUNK < chunk_size then ucast PHDP_MAX_CHUNK else chunk_size), s1)
          else override_loop attempts s1)"

definition phdp_request_override :: "u8 \<Rightarrow> phdp \<Rightarrow> ((u32 \<times> u16) option \<times> phdp) option" where
  "phdp_request_override slot_id s = override_loop 16 (phdp_send PHDP_REQ_OVERRIDE (Some [slot_id]) 1 s)"

section \<open>The chunk loop\<close>

text \<open>The part of a chunk that lies in the wanted window: how much has been copied, and the
  destination.\<close>

definition copy_window :: "u32 \<Rightarrow> u32 \<Rightarrow> u32 \<Rightarrow> u32 \<Rightarrow> u32 \<Rightarrow> (nat \<Rightarrow> u8) \<Rightarrow> (u32 \<Rightarrow> u8) \<Rightarrow> u32 \<times> (u32 \<Rightarrow> u8)" where
  "copy_window slot_offset len received clen copied src d =
     (let chunk_end = received + clen; want_end = slot_offset + len in
      if slot_offset + copied < chunk_end \<and> received < want_end then
        let s = (if received < slot_offset + copied then slot_offset + copied else received);
            e = (if want_end < chunk_end then want_end else chunk_end);
            off_in_chunk = s - received; off_in_dest = s - slot_offset
        in (copied + (e - s),
            fold (\<lambda>i d. d(off_in_dest + of_nat i := src (unat (off_in_chunk + of_nat i)))) [0..<unat (e - s)] d)
      else (copied, d))"

function chunk_loop :: "u32 \<Rightarrow> u32 \<Rightarrow> u32 \<Rightarrow> u32 \<Rightarrow> u32 \<Rightarrow> nat \<Rightarrow> (u32 \<Rightarrow> u8) \<Rightarrow> phdp \<Rightarrow>
    (int \<times> (u32 \<Rightarrow> u8) \<times> phdp) option" where
  "chunk_loop slot_offset len total_size received copied retries d s =
     (if \<not> received < total_size then Some (if copied = len then 0 else OF_ERR_IO, d, s)
      else case phdp_recv PHDP_CHUNK_CYCLES s of None \<Rightarrow> None
        | Some (None, s1) \<Rightarrow>
            if PHDP_MAX_RETRIES \<le> retries + 1 then Some (OF_ERR_TIMEOUT, d, s1)
            else chunk_loop slot_offset len total_size received copied (retries + 1) d
                   (phdp_send PHDP_CMD_NAK_RETRY (Some [seq s1 - 1]) 1 s1)
        | Some (Some (c, clen), s1) \<Rightarrow>
            if c = PHDP_DATA_CHUNK \<and> 0 < clen then
              case copy_window slot_offset len received clen copied (\<lambda>i. buf s1 (PHDP_HEADER_SIZE + i)) d of
                (copied1, d1) \<Rightarrow>
                  chunk_loop slot_offset len total_size (received + clen) copied1 0 d1
                    (phdp_send PHDP_REPORT_PROGRESS (Some (boot_store_le32 (received + clen))) 4 s1)
            else chunk_loop slot_offset len total_size received copied retries d s1)"
  by pat_completeness auto
termination
  by (relation "measure (\<lambda>(f, l, t, r, c, n, d, s). length (clock s))") (auto dest!: phdp_recv_clock)

declare chunk_loop.simps [simp del] discover_loop.simps [simp del]

definition phdp_chunk_loop :: "u32 \<Rightarrow> u32 \<Rightarrow> u32 \<Rightarrow> (u32 \<Rightarrow> u8) \<Rightarrow> phdp \<Rightarrow> (int \<times> (u32 \<Rightarrow> u8) \<times> phdp) option" where
  "phdp_chunk_loop slot_offset len total_size d s = chunk_loop slot_offset len total_size 0 0 0 d s"

section \<open>The disk service\<close>

text \<open>The service owns the UART for the time of a call: it clears the machine interrupt enable (bit 3 of
  \<open>mstatus\<close>) and restores it.\<close>

record boot =
  link :: phdp
  mstatus :: u32

definition boot_mie_disable :: "boot \<Rightarrow> u32 \<times> boot" where
  "boot_mie_disable b = (mstatus b AND 0x8, b\<lparr>mstatus := mstatus b AND NOT 0x8\<rparr>)"

definition boot_mie_restore :: "u32 \<Rightarrow> boot \<Rightarrow> boot" where
  "boot_mie_restore prev b = (if prev \<noteq> 0 then b\<lparr>mstatus := mstatus b OR 0x8\<rparr> else b)"

definition boot_disk_read :: "u32 \<Rightarrow> u32 \<Rightarrow> (u32 \<Rightarrow> u8) \<Rightarrow> u32 \<Rightarrow> boot \<Rightarrow> (int \<times> (u32 \<Rightarrow> u8) \<times> boot) option" where
  "boot_disk_read slot_id slot_offset dest len b =
     (case boot_mie_disable b of (mie, b1) \<Rightarrow>
      (case phdp_request_override (ucast slot_id) (link b1) of None \<Rightarrow> None
       | Some (None, s) \<Rightarrow> Some (OF_ERR_IO, dest, boot_mie_restore mie (b1\<lparr>link := s\<rparr>))
       | Some (Some (tot, chunk), s) \<Rightarrow>
           if tot < slot_offset + len then Some (OF_ERR_INVALID_PARAM, dest, boot_mie_restore mie (b1\<lparr>link := s\<rparr>))
           else case phdp_chunk_loop slot_offset len tot dest s of None \<Rightarrow> None
             | Some (rc, d, s1) \<Rightarrow> Some (rc, d, boot_mie_restore mie (b1\<lparr>link := s1\<rparr>))))"

definition boot_disk_size :: "u32 \<Rightarrow> boot \<Rightarrow> (int \<times> boot) option" where
  "boot_disk_size slot_id b =
     (case boot_mie_disable b of (mie, b1) \<Rightarrow>
      (case phdp_request_override (ucast slot_id) (link b1) of None \<Rightarrow> None
       | Some (r, s) \<Rightarrow> Some (case r of None \<Rightarrow> -1 | Some (tot, chunk) \<Rightarrow> uint tot,
           boot_mie_restore mie (b1\<lparr>link := s\<rparr>))))"

end
