(* ===== verification/BootDiskSpec.thy ===== *)
theory BootDiskSpec
  imports BootDisk Memory
begin

text \<open>
  What the disk service of the boot ROM promises: a read returns exactly the requested window of the
  slot the host streams, however the host cuts it into chunks and after up to 15 stale packets that are
  no answers themselves; and whatever arrives, a read never writes outside its window and always gives the interrupt
  enable back.
\<close>

section \<open>Packets on the line\<close>

text \<open>A list of packets reaches the receiver, each within the timeout of the receive that takes it,
  possibly after line noise and with idle polls in between.\<close>

inductive arrives :: "(u32 \<times> u8 \<times> u8 list) list \<Rightarrow> u32 list \<Rightarrow> u8 option list \<Rightarrow> bool" where
  arrives_none: "arrives [] ts ps"
| arrives_packet: "arrives ((T, cmd, p) # fs) (start # ts @ ts') (ps @ ps')"
  if "length p \<le> 256" "heard ps = noise @ frame_of q cmd p" "PHDP_STX \<notin> set noise" "last ps \<noteq> None"
    "length ts = length ps" "\<forall>t\<in>set ts. t - start < T" "arrives fs ts' ps'"

inductive_cases arrives_packetE: "arrives ((T, cmd, p) # fs) ts ps"

lemma recv_arrives:
  assumes "arrives ((T, cmd, p) # fs) (clock s) (rx s)"
  obtains s' where "phdp_recv T s = Some (Some (cmd, of_nat (length p)), s')" "arrives fs (clock s') (rx s')"
    "\<And>i. i < length p \<Longrightarrow> buf s' (PHDP_HEADER_SIZE + i) = p ! i" "length p \<le> 256"
proof -
  from assms obtain noise q ps ps' start ts ts' where a: "length p \<le> 256" "heard ps = noise @ frame_of q cmd p"
    "PHDP_STX \<notin> set noise" "last ps \<noteq> None" "length ts = length ps" "\<forall>t\<in>set ts. t - start < T" "arrives fs ts' ps'"
    "clock s = start # ts @ ts'" "rx s = ps @ ps'"
    by (rule arrives_packetE) blast
  obtain s' where s': "phdp_recv T s = Some (Some (cmd, of_nat (length p)), s')" "rx s' = ps'" "clock s' = ts'"
    "map (\<lambda>i. buf s' (PHDP_HEADER_SIZE + i)) [0..<length p] = p"
    using recv_noisy_frame [OF a(1-4,9,8,5,6)] by blast
  have "buf s' (PHDP_HEADER_SIZE + i) = p ! i" if "i < length p" for i
    using arg_cong [OF s'(4), of "\<lambda>xs. xs ! i"] that by simp
  then show thesis using that [OF s'(1)] a(1,7) s'(2,3) by simp
qed

lemma phdp_send_rx [simp]: "rx (phdp_send cmd payload n s) = rx s"
  by (simp add: phdp_send_def Let_def puts_fields)

lemma phdp_recv_len: "phdp_recv T s = Some (Some (c, n), s') \<Longrightarrow> n \<le> PHDP_MAX_CHUNK"
proof -
  assume r: "phdp_recv T s = Some (Some (c, n), s')"
  let ?r = "\<lparr>pos = 0, payload_len = 0, need = PHDP_HEADER_SIZE, have_header = False\<rparr>"
  obtain t ts where c: "clock s = t # ts" using r by (auto simp: phdp_recv_def sys_cycle_lo_def split: list.splits)
  have "recv_loop T t ?r (s\<lparr>clock := ts\<rparr>) = Some (Some (c, n), s')" using r by (simp add: phdp_recv_poll [OF c])
  moreover have "frame_inv ?r (buf (s\<lparr>clock := ts\<rparr>)) []" by (simp add: frame_inv_def)
  ultimately show ?thesis using recv_loop_safe by (fastforce simp: delivered_def accepted_def)
qed

section \<open>The window of a chunk\<close>

text \<open>After \<open>n\<close> bytes of the stream, \<open>filled\<close> bytes of the window are in the destination.\<close>

definition filled :: "nat \<Rightarrow> nat \<Rightarrow> nat \<Rightarrow> nat" where
  "filled off len n = min len (n - off)"

definition window :: "nat \<Rightarrow> nat \<Rightarrow> u8 list \<Rightarrow> (u32 \<Rightarrow> u8) \<Rightarrow> u32 \<Rightarrow> u8" where
  "window off k bs d = (\<lambda>x. if unat x < k then bs ! (off + unat x) else d x)"

lemma small_word:
  assumes "a < 2 ^ 32" "b < 2 ^ 32"
  shows "(of_nat a :: u32) < of_nat b \<longleftrightarrow> a < b" "(of_nat a :: u32) = of_nat b \<longleftrightarrow> a = b" "unat (of_nat a :: u32) = a"
proof -
  have u: "unat (of_nat k :: u32) = k" if "k < 2 ^ 32" for k using that by (simp add: unat_of_nat take_bit_eq_mod)
  show "(of_nat a :: u32) < of_nat b \<longleftrightarrow> a < b" "unat (of_nat a :: u32) = a"
    using u assms by (simp_all add: word_less_nat_alt)
  show "(of_nat a :: u32) = of_nat b \<longleftrightarrow> a = b" using u assms by (metis (no_types))
qed

lemma fold_store:
  fixes base x :: u32
  assumes "k \<le> 2 ^ 32"
  shows "fold (\<lambda>i d. d(base + of_nat i := f i)) [0..<k] d x =
    (if unat (x - base) < k then f (unat (x - base)) else (d x :: u8))"
  using assms
proof (induction k)
  case (Suc k)
  have u: "unat (of_nat k :: u32) = k" by (rule small_word(3) [of k 0]) (use Suc.prems in simp_all)
  have "x = base + of_nat k \<longleftrightarrow> unat (x - base) = k"
  proof
    assume "unat (x - base) = k"
    then have "of_nat k = x - base" by auto
    then show "x = base + of_nat k" by simp
  qed (use u in simp)
  then show ?case using Suc by (auto simp: less_Suc_eq)
qed simp

lemma copy_window_exact:
  assumes "off + len < 2 ^ 31" "length bs + n < 2 ^ 31" "0 < n" "\<And>i. i < n \<Longrightarrow> src i = (bs @ p) ! (length bs + i)"
  shows "copy_window (of_nat off) (of_nat len) (of_nat (length bs)) (of_nat n) (of_nat (filled off len (length bs))) src
      (window off (filled off len (length bs)) bs d) =
    (of_nat (filled off len (length bs + n)), window off (filled off len (length bs + n)) (bs @ p) d)"
proof -
  let ?R = "length bs" and ?C = "filled off len (length bs)"
  have C: "?C \<le> len" by (simp add: filled_def)
  have add: "(of_nat a :: u32) + of_nat b = of_nat (a + b)" for a b by simp
  have sub: "(of_nat a :: u32) - of_nat b = of_nat (a - b)" if "b \<le> a" for a b using that by (simp add: of_nat_diff)
  have bnd: "off + ?C < 2 ^ 32" "?R + n < 2 ^ 32" "off + len < 2 ^ 32" "?R < 2 ^ 32" using assms(1,2) C by simp_all
  note lt = small_word(1) [OF bnd(1,2)] small_word(1) [OF bnd(4,3)] small_word(1) [OF bnd(4,1)] small_word(1) [OF bnd(3,2)]
  have oldx: "bs ! (off + unat x) = (bs @ p) ! (off + unat x)" if "unat x < ?C" for x :: u32
    using that by (auto simp: nth_append filled_def)
  have old: "window off ?C bs d = window off ?C (bs @ p) d"
    by (rule ext) (auto simp: window_def nth_append filled_def)
  define s where "s = (if ?R < off + ?C then off + ?C else ?R)"
  define e where "e = (if off + len < ?R + n then off + len else ?R + n)"
  show ?thesis
  proof (cases "off + ?C < ?R + n \<and> ?R < off + len")
    case True
    have b: "off \<le> s" "?R \<le> s" "s \<le> e" "e \<le> ?R + n" "e < 2 ^ 32" "s - off = ?C" "?C + (e - s) = filled off len (?R + n)"
      using True assms by (auto simp: s_def e_def filled_def min_def)
    have cond: "((of_nat off :: u32) + of_nat ?C < of_nat ?R + of_nat n \<and> (of_nat ?R :: u32) < of_nat off + of_nat len) = True"
      using True unfolding add lt by blast
    have "s < 2 ^ 32" using b by simp
    have ds: "(if (of_nat ?R :: u32) < of_nat off + of_nat ?C then of_nat off + of_nat ?C else of_nat ?R) = (of_nat s :: u32)"
      by (simp only: add lt s_def if_distrib [of of_nat])
    have de: "(if (of_nat off :: u32) + of_nat len < of_nat ?R + of_nat n then of_nat off + of_nat len else of_nat ?R + of_nat n) = (of_nat e :: u32)"
      by (simp only: add lt e_def if_distrib [of of_nat])
    have un: "unat (of_nat (e - s) :: u32) = e - s" using b by (intro small_word(3)) auto
    have src: "src (unat (of_nat (s - ?R) + of_nat i :: u32)) = (bs @ p) ! (s + i)" if "i < e - s" for i
    proof -
      have "unat (of_nat (s - ?R) + of_nat i :: u32) = s - ?R + i"
        unfolding add by (rule small_word(3)) (use b that in auto)
      moreover have "s - ?R + i < n" using b that by linarith
      ultimately show ?thesis using assms(4) b(2) by (simp add: nth_append)
    qed
    have k: "?C + (e - s) < 2 ^ 32" using b(7) assms(1) by (simp add: filled_def)
    have "fold (\<lambda>i d. d(of_nat ?C + of_nat i := src (unat (of_nat (s - ?R) + of_nat i :: u32)))) [0..<e - s]
        (window off ?C bs d) x = window off (filled off len (?R + n)) (bs @ p) d x" for x
    proof -
      have C32: "unat (of_nat ?C :: u32) = ?C" "unat (of_nat (e - s) :: u32) = e - s" using k by (simp_all add: small_word)
      have r: "unat (x - of_nat ?C) < e - s \<longleftrightarrow> ?C \<le> unat x \<and> unat x < ?C + (e - s)"
        using in_range_nat [of "of_nat ?C" "of_nat (e - s)" x] k
        by (simp add: in_range_def C32 word_less_nat_alt)
      have x: "unat (x - of_nat ?C) = unat x - ?C" if "?C \<le> unat x"
        using that unat_sub [of "of_nat ?C" x] by (simp add: C32 word_le_nat_alt)
      have "s + (unat x - ?C) = off + unat x" if "?C \<le> unat x" using that b(1,6) by linarith
      then have "unat (x - of_nat ?C) < e - s \<Longrightarrow> src (unat (of_nat (s - ?R) + of_nat (unat (x - of_nat ?C)) :: u32)) = (bs @ p) ! (off + unat x)"
        using src [of "unat (x - of_nat ?C)"] r x by simp
      then show ?thesis
        using b(7) r k oldx [of x] by (subst fold_store) (auto simp: window_def)
    qed
    then have f: "fold (\<lambda>i d. d(of_nat ?C + of_nat i := src (unat (of_nat (s - ?R) + of_nat i :: u32)))) [0..<e - s]
        (window off ?C bs d) = window off (filled off len (?R + n)) (bs @ p) d"
      by (rule ext)
    show ?thesis
      unfolding copy_window_def Let_def unfolding cond if_True ds de
      unfolding sub [OF b(1)] sub [OF b(2)] sub [OF b(3)] un unfolding b(6) f unfolding add b(7) by blast
  next
    case False
    have none: "((of_nat off :: u32) + of_nat ?C < of_nat ?R + of_nat n \<and> (of_nat ?R :: u32) < of_nat off + of_nat len) = False"
      using False unfolding add lt by blast
    have "filled off len (?R + n) = ?C" using False assms(3)
      by (auto simp: filled_def min_def split: if_splits)
    then show ?thesis unfolding copy_window_def Let_def unfolding none if_False using old by simp
  qed
qed

section \<open>The chunk loop\<close>

text \<open>Every run of the loop keeps the window filled from what has arrived.\<close>

lemma chunk_loop_window:
  assumes "chunk_loop (of_nat off) (of_nat len) tot (of_nat (length bs)) (of_nat (filled off len (length bs))) retries
      (window off (filled off len (length bs)) bs d) s = Some (rc, d', s')"
    and "off + len < 2 ^ 30" "length bs < 2 ^ 30 + 256" "tot \<le> 2 ^ 30"
  shows "\<exists>bs'. d' = window off (filled off len (length bs')) bs' d \<and> (rc = 0 \<longrightarrow> filled off len (length bs') = len)"
  using assms(1,3)
proof (induction "length (clock s)" arbitrary: bs retries s rule: less_induct)
  case less
  let ?R = "length bs" and ?C = "filled off len (length bs)"
  note u = less.prems(1) [unfolded chunk_loop.simps [of "of_nat off" "of_nat len" tot "of_nat ?R" "of_nat ?C" retries "window off ?C bs d" s]]
  show ?case
  proof (cases "(of_nat ?R :: u32) < tot")
    case False
    have "?C < 2 ^ 32" "len < 2 ^ 32" using assms(2) by (simp_all add: filled_def)
    then have "(of_nat ?C :: u32) = of_nat len \<longleftrightarrow> ?C = len" by (rule small_word)
    then show ?thesis using u False by (intro exI [of _ bs]) (auto simp: OF_ERR_IO_def split: if_splits)
  next
    case True
    have "unat (of_nat ?R :: u32) = ?R" by (rule small_word(3) [of _ 0]) (use less.prems(2) in simp_all)
    with True have R: "?R < 2 ^ 30" using assms(4) by (auto simp: word_less_nat_alt word_le_nat_alt)
    obtain res s1 where r: "phdp_recv PHDP_CHUNK_CYCLES s = Some (res, s1)" using u True by (auto split: option.splits)
    have clk: "length (clock s1) < length (clock s)" by (rule phdp_recv_clock [OF r])
    show ?thesis
    proof (cases res)
      case None
      show ?thesis
      proof (cases "PHDP_MAX_RETRIES \<le> retries + 1")
        case True
        then show ?thesis using u r None \<open>of_nat ?R < tot\<close> by (intro exI [of _ bs]) (auto simp: OF_ERR_TIMEOUT_def)
      next
        case False
        then show ?thesis using u r None \<open>of_nat ?R < tot\<close> less.prems(2) clk
          by (intro less.hyps [of "phdp_send PHDP_CMD_NAK_RETRY (Some [seq s1 - 1]) 1 s1" bs]) auto
      qed
    next
      case (Some q)
      obtain c n where q: "q = (c, n)" by (cases q)
      show ?thesis
      proof (cases "c = PHDP_DATA_CHUNK \<and> 0 < n")
        case False
        then have "chunk_loop (of_nat off) (of_nat len) tot (of_nat ?R) (of_nat ?C) retries (window off ?C bs d) s1 = Some (rc, d', s')"
          using u r Some q \<open>of_nat ?R < tot\<close> by (auto split: if_splits)
        then show ?thesis using less.prems(2) clk by (intro less.hyps)
      next
        case c: True
        let ?p = "map (\<lambda>i. buf s1 (PHDP_HEADER_SIZE + i)) [0..<unat n]"
        have n: "0 < unat n" "unat n \<le> 256" "of_nat (unat n) = n"
          using c phdp_recv_len [of PHDP_CHUNK_CYCLES s c n s1] r Some q by (auto simp: max_chunk_nat word_less_nat_alt)
        have w: "copy_window (of_nat off) (of_nat len) (of_nat ?R) n (of_nat ?C) (\<lambda>i. buf s1 (PHDP_HEADER_SIZE + i)) (window off ?C bs d) =
            (of_nat (filled off len (length (bs @ ?p))), window off (filled off len (length (bs @ ?p))) (bs @ ?p) d)"
          using copy_window_exact [of off len bs "unat n" "\<lambda>i. buf s1 (PHDP_HEADER_SIZE + i)" ?p d] assms(2) R n by simp
        have l: "(of_nat ?R :: u32) + n = of_nat (length (bs @ ?p))" using n(3) by simp
        show ?thesis
        proof (rule less.hyps)
          show "length (clock (phdp_send PHDP_REPORT_PROGRESS (Some (boot_store_le32 (of_nat ?R + n))) 4 s1)) < length (clock s)"
            using clk by simp
          show "chunk_loop (of_nat off) (of_nat len) tot (of_nat (length (bs @ ?p))) (of_nat (filled off len (length (bs @ ?p)))) 0
              (window off (filled off len (length (bs @ ?p))) (bs @ ?p) d)
              (phdp_send PHDP_REPORT_PROGRESS (Some (boot_store_le32 (of_nat ?R + n))) 4 s1) = Some (rc, d', s')"
            using u r Some q \<open>of_nat ?R < tot\<close> c w unfolding l [symmetric] by (simp del: length_append)
          show "length (bs @ ?p) < 2 ^ 30 + 256" using R n by simp
        qed
      qed
    qed
  qed
qed

text \<open>A stream that arrives completely is copied exactly.\<close>

lemma chunk_loop_exact:
  assumes "off + len \<le> length (bs @ concat cs)" "length (bs @ concat cs) \<le> 2 ^ 24"
    and "\<forall>c\<in>set cs. c \<noteq> []" "arrives (map (\<lambda>c. (PHDP_CHUNK_CYCLES, PHDP_DATA_CHUNK, c)) cs @ fs) (clock s) (rx s)"
  shows "\<exists>s'. chunk_loop (of_nat off) (of_nat len) (of_nat (length (bs @ concat cs))) (of_nat (length bs))
      (of_nat (filled off len (length bs))) retries (window off (filled off len (length bs)) bs d) s =
      Some (0, window off len (bs @ concat cs) d, s') \<and> arrives fs (clock s') (rx s')"
  using assms
proof (induction cs arbitrary: bs retries s)
  case Nil
  then have "filled off len (length bs) = len" by (simp add: filled_def)
  then show ?case using Nil.prems(4) by (simp add: chunk_loop.simps)
next
  case (Cons c cs)
  let ?R = "length bs" and ?C = "filled off len (length bs)" and ?N = "length (bs @ concat (c # cs))"
  from Cons.prems(4) obtain s1 where s1: "phdp_recv PHDP_CHUNK_CYCLES s = Some (Some (PHDP_DATA_CHUNK, of_nat (length c)), s1)"
    "arrives (map (\<lambda>c. (PHDP_CHUNK_CYCLES, PHDP_DATA_CHUNK, c)) cs @ fs) (clock s1) (rx s1)"
    "\<And>i. i < length c \<Longrightarrow> buf s1 (PHDP_HEADER_SIZE + i) = c ! i" "length c \<le> 256"
    by (simp, elim recv_arrives) blast
  have c: "0 < length c" using Cons.prems(3) by simp
  have lt: "(of_nat ?R :: u32) < of_nat ?N" "(0 :: u32) < of_nat (length c)"
    using Cons.prems(2) c s1(4) by (simp_all add: word_less_nat_alt small_word [of _ 0] del: of_nat_add)
  have w: "copy_window (of_nat off) (of_nat len) (of_nat ?R) (of_nat (length c)) (of_nat ?C) (\<lambda>i. buf s1 (PHDP_HEADER_SIZE + i)) (window off ?C bs d) =
      (of_nat (filled off len (length (bs @ c))), window off (filled off len (length (bs @ c))) (bs @ c) d)"
    using copy_window_exact [of off len bs "length c" "\<lambda>i. buf s1 (PHDP_HEADER_SIZE + i)" c d] Cons.prems(1,2) c s1(3)
    by simp
  let ?s = "phdp_send PHDP_REPORT_PROGRESS (Some (boot_store_le32 (of_nat (length (bs @ c))))) 4 s1"
  have "chunk_loop (of_nat off) (of_nat len) (of_nat ?N) (of_nat ?R) (of_nat ?C) retries (window off ?C bs d) s =
      chunk_loop (of_nat off) (of_nat len) (of_nat (length ((bs @ c) @ concat cs))) (of_nat (length (bs @ c)))
        (of_nat (filled off len (length (bs @ c)))) 0 (window off (filled off len (length (bs @ c))) (bs @ c) d) ?s"
    using lt w s1(1) by (subst chunk_loop.simps) simp
  moreover have "\<exists>s'. chunk_loop (of_nat off) (of_nat len) (of_nat (length ((bs @ c) @ concat cs))) (of_nat (length (bs @ c)))
        (of_nat (filled off len (length (bs @ c)))) 0 (window off (filled off len (length (bs @ c))) (bs @ c) d) ?s =
      Some (0, window off len ((bs @ c) @ concat cs) d, s') \<and> arrives fs (clock s') (rx s')"
    by (rule Cons.IH) (use Cons.prems s1(2) in simp_all)
  ultimately show ?case by simp
qed

section \<open>The service\<close>

text \<open>Packets that a request skips: left over in the FIFO from an earlier stream.\<close>

definition stale :: "u8 \<times> u8 list \<Rightarrow> bool" where
  "stale f \<longleftrightarrow> fst f \<noteq> PHDP_RES_USE_SD \<and> fst f \<noteq> PHDP_RES_STREAM"

definition stream_answer :: "u32 \<Rightarrow> u8 list \<Rightarrow> u8 list" where
  "stream_answer tot extra = boot_store_le32 tot @ extra"

lemma override_arrives:
  assumes "\<forall>f\<in>set old. stale f" "length old < attempts" "tot \<le> 16 * 1024 * 1024" "2 \<le> length extra"
    "arrives (map (Pair PHDP_OVERRIDE_CYCLES) old @ (PHDP_OVERRIDE_CYCLES, PHDP_RES_STREAM, stream_answer tot extra) # fs) (clock s) (rx s)"
  shows "\<exists>s' chunk. override_loop attempts s = Some (Some (tot, chunk), s') \<and> arrives fs (clock s') (rx s')"
  using assms(1,2,5)
proof (induction old arbitrary: attempts s)
  case Nil
  then obtain a where a: "attempts = Suc a" by (cases attempts) auto
  from Nil.prems(3) obtain s' where s': "phdp_recv PHDP_OVERRIDE_CYCLES s = Some (Some (PHDP_RES_STREAM, of_nat (length (stream_answer tot extra))), s')"
    "arrives fs (clock s') (rx s')"
    "\<And>i. i < length (stream_answer tot extra) \<Longrightarrow> buf s' (PHDP_HEADER_SIZE + i) = stream_answer tot extra ! i"
    "length (stream_answer tot extra) \<le> 256"
    by (simp, elim recv_arrives) blast
  have l: "(6 :: u32) \<le> of_nat (length (stream_answer tot extra))"
    using s'(4) assms(4) small_word(3) [of "length (stream_answer tot extra)" 0]
    by (simp add: word_le_nat_alt stream_answer_def boot_store_le32_def del: of_nat_add of_nat_Suc)
  have "buf s' (PHDP_HEADER_SIZE + i) = byte_at i tot" if "i < 4" for i
  proof -
    have "i = 0 \<or> i = 1 \<or> i = 2 \<or> i = 3" using that by auto
    then show ?thesis using s'(3) [of i] by (auto simp: stream_answer_def boot_store_le32_def)
  qed
  from this [of 0] this [of 1] this [of 2] this [of 3]
  have t: "le32 (buf s' (PHDP_HEADER_SIZE + 0)) (buf s' (PHDP_HEADER_SIZE + 1)) (buf s' (PHDP_HEADER_SIZE + 2)) (buf s' (PHDP_HEADER_SIZE + 3)) = tot"
    by (simp add: le_simps)
  have "(16 * 1024 * 1024 < tot) = False" using assms(3) by (simp add: not_less)
  then show ?case using s'(1,2) l t unfolding a
    by (simp add: PHDP_RES_STREAM_def PHDP_RES_USE_SD_def Let_def)
next
  case (Cons f old)
  then obtain a where a: "attempts = Suc a" by (cases attempts) auto
  obtain c p where f: "f = (c, p)" by (cases f)
  from Cons.prems(3) obtain s1 where s1: "phdp_recv PHDP_OVERRIDE_CYCLES s = Some (Some (c, of_nat (length p)), s1)"
    "arrives (map (Pair PHDP_OVERRIDE_CYCLES) old @ (PHDP_OVERRIDE_CYCLES, PHDP_RES_STREAM, stream_answer tot extra) # fs) (clock s1) (rx s1)"
    unfolding f by (simp, elim recv_arrives) blast
  have "override_loop attempts s = override_loop a s1"
    using s1(1) Cons.prems(1) by (simp add: a f stale_def)
  then show ?case using Cons.IH [of a s1] Cons.prems(1,2) s1(2) a by simp
qed

lemma override_limit: "override_loop k s = Some (Some (tot, chunk), s') \<Longrightarrow> tot \<le> 16 * 1024 * 1024"
  by (induction k arbitrary: s) (auto simp: Let_def not_less split: option.splits prod.splits if_splits)

lemma bit_eight: "bit (8 :: u32) n \<longleftrightarrow> n = 3"
proof -
  have "bit (2 ^ 3 :: u32) n \<longleftrightarrow> n = 3" unfolding bit_exp_iff by auto
  then show ?thesis by simp
qed

lemma mie_restored [simp]:
  "mstatus (boot_mie_restore (fst (boot_mie_disable b)) ((snd (boot_mie_disable b))\<lparr>link := s\<rparr>)) = mstatus b"
proof -
  have "bit ((mstatus b AND NOT 8) OR 8) n = bit (mstatus b) n" if "bit (mstatus b) 3" "n < 32" for n
    using that unfolding bit_or_iff bit_and_iff bit_not_iff bit_eight by auto
  moreover have "bit (mstatus b AND NOT 8) n = bit (mstatus b) n" if "\<not> bit (mstatus b) 3" "n < 32" for n
    using that unfolding bit_or_iff bit_and_iff bit_not_iff bit_eight by auto
  moreover have "(mstatus b AND 8 \<noteq> 0) = bit (mstatus b) 3"
    using and_exp_eq_0_iff_not_bit [of "mstatus b" 3] by simp
  ultimately show ?thesis
    by (auto simp: boot_mie_disable_def boot_mie_restore_def intro!: bit_word_eqI)
qed

text \<open>The window of a read, on addresses.\<close>

lemma window_words:
  "window (unat off) (unat len) bs d = (\<lambda>x. if x < len then bs ! (unat off + unat x) else d x)"
  by (rule ext) (simp add: window_def word_less_nat_alt)

lemma boot_disk_read_window:
  assumes "unat off + unat len \<le> length (concat cs)" "length (concat cs) \<le> 2 ^ 24" "\<forall>c\<in>set cs. c \<noteq> []"
    "\<forall>f\<in>set old. stale f" "length old < 16" "2 \<le> length extra"
    "arrives (map (Pair PHDP_OVERRIDE_CYCLES) old @
       (PHDP_OVERRIDE_CYCLES, PHDP_RES_STREAM, stream_answer (of_nat (length (concat cs))) extra) #
       map (\<lambda>c. (PHDP_CHUNK_CYCLES, PHDP_DATA_CHUNK, c)) cs) (clock (link b)) (rx (link b))"
  shows "\<exists>b'. boot_disk_read slot_id off dest len b =
      Some (0, \<lambda>x. if x < len then concat cs ! (unat off + unat x) else dest x, b') \<and> mstatus b' = mstatus b"
proof -
  let ?d = "concat cs"
  obtain prev b1 where m: "boot_mie_disable b = (prev, b1)" by (cases "boot_mie_disable b")
  have l: "link b1 = link b" using m by (auto simp: boot_mie_disable_def)
  let ?s = "phdp_send PHDP_REQ_OVERRIDE (Some [ucast slot_id]) 1 (link b1)"
  have n: "unat (of_nat (length ?d) :: u32) = length ?d" by (rule small_word(3) [of _ 0]) (use assms(2) in simp_all)
  have small: "(of_nat (length ?d) :: u32) \<le> 16 * 1024 * 1024" using assms(2) by (simp add: word_le_nat_alt n)
  obtain s1 chunk where s1: "phdp_request_override (ucast slot_id) (link b1) = Some (Some (of_nat (length ?d), chunk), s1)"
    "arrives (map (\<lambda>c. (PHDP_CHUNK_CYCLES, PHDP_DATA_CHUNK, c)) cs) (clock s1) (rx s1)"
    using override_arrives [OF assms(4,5) small assms(6), where s = ?s and fs = "map (\<lambda>c. (PHDP_CHUNK_CYCLES, PHDP_DATA_CHUNK, c)) cs"] assms(7)
    by (auto simp: phdp_request_override_def l)
  have sum: "unat (off + len) = unat off + unat len" by (rule unat_add_lem [THEN iffD1]) (use assms(1,2) in simp)
  have le: "(of_nat (length ?d) < off + len) = False" using assms(1) by (simp add: word_less_nat_alt sum n)
  obtain s2 where s2: "chunk_loop off len (of_nat (length ?d)) 0 0 0 (window (unat off) 0 [] dest) s1 =
      Some (0, window (unat off) (unat len) ?d dest, s2)"
    using chunk_loop_exact [of "unat off" "unat len" "[]" cs "[]" s1 0 dest] assms(1-3) s1(2) by (auto simp: filled_def)
  have "window (unat off) 0 [] dest = dest" by (simp add: window_def)
  then show ?thesis
    using m s1(1) s2 le mie_restored [of b s2] by (simp add: boot_disk_read_def phdp_chunk_loop_def window_words)
qed

lemma boot_disk_read_kept:
  assumes "boot_disk_read slot_id off dest len b = Some (rc, d, b')" "unat off + unat len < 2 ^ 32"
  shows "mstatus b' = mstatus b \<and> (\<forall>x. \<not> x < len \<longrightarrow> d x = dest x)"
proof -
  obtain prev b1 where m: "boot_mie_disable b = (prev, b1)" by (cases "boot_mie_disable b")
  obtain r s1 where r: "phdp_request_override (ucast slot_id) (link b1) = Some (r, s1)"
    using assms(1) m by (auto simp: boot_disk_read_def split: option.splits)
  have keep: "mstatus (boot_mie_restore prev (b1\<lparr>link := s\<rparr>)) = mstatus b" for s using mie_restored [of b s] m by simp
  show ?thesis
  proof (cases r)
    case None
    then show ?thesis using assms(1) m r keep by (auto simp: boot_disk_read_def)
  next
    case (Some q)
    obtain tot chunk where q: "q = (tot, chunk)" by (cases q)
    have tot: "unat tot \<le> 2 ^ 24"
      using override_limit r Some q by (fastforce simp: phdp_request_override_def word_le_nat_alt)
    have sum: "unat (off + len) = unat off + unat len" by (rule unat_add_lem [THEN iffD1]) (use assms(2) in simp)
    show ?thesis
    proof (cases "tot < off + len")
      case True
      then show ?thesis using assms(1) m r Some q keep by (auto simp: boot_disk_read_def)
    next
      case False
      then have lim: "unat off + unat len < 2 ^ 30" using tot sum by (simp add: word_less_nat_alt)
      obtain s2 where s2: "phdp_chunk_loop off len tot dest s1 = Some (rc, d, s2)" "b' = boot_mie_restore prev (b1\<lparr>link := s2\<rparr>)"
        using assms(1) m r Some q False by (auto simp: boot_disk_read_def split: option.splits)
      have "window (unat off) 0 [] dest = dest" by (simp add: window_def)
      then have "chunk_loop (of_nat (unat off)) (of_nat (unat len)) tot (of_nat (length ([] :: u8 list)))
          (of_nat (filled (unat off) (unat len) (length ([] :: u8 list)))) 0
          (window (unat off) (filled (unat off) (unat len) (length ([] :: u8 list))) [] dest) s1 = Some (rc, d, s2)"
        using s2(1) by (simp add: phdp_chunk_loop_def filled_def)
      from chunk_loop_window [OF this lim] tot
      obtain bs where "d = window (unat off) (filled (unat off) (unat len) (length bs)) bs dest"
        by (auto simp: word_le_nat_alt)
      then show ?thesis using keep s2(2) by (auto simp: window_def filled_def word_less_nat_alt)
    qed
  qed
qed

text \<open>
  C29: A disk read returns 0 and exactly the requested window of the slot, nothing outside it changed and the
  interrupt enable restored: for every way the host cuts the slot into chunks of up to 256 bytes, with
  line noise and idle polls, after at most 15 packets left over from earlier requests, none of which is
  itself the answer to a request (\<^verbatim>\<open>RES_STREAM\<close> or \<^verbatim>\<open>USE_SD\<close>): a sixteenth would end the search for the
  answer, and a left-over answer would be taken for this one.
\<close>

theorem boot_disk_read_exact:
  assumes "unat off + unat len \<le> length (concat cs)" and "length (concat cs) \<le> 2 ^ 24" and "\<forall>c\<in>set cs. c \<noteq> []"
    and "\<forall>f\<in>set old. stale f" and "length old < 16" and "2 \<le> length extra"
    and "arrives (map (Pair PHDP_OVERRIDE_CYCLES) old @
       (PHDP_OVERRIDE_CYCLES, PHDP_RES_STREAM, stream_answer (of_nat (length (concat cs))) extra) #
       map (\<lambda>c. (PHDP_CHUNK_CYCLES, PHDP_DATA_CHUNK, c)) cs) (clock (link b)) (rx (link b))"
  shows "\<exists>b'. boot_disk_read slot_id off dest len b =
      Some (0, \<lambda>x. if x < len then concat cs ! (unat off + unat x) else dest x, b') \<and> mstatus b' = mstatus b"
  using assms by (rule boot_disk_read_window)

text \<open>A clean line, on which a poll finds a byte at every clock reading.\<close>

definition clean_clock :: "(u32 \<times> u8 \<times> u8 list) list \<Rightarrow> u32 list" where
  "clean_clock fs = concat (map (\<lambda>(T, cmd, p). 5 # replicate (9 + length p) 6) fs)"

definition clean_rx :: "(u32 \<times> u8 \<times> u8 list) list \<Rightarrow> u8 option list" where
  "clean_rx fs = concat (map (\<lambda>(T, cmd, p). map Some (frame_of 0 cmd p)) fs)"

lemma arrives_clean:
  "\<forall>f\<in>set fs. 1 < fst f \<and> length (snd (snd f)) \<le> 256 \<Longrightarrow> arrives fs (clean_clock fs) (clean_rx fs)"
proof (induction fs)
  case Nil
  show ?case by (rule arrives_none)
next
  case (Cons f fs)
  obtain T cmd p where f: "f = (T, cmd, p)" by (metis prod_cases3)
  have h: "heard (map Some w) = w" for w by (induction w) simp_all
  have "arrives ((T, cmd, p) # fs) (5 # replicate (9 + length p) 6 @ clean_clock fs) (map Some (frame_of 0 cmd p) @ clean_rx fs)"
  proof (rule arrives_packet)
    show "heard (map Some (frame_of 0 cmd p)) = [] @ frame_of 0 cmd p" by (simp add: h)
    show "last (map Some (frame_of 0 cmd p)) \<noteq> None" by (auto simp: last_map frame_of_def Let_def)
    show "\<forall>t\<in>set (replicate (9 + length p) 6). t - 5 < T"
      using Cons.prems f by (auto simp: set_replicate_conv_if)
    show "arrives fs (clean_clock fs) (clean_rx fs)" by (rule Cons.IH) (use Cons.prems in simp)
  qed (use Cons.prems f in simp_all)
  then show ?case by (simp add: clean_clock_def clean_rx_def f)
qed

definition demo_slot :: "u8 list list" where
  "demo_slot = [[10, 11], [12, 13, 14]]"

definition demo_packets :: "(u32 \<times> u8 \<times> u8 list) list" where
  "demo_packets = map (Pair PHDP_OVERRIDE_CYCLES) [(PHDP_DATA_CHUNK, [9, 9])] @
     (PHDP_OVERRIDE_CYCLES, PHDP_RES_STREAM, stream_answer (of_nat (length (concat demo_slot))) [0, 1]) #
     map (\<lambda>c. (PHDP_CHUNK_CYCLES, PHDP_DATA_CHUNK, c)) demo_slot"

lemma boot_disk_read_exact_witness:
  "let b = \<lparr>link = idle_link (clean_clock demo_packets) (clean_rx demo_packets), mstatus = 0x88\<rparr>
   in \<exists>b'. boot_disk_read 3 1 (\<lambda>_. 0xEE) 3 b =
        Some (0, \<lambda>x. if x < 3 then concat demo_slot ! (unat (1 :: u32) + unat x) else 0xEE, b') \<and> mstatus b' = mstatus b"
  unfolding Let_def
proof (rule boot_disk_read_exact [where old = "[(PHDP_DATA_CHUNK, [9, 9])]" and extra = "[0, 1]"])
  have "arrives demo_packets (clean_clock demo_packets) (clean_rx demo_packets)"
    by (rule arrives_clean)
      (simp add: demo_packets_def demo_slot_def stream_answer_def boot_store_le32_def PHDP_OVERRIDE_CYCLES_def PHDP_CHUNK_CYCLES_def)
  then show "arrives (map (Pair PHDP_OVERRIDE_CYCLES) [(PHDP_DATA_CHUNK, [9, 9])] @
       (PHDP_OVERRIDE_CYCLES, PHDP_RES_STREAM, stream_answer (of_nat (length (concat demo_slot))) [0, 1]) #
       map (\<lambda>c. (PHDP_CHUNK_CYCLES, PHDP_DATA_CHUNK, c)) demo_slot)
      (clock (link \<lparr>link = idle_link (clean_clock demo_packets) (clean_rx demo_packets), mstatus = 0x88\<rparr>))
      (rx (link \<lparr>link = idle_link (clean_clock demo_packets) (clean_rx demo_packets), mstatus = 0x88\<rparr>))"
    unfolding demo_packets_def [symmetric] by (simp add: idle_link_def)
qed (simp_all add: demo_slot_def stale_def PHDP_DATA_CHUNK_def PHDP_RES_STREAM_def PHDP_RES_USE_SD_def)

text \<open>
  Whatever arrives on the line, a disk read that returns has written nothing outside its window and
  has restored the interrupt enable, on every path (the sum of offset and length must not wrap).
\<close>

lemma boot_disk_read_confined:
  assumes "boot_disk_read slot_id off dest len b = Some (rc, d, b')" and "unat off + unat len < 2 ^ 32"
  shows "mstatus b' = mstatus b \<and> (\<forall>x. \<not> x < len \<longrightarrow> d x = dest x)"
  using assms by (rule boot_disk_read_kept)

lemma phdp_recv_timeout:
  "clock s = t # t' # ts \<Longrightarrow> \<not> t' - t < T \<Longrightarrow> phdp_recv T s = Some (None, s\<lparr>clock := ts\<rparr>)"
  by (simp add: phdp_recv_def sys_cycle_lo_def recv_loop.simps)

text \<open>The range test of \<open>boot_disk_read\<close> is made on the wrapped sum: offset 0x1000 and length 0xFFFFFFFF
  pass it for every slot of at least 0xFFF bytes, and the chunk that contains offset 0xFFF is then copied
  over the whole address space.\<close>

lemma boot_disk_range_wraps:
  "\<not> (0x2000 :: u32) < 0x1000 + 0xFFFFFFFF \<and> fst (copy_window 0x1000 0xFFFFFFFF 0xF80 0x100 0 src d) = 0xFFFFFFFF"
  by (simp add: copy_window_def Let_def)

end
