(* ===== verification/BootImage.thy ===== *)
theory BootImage
  imports TextGuard Memory
begin

text \<open>
  Loading and checking the OS image in the boot ROM (\<open>targets/pocket/boot/boot.c\<close>): the CRC trailer,
  the entry block, the memory-map check, the bridge DMA into the CRAM0 scratch area and the
  retry loop. Memory is read through the uncached alias. The status register is a trace of the values
  that successive reads give, the scratch area a trace of what each transfer leaves there; a result
  \<open>None\<close> means that a trace ends while the code is still polling.
\<close>

unbundle bit_operations_syntax

section \<open>Constants\<close>

definition OS_SLOT_ID :: u32 where "OS_SLOT_ID = 1"
definition OS_DT_SIZE_WORD :: u32 where "OS_DT_SIZE_WORD = 3"
definition OS_CRC_MAGIC :: u32 where "OS_CRC_MAGIC = 0x3143464F"
definition OS_CRC_TRAILER_BYTES :: u32 where "OS_CRC_TRAILER_BYTES = 8"
definition OS_LOAD_MAX_ATTEMPTS :: nat where "OS_LOAD_MAX_ATTEMPTS = 4"
definition OS_META_MAGIC :: u32 where "OS_META_MAGIC = 0x3245534F"
definition OS_META_BYTES :: u32 where "OS_META_BYTES = 16"
definition OS_ABI_MAGIC :: u32 where "OS_ABI_MAGIC = 0x4942414F"
definition OS_ABI_BYTES :: u32 where "OS_ABI_BYTES = 8"
definition BOOT_DMA_TIMEOUT :: nat where "BOOT_DMA_TIMEOUT = 200000000"
definition BOOT_DMA_CHUNK_SIZE :: u32 where "BOOT_DMA_CHUNK_SIZE = 4096"

definition DS_STATUS_ACK :: u32 where "DS_STATUS_ACK = 0x01"
definition DS_STATUS_DONE :: u32 where "DS_STATUS_DONE = 0x02"
definition DS_STATUS_ERR_MASK :: u32 where "DS_STATUS_ERR_MASK = 0x1C"
definition DS_STATUS_READY :: u32 where "DS_STATUS_READY = 0x20"
definition DS_STATUS_WR_IDLE :: u32 where "DS_STATUS_WR_IDLE = 0x40"
definition DS_CMD_READ :: u32 where "DS_CMD_READ = 1"
definition CRAM0_MODE_BRIDGE :: u32 where "CRAM0_MODE_BRIDGE = 0"
definition CRAM0_MODE_CPU :: u32 where "CRAM0_MODE_CPU = 1"

section \<open>Checks on the loaded image\<close>

definition boot_sdram_uncached_addr :: "target \<Rightarrow> u32 \<Rightarrow> u32" where
  "boot_sdram_uncached_addr T a =
     (if sdram_base T \<le> a \<and> a < sdram_base T + sdram_size T then a - sdram_base T + sdram_uncached_base T else a)"

definition boot_crc32_uncached :: "target \<Rightarrow> mem \<Rightarrow> u32 \<Rightarrow> u32 \<Rightarrow> u32" where
  "boot_crc32_uncached T m cached_base len =
     (let p = boot_sdram_uncached_addr T cached_base; words = drop_bit 2 len;
          crc = foldl crc32_word 0xFFFFFFFF (block_words m p (unat words));
          last_word = load_word m (p + 4 * words)
      in fold (\<lambda>b crc. crc32_byte crc (drop_bit (b * 8) last_word)) [0..<unat (len AND 3)] crc XOR 0xFFFFFFFF)"

definition boot_verify_os_image_at :: "target \<Rightarrow> mem \<Rightarrow> u32 \<Rightarrow> u32 \<Rightarrow> bool" where
  "boot_verify_os_image_at T m tot base =
     (if tot < OS_CRC_TRAILER_BYTES then False
      else let image_len = tot - OS_CRC_TRAILER_BYTES; trailer = boot_sdram_uncached_addr T (base + image_len)
           in if load_word m trailer \<noteq> OS_CRC_MAGIC then False
              else boot_crc32_uncached T m base image_len = load_word m (trailer + 4))"

text \<open>The entry block: entry point and the bounds of the zeroed section. The linker symbol
  \<open>_osdata_init_vma_start\<close> is the parameter \<open>base\<close>.\<close>

record os_meta =
  os_meta_entry :: u32
  os_meta_bss_lo :: u32
  os_meta_bss_hi :: u32

definition boot_read_os_meta :: "target \<Rightarrow> mem \<Rightarrow> u32 \<Rightarrow> u32 \<Rightarrow> os_meta \<Rightarrow> bool \<times> os_meta" where
  "boot_read_os_meta T m base tot g =
     (let g0 = g\<lparr>os_meta_entry := 0\<rparr> in
      if tot < OS_CRC_TRAILER_BYTES + OS_META_BYTES then (False, g0)
      else let p = boot_sdram_uncached_addr T (base + tot - OS_CRC_TRAILER_BYTES - OS_META_BYTES);
               entry = load_word m (p + 4); lo = load_word m (p + 8); hi = load_word m (p + 12)
           in if load_word m p \<noteq> OS_META_MAGIC then (False, g0)
              else if entry < base \<or> base + tot \<le> entry then (False, g0)
              else if lo < base \<or> hi < lo \<or> sdram_base T + sdram_size T < hi then (False, g0)
              else (True, \<lparr>os_meta_entry = entry, os_meta_bss_lo = lo, os_meta_bss_hi = hi\<rparr>))"

definition boot_check_os_abi :: "target \<Rightarrow> u32 \<Rightarrow> mem \<Rightarrow> u32 \<Rightarrow> u32 \<Rightarrow> bool" where
  "boot_check_os_abi T boot_abi m base tot =
     (if boot_abi = 0 then True
      else if tot < OS_CRC_TRAILER_BYTES + OS_META_BYTES + OS_ABI_BYTES then True
      else let p = boot_sdram_uncached_addr T (base + tot - OS_CRC_TRAILER_BYTES - OS_META_BYTES - OS_ABI_BYTES)
           in if load_word m p \<noteq> OS_ABI_MAGIC then True else load_word m (p + 4) = boot_abi)"

section \<open>Transfers\<close>

record bootld =
  memory :: mem
  ds_status :: "u32 list"
  dt_word :: u32
  dt_query :: "u32 list"
  landed :: "u8 list list"
  commands :: "(u32 \<times> u32 \<times> u32 \<times> u32) list"
  cram0_mode :: u32
  pd_dbg_info :: u32
  os_load_crc_retries :: nat

definition read_status :: "bootld \<Rightarrow> (u32 \<times> bootld) option" where
  "read_status s = (case ds_status s of [] \<Rightarrow> None | v # vs \<Rightarrow> Some (v, s\<lparr>ds_status := vs\<rparr>))"

function ds_wait :: "u32 \<Rightarrow> nat \<Rightarrow> bootld \<Rightarrow> (int \<times> bootld) option" where
  "ds_wait msk timeout s =
     (case read_status s of None \<Rightarrow> None
      | Some (v, s1) \<Rightarrow>
          if v AND msk = msk then Some (0, s1)
          else if timeout - 1 = 0
          then (case read_status s1 of None \<Rightarrow> None | Some (w, s2) \<Rightarrow> Some (-1, s2\<lparr>pd_dbg_info := w\<rparr>))
          else ds_wait msk (timeout - 1) s1)"
  by pat_completeness auto
termination
  by (relation "measure (\<lambda>(k, t, s). length (ds_status s))") (auto simp: read_status_def split: list.splits)

declare ds_wait.simps [simp del]

definition boot_ds_wait :: "u32 \<Rightarrow> bootld \<Rightarrow> (int \<times> bootld) option" where
  "boot_ds_wait msk s = ds_wait msk BOOT_DMA_TIMEOUT s"

text \<open>The probe of one attempt: up to 256 reads until the command shows as taken.\<close>

primrec probe_accept :: "nat \<Rightarrow> bootld \<Rightarrow> (bool \<times> bootld) option" where
  "probe_accept 0 s = Some (False, s)"
| "probe_accept (Suc i) s =
     (case read_status s of None \<Rightarrow> None
      | Some (st, s1) \<Rightarrow>
          if st AND DS_STATUS_ACK \<noteq> 0 then Some (True, s1)
          else if st AND DS_STATUS_READY = 0 then Some (True, s1)
          else probe_accept i s1)"

primrec issue_command :: "nat \<Rightarrow> u32 \<times> u32 \<times> u32 \<times> u32 \<Rightarrow> bootld \<Rightarrow> bootld option" where
  "issue_command 0 c s = Some s"
| "issue_command (Suc attempts) c s =
     (case probe_accept 256 (s\<lparr>commands := commands s @ [c]\<rparr>) of None \<Rightarrow> None
      | Some (True, s1) \<Rightarrow> Some s1
      | Some (False, s1) \<Rightarrow> issue_command attempts c s1)"

definition boot_dma_read :: "u32 \<Rightarrow> u32 \<Rightarrow> u32 \<Rightarrow> u32 \<Rightarrow> bootld \<Rightarrow> (int \<times> bootld) option" where
  "boot_dma_read slot_id slot_offset bridge_addr len s =
     (case boot_ds_wait (DS_STATUS_READY OR DS_STATUS_WR_IDLE) s of None \<Rightarrow> None
      | Some (rc, s1) \<Rightarrow> if rc \<noteq> 0 then Some (-3, s1)
      else case issue_command 4 (slot_id, slot_offset, bridge_addr, len) s1 of None \<Rightarrow> None
      | Some s2 \<Rightarrow>
      (case boot_ds_wait DS_STATUS_ACK s2 of None \<Rightarrow> None
      | Some (rc, s3) \<Rightarrow> if rc \<noteq> 0 then Some (-1, s3)
      else case boot_ds_wait DS_STATUS_DONE s3 of None \<Rightarrow> None
      | Some (rc, s4) \<Rightarrow> if rc \<noteq> 0 then Some (-2, s4)
      else case read_status s4 of None \<Rightarrow> None
      | Some (st, s5) \<Rightarrow>
          let err = drop_bit 2 (st AND DS_STATUS_ERR_MASK)
          in if err \<noteq> 0 then Some (- uint err, s5\<lparr>pd_dbg_info := st\<rparr>)
             else case boot_ds_wait DS_STATUS_WR_IDLE s5 of None \<Rightarrow> None
               | Some (rc, s6) \<Rightarrow> Some (if rc \<noteq> 0 then -4 else 0, s6)))"

text \<open>The size of the image slot, from the data table with a fallback to the linked size.\<close>

primrec dt_poll :: "nat \<Rightarrow> bootld \<Rightarrow> (u32 \<times> bootld) option" where
  "dt_poll 0 s = Some (0, s)"
| "dt_poll (Suc i) s =
     (case dt_query s of [] \<Rightarrow> None
      | v # vs \<Rightarrow> if v AND 0x80000000 \<noteq> 0 then Some (v AND 0x7FFFFFFF, s\<lparr>dt_query := vs\<rparr>)
                 else dt_poll i (s\<lparr>dt_query := vs\<rparr>))"

definition boot_dt_read_word :: "u32 \<Rightarrow> bootld \<Rightarrow> (u32 \<times> bootld) option" where
  "boot_dt_read_word word s = dt_poll 100000 (s\<lparr>dt_word := word\<rparr>)"

primrec size_attempts :: "nat \<Rightarrow> u32 \<Rightarrow> bootld \<Rightarrow> (u32 \<times> bootld) option" where
  "size_attempts 0 os_copy_size s = Some (os_copy_size, s)"
| "size_attempts (Suc attempts) os_copy_size s =
     (case boot_dt_read_word OS_DT_SIZE_WORD s of None \<Rightarrow> None
      | Some (dt_size, s1) \<Rightarrow>
          if 4096 \<le> dt_size \<and> dt_size \<le> 768 * 1024 then Some (dt_size, s1) else size_attempts attempts os_copy_size s1)"

definition boot_os_slot_size :: "u32 \<Rightarrow> bootld \<Rightarrow> (u32 \<times> bootld) option" where
  "boot_os_slot_size os_copy_size s = size_attempts 64 os_copy_size s"

text \<open>One pass over the image: transfer a chunk into the scratch area, copy it word by word and the
  rest byte by byte.\<close>

definition copy_chunk :: "u32 \<Rightarrow> u32 \<Rightarrow> u8 list \<Rightarrow> mem \<Rightarrow> mem" where
  "copy_chunk dst chunk src m =
     (let w = unat (chunk AND NOT 3) in
      mem_store (dst + (chunk AND NOT 3)) (take (unat chunk - w) (drop w src)) (mem_store dst (take w src) m))"

function load_chunks :: "target \<Rightarrow> u32 \<Rightarrow> u32 \<Rightarrow> u32 \<Rightarrow> bootld \<Rightarrow> (int \<times> bootld) option" where
  "load_chunks T tot dst_cached sofar s =
     (if \<not> sofar < tot then Some (0, s\<lparr>cram0_mode := CRAM0_MODE_BRIDGE\<rparr>)
      else let chunk = (if BOOT_DMA_CHUNK_SIZE < tot - sofar then BOOT_DMA_CHUNK_SIZE else tot - sofar) in
        case boot_dma_read OS_SLOT_ID sofar (cram0_bridge T + cram0_scratch_offset T) chunk
               (s\<lparr>cram0_mode := CRAM0_MODE_BRIDGE\<rparr>) of None \<Rightarrow> None
        | Some (rc, s1) \<Rightarrow>
            if rc < 0 then Some (rc, s1)
            else (case landed s1 of [] \<Rightarrow> None
              | src # rest \<Rightarrow> load_chunks T tot dst_cached (sofar + chunk)
                  (s1\<lparr>landed := rest, cram0_mode := CRAM0_MODE_CPU,
                     memory := copy_chunk (boot_sdram_uncached_addr T dst_cached + sofar) chunk src (memory s1)\<rparr>)))"
  by pat_completeness auto
termination
proof (relation "measure (\<lambda>(T, tot, d, sofar, s). unat tot - unat sofar)", goal_cases)
  case (2 T tot dst sofar s chunk)
  then have c: "0 < chunk" "chunk \<le> tot - sofar"
    by (auto simp: BOOT_DMA_CHUNK_SIZE_def word_gt_0)
  have sub: "unat (tot - sofar) = unat tot - unat sofar" using 2(1) by (simp add: unat_sub order_less_imp_le)
  have le: "unat chunk \<le> unat tot - unat sofar" "unat sofar < unat tot" "0 < unat chunk"
    using c 2(1) sub by (simp_all add: word_le_nat_alt word_less_nat_alt)
  have "unat (sofar + chunk) = unat sofar + unat chunk"
    by (rule unat_add_lem [THEN iffD1]) (use le unat_lt_2p32 [of tot] in simp)
  then show ?case using le by simp
qed simp

declare load_chunks.simps [simp del]

definition boot_load_os_sd_once_to :: "target \<Rightarrow> u32 \<Rightarrow> u32 \<Rightarrow> bootld \<Rightarrow> (int \<times> bootld) option" where
  "boot_load_os_sd_once_to T tot dst_cached s = load_chunks T tot dst_cached 0 s"

section \<open>The retry loop\<close>

primrec load_attempts :: "nat \<Rightarrow> target \<Rightarrow> u32 \<Rightarrow> u32 \<Rightarrow> bootld \<Rightarrow> (int option \<times> bootld) option" where
  "load_attempts 0 T base tot s = Some (None, s)"
| "load_attempts (Suc n) T base tot s =
     (case boot_load_os_sd_once_to T tot base s of None \<Rightarrow> None
      | Some (rc, s1) \<Rightarrow>
          if rc < 0 then Some (Some rc, s1)
          else if boot_verify_os_image_at T (memory s1) tot base then Some (Some 0, s1)
          else load_attempts n T base tot (s1\<lparr>os_load_crc_retries := os_load_crc_retries s1 + 1\<rparr>))"

text \<open>A load does not touch the retry counter, so every round adds its attempts.\<close>

lemma read_status_retries: "read_status s = Some (v, s1) \<Longrightarrow> os_load_crc_retries s1 = os_load_crc_retries s"
  by (auto simp: read_status_def split: list.splits)

lemma ds_wait_retries: "ds_wait k t s = Some (rc, s') \<Longrightarrow> os_load_crc_retries s' = os_load_crc_retries s"
proof (induction "length (ds_status s)" arbitrary: t s rule: less_induct)
  case less
  obtain v s1 where v: "read_status s = Some (v, s1)"
    using less.prems by (subst (asm) ds_wait.simps) (auto split: option.splits)
  have k: "os_load_crc_retries s1 = os_load_crc_retries s" "length (ds_status s1) < length (ds_status s)"
    using v by (auto simp: read_status_def split: list.splits)
  have "os_load_crc_retries s' = os_load_crc_retries s1" if "ds_wait k (t - Suc 0) s1 = Some (rc, s')"
    using less.hyps [OF k(2) that] .
  then show ?case using less.prems v k(1)
    by (subst (asm) ds_wait.simps) (auto split: option.splits if_splits dest: read_status_retries)
qed

lemma probe_retries: "probe_accept i s = Some (b, s') \<Longrightarrow> os_load_crc_retries s' = os_load_crc_retries s"
  by (induction i arbitrary: s) (auto split: option.splits if_splits dest!: read_status_retries)

lemma issue_retries: "issue_command i c s = Some s' \<Longrightarrow> os_load_crc_retries s' = os_load_crc_retries s"
proof (induction i arbitrary: s)
  case (Suc i)
  from Suc.prems show ?case
    by (auto split: option.splits bool.splits dest!: Suc.IH probe_retries)
qed simp

lemma dma_retries: "boot_dma_read a b c d s = Some (rc, s') \<Longrightarrow> os_load_crc_retries s' = os_load_crc_retries s"
  by (auto simp: boot_dma_read_def boot_ds_wait_def Let_def split: option.splits prod.splits if_splits
      dest!: ds_wait_retries issue_retries read_status_retries)

lemma load_chunks_retries: "load_chunks T tot d k s = Some (rc, s') \<Longrightarrow> os_load_crc_retries s' = os_load_crc_retries s"
proof (induction T tot d k s rule: load_chunks.induct)
  case (1 T tot d k s)
  define chunk where "chunk = (if BOOT_DMA_CHUNK_SIZE < tot - k then BOOT_DMA_CHUNK_SIZE else tot - k)"
  show ?case
  proof (cases "k < tot")
    case False
    then show ?thesis using "1.prems" by (subst (asm) load_chunks.simps) auto
  next
    case True
    then obtain rc1 s1 where dma: "boot_dma_read OS_SLOT_ID k (cram0_bridge T + cram0_scratch_offset T) chunk
        (s\<lparr>cram0_mode := CRAM0_MODE_BRIDGE\<rparr>) = Some (rc1, s1)"
      using "1.prems" by (subst (asm) load_chunks.simps) (auto simp: Let_def chunk_def split: option.splits)
    note keep = dma_retries [OF dma]
    note run = "1.prems" [unfolded load_chunks.simps [of T tot d k s] Let_def, folded chunk_def, unfolded dma]
    show ?thesis
    proof (cases "rc1 < 0")
      case True
      then show ?thesis using run keep \<open>k < tot\<close> by simp
    next
      case False
      then obtain src rest where l: "landed s1 = src # rest" using run \<open>k < tot\<close> by (auto split: list.splits)
      let ?s = "s1\<lparr>landed := rest, cram0_mode := CRAM0_MODE_CPU,
        memory := copy_chunk (boot_sdram_uncached_addr T d + k) chunk src (memory s1)\<rparr>"
      have "load_chunks T tot d (k + chunk) ?s = Some (rc, s')" using run False l \<open>k < tot\<close> by simp
      then have "os_load_crc_retries s' = os_load_crc_retries ?s"
        using "1.IH" [of chunk "(rc1, s1)" rc1 s1 src rest] \<open>k < tot\<close> dma False l chunk_def by simp
      then show ?thesis using keep by simp
    qed
  qed
qed

lemma load_attempts_retries:
  "load_attempts n T base tot s = Some (r, s') \<Longrightarrow>
     os_load_crc_retries s' \<le> os_load_crc_retries s + n \<and> (r = None \<longrightarrow> os_load_crc_retries s' = os_load_crc_retries s + n) \<and>
     os_load_crc_retries s \<le> os_load_crc_retries s'"
proof (induction n arbitrary: s)
  case (Suc n)
  from Suc.prems show ?case
    by (auto simp: boot_load_os_sd_once_to_def split: option.splits prod.splits if_splits dest!: load_chunks_retries Suc.IH)
qed simp

function boot_load_os_sd :: "target \<Rightarrow> u32 \<Rightarrow> u32 \<Rightarrow> bootld \<Rightarrow> (int \<times> bootld) option" where
  "boot_load_os_sd T base tot s =
     (case load_attempts OS_LOAD_MAX_ATTEMPTS T base tot s of None \<Rightarrow> None
      | Some (Some rc, s1) \<Rightarrow> Some (rc, s1)
      | Some (None, s1) \<Rightarrow>
          let s2 = s1\<lparr>pd_dbg_info := 0xC0DE0000 OR (of_nat (os_load_crc_retries s1) AND 0xFFFF)\<rparr>
          in if 2 * OS_LOAD_MAX_ATTEMPTS \<le> os_load_crc_retries s2 then Some (0, s2)
             else boot_load_os_sd T base tot s2)"
  by pat_completeness auto
termination
  by (relation "measure (\<lambda>(T, b, tot, s). 8 - os_load_crc_retries s)")
    (auto simp: OS_LOAD_MAX_ATTEMPTS_def dest!: load_attempts_retries)

declare boot_load_os_sd.simps [simp del]

end
