(* ===== verification/BootImageSpec.thy ===== *)
theory BootImageSpec
  imports BootImage Phdp
begin

text \<open>
  What the checks of the boot ROM are worth: the word-wise CRC is the CRC of the image's bytes, an image
  is accepted exactly when it ends in its own trailer, and no single corrupted byte passes; the retry loop
  recovers from fewer than eight corrupted loads with exactly the image of the slot in memory, and after
  eight it returns with a count that says that the image is not verified (\<open>boot_load_result\<close>).
\<close>

unbundle bit_operations_syntax

section \<open>The CRC of bytes\<close>

definition crc32_u8 :: "u32 \<Rightarrow> u8 \<Rightarrow> u32" where
  "crc32_u8 crc b = crc32_byte crc (ucast b)"

lemma low_byte: "(ucast b :: u32) AND 0xFF = ucast (b :: u8)"
proof -
  have m: "(0xFF :: u32) = mask 8" by (simp add: mask_eq_exp_minus_1)
  show ?thesis unfolding m by (rule bit_word_eqI) (auto simp: bit_simps dest: bit_imp_le_length)
qed

lemma crc32_byte_low: "crc32_byte crc v = crc32_u8 crc (ucast v)"
proof -
  have m: "(0xFF :: u32) = mask 8" by (simp add: mask_eq_exp_minus_1)
  have "v AND 0xFF = ucast (ucast v :: u8)" unfolding m by (rule bit_word_eqI) (auto simp: bit_simps)
  then show ?thesis by (simp add: crc32_u8_def crc32_byte_def low_byte)
qed

interpretation crc32u8: checksum crc32_u8
proof unfold_locales
  show "s = t" if "crc32_u8 s b = crc32_u8 t b" for s t b
    using that unfolding crc32_u8_def crc32_byte_def by (blast dest: crc32_bits_inj xor_cancel)
  show "b = c" if "crc32_u8 s b = crc32_u8 s c" for s b c
  proof -
    have e: "(ucast b :: u32) = ucast c"
      using that unfolding crc32_u8_def crc32_byte_def low_byte by (blast dest: crc32_bits_inj xor_cancel)
    have "bit b n = bit c n" if "n < 8" for n
      using arg_cong [OF e, of "\<lambda>w. bit w n"] that by (simp add: bit_ucast_iff)
    then show ?thesis by (intro bit_word_eqI) simp
  qed
qed

lemma crc32_word_bytes: "crc32_word crc v = crc32u8.digest crc [byte_at 0 v, byte_at 1 v, byte_at 2 v, byte_at 3 v]"
  by (simp add: crc32_word_def crc32u8.digest_def crc32_byte_low byte_at_def)

lemma mem_bytes_append: "mem_bytes m a (j + k) = mem_bytes m a j @ mem_bytes m (a + of_nat j) k"
  by (rule nth_equalityI) (auto simp: nth_append algebra_simps of_nat_diff)

lemma load_word_bytes: "[byte_at 0 (load_word m a), byte_at 1 (load_word m a), byte_at 2 (load_word m a), byte_at 3 (load_word m a)] = mem_bytes m a 4"
  by (simp add: load_word_def le_simps mem_bytes_def upt_rec)

lemma words_digest: "foldl crc32_word crc (block_words m a n) = crc32u8.digest crc (mem_bytes m a (4 * n))"
proof (induction n)
  case (Suc n)
  have "mem_bytes m a (4 * Suc n) = mem_bytes m a (4 * n) @ mem_bytes m (a + 4 * of_nat n) 4"
    using mem_bytes_append [of m a "4 * n" 4] by (simp add: add.commute)
  then show ?case
    using Suc by (simp add: block_words_def crc32_word_bytes load_word_bytes [unfolded One_nat_def] crc32u8.digest_append)
qed (simp add: block_words_def crc32u8.digest_def mem_bytes_def)

lemma tail_digest:
  assumes "n \<le> 4"
  shows "fold (\<lambda>b crc. crc32_byte crc (drop_bit (b * 8) (load_word m a))) [0..<n] crc = crc32u8.digest crc (mem_bytes m a n)"
  using assms
proof (induction n)
  case (Suc n)
  have "ucast (drop_bit (n * 8) (load_word m a)) = m (a + of_nat n)"
  proof -
    have "n = 0 \<or> n = 1 \<or> n = 2 \<or> n = 3" using Suc.prems by auto
    then show ?thesis using byte_at_le32 [of "m a" "m (a + 1)" "m (a + 2)" "m (a + 3)"]
      by (auto simp: load_word_def byte_at_def)
  qed
  then show ?case using Suc by (simp add: mem_bytes_def crc32_byte_low crc32u8.digest_def)
qed (simp add: mem_bytes_def crc32u8.digest_def)

lemma boot_crc_digest:
  "boot_crc32_uncached T m base len =
     crc32u8.digest 0xFFFFFFFF (mem_bytes m (boot_sdram_uncached_addr T base) (unat len)) XOR 0xFFFFFFFF"
proof -
  let ?p = "boot_sdram_uncached_addr T base" and ?w = "drop_bit 2 len"
  have w: "unat ?w = unat len div 4" by (simp add: drop_bit_eq_div unat_div)
  have "(3 :: u32) = mask 2" by (simp add: mask_eq_exp_minus_1)
  then have "len AND 3 = take_bit 2 len" by (simp only: take_bit_eq_mask)
  then have "len AND 3 = len mod 4" by (simp add: take_bit_eq_mod)
  then have r: "unat (len AND 3) = unat len mod 4" by (simp add: unat_mod)
  have split: "mem_bytes m ?p (unat len) = mem_bytes m ?p (4 * (unat len div 4)) @ mem_bytes m (?p + of_nat (4 * (unat len div 4))) (unat len mod 4)"
    using mem_bytes_append [of m ?p "4 * (unat len div 4)" "unat len mod 4"] by simp
  have "4 * ?w = of_nat (4 * (unat len div 4))" unfolding w [symmetric] by simp
  then have "fold (\<lambda>b crc. crc32_byte crc (drop_bit (b * 8) (load_word m (?p + 4 * ?w)))) [0..<unat (len AND 3)]
      (crc32u8.digest 0xFFFFFFFF (mem_bytes m ?p (4 * (unat len div 4)))) =
    crc32u8.digest 0xFFFFFFFF (mem_bytes m ?p (unat len))"
    by (simp add: tail_digest r split crc32u8.digest_append)
  then show ?thesis by (simp add: boot_crc32_uncached_def words_digest w Let_def)
qed

section \<open>Stamped images\<close>

text \<open>What the build appends to an image: the magic word and the CRC-32 of what precedes it.\<close>

definition le_bytes :: "u32 \<Rightarrow> u8 list" where
  "le_bytes v = [byte_at 0 v, byte_at 1 v, byte_at 2 v, byte_at 3 v]"

definition stamped :: "u8 list \<Rightarrow> u8 list" where
  "stamped body = body @ le_bytes OS_CRC_MAGIC @ le_bytes (crc32u8.digest 0xFFFFFFFF body XOR 0xFFFFFFFF)"

lemma le_bytes_inj: "le_bytes v = le_bytes w \<longleftrightarrow> v = w"
proof
  assume "le_bytes v = le_bytes w"
  then have "le32 (byte_at 0 v) (byte_at 1 v) (byte_at 2 v) (byte_at 3 v) = le32 (byte_at 0 w) (byte_at 1 w) (byte_at 2 w) (byte_at 3 w)"
    by (simp add: le_bytes_def)
  then show "v = w" by (simp add: le_simps)
qed simp

lemma length_le_bytes [simp]: "length (le_bytes v) = 4"
  by (simp add: le_bytes_def)

lemma mem_word: "mem_bytes m a 4 = le_bytes (load_word m a)"
  using load_word_bytes [of m a] by (simp add: le_bytes_def)

lemma stamped_single_change:
  assumes "i < length (stamped body)" "x \<noteq> stamped body ! i"
  shows "(stamped body)[i := x] \<noteq> stamped body'"
proof
  assume eq: "(stamped body)[i := x] = stamped body'"
  let ?n = "length body"
  have l: "length body' = ?n" using arg_cong [OF eq, of length] by (simp add: stamped_def)
  note parts = arg_cong [OF eq, of "take ?n"] arg_cong [OF eq, of "\<lambda>w. take 4 (drop ?n w)"] arg_cong [OF eq, of "drop (?n + 4)"]
  consider "i < ?n" | "?n \<le> i" "i < ?n + 4" | "?n + 4 \<le> i" "i < ?n + 8"
    using assms(1) by (fastforce simp: stamped_def)
  then show False
  proof cases
    case 1
    have b: "body' = body[i := x]" "x \<noteq> body ! i"
      using parts(1) 1 l assms(2) by (simp_all add: stamped_def list_update_append nth_append)
    have "crc32u8.digest 0xFFFFFFFF (body[i := x]) \<noteq> crc32u8.digest 0xFFFFFFFF body"
      by (rule crc32u8.digest_single_change [of _ _ i]) (use 1 b in auto)
    moreover have "le_bytes (crc32u8.digest 0xFFFFFFFF body XOR 0xFFFFFFFF) = le_bytes (crc32u8.digest 0xFFFFFFFF body' XOR 0xFFFFFFFF)"
      using parts(3) 1 l by (simp add: stamped_def list_update_append)
    then have "crc32u8.digest 0xFFFFFFFF body XOR 0xFFFFFFFF = crc32u8.digest 0xFFFFFFFF body' XOR 0xFFFFFFFF"
      by (simp only: le_bytes_inj)
    then have "crc32u8.digest 0xFFFFFFFF body = crc32u8.digest 0xFFFFFFFF body'"
      by (rule xor_cancel(1))
    ultimately show False by (simp add: b(1))
  next
    case 2
    have k2: "i - ?n < 4" using 2 by simp
    have h: "(le_bytes OS_CRC_MAGIC)[i - ?n := x] = le_bytes OS_CRC_MAGIC" "x \<noteq> le_bytes OS_CRC_MAGIC ! (i - ?n)"
      using parts(2) 2 l assms(2) k2 by (simp_all add: stamped_def list_update_append nth_append not_less)
    show False using arg_cong [OF h(1), of "\<lambda>w. w ! (i - ?n)"] h(2) k2 by simp
  next
    case 3
    let ?c = "le_bytes (crc32u8.digest 0xFFFFFFFF body XOR 0xFFFFFFFF)"
    have k3: "\<not> i - ?n < 4" using 3 by simp
    have "take ?n (stamped body') = body'" using l by (simp add: stamped_def)
    moreover have "take ?n ((stamped body)[i := x]) = body" using 3 by (simp add: stamped_def list_update_append)
    ultimately have b: "body' = body" using parts(1) by metis
    have h: "?c[i - ?n - 4 := x] = ?c" "x \<noteq> ?c ! (i - ?n - 4)"
      using parts(3) 3 k3 l assms(2) by (simp_all add: stamped_def list_update_append nth_append b)
    have "i - ?n - 4 < length ?c" using 3 by simp
    then show False using arg_cong [OF h(1), of "\<lambda>w. w ! (i - ?n - 4)"] h(2) by simp
  qed
qed

lemma uncached_offset:
  assumes "wf_target T" "sdram_base T \<le> base" "unat base + unat tot \<le> unat (sdram_base T) + unat (sdram_size T)" "k < tot"
  shows "boot_sdram_uncached_addr T (base + k) = boot_sdram_uncached_addr T base + k"
proof -
  have w: "unat (sdram_base T) + unat (sdram_size T) < 2 ^ 32"
    using assms(1) unat_lt_2p32 [of "sdram_uncached_base T"] by (auto simp: wf_target_def)
  then have e: "unat (sdram_base T + sdram_size T) = unat (sdram_base T) + unat (sdram_size T)"
    by (intro unat_add_lem [THEN iffD1]) simp
  have k: "unat k < unat tot" using assms(4) by (simp add: word_less_nat_alt)
  then have b: "unat (base + k) = unat base + unat k"
    by (intro unat_add_lem [THEN iffD1]) (use w assms(3) in simp)
  show ?thesis
    using assms(2,3) k by (simp add: boot_sdram_uncached_addr_def word_le_nat_alt word_less_nat_alt e b)
qed

lemma verify_stamped:
  assumes "wf_target T" "sdram_base T \<le> base" "unat base + unat tot \<le> unat (sdram_base T) + unat (sdram_size T)"
  shows "boot_verify_os_image_at T m tot base \<longleftrightarrow>
    (\<exists>body. mem_bytes m (boot_sdram_uncached_addr T base) (unat tot) = stamped body)"
proof (cases "tot < 8")
  case True
  have "\<not> (\<exists>body. mem_bytes m (boot_sdram_uncached_addr T base) (unat tot) = stamped body)"
  proof
    assume "\<exists>body. mem_bytes m (boot_sdram_uncached_addr T base) (unat tot) = stamped body"
    then obtain body where "length (mem_bytes m (boot_sdram_uncached_addr T base) (unat tot)) = length (stamped body)" by metis
    then show False using True by (simp add: stamped_def word_less_nat_alt)
  qed
  then show ?thesis using True by (simp add: boot_verify_os_image_at_def OS_CRC_TRAILER_BYTES_def)
next
  case False
  let ?p = "boot_sdram_uncached_addr T base" and ?n = "unat (tot - 8)"
  have n: "unat tot = ?n + 4 + 4" using False by (simp add: unat_sub word_less_nat_alt word_le_nat_alt)
  then have "tot - 8 < tot" by (simp add: word_less_nat_alt)
  then have t: "boot_sdram_uncached_addr T (base + (tot - 8)) = ?p + (tot - 8)" by (rule uncached_offset [OF assms])
  have "mem_bytes m ?p (unat tot) = mem_bytes m ?p ?n @ le_bytes (load_word m (?p + (tot - 8))) @ le_bytes (load_word m (?p + (tot - 8) + 4))"
    unfolding n mem_bytes_append by (simp add: mem_word add.assoc)
  then have "(\<exists>body. mem_bytes m ?p (unat tot) = stamped body) \<longleftrightarrow>
      load_word m (?p + (tot - 8)) = OS_CRC_MAGIC \<and>
      load_word m (?p + (tot - 8) + 4) = crc32u8.digest 0xFFFFFFFF (mem_bytes m ?p ?n) XOR 0xFFFFFFFF"
    by (auto simp: stamped_def append_eq_append_conv le_bytes_inj)
  then show ?thesis
    using False by (auto simp: boot_verify_os_image_at_def OS_CRC_TRAILER_BYTES_def t boot_crc_digest Let_def)
qed

lemma mem_bytes_update:
  assumes "i < n" "n \<le> 2 ^ 32"
  shows "mem_bytes (m(p + of_nat i := x)) p n = (mem_bytes m p n)[i := x]"
proof (rule nth_equalityI)
  show "mem_bytes (m(p + of_nat i := x)) p n ! j = (mem_bytes m p n)[i := x] ! j" if "j < length (mem_bytes (m(p + of_nat i := x)) p n)" for j
  proof -
    have "(of_nat j :: u32) = of_nat i \<longleftrightarrow> j = i"
      using that assms by (simp add: word_of_nat_eq_iff take_bit_eq_mod)
    then show ?thesis using that assms by (simp add: nth_list_update)
  qed
qed simp

section \<open>The retry loop\<close>

lemma load_attempts_result:
  "load_attempts n T base tot s = Some (r, s') \<Longrightarrow>
     (case r of None \<Rightarrow> n \<noteq> 0 \<longrightarrow> \<not> boot_verify_os_image_at T (memory s') tot base
      | Some rc \<Rightarrow> os_load_crc_retries s' < os_load_crc_retries s + n \<and>
          (0 \<le> rc \<longrightarrow> rc = 0 \<and> boot_verify_os_image_at T (memory s') tot base))"
proof (induction n arbitrary: s)
  case (Suc n)
  from Suc.prems obtain rc s1 where o: "boot_load_os_sd_once_to T tot base s = Some (rc, s1)" by (auto split: option.splits)
  have k: "os_load_crc_retries s1 = os_load_crc_retries s"
    using o by (simp add: boot_load_os_sd_once_to_def load_chunks_retries)
  show ?case
  proof (cases "rc < 0 \<or> boot_verify_os_image_at T (memory s1) tot base")
    case True
    then show ?thesis using Suc.prems o k by (auto split: if_splits)
  next
    case False
    then have l: "load_attempts n T base tot (s1\<lparr>os_load_crc_retries := os_load_crc_retries s1 + 1\<rparr>) = Some (r, s')"
      using Suc.prems o by simp
    show ?thesis
    proof (cases "n = 0")
      case True
      then show ?thesis using l False by auto
    next
      case False
      then show ?thesis using Suc.IH [OF l] k by (auto split: option.splits)
    qed
  qed
qed simp

text \<open>
  What a return of the retry loop says: 0 with a counter below eight means a verified image, 0 at eight means
  that the last load failed its check too and is run all the same.
\<close>

lemma boot_load_result:
  assumes "os_load_crc_retries s = 0" "boot_load_os_sd T base tot s = Some (rc, s')"
  shows "os_load_crc_retries s' \<le> 8 \<and> (os_load_crc_retries s' = 8 \<longrightarrow> rc = 0) \<and>
    (rc = 0 \<longrightarrow> (boot_verify_os_image_at T (memory s') tot base \<longleftrightarrow> os_load_crc_retries s' < 8))"
proof -
  note u = assms(2) [unfolded boot_load_os_sd.simps [of T base tot s] OS_LOAD_MAX_ATTEMPTS_def Let_def]
  obtain r s1 where 1: "load_attempts 4 T base tot s = Some (r, s1)" using u by (auto split: option.splits)
  note r1 = load_attempts_result [OF 1] and c1 = load_attempts_retries [OF 1]
  show ?thesis
  proof (cases r)
    case (Some x)
    then show ?thesis using u 1 r1 assms(1) by auto
  next
    case None
    let ?s = "s1\<lparr>pd_dbg_info := 0xC0DE0000 OR (of_nat (os_load_crc_retries s1) AND 0xFFFF)\<rparr>"
    have k: "os_load_crc_retries ?s = 4" using c1 None assms(1) by simp
    then have v: "boot_load_os_sd T base tot ?s = Some (rc, s')" using u 1 None by simp
    note w = v [unfolded boot_load_os_sd.simps [of T base tot ?s] OS_LOAD_MAX_ATTEMPTS_def Let_def]
    obtain q s2 where 2: "load_attempts 4 T base tot ?s = Some (q, s2)" using w by (auto split: option.splits)
    note r2 = load_attempts_result [OF 2] and c2 = load_attempts_retries [OF 2]
    show ?thesis
    proof (cases q)
      case (Some x)
      then show ?thesis using w 2 r2 k by auto
    next
      case None
      then have "os_load_crc_retries s2 = 8" using c2 k by simp
      then show ?thesis using w 2 r2 None by auto
    qed
  qed
qed

section \<open>Loading\<close>























section \<open>The contract\<close>

text \<open>
  C30: An image that passes the boot check no longer passes it when any one of its bytes (code, magic or
  checksum) has another value.
\<close>

theorem boot_corrupt_byte_rejected:
  assumes "wf_target T" and "sdram_base T \<le> base" and "unat base + unat tot \<le> unat (sdram_base T) + unat (sdram_size T)"
    and "boot_verify_os_image_at T m tot base" and "i < unat tot" and "x \<noteq> m (boot_sdram_uncached_addr T base + of_nat i)"
  shows "\<not> boot_verify_os_image_at T (m(boot_sdram_uncached_addr T base + of_nat i := x)) tot base"
proof -
  obtain body where b: "mem_bytes m (boot_sdram_uncached_addr T base) (unat tot) = stamped body"
    using assms(4) verify_stamped [OF assms(1-3)] by blast
  have "unat tot \<le> 2 ^ 32" using unat_lt_2p32 [of tot] by simp
  from mem_bytes_update [OF assms(5) this, of m "boot_sdram_uncached_addr T base" x]
  have "mem_bytes (m(boot_sdram_uncached_addr T base + of_nat i := x)) (boot_sdram_uncached_addr T base) (unat tot) = (stamped body)[i := x]"
    by (simp add: b)
  moreover have "i < length (stamped body)" "x \<noteq> stamped body ! i"
    using assms(5,6) b by (metis length_mem_bytes, metis nth_mem_bytes)
  ultimately show ?thesis using stamped_single_change verify_stamped [OF assms(1-3)] by metis
qed

lemma boot_corrupt_byte_rejected_witness:
  "let p = boot_sdram_uncached_addr pocket 0x10400000; m = mem_store p (stamped [1, 2, 3]) (\<lambda>_. 0)
   in \<not> boot_verify_os_image_at pocket (m(p + of_nat 1 := 9)) 11 0x10400000"
proof -
  let ?p = "boot_sdram_uncached_addr pocket 0x10400000" and ?m = "mem_store (boot_sdram_uncached_addr pocket 0x10400000) (stamped [1, 2, 3]) (\<lambda>_. 0)"
  have h: "sdram_base pocket \<le> 0x10400000" "unat (0x10400000 :: u32) + unat (11 :: u32) \<le> unat (sdram_base pocket) + unat (sdram_size pocket)"
    by (simp_all add: pocket_def)
  have b: "mem_bytes ?m ?p 11 = stamped [1, 2, 3]" by (rule mem_bytes_store) (simp_all add: stamped_def)
  then have v: "boot_verify_os_image_at pocket ?m 11 0x10400000"
    using verify_stamped [OF wf_targets(1) h] by auto
  have "mem_bytes ?m ?p 11 ! 1 = ?m (?p + of_nat 1)" by (rule nth_mem_bytes) simp
  moreover have "stamped [1, 2, 3] ! 1 = 2" by (simp add: stamped_def)
  ultimately have x: "(9 :: u8) \<noteq> ?m (?p + of_nat 1)" unfolding b by simp
  have i: "1 < unat (11 :: u32)" by simp
  show ?thesis unfolding Let_def by (rule boot_corrupt_byte_rejected [OF wf_targets(1) h v i x])
qed


text \<open>A bridge that answers every command at once (status 0x63: ready, drained, acknowledged, done).\<close>

lemma probe_ready:
  "read_status s = Some (v, s1) \<Longrightarrow> v AND DS_STATUS_ACK \<noteq> 0 \<Longrightarrow> 0 < n \<Longrightarrow> probe_accept n s = Some (True, s1)"
  by (cases n) auto

lemma issue_ready: "probe_accept 256 (s\<lparr>commands := commands s @ [c]\<rparr>) = Some (True, s1) \<Longrightarrow> 0 < n \<Longrightarrow> issue_command n c s = Some s1"
  by (cases n) auto

lemma prompt_dma:
  assumes "ds_status s = replicate 6 0x63 @ vs"
  shows "boot_dma_read a b c d s = Some (0, s\<lparr>ds_status := vs, commands := commands s @ [(a, b, c, d)]\<rparr>)"
proof -
  have d: "ds_status s = 0x63 # 0x63 # 0x63 # 0x63 # 0x63 # 0x63 # vs" using assms by (simp add: numeral_eq_Suc)
  have wait: "boot_ds_wait k s1 = Some (0, s1\<lparr>ds_status := rest\<rparr>)"
    if "ds_status s1 = 0x63 # rest" "(0x63 :: u32) AND k = k" for k s1 rest
    using that by (simp add: boot_ds_wait_def ds_wait.simps read_status_def)
  let ?s1 = "s\<lparr>ds_status := 0x63 # 0x63 # 0x63 # 0x63 # 0x63 # vs\<rparr>"
  have i: "issue_command 4 (a, b, c, d) ?s1 = Some (?s1\<lparr>commands := commands s @ [(a, b, c, d)], ds_status := 0x63 # 0x63 # 0x63 # 0x63 # vs\<rparr>)"
    by (rule issue_ready, rule probe_ready [where v = "0x63"]) (simp_all add: read_status_def DS_STATUS_ACK_def)
  show ?thesis
    unfolding boot_dma_read_def
    by (simp add: wait d i read_status_def DS_STATUS_READY_def DS_STATUS_WR_IDLE_def DS_STATUS_ACK_def DS_STATUS_DONE_def DS_STATUS_ERR_MASK_def)
qed

lemma prompt_load:
  assumes "ds_status s = replicate 6 0x63 @ vs" "landed s = src # ls" "0 < tot" "tot \<le> BOOT_DMA_CHUNK_SIZE"
  shows "\<exists>s1. boot_load_os_sd_once_to T tot base s = Some (0, s1) \<and> ds_status s1 = vs \<and> landed s1 = ls"
proof -
  have "\<not> BOOT_DMA_CHUNK_SIZE < tot" using assms(4) by simp
  then show ?thesis
    using assms(1-3) unfolding boot_load_os_sd_once_to_def
    by (subst load_chunks.simps) (simp add: prompt_dma [where vs = vs] load_chunks.simps Let_def)
qed

lemma unverified_attempts:
  assumes "0 < tot" "tot < OS_CRC_TRAILER_BYTES" "ds_status s = replicate (6 * n) 0x63 @ vs" "landed s = replicate n src @ ls"
  shows "\<exists>s1. load_attempts n T base tot s = Some (None, s1) \<and> ds_status s1 = vs \<and> landed s1 = ls"
  using assms(3,4)
proof (induction n arbitrary: s)
  case (Suc n)
  have "ds_status s = replicate 6 0x63 @ replicate (6 * n) 0x63 @ vs"
    using Suc.prems(1) by (simp flip: replicate_add)
  moreover have "tot \<le> BOOT_DMA_CHUNK_SIZE" using assms(2) by (simp add: OS_CRC_TRAILER_BYTES_def BOOT_DMA_CHUNK_SIZE_def order.trans [OF order_less_imp_le])
  ultimately obtain s1 where s1: "boot_load_os_sd_once_to T tot base s = Some (0, s1)" "ds_status s1 = replicate (6 * n) 0x63 @ vs"
    "landed s1 = replicate n src @ ls"
    using prompt_load [of s _ src "replicate n src @ ls" tot T base] Suc.prems(2) assms(1) by auto
  have "\<not> boot_verify_os_image_at T (memory s1) tot base" using assms(2) by (simp add: boot_verify_os_image_at_def)
  then show ?case using Suc.IH [of "s1\<lparr>os_load_crc_retries := os_load_crc_retries s1 + 1\<rparr>"] s1 by simp
qed simp

text \<open>Eight loads of an image too short for a trailer: the boot ROM goes on with an unverified image.\<close>

definition unlucky :: bootld where
  "unlucky = \<lparr>memory = \<lambda>_. 0, ds_status = replicate 48 0x63, dt_word = 0, dt_query = [], landed = replicate 8 [0, 0, 0, 0],
     commands = [], cram0_mode = 0, pd_dbg_info = 0, os_load_crc_retries = 0\<rparr>"

lemma unlucky_boot: "\<exists>s'. boot_load_os_sd T base 4 unlucky = Some (0, s') \<and> os_load_crc_retries s' = 8"
proof -
  have small: "(0 :: u32) < 4" "(4 :: u32) < OS_CRC_TRAILER_BYTES" by (simp_all add: OS_CRC_TRAILER_BYTES_def)
  have t: "ds_status unlucky = replicate (6 * 4) 0x63 @ replicate (6 * 4) 0x63 @ []"
    "landed unlucky = replicate 4 [0, 0, 0, 0] @ replicate 4 [0, 0, 0, 0] @ []"
    by (simp_all add: unlucky_def flip: replicate_add)
  obtain s1 where 1: "load_attempts 4 T base 4 unlucky = Some (None, s1)" "ds_status s1 = replicate (6 * 4) 0x63 @ []"
    "landed s1 = replicate 4 [0, 0, 0, 0] @ []"
    using unverified_attempts [OF small t] by blast
  have r1: "os_load_crc_retries s1 = 4" using load_attempts_retries [OF 1(1)] by (simp add: unlucky_def)
  let ?s = "s1\<lparr>pd_dbg_info := 0xC0DE0000 OR (of_nat (os_load_crc_retries s1) AND 0xFFFF)\<rparr>"
  have t2: "ds_status ?s = replicate (6 * 4) 0x63 @ []" "landed ?s = replicate 4 [0, 0, 0, 0] @ []" using 1 by simp_all
  obtain s2 where 2: "load_attempts 4 T base 4 ?s = Some (None, s2)"
    using unverified_attempts [OF small t2] by blast
  have r2: "os_load_crc_retries s2 = 8" using load_attempts_retries [OF 2] r1 by simp
  have "boot_load_os_sd T base 4 unlucky = boot_load_os_sd T base 4 ?s"
    using 1(1) r1 by (subst boot_load_os_sd.simps) (simp add: OS_LOAD_MAX_ATTEMPTS_def)
  also have "\<dots> = Some (0, s2\<lparr>pd_dbg_info := 0xC0DE0000 OR (of_nat (os_load_crc_retries s2) AND 0xFFFF)\<rparr>)"
    using 2 r2 by (subst boot_load_os_sd.simps) (simp add: OS_LOAD_MAX_ATTEMPTS_def)
  finally show ?thesis using r2 by auto
qed

lemma unlucky_boot_unverified:
  "\<exists>s'. boot_load_os_sd pocket 0x10400000 4 unlucky = Some (0, s') \<and> os_load_crc_retries s' = 8 \<and>
     \<not> boot_verify_os_image_at pocket (memory s') 4 0x10400000"
proof -
  obtain s' where s: "boot_load_os_sd pocket 0x10400000 4 unlucky = Some (0, s')" "os_load_crc_retries s' = 8"
    using unlucky_boot by blast
  have z: "os_load_crc_retries unlucky = 0" by (simp add: unlucky_def)
  show ?thesis using boot_load_result [OF z s(1)] s by auto
qed




end
