(* ===== verification/Link.thy ===== *)
theory Link
  imports Prelude
begin

text \<open>
  The link cable: the interrupt-driven driver of \<open>hal/link.c\<close> with its ring buffer, and the byte
  stream of \<open>hal/net.c\<close> on top of it. The locale \<open>fifo\<close> is the interface between the two: what a bounded
  queue promises its client. The receive callback is never set after \<open>of_link_init\<close> clears it, so the
  interrupt handler has no further effect.
\<close>

unbundle bit_operations_syntax

section \<open>Bounded queues\<close>

locale fifo =
  fixes inv :: "'s \<Rightarrow> bool" and contents :: "'s \<Rightarrow> 'a list" and capacity :: nat
    and put :: "'a \<Rightarrow> 's \<Rightarrow> 's" and get :: "'s \<Rightarrow> 'a option \<times> 's"
  assumes put_inv: "inv s \<Longrightarrow> inv (put x s)"
    and put_contents: "inv s \<Longrightarrow> contents (put x s) = (if length (contents s) < capacity then contents s @ [x] else contents s)"
    and get_inv: "inv s \<Longrightarrow> inv (snd (get s))"
    and get_none: "inv s \<Longrightarrow> contents s = [] \<Longrightarrow> fst (get s) = None \<and> contents (snd (get s)) = []"
    and get_some: "inv s \<Longrightarrow> contents s = x # xs \<Longrightarrow> fst (get s) = Some x \<and> contents (snd (get s)) = xs"
begin

text \<open>Taking up to \<open>n\<close> elements.\<close>

primrec take_n :: "nat \<Rightarrow> 's \<Rightarrow> 'a list \<times> 's" where
  "take_n 0 s = ([], s)"
| "take_n (Suc n) s = (case get s of (None, s1) \<Rightarrow> ([], s1)
     | (Some x, s1) \<Rightarrow> (case take_n n s1 of (xs, s2) \<Rightarrow> (x # xs, s2)))"

lemma take_n_contents:
  "inv s \<Longrightarrow> inv (snd (take_n n s)) \<and> fst (take_n n s) = take n (contents s) \<and> contents (snd (take_n n s)) = drop n (contents s)"
proof (induction n arbitrary: s)
  case (Suc n)
  obtain r s1 where g: "get s = (r, s1)" by (cases "get s")
  show ?case
  proof (cases "contents s")
    case Nil
    then show ?thesis using get_none [OF Suc.prems Nil] get_inv [OF Suc.prems] g by simp
  next
    case (Cons x xs)
    have "inv s1" "r = Some x" "contents s1 = xs"
      using get_some [OF Suc.prems Cons] get_inv [OF Suc.prems] g by simp_all
    then show ?thesis using Suc.IH [of s1] g Cons by (cases "take_n n s1") simp
  qed
qed simp

lemma put_length: "inv s \<Longrightarrow> length (contents s) \<le> capacity \<Longrightarrow> length (contents (put x s)) \<le> capacity"
  by (simp add: put_contents)

end

section \<open>The driver\<close>

definition LINK_RX_BUF_SIZE :: nat where "LINK_RX_BUF_SIZE = 256"
definition LINK_RX_BUF_MASK :: u32 where "LINK_RX_BUF_MASK = 255"

record link =
  rx_buf :: "u32 list"
  rx_head :: u32
  rx_tail :: u32
  tx_busy :: bool
  link_ctrl :: u32
  link_tx :: "u32 list"

definition link_rx_isr :: "u32 \<Rightarrow> link \<Rightarrow> link" where
  "link_rx_isr word s =
     (let nxt = (rx_head s + 1) AND LINK_RX_BUF_MASK;
          s1 = (if nxt \<noteq> rx_tail s then s\<lparr>rx_buf := (rx_buf s)[unat (rx_head s) := word], rx_head := nxt\<rparr> else s)
      in s1\<lparr>tx_busy := False\<rparr>)"

definition of_link_init :: "bool \<Rightarrow> link \<Rightarrow> link" where
  "of_link_init master s = s\<lparr>rx_head := 0, rx_tail := 0, tx_busy := False, link_ctrl := (if master then 5 else 1)\<rparr>"

definition of_link_send :: "u32 \<Rightarrow> link \<Rightarrow> int \<times> link" where
  "of_link_send word s = (if tx_busy s then (-1, s) else (0, s\<lparr>tx_busy := True, link_tx := link_tx s @ [word]\<rparr>))"

definition of_link_recv :: "link \<Rightarrow> u32 option \<times> link" where
  "of_link_recv s = (if rx_head s = rx_tail s then (None, s)
     else (Some (rx_buf s ! unat (rx_tail s)), s\<lparr>rx_tail := (rx_tail s + 1) AND LINK_RX_BUF_MASK\<rparr>))"

definition of_link_rx_available :: "link \<Rightarrow> u32" where
  "of_link_rx_available s = (rx_head s - rx_tail s) AND LINK_RX_BUF_MASK"

section \<open>The ring holds a queue\<close>

definition ring_ok :: "link \<Rightarrow> bool" where
  "ring_ok s \<longleftrightarrow> length (rx_buf s) = LINK_RX_BUF_SIZE \<and> unat (rx_head s) < LINK_RX_BUF_SIZE \<and> unat (rx_tail s) < LINK_RX_BUF_SIZE"

definition waiting :: "link \<Rightarrow> nat" where
  "waiting s = (unat (rx_head s) + LINK_RX_BUF_SIZE - unat (rx_tail s)) mod LINK_RX_BUF_SIZE"

definition ring :: "link \<Rightarrow> u32 list" where
  "ring s = map (\<lambda>i. rx_buf s ! ((unat (rx_tail s) + i) mod LINK_RX_BUF_SIZE)) [0..<waiting s]"

lemma mask_mod: "unat (w AND LINK_RX_BUF_MASK) = unat w mod 256"
proof -
  have "(255 :: u32) = mask 8" by (simp add: mask_eq_exp_minus_1)
  then have "w AND LINK_RX_BUF_MASK = take_bit 8 w" unfolding LINK_RX_BUF_MASK_def by (simp only: take_bit_eq_mask)
  then show ?thesis by (simp add: take_bit_eq_mod unat_mod)
qed

lemma next_index: "unat w < 256 \<Longrightarrow> unat ((w + 1) AND LINK_RX_BUF_MASK) = (unat w + 1) mod 256"
proof -
  assume "unat w < 256"
  then have "unat (w + 1) = unat w + unat (1 :: u32)" by (intro unat_add_lem [THEN iffD1]) simp
  then show ?thesis by (simp add: mask_mod)
qed

lemma length_ring [simp]: "length (ring s) = waiting s"
  by (simp add: ring_def)

lemma ring_nil: "ring s = [] \<longleftrightarrow> waiting s = 0"
  by (simp add: ring_def)

lemma empty_ring: "ring_ok s \<Longrightarrow> rx_head s = rx_tail s \<longleftrightarrow> waiting s = 0"
proof
  assume ok: "ring_ok s" and w: "waiting s = 0"
  have "unat (rx_head s) = unat (rx_tail s)"
    using ok w by (auto simp: waiting_def ring_ok_def LINK_RX_BUF_SIZE_def mod_if split: if_splits)
  then show "rx_head s = rx_tail s" by (simp add: word_unat_eq_iff)
qed (simp add: waiting_def)

lemma full_ring: "ring_ok s \<Longrightarrow> (rx_head s + 1) AND LINK_RX_BUF_MASK = rx_tail s \<longleftrightarrow> waiting s = 255"
proof -
  assume ok: "ring_ok s"
  have "(rx_head s + 1) AND LINK_RX_BUF_MASK = rx_tail s \<longleftrightarrow> (unat (rx_head s) + 1) mod 256 = unat (rx_tail s)"
    using ok next_index [of "rx_head s"] by (auto simp: ring_ok_def LINK_RX_BUF_SIZE_def word_unat_eq_iff)
  also have "\<dots> \<longleftrightarrow> waiting s = 255"
    using ok by (auto simp: waiting_def ring_ok_def LINK_RX_BUF_SIZE_def mod_if split: if_splits)
  finally show ?thesis .
qed

lemma isr_ring:
  assumes "ring_ok s"
  shows "ring_ok (link_rx_isr w s)" "rx_tail (link_rx_isr w s) = rx_tail s"
    and "ring (link_rx_isr w s) = (if waiting s < 255 then ring s @ [w] else ring s)"
proof -
  let ?h = "unat (rx_head s)" and ?t = "unat (rx_tail s)"
  have ok: "length (rx_buf s) = 256" "?h < 256" "?t < 256" using assms by (simp_all add: ring_ok_def LINK_RX_BUF_SIZE_def)
  note n = next_index [OF ok(2)]
  show "ring_ok (link_rx_isr w s)" "rx_tail (link_rx_isr w s) = rx_tail s"
    using ok n by (auto simp: link_rx_isr_def ring_ok_def LINK_RX_BUF_SIZE_def Let_def)
  have wl: "waiting s < 256" by (simp add: waiting_def LINK_RX_BUF_SIZE_def)
  show "ring (link_rx_isr w s) = (if waiting s < 255 then ring s @ [w] else ring s)"
  proof (cases "waiting s = 255")
    case True
    then show ?thesis using full_ring [OF assms] by (simp add: link_rx_isr_def ring_def waiting_def)
  next
    case False
    then have nf: "(rx_head s + 1) AND LINK_RX_BUF_MASK \<noteq> rx_tail s" using full_ring [OF assms] by blast
    let ?s = "link_rx_isr w s"
    have f: "rx_buf ?s = (rx_buf s)[?h := w]" "unat (rx_head ?s) = (?h + 1) mod 256" "rx_tail ?s = rx_tail s"
      using nf n by (simp_all add: link_rx_isr_def Let_def)
    have wt: "waiting ?s = Suc (waiting s)"
      using ok False f by (auto simp: waiting_def LINK_RX_BUF_SIZE_def mod_if split: if_splits)
    have last: "(?t + waiting s) mod 256 = ?h"
      using ok by (auto simp: waiting_def LINK_RX_BUF_SIZE_def mod_if split: if_splits)
    have other: "(?t + i) mod 256 \<noteq> ?h" if "i < waiting s" for i
    proof
      assume "(?t + i) mod 256 = ?h"
      then have "(?t + waiting s) mod 256 = (?t + i) mod 256" using last by simp
      then have "256 dvd (?t + waiting s) - (?t + i)" using that by (subst (asm) mod_eq_dvd_iff_nat) simp_all
      then show False using that wl by (auto dest: dvd_imp_le)
    qed
    have "ring ?s = ring s @ [w]"
      using other [THEN not_sym] last ok by (auto simp: ring_def wt f LINK_RX_BUF_SIZE_def)
    then show ?thesis using False wl by simp
  qed
qed

lemma recv_ring:
  assumes "ring_ok s" "waiting s \<noteq> 0"
  shows "ring_ok (s\<lparr>rx_tail := (rx_tail s + 1) AND LINK_RX_BUF_MASK\<rparr>)"
    and "ring s = rx_buf s ! unat (rx_tail s) # ring (s\<lparr>rx_tail := (rx_tail s + 1) AND LINK_RX_BUF_MASK\<rparr>)"
proof -
  let ?h = "unat (rx_head s)" and ?t = "unat (rx_tail s)" and ?s = "s\<lparr>rx_tail := (rx_tail s + 1) AND LINK_RX_BUF_MASK\<rparr>"
  have ok: "length (rx_buf s) = 256" "?h < 256" "?t < 256" using assms by (simp_all add: ring_ok_def LINK_RX_BUF_SIZE_def)
  note n = next_index [OF ok(3)]
  show "ring_ok ?s" using ok n by (simp add: ring_ok_def LINK_RX_BUF_SIZE_def)
  have w: "waiting s = Suc (waiting ?s)"
    using ok n assms(2) by (auto simp: waiting_def LINK_RX_BUF_SIZE_def mod_if split: if_splits)
  have i: "(Suc ?t mod 256 + i) mod 256 = Suc (?t + i) mod 256" for i by (simp add: mod_simps)
  show "ring s = rx_buf s ! ?t # ring ?s"
    using ok n by (simp add: ring_def w LINK_RX_BUF_SIZE_def i upt_conv_Cons o_def del: upt_Suc flip: map_Suc_upt)
qed

interpretation ring: fifo ring_ok ring 255 link_rx_isr of_link_recv
proof unfold_locales
  fix s x xs assume ok: "ring_ok s"
  show "ring_ok (link_rx_isr x s)" by (rule isr_ring(1) [OF ok])
  show "ring (link_rx_isr x s) = (if length (ring s) < 255 then ring s @ [x] else ring s)"
    using isr_ring(3) [OF ok] by simp
  show "ring_ok (snd (of_link_recv s))"
    using recv_ring(1) [OF ok] empty_ring [OF ok] ok by (auto simp: of_link_recv_def)
  show "fst (of_link_recv s) = None \<and> ring (snd (of_link_recv s)) = []" if "ring s = []"
    using empty_ring [OF ok] that ring_nil [of s] by (simp add: of_link_recv_def)
  show "fst (of_link_recv s) = Some x \<and> ring (snd (of_link_recv s)) = xs" if "ring s = x # xs"
    using recv_ring(2) [OF ok] empty_ring [OF ok] that ring_nil [of s] by (auto simp: of_link_recv_def)
qed

lemma rx_available: "ring_ok s \<Longrightarrow> unat (of_link_rx_available s) = waiting s"
proof -
  assume ok: "ring_ok s"
  show ?thesis
  proof (cases "rx_tail s \<le> rx_head s")
    case True
    then show ?thesis using ok
      by (simp add: of_link_rx_available_def mask_mod unat_sub waiting_def ring_ok_def LINK_RX_BUF_SIZE_def word_le_nat_alt mod_if)
  next
    case False
    then have "unat (rx_head s - rx_tail s) = unat (rx_head s) + 2 ^ 32 - unat (rx_tail s)" by (simp add: unat_sub_if' word_le_nat_alt)
    also have "\<dots> = (unat (rx_head s) + 256 - unat (rx_tail s)) + 256 * 16777215" using ok by (simp add: ring_ok_def LINK_RX_BUF_SIZE_def)
    finally show ?thesis by (simp only: of_link_rx_available_def mask_mod waiting_def LINK_RX_BUF_SIZE_def mod_mult_self2)
  qed
qed

end
