(* ===== verification/Net.thy ===== *)
theory Net
  imports Link Memory
begin

text \<open>
  The byte stream of \<open>hal/net.c\<close> over the link queue, and the two contracts of the link: the ring is a
  queue even when the interrupt handler runs between any two accesses of a receive, and the bytes an
  app takes are the bytes of the words that arrived, in order.
\<close>

unbundle bit_operations_syntax

section \<open>The stream\<close>

definition NET_RX_BUF_SIZE :: nat where "NET_RX_BUF_SIZE = 4096"
definition OF_NET_DISCONNECTED :: int where "OF_NET_DISCONNECTED = 0"
definition OF_NET_HOSTING :: int where "OF_NET_HOSTING = 1"
definition OF_NET_JOINED :: int where "OF_NET_JOINED = 2"

record net =
  cable :: link
  net_state :: int
  net_buf :: "u8 list"
  net_head :: nat

definition of_net_host_start :: "net \<Rightarrow> int \<times> net" where
  "of_net_host_start s = (0, s\<lparr>net_state := OF_NET_HOSTING, net_head := 0\<rparr>)"

definition of_net_join :: "net \<Rightarrow> int \<times> net" where
  "of_net_join s = (0, s\<lparr>net_state := OF_NET_JOINED, net_head := 0\<rparr>)"

definition of_net_stop :: "net \<Rightarrow> net" where
  "of_net_stop s = s\<lparr>net_state := OF_NET_DISCONNECTED, net_head := 0\<rparr>"

definition of_net_client_count :: "net \<Rightarrow> int" where
  "of_net_client_count s = (if net_state s \<noteq> OF_NET_HOSTING then 0
     else if 0 < of_link_rx_available (cable s) then 1 else 0)"

text \<open>The words of a message: up to four bytes each, little-endian.\<close>

definition pack_word :: "u8 list \<Rightarrow> u32" where
  "pack_word bs = fold (\<lambda>i w. w OR push_bit (i * 8) (ucast (bs ! i))) [0..<length bs] 0"

function send_words :: "u8 list \<Rightarrow> net \<Rightarrow> bool \<times> net" where
  "send_words bs s =
     (if bs = [] then (True, s)
      else case of_link_send (pack_word (take 4 bs)) (cable s) of (rc, l) \<Rightarrow>
        if rc < 0 then (False, s\<lparr>cable := l\<rparr>) else send_words (drop 4 bs) (s\<lparr>cable := l\<rparr>))"
  by pat_completeness auto
termination by (relation "measure (\<lambda>(bs, s). length bs)") auto

declare send_words.simps [simp del]

definition net_send_bytes :: "u8 list \<Rightarrow> net \<Rightarrow> int \<times> net" where
  "net_send_bytes bs s =
     (if net_state s = OF_NET_DISCONNECTED then (-1, s)
      else case of_link_send (of_nat (length bs)) (cable s) of (rc, l) \<Rightarrow>
        if rc < 0 then (-1, s\<lparr>cable := l\<rparr>)
        else case send_words bs (s\<lparr>cable := l\<rparr>) of (sent, s1) \<Rightarrow> (if sent then int (length bs) else -1, s1))"

function net_drain_rx :: "net \<Rightarrow> net" where
  "net_drain_rx s =
     (if net_head s < NET_RX_BUF_SIZE - 4 then
        (case of_link_recv (cable s) of (None, l) \<Rightarrow> s\<lparr>cable := l\<rparr>
         | (Some word, l) \<Rightarrow>
             let n = min 4 (NET_RX_BUF_SIZE - net_head s) in
             net_drain_rx (s\<lparr>cable := l,
               net_buf := fold (\<lambda>i b. b[net_head s + i := ucast (drop_bit (i * 8) word)]) [0..<n] (net_buf s),
               net_head := net_head s + n\<rparr>))
      else s)"
  by pat_completeness auto
termination by (relation "measure (\<lambda>s. NET_RX_BUF_SIZE - net_head s)") (auto simp: NET_RX_BUF_SIZE_def)

declare net_drain_rx.simps [simp del]

definition of_net_recv :: "nat \<Rightarrow> net \<Rightarrow> u8 list \<times> net" where
  "of_net_recv len s =
     (let s1 = net_drain_rx s; avail = (if net_head s1 < len then net_head s1 else len) in
      if avail = 0 then ([], s1)
      else (take avail (net_buf s1),
            s1\<lparr>net_buf := (if avail < net_head s1
                 then take (net_head s1 - avail) (drop avail (net_buf s1)) @ drop (net_head s1 - avail) (net_buf s1)
                 else net_buf s1),
               net_head := net_head s1 - avail\<rparr>))"

definition of_net_poll :: "net \<Rightarrow> int \<times> net" where
  "of_net_poll s = (if net_state s = OF_NET_DISCONNECTED then (0, s)
     else let s1 = net_drain_rx s in (int (net_head s1), s1))"

text \<open>The system call: buffers are in the app's memory. Results are the returned register.\<close>

definition of_net_dispatch :: "nat \<Rightarrow> u32 \<Rightarrow> u32 \<Rightarrow> u32 \<Rightarrow> mem \<times> net \<Rightarrow> int \<times> mem \<times> net" where
  "of_net_dispatch fid a0 a1 a2 ms =
     (case ms of (m, s) \<Rightarrow>
      let send = (\<lambda>p n. case net_send_bytes (mem_bytes m p (unat n)) s of (rc, s1) \<Rightarrow> (rc, m, s1));
          recv = (\<lambda>p n. case of_net_recv (unat n) s of (bs, s1) \<Rightarrow> (int (length bs), mem_store p bs m, s1))
      in if fid = 0 then (case of_net_host_start s of (rc, s1) \<Rightarrow> (rc, m, s1))
         else if fid = 1 then (case of_net_join s of (rc, s1) \<Rightarrow> (rc, m, s1))
         else if fid = 2 then (0, m, of_net_stop s)
         else if fid = 3 then (net_state s, m, s)
         else if fid = 4 then (of_net_client_count s, m, s)
         else if fid = 5 then send a1 a2
         else if fid = 6 then recv a1 a2
         else if fid = 7 then send a0 a1
         else if fid = 8 then send a0 a1
         else if fid = 9 then recv a0 a1
         else if fid = 10 then (case of_net_poll s of (rc, s1) \<Rightarrow> (rc, m, s1))
         else (-2, m, s))"

section \<open>The interrupt handler between the accesses of a receive\<close>

text \<open>A receive compares the indices, reads the word, and advances the tail; the handler may run at any
  point. The lists are the words the handler stored and the words receives returned.\<close>

datatype reader = Idle | Checked | Taken u32

inductive link_step :: "link \<times> reader \<times> u32 list \<times> u32 list \<Rightarrow> link \<times> reader \<times> u32 list \<times> u32 list \<Rightarrow> bool" where
  interrupt: "link_step (s, pc, stored, returned)
    (link_rx_isr w s, pc, if (rx_head s + 1) AND LINK_RX_BUF_MASK \<noteq> rx_tail s then stored @ [w] else stored, returned)"
| check: "rx_head s \<noteq> rx_tail s \<Longrightarrow> link_step (s, Idle, stored, returned) (s, Checked, stored, returned)"
| load: "link_step (s, Checked, stored, returned) (s, Taken (rx_buf s ! unat (rx_tail s)), stored, returned)"
| advance: "link_step (s, Taken w, stored, returned)
    (s\<lparr>rx_tail := (rx_tail s + 1) AND LINK_RX_BUF_MASK\<rparr>, Idle, stored, returned @ [w])"
| send: "link_step (s, Idle, stored, returned) (snd (of_link_send w s), Idle, stored, returned)"

inductive_cases link_stepE: "link_step c c'"

text \<open>Without an interrupt the steps are the receive of the code.\<close>

lemma recv_steps:
  "of_link_recv s = (Some w, s') \<Longrightarrow> link_step\<^sup>*\<^sup>* (s, Idle, stored, returned) (s', Idle, stored, returned @ [w])"
proof -
  assume r: "of_link_recv s = (Some w, s')"
  then have h: "rx_head s \<noteq> rx_tail s" "w = rx_buf s ! unat (rx_tail s)" "s' = s\<lparr>rx_tail := (rx_tail s + 1) AND LINK_RX_BUF_MASK\<rparr>"
    by (auto simp: of_link_recv_def split: if_splits)
  have "link_step (s, Idle, stored, returned) (s, Checked, stored, returned)" using h(1) by (rule check)
  moreover have "link_step (s, Checked, stored, returned) (s, Taken w, stored, returned)" unfolding h(2) by (rule load)
  moreover have "link_step (s, Taken w, stored, returned) (s', Idle, stored, returned @ [w])" unfolding h(3) by (rule advance)
  ultimately show ?thesis by (meson converse_rtranclp_into_rtranclp rtranclp.rtrancl_refl)
qed

definition queue_inv :: "link \<times> reader \<times> u32 list \<times> u32 list \<Rightarrow> bool" where
  "queue_inv c \<longleftrightarrow> (case c of (s, pc, stored, returned) \<Rightarrow>
     ring_ok s \<and> stored = returned @ ring s \<and>
     (case pc of Idle \<Rightarrow> True | Checked \<Rightarrow> ring s \<noteq> [] | Taken w \<Rightarrow> ring s \<noteq> [] \<and> w = hd (ring s)))"

lemma queue_inv_step: "link_step c c' \<Longrightarrow> queue_inv c \<Longrightarrow> queue_inv c'"
proof (induction rule: link_step.induct)
  case (interrupt s pc stored returned w)
  then have ok: "ring_ok s" by (simp add: queue_inv_def)
  have "(rx_head s + 1) AND LINK_RX_BUF_MASK \<noteq> rx_tail s \<longleftrightarrow> waiting s < 255"
    using full_ring [OF ok] by (auto simp: waiting_def LINK_RX_BUF_SIZE_def)
  then show ?case using interrupt isr_ring(1,3) [OF ok, of w] by (auto simp: queue_inv_def split: reader.splits)
next
  case (check s stored returned)
  then show ?case using empty_ring [of s] ring_nil [of s] by (simp add: queue_inv_def)
next
  case (load s stored returned)
  then show ?case using recv_ring(2) [of s] ring_nil [of s] by (auto simp: queue_inv_def)
next
  case (advance s w stored returned)
  then have "ring_ok s" "waiting s \<noteq> 0" "w = hd (ring s)" "stored = returned @ ring s" by (auto simp: queue_inv_def ring_nil)
  then show ?case using recv_ring [of s] by (simp add: queue_inv_def)
next
  case (send s stored returned w)
  then show ?case by (simp add: queue_inv_def of_link_send_def ring_ok_def ring_def waiting_def)
qed

lemma queue_inv_reachable: "link_step\<^sup>*\<^sup>* c c' \<Longrightarrow> queue_inv c \<Longrightarrow> queue_inv c'"
  by (induction rule: rtranclp_induct) (auto dest: queue_inv_step)

section \<open>What arrives is what apps get\<close>

definition word_bytes :: "u32 \<Rightarrow> u8 list" where
  "word_bytes w = [byte_at 0 w, byte_at 1 w, byte_at 2 w, byte_at 3 w]"

definition net_ok :: "net \<Rightarrow> bool" where
  "net_ok s \<longleftrightarrow> ring_ok (cable s) \<and> length (net_buf s) = NET_RX_BUF_SIZE \<and> net_head s \<le> NET_RX_BUF_SIZE"

text \<open>The bytes an app has not taken yet: those in the byte buffer, then those of the waiting words.\<close>

definition pending :: "net \<Rightarrow> u8 list" where
  "pending s = take (net_head s) (net_buf s) @ concat (map word_bytes (ring (cable s)))"

lemma four: "length xs = 4 \<Longrightarrow> (\<And>a b c d. xs = [a, b, c, d] \<Longrightarrow> P) \<Longrightarrow> P"
  by (auto simp: length_Suc_conv eval_nat_numeral)

lemma store_word:
  assumes "k + 4 \<le> length b"
  shows "fold (\<lambda>i b. b[k + i := ucast (drop_bit (i * 8) word)]) [0..<4] b = take k b @ word_bytes word @ drop (k + 4) b"
proof -
  have u: "[0..<4] = [0, 1, 2, 3 :: nat]" by (simp add: upt_rec)
  have "length (take 4 (drop k b)) = 4" using assms by simp
  then obtain x0 x1 x2 x3 where x: "take 4 (drop k b) = [x0, x1, x2, x3]" by (rule four)
  define pre post where "pre = take k b" and "post = drop (k + 4) b"
  have "b = take k b @ take 4 (drop k b) @ drop 4 (drop k b)" by (metis append_take_drop_id)
  then have b: "b = pre @ [x0, x1, x2, x3] @ post" unfolding x pre_def post_def by (simp add: add.commute)
  have l: "length pre = k" using assms by (simp add: pre_def)
  show ?thesis unfolding pre_def [symmetric] post_def [symmetric]
    by (subst (1) b) (simp add: u l list_update_append word_bytes_def byte_at_def mult.commute)
qed

lemma drain_pending:
  "net_ok s \<Longrightarrow> net_ok (net_drain_rx s) \<and> pending (net_drain_rx s) = pending s \<and>
     (net_head (net_drain_rx s) = 0 \<longrightarrow> pending s = [])"
proof (induction s rule: net_drain_rx.induct)
  case (1 s)
  show ?case
  proof (cases "net_head s < NET_RX_BUF_SIZE - 4")
    case False
    then show ?thesis using "1.prems" by (subst (1 2 3) net_drain_rx.simps) (auto simp: NET_RX_BUF_SIZE_def)
  next
    case True
    have ok: "ring_ok (cable s)" using "1.prems" by (simp add: net_ok_def)
    show ?thesis
    proof (cases "ring (cable s)")
      case Nil
      obtain l where g: "of_link_recv (cable s) = (None, l)" "ring l = []" "ring_ok l"
        using ring.get_none [OF ok Nil] ring.get_inv [OF ok] by (cases "of_link_recv (cable s)") auto
      then have "net_drain_rx s = s\<lparr>cable := l\<rparr>" using True by (subst net_drain_rx.simps) simp
      then show ?thesis using g Nil "1.prems" by (auto simp: net_ok_def pending_def)
    next
      case (Cons w ws)
      obtain l where g: "of_link_recv (cable s) = (Some w, l)" "ring l = ws" "ring_ok l"
        using ring.get_some [OF ok Cons] ring.get_inv [OF ok] by (cases "of_link_recv (cable s)") auto
      have n: "min 4 (NET_RX_BUF_SIZE - net_head s) = 4" using True by (simp add: NET_RX_BUF_SIZE_def)
      let ?s = "s\<lparr>cable := l, net_buf := take (net_head s) (net_buf s) @ word_bytes w @ drop (net_head s + 4) (net_buf s), net_head := net_head s + 4\<rparr>"
      have st: "fold (\<lambda>i b. b[net_head s + i := ucast (drop_bit (i * 8) w)]) [0..<4] (net_buf s) =
          take (net_head s) (net_buf s) @ word_bytes w @ drop (net_head s + 4) (net_buf s)"
        by (rule store_word) (use True "1.prems" in \<open>simp add: net_ok_def NET_RX_BUF_SIZE_def\<close>)
      have d: "net_drain_rx s = net_drain_rx ?s"
        using True g(1) by (subst net_drain_rx.simps) (simp add: n st Let_def del: upt_Suc)
      have o: "net_ok ?s" using "1.prems" True g(3) by (auto simp: net_ok_def NET_RX_BUF_SIZE_def word_bytes_def)
      have p: "pending ?s = pending s" using "1.prems" True g(2) Cons
        by (simp add: pending_def net_ok_def NET_RX_BUF_SIZE_def word_bytes_def)
      have "net_ok (net_drain_rx ?s) \<and> pending (net_drain_rx ?s) = pending ?s \<and> (net_head (net_drain_rx ?s) = 0 \<longrightarrow> pending ?s = [])"
        using "1.IH" [OF True g(1) [symmetric] refl refl] o st n by (simp del: upt_Suc)
      then show ?thesis using d p by simp
    qed
  qed
qed

lemma recv_pending:
  assumes "net_ok s" "of_net_recv n s = (bs, s1)"
  shows "net_ok s1 \<and> pending s = bs @ pending s1 \<and> (bs = [] \<longrightarrow> n = 0 \<or> pending s = [])"
proof -
  let ?d = "net_drain_rx s"
  note d = drain_pending [OF assms(1)]
  have ok: "length (net_buf ?d) = NET_RX_BUF_SIZE" "net_head ?d \<le> NET_RX_BUF_SIZE" "ring_ok (cable ?d)"
    using d by (auto simp: net_ok_def)
  show ?thesis
  proof (cases "net_head ?d < n")
    case True
    then show ?thesis using d ok assms(2) by (auto simp: of_net_recv_def Let_def net_ok_def pending_def split: if_splits)
  next
    case False
    have t: "take (net_head ?d) (net_buf ?d) = take n (net_buf ?d) @ take (net_head ?d - n) (drop n (net_buf ?d))"
      using False by (metis le_add_diff_inverse not_less take_add)
    show ?thesis
    proof (cases "n = 0 \<or> n = net_head ?d")
      case True
      then show ?thesis using d ok assms(2) by (auto simp: of_net_recv_def Let_def net_ok_def pending_def split: if_splits)
    next
      case part: False
      then have bs: "bs = take n (net_buf ?d)" and s1: "s1 = ?d\<lparr>net_buf := take (net_head ?d - n) (drop n (net_buf ?d)) @ drop (net_head ?d - n) (net_buf ?d), net_head := net_head ?d - n\<rparr>"
        using False assms(2) by (auto simp: of_net_recv_def Let_def)
      have "pending ?d = bs @ pending s1" using False ok t by (simp add: pending_def bs s1 min_def)
      moreover have "net_ok s1" using ok False by (simp add: net_ok_def s1)
      moreover have "bs \<noteq> []" using part ok False by (auto simp: bs NET_RX_BUF_SIZE_def)
      ultimately show ?thesis using d by simp
    qed
  qed
qed

text \<open>What can happen to the stream: a word arrives, an app receives, polls or sends.\<close>

datatype net_op = Arrive u32 | Receive nat | Poll | Transmit "u8 list"

fun net_run :: "net_op list \<Rightarrow> net \<times> u32 list \<times> u8 list \<Rightarrow> net \<times> u32 list \<times> u8 list" where
  "net_run [] c = c"
| "net_run (Arrive w # ops) (s, stored, got) =
     net_run ops (s\<lparr>cable := link_rx_isr w (cable s)\<rparr>, if waiting (cable s) < 255 then stored @ [w] else stored, got)"
| "net_run (Receive n # ops) (s, stored, got) = (case of_net_recv n s of (bs, s1) \<Rightarrow> net_run ops (s1, stored, got @ bs))"
| "net_run (Poll # ops) (s, stored, got) = net_run ops (snd (of_net_poll s), stored, got)"
| "net_run (Transmit bs # ops) (s, stored, got) = net_run ops (snd (net_send_bytes bs s), stored, got)"

lemma send_ring: "ring (snd (of_link_send w l)) = ring l" "ring_ok (snd (of_link_send w l)) = ring_ok l"
  by (simp_all add: of_link_send_def ring_def ring_ok_def waiting_def)

lemma send_words_keep:
  "ring (cable (snd (send_words bs s))) = ring (cable s) \<and> ring_ok (cable (snd (send_words bs s))) = ring_ok (cable s) \<and>
   net_buf (snd (send_words bs s)) = net_buf s \<and> net_head (snd (send_words bs s)) = net_head s"
proof (induction bs s rule: send_words.induct)
  case (1 bs s)
  obtain rc l where l: "of_link_send (pack_word (take 4 bs)) (cable s) = (rc, l)" by (cases "of_link_send (pack_word (take 4 bs)) (cable s)")
  have "ring l = ring (cable s)" "ring_ok l = ring_ok (cable s)" using send_ring [of "pack_word (take 4 bs)" "cable s"] l by simp_all
  then show ?case using "1.IH" l by (subst (1 2 3 4) send_words.simps) auto
qed

lemma send_keeps: "net_ok s \<Longrightarrow> net_ok (snd (net_send_bytes bs s)) \<and> pending (snd (net_send_bytes bs s)) = pending s"
  using send_ring [of "of_nat (length bs)" "cable s"] send_words_keep [of bs "s\<lparr>cable := snd (of_link_send (of_nat (length bs)) (cable s))\<rparr>"]
  by (cases "of_link_send (of_nat (length bs)) (cable s)")
    (auto simp: net_send_bytes_def net_ok_def pending_def split: prod.splits)

lemma net_run_stream:
  assumes "net_run ops (s, stored, got) = (s', stored', got')" "net_ok s"
  shows "net_ok s' \<and> (\<exists>ws bs. stored' = stored @ ws \<and> got' = got @ bs \<and> pending s @ concat (map word_bytes ws) = bs @ pending s')"
  using assms
proof (induction ops arbitrary: s stored got)
  case Nil
  then show ?case by simp
next
  case (Cons op ops)
  have step: ?case if "net_run ops (s1, stored @ ws, got @ bs) = (s', stored', got')" "net_ok s1"
      "pending s @ concat (map word_bytes ws) = bs @ pending s1" for s1 ws bs
  proof -
    from Cons.IH [OF that(1,2)] obtain ws1 bs1 where "net_ok s'" "stored' = (stored @ ws) @ ws1" "got' = (got @ bs) @ bs1"
      "pending s1 @ concat (map word_bytes ws1) = bs1 @ pending s'" by blast
    moreover have "pending s @ concat (map word_bytes (ws @ ws1)) = (bs @ pending s1) @ concat (map word_bytes ws1)"
      unfolding that(3) [symmetric] by simp
    then have "pending s @ concat (map word_bytes (ws @ ws1)) = (bs @ bs1) @ pending s'"
      using \<open>pending s1 @ concat (map word_bytes ws1) = bs1 @ pending s'\<close> by simp
    ultimately show ?thesis by (metis append.assoc)
  qed
  show ?case
  proof (cases op)
    case (Arrive w)
    have ok: "ring_ok (cable s)" using Cons.prems(2) by (simp add: net_ok_def)
    let ?s = "s\<lparr>cable := link_rx_isr w (cable s)\<rparr>"
    have "net_ok ?s" using Cons.prems(2) isr_ring(1) [OF ok] by (simp add: net_ok_def)
    then show ?thesis using Cons.prems(1) isr_ring(3) [OF ok, of w] Arrive
      by (intro step [of ?s "if waiting (cable s) < 255 then [w] else []" "[]"]) (auto simp: pending_def)
  next
    case (Receive n)
    obtain bs s1 where r: "of_net_recv n s = (bs, s1)" by (cases "of_net_recv n s")
    show ?thesis using Cons.prems(1) recv_pending [OF Cons.prems(2) r] Receive r by (intro step [of s1 "[]" bs]) auto
  next
    case Poll
    then show ?thesis using Cons.prems drain_pending [OF Cons.prems(2)]
      by (intro step [of "snd (of_net_poll s)" "[]" "[]"]) (auto simp: of_net_poll_def Let_def)
  next
    case (Transmit bs)
    then show ?thesis using Cons.prems send_keeps [OF Cons.prems(2), of bs]
      by (intro step [of "snd (net_send_bytes bs s)" "[]" "[]"]) auto
  qed
qed

text \<open>Sending needs an interrupt per word: without one only the length word of a message leaves.\<close>

lemma send_without_interrupt:
  assumes "net_state s \<noteq> OF_NET_DISCONNECTED" "\<not> tx_busy (cable s)" "bs \<noteq> []"
  shows "fst (net_send_bytes bs s) = -1 \<and> link_tx (cable (snd (net_send_bytes bs s))) = link_tx (cable s) @ [of_nat (length bs)]"
  using assms by (simp add: net_send_bytes_def of_link_send_def send_words.simps)

section \<open>The contracts\<close>

text \<open>
  C32: Under every interleaving of receive interrupts with the accesses of a receive and with sends, what
  receives have returned followed by what the ring holds is exactly what the interrupt handler stored, in
  order, and the word a receive has read is the oldest one; the ring never holds more than 255 words.
\<close>

theorem link_queue_interleaved:
  assumes "link_step\<^sup>*\<^sup>* (of_link_init master s0, Idle, [], []) (s, pc, stored, returned)"
    and "length (rx_buf s0) = LINK_RX_BUF_SIZE"
  shows "stored = returned @ ring s \<and> length (ring s) \<le> 255 \<and> (\<forall>w. pc = Taken w \<longrightarrow> ring s \<noteq> [] \<and> w = hd (ring s))"
proof -
  have "queue_inv (of_link_init master s0, Idle, [], [])"
    using assms(2) by (simp add: queue_inv_def of_link_init_def ring_ok_def ring_def waiting_def LINK_RX_BUF_SIZE_def)
  from queue_inv_reachable [OF assms(1) this] show ?thesis
    by (auto simp: queue_inv_def waiting_def LINK_RX_BUF_SIZE_def)
qed

definition cold_link :: link where
  "cold_link = \<lparr>rx_buf = replicate 256 0, rx_head = 9, rx_tail = 3, tx_busy = True, link_ctrl = 0, link_tx = []\<rparr>"

lemma link_queue_interleaved_witness:
  "let s = link_rx_isr 7 (of_link_init True cold_link) in
   link_step\<^sup>*\<^sup>* (of_link_init True cold_link, Idle, [], []) (s, Checked, [7], []) \<and> [7] = [] @ ring s \<and> length (ring s) \<le> 255"
proof -
  let ?a = "of_link_init True cold_link" and ?s = "link_rx_isr 7 (of_link_init True cold_link)"
  have f: "rx_head ?a = 0" "rx_tail ?a = 0" "(1 :: u32) AND LINK_RX_BUF_MASK = 1" by (simp_all add: of_link_init_def LINK_RX_BUF_MASK_def)
  have "link_step (?a, Idle, [], []) (?s, Idle, [7], [])" using interrupt [of ?a Idle "[]" "[]" 7] f by simp
  moreover have "link_step (?s, Idle, [7], []) (?s, Checked, [7], [])"
    by (rule check) (use f in \<open>simp add: link_rx_isr_def\<close>)
  ultimately have r: "link_step\<^sup>*\<^sup>* (?a, Idle, [], []) (?s, Checked, [7], [])" by (meson converse_rtranclp_into_rtranclp rtranclp.rtrancl_refl)
  have l: "length (rx_buf cold_link) = LINK_RX_BUF_SIZE" by (simp add: cold_link_def LINK_RX_BUF_SIZE_def)
  show ?thesis using link_queue_interleaved [OF r l] r by simp
qed

text \<open>
  Within one session, whatever words arrive and whatever an app receives, polls and sends, the bytes the app
  has got followed by the bytes still pending are the bytes that were pending before followed by those of the
  words that arrived while the ring had room: of these nothing is lost, repeated or reordered. A word that
  arrives at a full ring is dropped, starting, joining or stopping a session empties the buffers, and the
  length words and the padding of a message are among the bytes.
\<close>

lemma net_stream_exact:
  assumes "net_run ops (s, [], []) = (s', stored, got)" and "net_ok s"
  shows "pending s @ concat (map word_bytes stored) = got @ pending s' \<and> net_ok s'"
  using net_run_stream [OF assms] by auto

end
