(* ===== verification/Config.thy ===== *)
theory Config
  imports PathsSpec
begin

text \<open>
  The INI configuration of \<open>kernel/config.c\<close>: the file is parsed in place, so keys and values are pointers
  (offsets) into one buffer that the parser keeps cutting up with NUL characters. The empty section
  before the first header is a literal outside the buffer (\<open>None\<close>). The file layer is a parameter: the
  size of the slot, and the result and bytes of the read. Loops scan up to the end of the buffer, which
  the terminating NUL keeps them from reaching.
\<close>

section \<open>State\<close>

definition CONFIG_MAX_FILE :: nat where "CONFIG_MAX_FILE = 16 * 1024"
definition CONFIG_MAX_ENTRIES :: nat where "CONFIG_MAX_ENTRIES = 256"

definition OF_CONFIG_ERR_NOENT :: int where "OF_CONFIG_ERR_NOENT = -2"
definition OF_CONFIG_ERR_INVAL :: int where "OF_CONFIG_ERR_INVAL = -22"
definition OF_CONFIG_ERR_NOSPC :: int where "OF_CONFIG_ERR_NOSPC = -28"
definition OF_CONFIG_ERR_E2BIG :: int where "OF_CONFIG_ERR_E2BIG = -7"

record config_entry =
  section_ptr :: "nat option"
  key_ptr :: nat
  value_ptr :: nat

record config =
  config_buf :: string
  config_entries :: "config_entry list"
  config_parse_error_line :: nat

section \<open>Characters and strings\<close>

definition cfg_isspace :: "char \<Rightarrow> bool" where
  "cfg_isspace c \<longleftrightarrow> c = CHR '' '' \<or> c = CHR 0x09 \<or> c = CHR 0x0D \<or> c = CHR 0x0A \<or> c = CHR 0x0B \<or> c = CHR 0x0C"

definition cfg_tolower :: "char \<Rightarrow> char" where
  "cfg_tolower c = (if 65 \<le> (of_char c :: nat) \<and> (of_char c :: nat) \<le> 90 then char_of ((of_char c :: nat) + 32) else c)"

fun cfg_stricmp :: "string \<Rightarrow> string \<Rightarrow> int" where
  "cfg_stricmp (a # as) (b # bs) =
     (if cfg_tolower a \<noteq> cfg_tolower b then of_char (cfg_tolower a) - of_char (cfg_tolower b) else cfg_stricmp as bs)"
| "cfg_stricmp [] (b # bs) = 0 - of_char (cfg_tolower b)"
| "cfg_stricmp (a # as) [] = of_char (cfg_tolower a) - 0"
| "cfg_stricmp [] [] = 0"

text \<open>A loop that advances an index while the character there satisfies a test.\<close>

function scan :: "(char \<Rightarrow> bool) \<Rightarrow> string \<Rightarrow> nat \<Rightarrow> nat \<Rightarrow> nat" where
  "scan P b lim p = (if p < lim \<and> P (b ! p) then scan P b lim (Suc p) else p)"
  by pat_completeness auto
termination by (relation "measure (\<lambda>(P, b, lim, p). lim - p)") auto

declare scan.simps [simp del]

definition c_string_at :: "string \<Rightarrow> nat \<Rightarrow> string" where
  "c_string_at b p = c_str (drop p b)"

fun trim_end :: "nat \<Rightarrow> nat \<Rightarrow> string \<Rightarrow> string" where
  "trim_end s 0 b = b"
| "trim_end s (Suc e) b = (if s < Suc e \<and> cfg_isspace (b ! e) then trim_end s e (b[e := NUL]) else b)"

definition cfg_trim :: "nat \<Rightarrow> string \<Rightarrow> nat \<times> string" where
  "cfg_trim s b = (let s1 = scan cfg_isspace b (length b) s in (s1, trim_end s1 (s1 + length (c_string_at b s1)) b))"

section \<open>Parsing\<close>

definition newline :: "char \<Rightarrow> bool" where
  "newline c \<longleftrightarrow> c = CHR 0x0A \<or> c = CHR 0x0D"

text \<open>One line that is neither blank nor a comment: the new section, or a new entry, or an error.\<close>

datatype parsed = Blank | Header nat | Setting nat nat | Bad

definition parse_header :: "nat \<Rightarrow> string \<Rightarrow> parsed \<times> string" where
  "parse_header s b =
     (let cl = scan (\<lambda>c. c \<noteq> NUL \<and> c \<noteq> CHR '']'') b (length b) (s + 1) in
      if b ! cl \<noteq> CHR '']'' then (Bad, b)
      else case cfg_trim (s + 1) (b[cl := NUL]) of (n, b1) \<Rightarrow> if b1 ! n = NUL then (Bad, b1) else (Header n, b1))"

definition parse_setting :: "nat \<Rightarrow> string \<Rightarrow> parsed \<times> string" where
  "parse_setting s b =
     (let eq = scan (\<lambda>c. c \<noteq> NUL \<and> c \<noteq> CHR ''='') b (length b) s in
      if b ! eq \<noteq> CHR ''='' then (Bad, b)
      else case cfg_trim s (b[eq := NUL]) of (k, b1) \<Rightarrow>
        (case cfg_trim (eq + 1) b1 of (v, b2) \<Rightarrow> if b2 ! k = NUL then (Bad, b2) else (Setting k v, b2)))"

definition parse_line :: "nat \<Rightarrow> string \<Rightarrow> parsed \<times> string" where
  "parse_line line b =
     (case cfg_trim line b of (s, b1) \<Rightarrow>
        if b1 ! s = NUL \<or> b1 ! s = CHR ''#'' \<or> b1 ! s = CHR '';'' then (Blank, b1)
        else if b1 ! s = CHR ''['' then parse_header s b1
        else parse_setting s b1)"

lemma scan_ge: "p \<le> scan P b lim p"
proof (induction P b lim p rule: scan.induct)
  case (1 P b lim p)
  show ?case
  proof (cases "p < lim \<and> P (b ! p)")
    case True
    with 1 show ?thesis by (simp add: scan.simps [of P b lim p])
  qed (simp add: scan.simps [of P b lim p] del: de_Morgan_conj)
qed

text \<open>The end of the line at \<open>p\<close>, cut there with a NUL, and the start of the next line.\<close>

definition split_line :: "nat \<Rightarrow> nat \<Rightarrow> string \<Rightarrow> nat \<times> string" where
  "split_line n p b =
     (let e = scan (\<lambda>c. \<not> newline c) b n p in
      if e < n then (let b1 = b[e := NUL] in (scan newline b1 n (e + 1), b1)) else (e, b))"

lemma next_line_gt:
  assumes "p < n"
  shows "p < fst (split_line n p b)"
proof (cases "scan (\<lambda>c. \<not> newline c) b n p < n")
  case True
  let ?e = "scan (\<lambda>c. \<not> newline c) b n p"
  have "p \<le> ?e" by (rule scan_ge)
  also have "?e < ?e + 1" by simp
  also have "?e + 1 \<le> scan newline (b[?e := NUL]) n (?e + 1)" by (rule scan_ge)
  finally show ?thesis using True by (simp only: split_line_def Let_def if_True fst_conv)
next
  case False
  then show ?thesis using assms by (simp add: split_line_def Let_def)
qed

function parse_lines :: "nat \<Rightarrow> nat \<Rightarrow> nat \<Rightarrow> nat option \<Rightarrow> config \<Rightarrow> int \<times> config" where
  "parse_lines n p line_no sec g =
     (if \<not> p < n then (0, g)
      else case split_line n p (config_buf g) of (p1, b) \<Rightarrow>
           (case parse_line p b of (r, b1) \<Rightarrow>
                let g1 = g\<lparr>config_buf := b1\<rparr> in
                (case r of Blank \<Rightarrow> parse_lines n p1 (line_no + 1) sec g1
                 | Header s \<Rightarrow> parse_lines n p1 (line_no + 1) (Some s) g1
                 | Bad \<Rightarrow> (OF_CONFIG_ERR_INVAL, g1\<lparr>config_parse_error_line := line_no\<rparr>)
                 | Setting k v \<Rightarrow>
                     if CONFIG_MAX_ENTRIES \<le> length (config_entries g1)
                     then (OF_CONFIG_ERR_NOSPC, g1\<lparr>config_parse_error_line := line_no\<rparr>)
                     else parse_lines n p1 (line_no + 1) sec
                            (g1\<lparr>config_entries := config_entries g1 @ [\<lparr>section_ptr = sec, key_ptr = k, value_ptr = v\<rparr>]\<rparr>))))"
  by pat_completeness auto
termination
  by (relation "measure (\<lambda>(n, p, line_no, sec, g). n - p)")
    (simp_all, (metis next_line_gt fst_conv diff_less_mono2)+)

declare parse_lines.simps [simp del]

definition cfg_parse_buffer :: "nat \<Rightarrow> config \<Rightarrow> int \<times> config" where
  "cfg_parse_buffer n g = parse_lines n 0 1 None (g\<lparr>config_entries := [], config_parse_error_line := 0\<rparr>)"

section \<open>Loading\<close>

text \<open>
  The file layer: the size of a slot, and for a read of so many bytes its result and the bytes it left at
  the start of the destination.
\<close>

record slot_layer =
  layer_size :: "nat \<Rightarrow> int"
  layer_read :: "nat \<Rightarrow> nat \<Rightarrow> int \<times> string"

definition of_config_load :: "slot_layer \<Rightarrow> nat \<Rightarrow> config \<Rightarrow> int \<times> config" where
  "of_config_load sl slot g =
     (let g0 = g\<lparr>config_entries := [], config_parse_error_line := 0, config_buf := (config_buf g)[0 := NUL]\<rparr>;
          size64 = layer_size sl slot in
      if size64 \<le> 0 then (0, g0)
      else if int CONFIG_MAX_FILE < size64 then (OF_CONFIG_ERR_E2BIG, g0)
      else let n = nat size64 in
        (case layer_read sl slot n of (rc, bytes) \<Rightarrow>
          let b = bytes @ drop (length bytes) (config_buf g0) in
          if rc < 0 then (rc, g0\<lparr>config_buf := b\<rparr>)
          else case cfg_parse_buffer n (g0\<lparr>config_buf := b[n := NUL]\<rparr>) of (rc1, g1) \<Rightarrow>
            if rc1 < 0 then (rc1, g1) else (0, g1)))"

section \<open>Lookup\<close>

definition section_str :: "config \<Rightarrow> config_entry \<Rightarrow> string" where
  "section_str g e = (case section_ptr e of None \<Rightarrow> [] | Some q \<Rightarrow> c_string_at (config_buf g) q)"

definition key_str :: "config \<Rightarrow> config_entry \<Rightarrow> string" where
  "key_str g e = c_string_at (config_buf g) (key_ptr e)"

definition value_str :: "config \<Rightarrow> config_entry \<Rightarrow> string" where
  "value_str g e = c_string_at (config_buf g) (value_ptr e)"

text \<open>A copy either stores the string with its NUL in the caller's buffer (\<open>Inr\<close>) or fails (\<open>Inl\<close>).\<close>

definition cfg_copy :: "nat option \<Rightarrow> string \<Rightarrow> int + string" where
  "cfg_copy out_len v =
     (case out_len of None \<Rightarrow> Inl OF_CONFIG_ERR_INVAL
      | Some m \<Rightarrow> if m = 0 then Inl OF_CONFIG_ERR_INVAL
                  else if m < length v + 1 then Inl OF_CONFIG_ERR_NOSPC
                  else Inr (v @ [NUL]))"

fun cfg_find_from :: "config \<Rightarrow> string \<Rightarrow> string \<Rightarrow> nat \<Rightarrow> config_entry option" where
  "cfg_find_from g sec key 0 = None"
| "cfg_find_from g sec key (Suc i) =
     (let e = config_entries g ! i in
      if cfg_stricmp (section_str g e) sec = 0 \<and> cfg_stricmp (key_str g e) key = 0 then Some e
      else cfg_find_from g sec key i)"

definition cfg_find :: "config \<Rightarrow> string option \<Rightarrow> string option \<Rightarrow> config_entry option" where
  "cfg_find g sec key =
     (case (sec, key) of (Some s, Some k) \<Rightarrow> cfg_find_from g s k (length (config_entries g)) | _ \<Rightarrow> None)"

definition of_config_get :: "config \<Rightarrow> string option \<Rightarrow> string option \<Rightarrow> nat option \<Rightarrow> int + string" where
  "of_config_get g sec key out_len =
     (case cfg_find g sec key of None \<Rightarrow> Inl OF_CONFIG_ERR_NOENT | Some e \<Rightarrow> cfg_copy out_len (value_str g e))"

definition hex_digit :: "char \<Rightarrow> nat option" where
  "hex_digit c = (let x = (of_char c :: nat) in
     if 48 \<le> x \<and> x \<le> 57 then Some (x - 48)
     else if 97 \<le> x \<and> x \<le> 102 then Some (10 + (x - 97))
     else if 65 \<le> x \<and> x \<le> 70 then Some (10 + (x - 65))
     else None)"

fun parse_digits :: "nat \<Rightarrow> string \<Rightarrow> 32 word \<Rightarrow> nat \<Rightarrow> 32 word \<times> nat \<times> string" where
  "parse_digits base [] v digits = (v, digits, [])"
| "parse_digits base (c # cs) v digits =
     (case hex_digit c of None \<Rightarrow> (v, digits, c # cs)
      | Some d \<Rightarrow> if base \<le> d then (v, digits, c # cs)
                  else parse_digits base cs (v * word_of_nat base + word_of_nat d) (digits + 1))"

definition cfg_parse_int :: "string \<Rightarrow> int option" where
  "cfg_parse_int s =
     (let s = dropWhile cfg_isspace s;
          (neg, s) = (case s of c # r \<Rightarrow> if c = CHR ''-'' then (True, r) else if c = CHR ''+'' then (False, r) else (False, s)
                      | [] \<Rightarrow> (False, s));
          (base, s) = (case s of a # x # r \<Rightarrow> if a = CHR ''0'' \<and> (x = CHR ''x'' \<or> x = CHR ''X'') then (16, r) else (10, s)
                       | _ \<Rightarrow> (10, s));
          (v, digits, s) = parse_digits base s 0 0 in
      if dropWhile cfg_isspace s \<noteq> [] \<or> digits = 0 then None
      else Some (if neg then sint (- v) else sint v))"

definition of_config_get_int :: "config \<Rightarrow> string option \<Rightarrow> string option \<Rightarrow> int \<Rightarrow> int" where
  "of_config_get_int g sec key default_value =
     (case cfg_find g sec key of None \<Rightarrow> default_value
      | Some e \<Rightarrow> (case cfg_parse_int (value_str g e) of None \<Rightarrow> default_value | Some v \<Rightarrow> v))"

definition of_config_get_bool :: "config \<Rightarrow> string option \<Rightarrow> string option \<Rightarrow> int \<Rightarrow> int" where
  "of_config_get_bool g sec key default_value =
     (case cfg_find g sec key of None \<Rightarrow> default_value
      | Some e \<Rightarrow> let v = value_str g e in
          if cfg_stricmp v ''1'' = 0 \<or> cfg_stricmp v ''true'' = 0 \<or> cfg_stricmp v ''yes'' = 0 \<or> cfg_stricmp v ''on'' = 0 then 1
          else if cfg_stricmp v ''0'' = 0 \<or> cfg_stricmp v ''false'' = 0 \<or> cfg_stricmp v ''no'' = 0 \<or> cfg_stricmp v ''off'' = 0 then 0
          else default_value)"

text \<open>
  The next entry of a section: the new cursor with the copies of its key and its value. A failing copy
  leaves the cursor (\<open>Inl\<close>).
\<close>

function config_next_from :: "config \<Rightarrow> string \<Rightarrow> nat \<Rightarrow> nat option \<Rightarrow> nat option \<Rightarrow> int + nat \<times> string \<times> string" where
  "config_next_from g sec i key_len value_len =
     (if i < length (config_entries g)
      then let e = config_entries g ! i in
        if cfg_stricmp (section_str g e) sec \<noteq> 0 then config_next_from g sec (i + 1) key_len value_len
        else (case cfg_copy key_len (key_str g e) of Inl rc \<Rightarrow> Inl rc
              | Inr k \<Rightarrow> (case cfg_copy value_len (value_str g e) of Inl rc \<Rightarrow> Inl rc
                | Inr v \<Rightarrow> Inr (i + 1, k, v)))
      else Inl OF_CONFIG_ERR_NOENT)"
  by pat_completeness auto
termination by (relation "measure (\<lambda>(g, sec, i, _). length (config_entries g) - i)") auto

declare config_next_from.simps [simp del]

definition of_config_next ::
    "config \<Rightarrow> string option \<Rightarrow> nat option \<Rightarrow> nat option \<Rightarrow> nat option \<Rightarrow> int + nat \<times> string \<times> string" where
  "of_config_next g sec cursor key_len value_len =
     (case (sec, cursor) of (Some s, Some i) \<Rightarrow> config_next_from g s i key_len value_len | _ \<Rightarrow> Inl OF_CONFIG_ERR_INVAL)"

definition of_config_error_line :: "config \<Rightarrow> nat" where
  "of_config_error_line g = config_parse_error_line g"

end
