(* ===== verification/ConfigSpec.thy ===== *)
theory ConfigSpec
  imports Config
begin

text \<open>
  What the configuration parser computes, without the buffer: the lines of the text are stripped and
  classified one by one, and a table of section, key and value strings is built. The parser that cuts the
  buffer up in place computes exactly that, and the lookup is a search of that table from its end.
\<close>

section \<open>Reference parser\<close>

function text_lines :: "string \<Rightarrow> string list" where
  "text_lines [] = []"
| "text_lines (c # cs) =
     takeWhile (\<lambda>c. \<not> newline c) (c # cs) # text_lines (dropWhile newline (dropWhile (\<lambda>c. \<not> newline c) (c # cs)))"
  by pat_completeness auto
termination
  by (relation "measure length")
    (auto simp: less_Suc_eq_le intro: order_trans [OF length_dropWhile_le length_dropWhile_le] length_dropWhile_le)

definition strip :: "string \<Rightarrow> string" where
  "strip s = rev (dropWhile cfg_isspace (rev (dropWhile cfg_isspace s)))"

datatype line_item = No_setting | Section string | Entry string string | Malformed

definition classify :: "string \<Rightarrow> line_item" where
  "classify line =
     (case strip line of [] \<Rightarrow> No_setting
      | c # r \<Rightarrow>
          if c = CHR ''#'' \<or> c = CHR '';'' then No_setting
          else if c = CHR ''['' then
            (if CHR '']'' \<notin> set r then Malformed
             else let s = strip (takeWhile (\<lambda>c. c \<noteq> CHR '']'') r) in if s = [] then Malformed else Section s)
          else if CHR ''='' \<notin> set (c # r) then Malformed
          else let k = strip (takeWhile (\<lambda>c. c \<noteq> CHR ''='') (c # r));
                   v = strip (tl (dropWhile (\<lambda>c. c \<noteq> CHR ''='') (c # r)))
               in if k = [] then Malformed else Entry k v)"

type_synonym table = "(string \<times> string \<times> string) list"

fun build :: "string list \<Rightarrow> nat \<Rightarrow> string \<Rightarrow> table \<Rightarrow> int \<times> nat \<times> table" where
  "build [] no sec tbl = (0, 0, tbl)"
| "build (l # ls) no sec tbl =
     (case classify (c_str l) of
        No_setting \<Rightarrow> build ls (no + 1) sec tbl
      | Section s \<Rightarrow> build ls (no + 1) s tbl
      | Malformed \<Rightarrow> (OF_CONFIG_ERR_INVAL, no, tbl)
      | Entry k v \<Rightarrow> if CONFIG_MAX_ENTRIES \<le> length tbl then (OF_CONFIG_ERR_NOSPC, no, tbl)
                     else build ls (no + 1) sec (tbl @ [(sec, k, v)]))"

definition parse_text :: "string \<Rightarrow> int \<times> nat \<times> table" where
  "parse_text s = build (text_lines s) 1 [] []"

section \<open>Scanning and trimming\<close>

lemma c_str_cut [simp]: "NUL \<notin> set s \<Longrightarrow> c_str (s @ NUL # post) = s"
  by (induction s) (auto simp: c_str_def)

lemma scan_eq: "lim \<le> length b \<Longrightarrow> p \<le> lim \<Longrightarrow> scan P b lim p = p + length (takeWhile P (take (lim - p) (drop p b)))"
proof (induction P b lim p rule: scan.induct)
  case (1 P b lim p)
  show ?case
  proof (cases "p < lim")
    case True
    then have "take (lim - p) (drop p b) = b ! p # take (lim - Suc p) (drop (Suc p) b)"
      using 1(2) by (simp add: Cons_nth_drop_Suc [symmetric] Suc_diff_Suc [symmetric])
    then show ?thesis using 1 True by (simp add: scan.simps [of P b lim p])
  qed (simp add: scan.simps [of P b lim p])
qed

lemma scan_to:
  "(\<And>x. x \<in> set xs \<Longrightarrow> P x) \<Longrightarrow> \<not> P y \<Longrightarrow>
   scan P (pre @ xs @ y # post) (length pre + length xs + Suc (length post)) (length pre) = length pre + length xs"
  by (simp add: scan_eq takeWhile_append2)

lemma trim_end_spaces:
  "(\<And>x. x \<in> set ws \<Longrightarrow> cfg_isspace x) \<Longrightarrow> u = [] \<or> \<not> cfg_isspace (last u) \<Longrightarrow>
   trim_end (length pre) (length pre + length u + length ws) (pre @ u @ ws @ post) =
   pre @ u @ replicate (length ws) NUL @ post"
proof (induction ws arbitrary: post rule: rev_induct)
  case Nil
  then show ?case
  proof (cases u rule: rev_cases)
    case Nil
    then show ?thesis by (cases "length pre") simp_all
  next
    case (snoc us z)
    with Nil.prems show ?thesis by (simp add: nth_append)
  qed
next
  case (snoc w ws)
  have "cfg_isspace w" by (simp add: snoc.prems)
  moreover have "(pre @ u @ ws @ w # post) ! (length pre + length u + length ws) = w"
    by (simp add: nth_append)
  moreover have "(pre @ u @ ws @ w # post)[length pre + length u + length ws := NUL] = pre @ u @ ws @ NUL # post"
    by (simp add: list_update_append)
  moreover have "trim_end (length pre) (length pre + length u + length ws) (pre @ u @ ws @ NUL # post) =
      pre @ u @ replicate (length ws) NUL @ NUL # post"
    by (rule snoc.IH) (use snoc.prems in auto)
  ultimately show ?case by (simp add: replicate_append_same [symmetric])
qed

lemma isspace_NUL [simp]: "\<not> cfg_isspace NUL"
  by (simp add: cfg_isspace_def)

lemma strip_split:
  obtains ws wt where "t = ws @ strip t @ wt" "\<And>x. x \<in> set ws \<Longrightarrow> cfg_isspace x" "\<And>x. x \<in> set wt \<Longrightarrow> cfg_isspace x"
    "strip t = [] \<or> \<not> cfg_isspace (hd (strip t)) \<and> \<not> cfg_isspace (last (strip t))" "ws = takeWhile cfg_isspace t"
proof -
  let ?r = "dropWhile cfg_isspace t" and ?wt = "rev (takeWhile cfg_isspace (rev (dropWhile cfg_isspace t)))"
  have r: "?r = strip t @ ?wt"
    unfolding strip_def by (metis rev_append rev_rev_ident takeWhile_dropWhile_id)
  have t: "t = takeWhile cfg_isspace t @ strip t @ ?wt"
    by (metis r takeWhile_dropWhile_id)
  have hd: "strip t \<noteq> [] \<Longrightarrow> \<not> cfg_isspace (hd (strip t))"
    by (metis r hd_append2 hd_dropWhile append_is_Nil_conv)
  have last: "strip t \<noteq> [] \<Longrightarrow> \<not> cfg_isspace (last (strip t))"
    by (metis strip_def last_rev hd_dropWhile rev_is_Nil_conv)
  show ?thesis
    by (rule that [OF t]) (use hd last in \<open>auto dest: set_takeWhileD\<close>)
qed

lemma cfg_trim_in_place:
  assumes "NUL \<notin> set t"
  obtains ws m where
    "cfg_trim (length pre) (pre @ t @ NUL # post) = (length (pre @ ws), pre @ ws @ strip t @ NUL # replicate m NUL @ post)"
    "NUL \<notin> set (strip t)" "length ws + length (strip t) + m = length t"
proof -
  obtain ws wt where t: "t = ws @ strip t @ wt" and ws: "\<And>x. x \<in> set ws \<Longrightarrow> cfg_isspace x"
    and wt: "\<And>x. x \<in> set wt \<Longrightarrow> cfg_isspace x"
    and ends: "strip t = [] \<or> \<not> cfg_isspace (hd (strip t)) \<and> \<not> cfg_isspace (last (strip t))"
    and ws_eq: "ws = takeWhile cfg_isspace t"
    by (rule strip_split [of t]) blast
  let ?u = "strip t"
  have nul: "NUL \<notin> set ?u" using assms t by (metis Un_iff set_append)
  let ?b = "pre @ t @ NUL # post"
  have s: "scan cfg_isspace ?b (length ?b) (length pre) = length (pre @ ws)"
  proof -
    have "takeWhile cfg_isspace (t @ NUL # post) = ws"
    proof (cases "\<forall>x \<in> set t. cfg_isspace x")
      case True
      then have "takeWhile cfg_isspace t = t" by (simp add: takeWhile_eq_all_conv)
      then show ?thesis using True ws_eq by (simp add: takeWhile_append2 del: takeWhile_eq_all_conv)
    next
      case False
      then show ?thesis using ws_eq by (auto simp: takeWhile_append1)
    qed
    then show ?thesis by (simp add: scan_eq)
  qed
  have b: "?b = (pre @ ws) @ ?u @ wt @ NUL # post" by (subst t) simp
  have cs: "c_string_at ?b (length (pre @ ws)) = ?u @ wt"
  proof -
    have "\<forall>x \<in> set (?u @ wt). x \<noteq> NUL" using assms t by (metis Un_iff set_append)
    then have "takeWhile (\<lambda>c. c \<noteq> NUL) ((?u @ wt) @ NUL # post) = ?u @ wt"
      by (subst takeWhile_append2) auto
    then show ?thesis by (subst b) (simp add: c_string_at_def c_str_def)
  qed
  have "trim_end (length (pre @ ws)) (length (pre @ ws) + length ?u + length wt) ((pre @ ws) @ ?u @ wt @ NUL # post) =
      (pre @ ws) @ ?u @ replicate (length wt) NUL @ NUL # post"
    by (rule trim_end_spaces) (use wt ends in auto)
  then have "trim_end (length (pre @ ws)) (length (pre @ ws) + length (?u @ wt)) ?b =
      pre @ ws @ ?u @ replicate (length wt) NUL @ NUL # post"
    by (subst b) (simp add: add.assoc)
  then have "cfg_trim (length pre) ?b = (length (pre @ ws), pre @ ws @ ?u @ replicate (length wt) NUL @ NUL # post)"
    by (simp only: cfg_trim_def Let_def s cs)
  moreover have "length ws + length ?u + length wt = length t" using arg_cong [OF t, of length] by simp
  ultimately show ?thesis using that nul by (simp add: replicate_app_Cons_same)
qed

section \<open>One line\<close>

text \<open>An offset holds a string inside the part of the buffer that is already settled.\<close>

definition settled :: "string \<Rightarrow> nat \<Rightarrow> string \<Rightarrow> bool" where
  "settled pre q s \<longleftrightarrow> NUL \<in> set (drop q pre) \<and> c_string_at pre q = s"

lemma c_string_at_append: "NUL \<in> set (drop q pre) \<Longrightarrow> c_string_at (pre @ x) q = c_string_at pre q"
  by (auto simp: c_string_at_def c_str_def takeWhile_append1)

lemma settled_append: "settled pre q s \<Longrightarrow> settled (pre @ x) q s"
  by (simp add: settled_def c_string_at_append)

lemma settled_here: "NUL \<notin> set s \<Longrightarrow> settled (pre @ s @ NUL # post) (length pre) s"
  by (simp add: settled_def c_string_at_def)

lemma settled_string: "settled pre q s \<Longrightarrow> c_string_at (pre @ x) q = s"
  by (simp add: settled_def c_string_at_append)

fun means :: "string \<Rightarrow> parsed \<Rightarrow> line_item \<Rightarrow> bool" where
  "means pre Blank No_setting = True"
| "means pre (Header q) (Section s) = settled pre q s"
| "means pre (Setting k v) (Entry a b) = (settled pre k a \<and> settled pre v b)"
| "means pre Bad Malformed = True"
| "means pre _ _ = False"

lemma means_append: "means pre p i \<Longrightarrow> means (pre @ x) p i"
  by (cases p; cases i) (auto intro: settled_append)

lemma means_NULs: "means (pre @ [NUL]) p i \<Longrightarrow> means (pre @ replicate m NUL @ [NUL]) p i"
  using means_append [of "pre @ [NUL]" p i "replicate m NUL"] by (simp add: replicate_app_Cons_same)

lemma nth_here: "(pre @ xs @ y # post) ! (length pre + length xs) = y"
  by (simp add: nth_append)

lemma cut_here: "(pre @ xs @ y # post)[length pre + length xs := z] = pre @ xs @ z # post"
  by (simp add: list_update_append)

lemma scan_string:
  assumes "\<And>x. x \<in> set xs \<Longrightarrow> P x" and "\<not> P y" and "b = pre @ xs @ y # post"
  shows "scan P b (length b) (length pre) = length pre + length xs"
  using scan_to [of xs P y pre post] assms by (simp add: add.assoc)

lemma head_here: "NUL \<notin> set s \<Longrightarrow> (pre @ s @ NUL # post) ! length pre = NUL \<longleftrightarrow> s = []"
  by (cases s) auto

lemma split_at_first:
  assumes "z \<in> set r"
  shows "r = takeWhile (\<lambda>c. c \<noteq> z) r @ z # tl (dropWhile (\<lambda>c. c \<noteq> z) r)"
proof -
  from assms have "dropWhile (\<lambda>c. c \<noteq> z) r \<noteq> []" by auto
  then have "dropWhile (\<lambda>c. c \<noteq> z) r = z # tl (dropWhile (\<lambda>c. c \<noteq> z) r)"
    using hd_dropWhile [of "\<lambda>c. c \<noteq> z" r] by (cases "dropWhile (\<lambda>c. c \<noteq> z) r") auto
  then show ?thesis using takeWhile_dropWhile_id [of "\<lambda>c. c \<noteq> z" r] by simp
qed

lemma parse_header_in_place:
  assumes "NUL \<notin> set r"
  obtains p r' where "length r' = length r"
    "parse_header (length pre) (pre @ CHR ''['' # r @ NUL # post) = (p, pre @ CHR ''['' # r' @ NUL # post)"
    "means (pre @ CHR ''['' # r' @ [NUL]) p
       (if CHR '']'' \<notin> set r then Malformed
        else let s = strip (takeWhile (\<lambda>c. c \<noteq> CHR '']'') r) in if s = [] then Malformed else Section s)"
proof (cases "CHR '']'' \<in> set r")
  case False
  let ?b = "pre @ CHR ''['' # r @ NUL # post"
  have "scan (\<lambda>c. c \<noteq> NUL \<and> c \<noteq> CHR '']'') ?b (length ?b) (length (pre @ ''['')) = length (pre @ ''['') + length r"
    by (rule scan_string) (use False assms in auto)
  moreover have "?b ! (length (pre @ ''['') + length r) = NUL"
    using nth_here [of "pre @ ''[''" r NUL post] by simp
  ultimately show ?thesis using that [of r Bad] False by (simp add: parse_header_def Let_def)
next
  case True
  define name where "name = takeWhile (\<lambda>c. c \<noteq> CHR '']'') r"
  define r1 where "r1 = tl (dropWhile (\<lambda>c. c \<noteq> CHR '']'') r)"
  have r: "r = name @ CHR '']'' # r1" unfolding name_def r1_def by (rule split_at_first [OF True])
  have nul: "NUL \<notin> set name" using assms r by auto
  let ?pre = "pre @ ''[''" and ?post = "r1 @ NUL # post"
  let ?b = "pre @ CHR ''['' # r @ NUL # post"
  have b: "?b = ?pre @ name @ CHR '']'' # ?post" by (simp add: r)
  have "scan (\<lambda>c. c \<noteq> NUL \<and> c \<noteq> CHR '']'') ?b (length ?b) (length ?pre) = length ?pre + length name"
    by (rule scan_string [OF _ _ b]) (use nul in \<open>auto simp: name_def dest: set_takeWhileD\<close>)
  moreover have "?b ! (length ?pre + length name) = CHR '']''" by (simp only: b nth_here)
  moreover have "?b[length ?pre + length name := NUL] = ?pre @ name @ NUL # ?post" by (simp only: b cut_here)
  moreover obtain ws m where trim: "cfg_trim (length ?pre) (?pre @ name @ NUL # ?post) =
      (length (?pre @ ws), ?pre @ ws @ strip name @ NUL # replicate m NUL @ ?post)"
    and sn: "NUL \<notin> set (strip name)" and len: "length ws + length (strip name) + m = length name"
    by (rule cfg_trim_in_place [OF nul, of ?pre ?post]) blast
  moreover have "((?pre @ ws) @ strip name @ NUL # replicate m NUL @ ?post) ! length (?pre @ ws) = NUL \<longleftrightarrow> strip name = []"
    by (rule head_here [OF sn])
  ultimately have "parse_header (length pre) ?b = (if strip name = [] then Bad else Header (length (?pre @ ws)),
      ?pre @ ws @ strip name @ NUL # replicate m NUL @ ?post)"
    by (simp add: parse_header_def Let_def)
  moreover have "settled ((?pre @ ws) @ strip name @ NUL # replicate m NUL @ r1 @ [NUL]) (length (?pre @ ws)) (strip name)"
    by (rule settled_here [OF sn])
  moreover have "length (ws @ strip name @ NUL # replicate m NUL @ r1) = length r" by (simp add: r len [symmetric])
  ultimately show ?thesis
    using that [of "ws @ strip name @ NUL # replicate m NUL @ r1" "if strip name = [] then Bad else Header (length (?pre @ ws))"] True
    by (simp add: name_def [symmetric] Let_def)
qed

lemma parse_setting_in_place:
  assumes "NUL \<notin> set r"
  obtains p r' where "length r' = length r"
    "parse_setting (length pre) (pre @ r @ NUL # post) = (p, pre @ r' @ NUL # post)"
    "means (pre @ r' @ [NUL]) p
       (if CHR ''='' \<notin> set r then Malformed
        else let k = strip (takeWhile (\<lambda>c. c \<noteq> CHR ''='') r); v = strip (tl (dropWhile (\<lambda>c. c \<noteq> CHR ''='') r))
             in if k = [] then Malformed else Entry k v)"
proof (cases "CHR ''='' \<in> set r")
  case False
  let ?b = "pre @ r @ NUL # post"
  have "scan (\<lambda>c. c \<noteq> NUL \<and> c \<noteq> CHR ''='') ?b (length ?b) (length pre) = length pre + length r"
    by (rule scan_string) (use False assms in auto)
  moreover have "?b ! (length pre + length r) = NUL" by (rule nth_here)
  ultimately show ?thesis using that [of r Bad] False by (simp add: parse_setting_def Let_def)
next
  case True
  define key where "key = takeWhile (\<lambda>c. c \<noteq> CHR ''='') r"
  define val where "val = tl (dropWhile (\<lambda>c. c \<noteq> CHR ''='') r)"
  have r: "r = key @ CHR ''='' # val" unfolding key_def val_def by (rule split_at_first [OF True])
  have nul: "NUL \<notin> set key" "NUL \<notin> set val" using assms r by auto
  let ?b = "pre @ r @ NUL # post"
  have b: "?b = pre @ key @ CHR ''='' # val @ NUL # post" by (simp add: r)
  have e1: "scan (\<lambda>c. c \<noteq> NUL \<and> c \<noteq> CHR ''='') ?b (length ?b) (length pre) = length pre + length key"
    by (rule scan_string [OF _ _ b]) (use nul in \<open>auto simp: key_def dest: set_takeWhileD\<close>)
  have e2: "?b ! (length pre + length key) = CHR ''=''" by (simp only: b nth_here)
  have e3: "?b[length pre + length key := NUL] = pre @ key @ NUL # val @ NUL # post" by (simp only: b cut_here)
  obtain ws m where t1: "cfg_trim (length pre) (pre @ key @ NUL # val @ NUL # post) =
      (length (pre @ ws), pre @ ws @ strip key @ NUL # replicate m NUL @ val @ NUL # post)"
    and sk: "NUL \<notin> set (strip key)" and lenk: "length ws + length (strip key) + m = length key"
    by (rule cfg_trim_in_place [OF nul(1), of pre "val @ NUL # post"]) blast
  define pre2 where "pre2 = pre @ ws @ strip key @ NUL # replicate m NUL"
  have len2: "length pre2 = length pre + length key + 1" by (simp add: pre2_def lenk [symmetric])
  obtain wv mv where t2: "cfg_trim (length pre2) (pre2 @ val @ NUL # post) =
      (length (pre2 @ wv), pre2 @ wv @ strip val @ NUL # replicate mv NUL @ post)"
    and sv: "NUL \<notin> set (strip val)" and lenv: "length wv + length (strip val) + mv = length val"
    by (rule cfg_trim_in_place [OF nul(2), of pre2 post]) blast
  let ?b2 = "pre2 @ wv @ strip val @ NUL # replicate mv NUL @ post"
  have t2': "cfg_trim (length pre + length key + 1) (pre @ ws @ strip key @ NUL # replicate m NUL @ val @ NUL # post) =
      (length (pre2 @ wv), ?b2)"
    using t2 unfolding len2 by (simp add: pre2_def)
  have b2: "?b2 = (pre @ ws) @ strip key @ NUL # replicate m NUL @ wv @ strip val @ NUL # replicate mv NUL @ post"
    by (simp add: pre2_def)
  have key: "?b2 ! length (pre @ ws) = NUL \<longleftrightarrow> strip key = []"
    unfolding b2 by (rule head_here [OF sk])
  define r' where "r' = ws @ strip key @ NUL # replicate m NUL @ wv @ strip val @ replicate mv NUL"
  show ?thesis
  proof (rule that)
    show "length r' = length r" by (simp add: r'_def r lenk [symmetric] lenv [symmetric])
    show "parse_setting (length pre) ?b = (if strip key = [] then Bad else Setting (length (pre @ ws)) (length (pre2 @ wv)),
        pre @ r' @ NUL # post)"
      unfolding parse_setting_def Let_def e1 e2 e3 t1 prod.case t2' key
      by (simp add: r'_def pre2_def replicate_app_Cons_same)
    have "settled ((pre @ ws) @ strip key @ NUL # replicate m NUL @ wv @ strip val @ replicate mv NUL @ [NUL]) (length (pre @ ws)) (strip key)"
      by (rule settled_here [OF sk])
    moreover have "settled ((pre2 @ wv) @ strip val @ NUL # replicate mv NUL) (length (pre2 @ wv)) (strip val)"
      by (rule settled_here [OF sv])
    ultimately show "means (pre @ r' @ [NUL]) (if strip key = [] then Bad else Setting (length (pre @ ws)) (length (pre2 @ wv)))
        (if CHR ''='' \<notin> set r then Malformed
         else let k = strip (takeWhile (\<lambda>c. c \<noteq> CHR ''='') r); v = strip (tl (dropWhile (\<lambda>c. c \<noteq> CHR ''='') r))
              in if k = [] then Malformed else Entry k v)"
      using True by (simp add: key_def [symmetric] val_def [symmetric] r'_def pre2_def replicate_app_Cons_same)
  qed
qed

lemma parse_line_in_place:
  assumes "NUL \<notin> set t"
  obtains p t' where "length t' = length t"
    "parse_line (length pre) (pre @ t @ NUL # post) = (p, pre @ t' @ NUL # post)"
    "means (pre @ t' @ [NUL]) p (classify t)"
proof -
  obtain ws m where trim: "cfg_trim (length pre) (pre @ t @ NUL # post) =
      (length (pre @ ws), pre @ ws @ strip t @ NUL # replicate m NUL @ post)"
    and nul: "NUL \<notin> set (strip t)" and len: "length ws + length (strip t) + m = length t"
    by (rule cfg_trim_in_place [OF assms, of pre post]) blast
  let ?b = "pre @ ws @ strip t @ NUL # replicate m NUL @ post"
  note line = parse_line_def trim prod.case
  show ?thesis
  proof (cases "strip t")
    case Nil
    then show ?thesis using that [of "ws @ replicate m NUL" Blank] len
      by (simp add: line nth_append classify_def replicate_app_Cons_same)
  next
    case (Cons c r)
    have c: "?b ! length (pre @ ws) = c" by (simp add: Cons nth_append)
    have c0: "c \<noteq> NUL" using nul by (auto simp: Cons)
    consider "c = CHR ''#'' \<or> c = CHR '';''" | "c = CHR ''[''" | "c \<noteq> CHR ''#''" "c \<noteq> CHR '';''" "c \<noteq> CHR ''[''" by blast
    then show ?thesis
    proof cases
      case 1
      then have "parse_line (length pre) (pre @ t @ NUL # post) = (Blank, ?b)" unfolding line c by simp
      then show ?thesis using that [of "ws @ strip t @ replicate m NUL" Blank] len 1
        by (simp add: classify_def Cons replicate_app_Cons_same)
    next
      case 2
      have "NUL \<notin> set r" using nul by (simp add: Cons)
      then obtain p r' where "length r' = length r"
        and h: "parse_header (length (pre @ ws)) ((pre @ ws) @ CHR ''['' # r @ NUL # replicate m NUL @ post) =
          (p, (pre @ ws) @ CHR ''['' # r' @ NUL # replicate m NUL @ post)"
        and m: "means ((pre @ ws) @ CHR ''['' # r' @ [NUL]) p (classify t)"
        using 2 by (elim parse_header_in_place [of r "pre @ ws" "replicate m NUL @ post"]) (simp add: classify_def Cons)
      moreover have "parse_line (length pre) (pre @ t @ NUL # post) = (p, (pre @ ws) @ CHR ''['' # r' @ NUL # replicate m NUL @ post)"
        unfolding line c using 2 h by (simp add: Cons)
      moreover have "means ((pre @ ws @ CHR ''['' # r') @ replicate m NUL @ [NUL]) p (classify t)"
        by (rule means_NULs) (use m in simp)
      ultimately show ?thesis using that [of "ws @ CHR ''['' # r' @ replicate m NUL" p] len
        by (simp add: Cons replicate_app_Cons_same)
    next
      case 3
      have cl: "classify t = (if CHR ''='' \<notin> set (strip t) then Malformed
          else let k = strip (takeWhile (\<lambda>c. c \<noteq> CHR ''='') (strip t)); v = strip (tl (dropWhile (\<lambda>c. c \<noteq> CHR ''='') (strip t)))
               in if k = [] then Malformed else Entry k v)"
        using 3 by (simp add: classify_def Cons Let_def)
      obtain p r' where "length r' = length (strip t)"
        and h: "parse_setting (length (pre @ ws)) ((pre @ ws) @ strip t @ NUL # replicate m NUL @ post) =
          (p, (pre @ ws) @ r' @ NUL # replicate m NUL @ post)"
        and m: "means ((pre @ ws) @ r' @ [NUL]) p (classify t)"
        using parse_setting_in_place [OF nul, of "pre @ ws" "replicate m NUL @ post"] unfolding cl by blast
      moreover have "parse_line (length pre) (pre @ t @ NUL # post) = (p, (pre @ ws) @ r' @ NUL # replicate m NUL @ post)"
        unfolding line c using 3 h c0 by simp
      moreover have "means ((pre @ ws @ r') @ replicate m NUL @ [NUL]) p (classify t)"
        by (rule means_NULs) (use m in simp)
      ultimately show ?thesis using that [of "ws @ r' @ replicate m NUL" p] len
        by (simp add: replicate_app_Cons_same)
    qed
  qed
qed

section \<open>The whole text\<close>

lemma line_step:
  obtains p x where "length x = length line"
    "parse_line (length pre) (pre @ line @ NUL # post) = (p, pre @ x @ NUL # post)"
    "means (pre @ x @ [NUL]) p (classify (c_str line))"
proof -
  obtain junk where line: "line @ [NUL] = c_str line @ NUL # junk"
  proof (cases "NUL \<in> set line")
    case True
    have "line @ [NUL] = c_str line @ NUL # tl (dropWhile (\<lambda>c. c \<noteq> NUL) line) @ [NUL]"
      using arg_cong [OF split_at_first [OF True], of "\<lambda>l. l @ [NUL]"] unfolding c_str_def append_assoc append_Cons .
    then show ?thesis by (rule that)
  qed (use that in simp)
  obtain p t' where len: "length t' = length (c_str line)"
    and step: "parse_line (length pre) (pre @ c_str line @ NUL # junk @ post) = (p, pre @ t' @ NUL # junk @ post)"
    and m: "means (pre @ t' @ [NUL]) p (classify (c_str line))"
    by (rule parse_line_in_place [of "c_str line" pre "junk @ post"]) simp_all
  have "last (t' @ NUL # junk) = NUL"
    using arg_cong [OF line, of last] by (cases junk) auto
  then have x: "t' @ NUL # junk = butlast (t' @ NUL # junk) @ [NUL]"
    using append_butlast_last_id [of "t' @ NUL # junk"] by simp
  define x where "x = butlast (t' @ NUL # junk)"
  note x = x [folded x_def]
  have "length x = length line"
    using arg_cong [OF x, of length] arg_cong [OF line, of length] len by simp
  moreover have "parse_line (length pre) (pre @ line @ NUL # post) = (p, pre @ x @ NUL # post)"
    using step arg_cong [OF x, of "\<lambda>l. l @ post"] arg_cong [OF line, of "\<lambda>l. l @ post"]
    by (simp only: append_assoc append_Cons append_Nil)
  moreover have "means (pre @ x @ [NUL]) p (classify (c_str line))"
    using means_append [OF m, of junk] x by simp
  ultimately show ?thesis using that by blast
qed

lemma split_line_in_place:
  assumes "rest \<noteq> []"
  obtains line rest1 tail p1 where "text_lines rest = line # text_lines rest1" "length rest1 < length rest"
    "split_line (length pre + length rest) (length pre) (pre @ rest @ NUL # post) = (p1, pre @ line @ NUL # tail)"
    "\<And>x. length x = length line \<Longrightarrow> \<exists>pre1 y. pre @ x @ NUL # tail = pre1 @ rest1 @ NUL # post \<and> length pre1 = p1 \<and>
       length pre1 + length rest1 = length pre + length rest \<and>
       pre1 @ (if rest1 = [] then [NUL] else []) = (pre @ x @ [NUL]) @ y"
proof -
  define line where "line = takeWhile (\<lambda>c. \<not> newline c) rest"
  define rest1 where "rest1 = dropWhile newline (dropWhile (\<lambda>c. \<not> newline c) rest)"
  let ?n = "length pre + length rest" and ?b = "pre @ rest @ NUL # post"
  have tl: "text_lines rest = line # text_lines rest1"
    using assms by (cases rest) (simp_all add: line_def rest1_def)
  have e: "scan (\<lambda>c. \<not> newline c) ?b ?n (length pre) = length pre + length line"
    by (simp add: scan_eq line_def)
  show ?thesis
  proof (cases "dropWhile (\<lambda>c. \<not> newline c) rest")
    case Nil
    have line: "line = rest" using takeWhile_dropWhile_id [of "\<lambda>c. \<not> newline c" rest] Nil by (simp add: line_def)
    have r1: "rest1 = []" by (simp add: rest1_def Nil)
    show ?thesis
    proof (rule that [OF tl])
      show "length rest1 < length rest" using assms r1 by simp
      show "split_line ?n (length pre) ?b = (?n, pre @ line @ NUL # post)"
        unfolding split_line_def Let_def e by (simp add: line)
    qed (auto simp: r1 line)
  next
    case (Cons nl r)
    have nl: "newline nl" using hd_dropWhile [of "\<lambda>c. \<not> newline c" rest] Cons by simp
    have rest: "rest = line @ nl # r"
      using takeWhile_dropWhile_id [of "\<lambda>c. \<not> newline c" rest] Cons by (simp add: line_def)
    define nls where "nls = takeWhile newline r"
    have r: "r = nls @ rest1" by (simp add: nls_def rest1_def Cons nl)
    let ?p1 = "length pre + length line + 1 + length nls"
    show ?thesis
    proof (rule that [OF tl])
      show "length rest1 < length rest" by (simp add: rest r)
      have "?b[length pre + length line := NUL] = pre @ line @ NUL # r @ NUL # post"
        using cut_here [of pre line nl "r @ NUL # post" NUL] by (simp add: rest)
      moreover have "scan newline (pre @ line @ NUL # r @ NUL # post) ?n (length pre + length line + 1) = ?p1"
        by (simp add: scan_eq rest nls_def)
      ultimately show "split_line ?n (length pre) ?b = (?p1, pre @ line @ NUL # r @ NUL # post)"
        unfolding split_line_def Let_def e by (simp add: rest)
      show "\<exists>pre1 y. pre @ x @ NUL # r @ NUL # post = pre1 @ rest1 @ NUL # post \<and> length pre1 = ?p1 \<and>
          length pre1 + length rest1 = ?n \<and> pre1 @ (if rest1 = [] then [NUL] else []) = (pre @ x @ [NUL]) @ y"
        if "length x = length line" for x
        by (rule exI [of _ "pre @ x @ NUL # nls"]) (use that in \<open>auto simp: r rest\<close>)
    qed
  qed
qed

fun section_settled :: "string \<Rightarrow> nat option \<Rightarrow> string \<Rightarrow> bool" where
  "section_settled pre None s = (s = [])"
| "section_settled pre (Some q) s = settled pre q s"

definition entries_settled :: "string \<Rightarrow> config_entry list \<Rightarrow> table \<Rightarrow> bool" where
  "entries_settled pre = list_all2 (\<lambda>e (s, k, v).
     section_settled pre (section_ptr e) s \<and> settled pre (key_ptr e) k \<and> settled pre (value_ptr e) v)"

lemma section_settled_append: "section_settled pre q s \<Longrightarrow> section_settled (pre @ x) q s"
  by (cases q) (auto intro: settled_append)

lemma entries_settled_append: "entries_settled pre es tbl \<Longrightarrow> entries_settled (pre @ x) es tbl"
  unfolding entries_settled_def
  by (erule list_all2_mono) (auto intro: settled_append section_settled_append)

lemma entries_settled_snoc:
  "entries_settled pre es tbl \<Longrightarrow> section_settled pre q s \<Longrightarrow> settled pre k ks \<Longrightarrow> settled pre v vs \<Longrightarrow>
   entries_settled pre (es @ [\<lparr>section_ptr = q, key_ptr = k, value_ptr = v\<rparr>]) (tbl @ [(s, ks, vs)])"
  by (simp add: entries_settled_def list_all2_appendI)

lemma entries_settled_length: "entries_settled pre es tbl \<Longrightarrow> length es = length tbl"
  by (auto simp: entries_settled_def dest: list_all2_lengthD)

lemma parse_lines_in_place:
  assumes "config_buf g = pre @ rest @ NUL # post"
    and "entries_settled (pre @ (if rest = [] then [NUL] else [])) (config_entries g) tbl"
    and "section_settled (pre @ (if rest = [] then [NUL] else [])) q sec"
    and "config_parse_error_line g = 0"
  obtains rc g' text' tbl' where
    "parse_lines (length pre + length rest) (length pre) no q g = (rc, g')"
    "build (text_lines rest) no sec tbl = (rc, config_parse_error_line g', tbl')"
    "config_buf g' = text' @ NUL # post" "length text' = length pre + length rest"
    "entries_settled (text' @ [NUL]) (config_entries g') tbl'"
proof -
  have "\<exists>rc g' text' tbl'. parse_lines (length pre + length rest) (length pre) no q g = (rc, g') \<and>
    build (text_lines rest) no sec tbl = (rc, config_parse_error_line g', tbl') \<and>
    config_buf g' = text' @ NUL # post \<and> length text' = length pre + length rest \<and>
    entries_settled (text' @ [NUL]) (config_entries g') tbl'"
    using assms
  proof (induction rest arbitrary: g pre tbl q sec no rule: length_induct)
    case (1 rest)
    show ?case
    proof (cases "rest = []")
      case True
      then show ?thesis using 1 by (simp add: parse_lines.simps [of "length pre" "length pre"])
    next
      case False
      let ?n = "length pre + length rest"
      obtain line rest1 tail p1 where lines: "text_lines rest = line # text_lines rest1" "length rest1 < length rest"
        and split0: "split_line ?n (length pre) (pre @ rest @ NUL # post) = (p1, pre @ line @ NUL # tail)"
        and next_pre: "\<And>x. length x = length line \<Longrightarrow> \<exists>pre1 y. pre @ x @ NUL # tail = pre1 @ rest1 @ NUL # post \<and> length pre1 = p1 \<and>
           length pre1 + length rest1 = length pre + length rest \<and>
           pre1 @ (if rest1 = [] then [NUL] else []) = (pre @ x @ [NUL]) @ y"
        by (rule split_line_in_place [OF False, of pre post]) blast
      have split: "split_line ?n (length pre) (config_buf g) = (p1, pre @ line @ NUL # tail)"
        using split0 by (simp only: 1(2))
      obtain p x where x: "length x = length line"
        and step: "parse_line (length pre) (pre @ line @ NUL # tail) = (p, pre @ x @ NUL # tail)"
        and m: "means (pre @ x @ [NUL]) p (classify (c_str line))"
        by (rule line_step)
      obtain pre1 y where buf: "pre @ x @ NUL # tail = pre1 @ rest1 @ NUL # post" and p1: "length pre1 = p1"
        and n: "length pre1 + length rest1 = ?n"
        and pre1: "pre1 @ (if rest1 = [] then [NUL] else []) = (pre @ x @ [NUL]) @ y"
        using next_pre [OF x] by blast
      let ?g = "g\<lparr>config_buf := pre1 @ rest1 @ NUL # post\<rparr>" and ?s = "pre1 @ (if rest1 = [] then [NUL] else [])"
      have run: "parse_lines ?n (length pre) no q g =
          (case p of Blank \<Rightarrow> parse_lines ?n p1 (no + 1) q ?g
           | Header s \<Rightarrow> parse_lines ?n p1 (no + 1) (Some s) ?g
           | Bad \<Rightarrow> (OF_CONFIG_ERR_INVAL, ?g\<lparr>config_parse_error_line := no\<rparr>)
           | Setting k v \<Rightarrow>
               if CONFIG_MAX_ENTRIES \<le> length (config_entries g)
               then (OF_CONFIG_ERR_NOSPC, ?g\<lparr>config_parse_error_line := no\<rparr>)
               else parse_lines ?n p1 (no + 1) q
                      (?g\<lparr>config_entries := config_entries g @ [\<lparr>section_ptr = q, key_ptr = k, value_ptr = v\<rparr>]\<rparr>))"
        using False by (subst parse_lines.simps) (simp add: split step buf Let_def split: parsed.split)
      obtain ents: "entries_settled ?s (config_entries g) tbl" and secs: "section_settled ?s q sec"
        and m': "means ?s p (classify (c_str line))"
        unfolding pre1 using 1(3,4) False m
          entries_settled_append [of pre "config_entries g" tbl "x @ NUL # y"]
          section_settled_append [of pre q sec "x @ NUL # y"] means_append [OF m, of y] by simp
      have whole: "\<exists>text'. pre1 @ rest1 @ NUL # post = text' @ NUL # post \<and> length text' = ?n \<and> entries_settled (text' @ [NUL]) (config_entries g) tbl"
        using ents n entries_settled_append [OF ents, of "rest1 @ [NUL]"]
        by (intro exI [of _ "pre1 @ rest1"]) (auto split: if_splits)
      have IH: "\<exists>rc g' text' tbl'. parse_lines ?n p1 no' q' g2 = (rc, g') \<and>
          build (text_lines rest1) no' sec' tbl2 = (rc, config_parse_error_line g', tbl') \<and>
          config_buf g' = text' @ NUL # post \<and> length text' = ?n \<and> entries_settled (text' @ [NUL]) (config_entries g') tbl'"
        if "config_buf g2 = pre1 @ rest1 @ NUL # post" "entries_settled ?s (config_entries g2) tbl2" "section_settled ?s q' sec'"
          "config_parse_error_line g2 = 0" for no' q' sec' g2 tbl2
        using 1(1) lines(2) that unfolding n [symmetric] p1 [symmetric] by blast
      show ?thesis
      proof (cases p)
        case Blank
        then have "classify (c_str line) = No_setting" using m' by (cases "classify (c_str line)") auto
        then show ?thesis using IH [of ?g tbl q sec "no + 1"] ents secs 1(5) by (simp add: run lines Blank)
      next
        case (Header h)
        then obtain s where "classify (c_str line) = Section s" "settled ?s h s"
          using m' by (cases "classify (c_str line)") auto
        then show ?thesis using IH [of ?g tbl "Some h" s "no + 1"] ents 1(5) by (simp add: run lines Header)
      next
        case (Setting k v)
        then obtain a b where c: "classify (c_str line) = Entry a b" "settled ?s k a" "settled ?s v b"
          using m' by (cases "classify (c_str line)") auto
        let ?g2 = "?g\<lparr>config_entries := config_entries g @ [\<lparr>section_ptr = q, key_ptr = k, value_ptr = v\<rparr>]\<rparr>"
        have "entries_settled ?s (config_entries ?g2) (tbl @ [(sec, a, b)])"
          using entries_settled_snoc [OF ents secs c(2,3)] by simp
        from IH [OF _ this secs, of "no + 1"] whole c(1) 1(5) entries_settled_length [OF ents]
        show ?thesis by (auto simp: run lines Setting)
      next
        case Bad
        then have "classify (c_str line) = Malformed" using m' by (cases "classify (c_str line)") auto
        then show ?thesis using whole by (simp add: run lines Bad)
      qed
    qed
  qed
  then show ?thesis using that by blast
qed

section \<open>Loading\<close>

definition table_of :: "config \<Rightarrow> table" where
  "table_of g = map (\<lambda>e. (section_str g e, key_str g e, value_str g e)) (config_entries g)"

lemma section_settled_str:
  "section_settled pre (section_ptr e) s \<Longrightarrow> config_buf g = pre @ x \<Longrightarrow> section_str g e = s"
  by (cases "section_ptr e") (auto simp: section_str_def settled_string)

lemma table_of_settled:
  assumes "entries_settled pre (config_entries g) tbl" and "config_buf g = pre @ x"
  shows "table_of g = tbl"
proof -
  have "list_all2 (\<lambda>e t. (section_str g e, key_str g e, value_str g e) = t) (config_entries g) tbl"
    using assms(1) unfolding entries_settled_def
    by (rule list_all2_mono) (auto simp: key_str_def value_str_def assms(2) settled_string section_settled_str [OF _ assms(2)])
  then show ?thesis
    by (simp add: table_of_def list_all2_conv_all_nth list_eq_iff_nth_eq)
qed

text \<open>The parser over the first \<open>n\<close> bytes of the buffer is the reference parser on that text.\<close>

lemma cfg_parse_buffer_in_place:
  assumes "config_buf g = text @ NUL # post" and "cfg_parse_buffer (length text) g = (rc, g')"
  obtains text' where "parse_text text = (rc, config_parse_error_line g', table_of g')"
    "config_buf g' = text' @ NUL # post" "length text' = length text"
    "entries_settled (text' @ [NUL]) (config_entries g') (table_of g')"
proof -
  let ?g = "g\<lparr>config_entries := [], config_parse_error_line := 0\<rparr>"
  obtain rc1 g1 text' tbl' where "parse_lines (length []  + length text) (length ([] :: string)) 1 None ?g = (rc1, g1)"
    and b: "build (text_lines text) 1 [] [] = (rc1, config_parse_error_line g1, tbl')"
    and buf: "config_buf g1 = text' @ NUL # post" "length text' = length ([] :: string) + length text"
    and ents: "entries_settled (text' @ [NUL]) (config_entries g1) tbl'"
    by (rule parse_lines_in_place [of ?g "[]" "text" post "[]" None "[]" 1])
      (simp_all add: assms(1) entries_settled_def)
  then have eq: "rc1 = rc" "g1 = g'" using assms(2) by (simp_all add: cfg_parse_buffer_def)
  have "table_of g' = tbl'" by (rule table_of_settled [OF ents [unfolded eq], of post]) (simp add: buf(1) [unfolded eq])
  then show ?thesis using that b buf ents by (simp add: eq parse_text_def)
qed

lemma build_rc: "build ls no sec tbl = (rc, l, t) \<Longrightarrow> rc \<le> 0"
  by (induction ls no sec tbl rule: build.induct)
    (auto simp: OF_CONFIG_ERR_INVAL_def OF_CONFIG_ERR_NOSPC_def split: line_item.splits if_splits)

text \<open>The bytes a read leaves at the start of the buffer, up to the size of the slot.\<close>

definition loaded_text :: "config \<Rightarrow> nat \<Rightarrow> string \<Rightarrow> string" where
  "loaded_text g n bytes = take n (bytes @ drop (length bytes) ((config_buf g)[0 := NUL]))"

lemma loaded_text_all: "loaded_text g (length bytes) bytes = bytes"
  by (simp add: loaded_text_def)

lemma of_config_load_in_place:
  assumes "length (config_buf g) = CONFIG_MAX_FILE + 1" and "layer_size sl slot = int n" and "0 < n" and "n \<le> CONFIG_MAX_FILE"
    and "layer_read sl slot n = (rc0, bytes)" and "0 \<le> rc0" and "length bytes \<le> n"
    and "of_config_load sl slot g = (rc, g')"
  obtains text' post where "parse_text (loaded_text g n bytes) = (rc, config_parse_error_line g', table_of g')"
    "config_buf g' = text' @ NUL # post" "length text' = n" "length post = CONFIG_MAX_FILE - n"
    "entries_settled (text' @ [NUL]) (config_entries g') (table_of g')"
proof -
  let ?b = "bytes @ drop (length bytes) ((config_buf g)[0 := NUL])"
  have len: "length ?b = CONFIG_MAX_FILE + 1" using assms(1,4,7) by simp
  have b: "?b[n := NUL] = loaded_text g n bytes @ NUL # drop (Suc n) ?b"
    using len assms(4) by (simp add: loaded_text_def upd_conv_take_nth_drop)
  have n: "length (loaded_text g n bytes) = n" using len assms(4) by (simp add: loaded_text_def)
  let ?g = "g\<lparr>config_entries := [], config_parse_error_line := 0, config_buf := ?b[n := NUL]\<rparr>"
  obtain rc1 g1 where run: "cfg_parse_buffer (length (loaded_text g n bytes)) ?g = (rc1, g1)" by fastforce
  have post: "length (drop (Suc n) ?b) = CONFIG_MAX_FILE - n" using len by simp
  have buf: "config_buf ?g = loaded_text g n bytes @ NUL # drop (Suc n) ?b" using b by simp
  obtain text' where p: "parse_text (loaded_text g n bytes) = (rc1, config_parse_error_line g1, table_of g1)"
    and rest: "config_buf g1 = text' @ NUL # drop (Suc n) ?b" "length text' = n"
      "entries_settled (text' @ [NUL]) (config_entries g1) (table_of g1)"
    by (rule cfg_parse_buffer_in_place [OF buf run]) (simp only: n)
  have "rc1 \<le> 0" using p by (auto simp: parse_text_def intro: build_rc)
  moreover have "of_config_load sl slot g = (if rc1 < 0 then (rc1, g1) else (0, g1))"
    using assms(2-6) run by (simp add: of_config_load_def n Let_def)
  ultimately have "rc = rc1" "g' = g1" using assms(8) by (simp_all split: if_splits)
  then show ?thesis using that p rest post by blast
qed

section \<open>Lookup\<close>

definition lower :: "string \<Rightarrow> int list" where
  "lower = map (\<lambda>c. of_char (cfg_tolower c))"

lemma cfg_tolower_zero: "(of_char (cfg_tolower c) :: int) = 0 \<longleftrightarrow> c = NUL"
proof -
  have zero: "(of_char d :: int) = 0 \<longleftrightarrow> d = NUL" for d
    using of_char_eq_iff [of d NUL, where ?'a = int] by simp
  have "char_of (n + 32) \<noteq> NUL" if "65 \<le> n" "n \<le> 90" for n :: nat
  proof
    assume "char_of (n + 32) = NUL"
    from arg_cong [OF this, of "of_char :: char \<Rightarrow> nat"] that show False by simp
  qed
  moreover have "c \<noteq> NUL" if "65 \<le> (of_char c :: nat)" using that by auto
  ultimately show ?thesis unfolding zero cfg_tolower_def by (simp split: if_split)
qed

lemma cfg_stricmp_zero:
  "NUL \<notin> set a \<Longrightarrow> NUL \<notin> set b \<Longrightarrow> cfg_stricmp a b = 0 \<longleftrightarrow> lower a = lower b"
  by (induction a b rule: cfg_stricmp.induct) (auto simp: lower_def cfg_tolower_zero)

interpretation config_names: name_match cfg_stricmp lower
  by unfold_locales (rule cfg_stricmp_zero)

definition lookup :: "table \<Rightarrow> string \<Rightarrow> string \<Rightarrow> string option" where
  "lookup tbl sec key = map_option (snd \<circ> snd) (find (\<lambda>(s, k, v). lower s = lower sec \<and> lower k = lower key) (rev tbl))"

lemma c_string_at_no_NUL [simp]: "NUL \<notin> set (c_string_at b q)"
  by (simp add: c_string_at_def)

lemma entry_strings_no_NUL [simp]:
  "NUL \<notin> set (section_str g e)" "NUL \<notin> set (key_str g e)" "NUL \<notin> set (value_str g e)"
  by (simp_all add: section_str_def key_str_def value_str_def split: option.split)

lemma cfg_find_from_rev:
  assumes "NUL \<notin> set sec" and "NUL \<notin> set key" and "i \<le> length (config_entries g)"
  shows "cfg_find_from g sec key i =
    find (\<lambda>e. lower (section_str g e) = lower sec \<and> lower (key_str g e) = lower key) (rev (take i (config_entries g)))"
  using assms(3)
proof (induction i)
  case (Suc i)
  then have "take (Suc i) (config_entries g) = take i (config_entries g) @ [config_entries g ! i]"
    by (simp add: take_Suc_conv_app_nth)
  then show ?case using Suc assms(1,2) by (simp add: Let_def config_names.cmp_zero)
qed simp

lemma find_map: "find P (map f xs) = map_option f (find (P \<circ> f) xs)"
  by (induction xs) auto

lemma cfg_find_lookup:
  assumes "NUL \<notin> set sec" and "NUL \<notin> set key"
  shows "map_option (value_str g) (cfg_find g (Some sec) (Some key)) = lookup (table_of g) sec key"
  using assms
  by (simp add: cfg_find_def cfg_find_from_rev lookup_def table_of_def rev_map find_map option.map_comp comp_def)

text \<open>What a lookup answers on a table.\<close>

definition answer :: "table \<Rightarrow> string \<Rightarrow> string \<Rightarrow> nat \<Rightarrow> int + string" where
  "answer tbl sec key m =
     (case lookup tbl sec key of None \<Rightarrow> Inl OF_CONFIG_ERR_NOENT
      | Some v \<Rightarrow> if m = 0 then Inl OF_CONFIG_ERR_INVAL
                  else if m \<le> length v then Inl OF_CONFIG_ERR_NOSPC else Inr (v @ [NUL]))"

lemma of_config_get_answer:
  assumes "NUL \<notin> set sec" and "NUL \<notin> set key"
  shows "of_config_get g (Some sec) (Some key) (Some m) = answer (table_of g) sec key m"
  using cfg_find_lookup [OF assms, of g]
  by (cases "cfg_find g (Some sec) (Some key)"; cases "lookup (table_of g) sec key")
    (auto simp: of_config_get_def answer_def cfg_copy_def)

text \<open>Entries in the order of the file: from cursor \<open>i\<close> the next one of the section.\<close>

lemma config_next_from_first:
  assumes "NUL \<notin> set sec"
  shows "config_next_from g sec i kl vl =
    (case find (\<lambda>j. lower (section_str g (config_entries g ! j)) = lower sec) [i..<length (config_entries g)] of
       None \<Rightarrow> Inl OF_CONFIG_ERR_NOENT
     | Some j \<Rightarrow> (case cfg_copy kl (key_str g (config_entries g ! j)) of Inl rc \<Rightarrow> Inl rc
         | Inr k \<Rightarrow> (case cfg_copy vl (value_str g (config_entries g ! j)) of Inl rc \<Rightarrow> Inl rc | Inr v \<Rightarrow> Inr (j + 1, k, v))))"
  using assms
proof (induction g sec i kl vl rule: config_next_from.induct)
  case (1 g sec i kl vl)
  then show ?case
    by (subst config_next_from.simps) (auto simp: Let_def upt_conv_Cons config_names.cmp_zero)
qed

section \<open>Well-formed configurations\<close>

definition terminated :: "string \<Rightarrow> nat \<Rightarrow> bool" where
  "terminated b q \<longleftrightarrow> NUL \<in> set (drop q b)"

definition config_ok :: "config \<Rightarrow> bool" where
  "config_ok g \<longleftrightarrow> length (config_buf g) = CONFIG_MAX_FILE + 1 \<and> length (config_entries g) \<le> CONFIG_MAX_ENTRIES \<and>
     list_all (\<lambda>e. (case section_ptr e of None \<Rightarrow> True | Some q \<Rightarrow> terminated (config_buf g) q) \<and>
       terminated (config_buf g) (key_ptr e) \<and> terminated (config_buf g) (value_ptr e) \<and>
       key_str g e \<noteq> [] \<and> strip (key_str g e) = key_str g e \<and> strip (value_str g e) = value_str g e \<and>
       strip (section_str g e) = section_str g e) (config_entries g)"

lemma strip_idem [simp]: "strip (strip s) = strip s"
proof (cases "strip s = []")
  case False
  obtain "\<not> cfg_isspace (hd (strip s))" "\<not> cfg_isspace (last (strip s))"
    by (rule strip_split [of s]) (use False in blast)
  then have "dropWhile cfg_isspace (strip s) = strip s" "dropWhile cfg_isspace (rev (strip s)) = rev (strip s)"
    using False by (simp_all add: dropWhile_eq_self_iff hd_rev)
  then show ?thesis by (simp only: strip_def [of "strip s"] rev_rev_ident)
next
  case True
  have "strip [] = []" by (simp add: strip_def)
  then show ?thesis by (simp only: True)
qed

definition rows_ok :: "table \<Rightarrow> bool" where
  "rows_ok = list_all (\<lambda>(s, k, v). k \<noteq> [] \<and> strip k = k \<and> strip v = v \<and> strip s = s)"

lemma classify_Section: "classify l = Section s \<Longrightarrow> strip s = s"
  by (auto simp: classify_def Let_def split: list.splits if_splits)

lemma classify_Entry: "classify l = Entry k v \<Longrightarrow> k \<noteq> [] \<and> strip k = k \<and> strip v = v"
  by (auto simp: classify_def Let_def split: list.splits if_splits)

lemma build_rows_ok:
  assumes "build ls no sec tbl = (rc, l, t)" and "strip sec = sec" and "rows_ok tbl" and "length tbl \<le> CONFIG_MAX_ENTRIES"
  shows "rows_ok t \<and> length t \<le> CONFIG_MAX_ENTRIES"
  using assms
proof (induction ls no sec tbl rule: build.induct)
  case (2 l ls no sec tbl)
  show ?case
  proof (cases "classify (c_str l)")
    case (Section s)
    then show ?thesis using 2 classify_Section [OF Section] by simp
  next
    case (Entry k v)
    then show ?thesis using 2 classify_Entry [OF Entry] by (auto simp: rows_ok_def split: if_splits)
  qed (use 2 in simp_all)
qed simp

lemma settled_terminated: "settled pre q s \<Longrightarrow> terminated (pre @ x) q"
  by (auto simp: settled_def terminated_def)

lemma settled_config_ok:
  assumes ents: "entries_settled pre (config_entries g) (table_of g)" and buf: "config_buf g = pre @ x"
    and len: "length (config_buf g) = CONFIG_MAX_FILE + 1" and rows: "rows_ok (table_of g)" "length (table_of g) \<le> CONFIG_MAX_ENTRIES"
  shows "config_ok g"
proof -
  have "(case section_ptr e of None \<Rightarrow> True | Some q \<Rightarrow> terminated (config_buf g) q) \<and>
      terminated (config_buf g) (key_ptr e) \<and> terminated (config_buf g) (value_ptr e)" if "e \<in> set (config_entries g)" for e
  proof -
    obtain s k v where "section_settled pre (section_ptr e) s" "settled pre (key_ptr e) k" "settled pre (value_ptr e) v"
      using ents \<open>e \<in> set (config_entries g)\<close> unfolding entries_settled_def by (fastforce simp: list_all2_conv_all_nth in_set_conv_nth)
    then show ?thesis by (cases "section_ptr e") (auto simp: buf intro: settled_terminated)
  qed
  moreover have "length (config_entries g) \<le> CONFIG_MAX_ENTRIES" using rows(2) by (simp add: table_of_def)
  ultimately show ?thesis using rows(1) len
    by (simp add: config_ok_def rows_ok_def table_of_def list_all_iff)
qed

lemma of_config_load_ok:
  assumes len: "length (config_buf g) = CONFIG_MAX_FILE + 1" and "\<And>n. length (snd (layer_read sl slot n)) \<le> n"
  shows "config_ok (snd (of_config_load sl slot g))"
proof -
  let ?n = "nat (layer_size sl slot)"
  obtain rc0 bytes where rd: "layer_read sl slot ?n = (rc0, bytes)" by fastforce
  have lb: "length bytes \<le> ?n" using assms(2) [of ?n] by (simp add: rd)
  have empty: "config_ok h" if "config_entries h = []" "length (config_buf h) = CONFIG_MAX_FILE + 1" for h
    using that by (simp add: config_ok_def)
  consider "layer_size sl slot \<le> 0 \<or> int CONFIG_MAX_FILE < layer_size sl slot"
    | "0 < layer_size sl slot" "layer_size sl slot \<le> int CONFIG_MAX_FILE" "rc0 < 0"
    | "0 < layer_size sl slot" "layer_size sl slot \<le> int CONFIG_MAX_FILE" "0 \<le> rc0" by linarith
  then show ?thesis
  proof cases
    case 1
    then show ?thesis by (auto simp: of_config_load_def Let_def len intro: empty)
  next
    case 2
    then show ?thesis using lb by (auto simp: of_config_load_def Let_def len rd intro!: empty)
  next
    case 3
    obtain rc g' where run: "of_config_load sl slot g = (rc, g')" by fastforce
    obtain text' post where p: "parse_text (loaded_text g ?n bytes) = (rc, config_parse_error_line g', table_of g')"
      and buf: "config_buf g' = text' @ NUL # post" "length text' = ?n" "length post = CONFIG_MAX_FILE - ?n"
      and ents: "entries_settled (text' @ [NUL]) (config_entries g') (table_of g')"
      by (rule of_config_load_in_place [OF len _ _ _ rd 3(3) lb run]) (use 3 in simp_all)
    have "rows_ok (table_of g') \<and> length (table_of g') \<le> CONFIG_MAX_ENTRIES"
      by (rule build_rows_ok [OF p [unfolded parse_text_def]]) (simp_all add: rows_ok_def strip_def)
    moreover have "length (config_buf g') = CONFIG_MAX_FILE + 1" using 3(2) buf by simp
    ultimately show ?thesis using settled_config_ok [OF ents, of post] buf(1) by (simp add: run)
  qed
qed

text \<open>The error line counts runs of line ends, not lines: the malformed line here is the fourth of its file.\<close>

lemma error_line_skips_blank_lines:
  "parse_text (''[a]'' @ [CHR 0x0A, CHR 0x0A, CHR 0x0A] @ ''bad'') = (OF_CONFIG_ERR_INVAL, 2, [])"
  by code_simp

section \<open>Properties\<close>

text \<open>
  C34: Loading a configuration file that the file layer delivers whole parses it, in place, to the table
  and the result and error line of the reference parser on its text, and every lookup then answers with
  the last entry of that table whose section and key match up to case.
\<close>

theorem config_load_answers:
  assumes "length (config_buf g) = CONFIG_MAX_FILE + 1" and "contents \<noteq> []" and "length contents \<le> CONFIG_MAX_FILE"
    and "layer_size sl slot = int (length contents)" and "layer_read sl slot (length contents) = (0, contents)"
    and "of_config_load sl slot g = (rc, g')"
  shows "parse_text contents = (rc, of_config_error_line g', table_of g') \<and>
    (\<forall>sec key m. NUL \<notin> set sec \<longrightarrow> NUL \<notin> set key \<longrightarrow>
       of_config_get g' (Some sec) (Some key) (Some m) = answer (snd (snd (parse_text contents))) sec key m)"
proof -
  obtain text' post where "parse_text (loaded_text g (length contents) contents) = (rc, config_parse_error_line g', table_of g')"
    by (rule of_config_load_in_place [OF assms(1,4) _ assms(3,5) _ _ assms(6)]) (use assms(2) in simp_all)
  then show ?thesis by (simp add: loaded_text_all of_config_error_line_def of_config_get_answer)
qed

definition demo_ini :: string where
  "demo_ini = ''; video'' @ [CHR 0x0A] @ ''[Video]'' @ [CHR 0x0A, CHR 0x0A] @ ''mode = ntsc'' @ [CHR 0x0A] @ '' Mode=pal '' @ [CHR 0x0D]"

definition demo_layer :: slot_layer where
  "demo_layer = \<lparr>layer_size = \<lambda>_. 40, layer_read = \<lambda>_ n. (0, take n demo_ini)\<rparr>"

definition demo_config :: config where
  "demo_config = \<lparr>config_buf = replicate (CONFIG_MAX_FILE + 1) NUL, config_entries = [], config_parse_error_line = 0\<rparr>"

theorem config_load_answers_witness:
  "fst (of_config_load demo_layer 2 demo_config) = 0 \<and>
   of_config_get (snd (of_config_load demo_layer 2 demo_config)) (Some ''VIDEO'') (Some ''mode'') (Some 16) = Inr (''pal'' @ [NUL])"
proof -
  obtain rc g' where run: "of_config_load demo_layer 2 demo_config = (rc, g')" by fastforce
  have "length demo_ini = 40" by code_simp
  then have "parse_text demo_ini = (rc, of_config_error_line g', table_of g') \<and>
    (\<forall>sec key m. NUL \<notin> set sec \<longrightarrow> NUL \<notin> set key \<longrightarrow>
       of_config_get g' (Some sec) (Some key) (Some m) = answer (snd (snd (parse_text demo_ini))) sec key m)"
    by (intro config_load_answers [OF _ _ _ _ _ run])
      (auto simp: demo_layer_def demo_config_def CONFIG_MAX_FILE_def)
  moreover have "fst (parse_text demo_ini) = 0" by code_simp
  moreover have "answer (snd (snd (parse_text demo_ini))) ''VIDEO'' ''mode'' 16 = Inr (''pal'' @ [NUL])" by code_simp
  ultimately show ?thesis by (simp add: run)
qed

text \<open>
  C35: Whatever the file holds and however its read ends, the loaded table is well formed: at most 256
  entries, every section, key and value a NUL-terminated string inside the buffer, none with white space
  at its ends, no key empty.
\<close>

theorem config_load_well_formed:
  assumes "length (config_buf g) = CONFIG_MAX_FILE + 1" and "\<And>n. length (snd (layer_read sl slot n)) \<le> n"
  shows "config_ok (snd (of_config_load sl slot g))"
  by (rule of_config_load_ok [OF assms])

theorem config_load_well_formed_witness: "config_ok (snd (of_config_load demo_layer 2 demo_config))"
  by (rule config_load_well_formed) (simp_all add: demo_config_def demo_layer_def)

end
