(* ===== verification/SmpBank.thy ===== *)
theory SmpBank
  imports Prelude "HOL-Library.Monad_Syntax"
begin

text \<open>
  The instrument bank of the sample player (\<open>of_smp_bank_validate.h\<close>, \<open>of_smp_bank.c\<close>): the kernel preloads
  an \<open>.ofsf\<close> file, the app validates it, copies its metadata and looks zones up by program, key and
  velocity. The file is a list of bytes; a read outside it is \<open>None\<close>, so that the reads of the validator
  are part of what is proved. Whether an allocation succeeds is a parameter.
\<close>

section \<open>The file\<close>

definition OFSF_MAGIC :: u32 where "OFSF_MAGIC = 0x4F465346"
definition OFSF_VERSION :: u32 where "OFSF_VERSION = 3"
definition OFSF_PRESET_COUNT :: nat where "OFSF_PRESET_COUNT = 256"
definition OFSF_LOOP_FORWARD :: u8 where "OFSF_LOOP_FORWARD = 1"
definition OFSF_LOOP_BIDI :: u8 where "OFSF_LOOP_BIDI = 3"

text \<open>Sizes of the packed structs.\<close>

definition header_bytes :: nat where "header_bytes = 96"
definition preset_size :: nat where "preset_size = 4"
definition zone_size :: nat where "zone_size = 112"

definition load8 :: "u8 list \<Rightarrow> nat \<Rightarrow> u8 option" where
  "load8 d i = (if i < length d then Some (d ! i) else None)"

definition load16 :: "u8 list \<Rightarrow> nat \<Rightarrow> u32 option" where
  "load16 d i = do { a \<leftarrow> load8 d i; b \<leftarrow> load8 d (i + 1); Some (le16 a b) }"

definition load32 :: "u8 list \<Rightarrow> nat \<Rightarrow> u32 option" where
  "load32 d i = do { a \<leftarrow> load8 d i; b \<leftarrow> load8 d (i + 1); c \<leftarrow> load8 d (i + 2); e \<leftarrow> load8 d (i + 3); Some (le32 a b c e) }"

text \<open>The header's magic, version, sample rate, zone count, sample offset and sample size.\<close>

record bank_header =
  h_magic :: u32
  h_version :: u32
  h_sample_rate :: u32
  h_zone_count :: u32
  h_sample_data_offset :: u32
  h_sample_data_size :: u32

definition header_at :: "u8 list \<Rightarrow> bank_header option" where
  "header_at d = do {
     mg \<leftarrow> load32 d 0; v \<leftarrow> load32 d 4; r \<leftarrow> load32 d 8; z \<leftarrow> load32 d 12; off \<leftarrow> load32 d 16; sz \<leftarrow> load32 d 20;
     Some \<lparr>h_magic = mg, h_version = v, h_sample_rate = r, h_zone_count = z, h_sample_data_offset = off, h_sample_data_size = sz\<rparr> }"

record preset =
  zone_start :: u32
  zone_count :: u32

definition preset_at :: "u8 list \<Rightarrow> nat \<Rightarrow> preset option" where
  "preset_at d i = do { s \<leftarrow> load16 d i; n \<leftarrow> load16 d (i + 2); Some \<lparr>zone_start = s, zone_count = n\<rparr> }"

text \<open>A zone: the fields the bank code reads, and its remaining bytes (the voice parameters).\<close>

record zone =
  key_lo :: u8
  key_hi :: u8
  vel_lo :: u8
  vel_hi :: u8
  sample_offset :: u32
  sample_length :: u32
  loop_start :: u32
  loop_end :: u32
  loop_mode :: u8
  voice_params :: "u8 list"

definition zone_at :: "u8 list \<Rightarrow> nat \<Rightarrow> zone option" where
  "zone_at d i = do {
     kl \<leftarrow> load8 d i; kh \<leftarrow> load8 d (i + 1); vl \<leftarrow> load8 d (i + 2); vh \<leftarrow> load8 d (i + 3);
     off \<leftarrow> load32 d (i + 4); len \<leftarrow> load32 d (i + 8); ls \<leftarrow> load32 d (i + 12); le \<leftarrow> load32 d (i + 16);
     lm \<leftarrow> load8 d (i + 20);
     if i + zone_size \<le> length d
     then Some \<lparr>key_lo = kl, key_hi = kh, vel_lo = vl, vel_hi = vh, sample_offset = off, sample_length = len,
                loop_start = ls, loop_end = le, loop_mode = lm, voice_params = take 91 (drop (i + 21) d)\<rparr>
     else None }"

section \<open>Validation\<close>

definition preset_valid :: "u32 \<Rightarrow> preset \<Rightarrow> bool" where
  "preset_valid zc p \<longleftrightarrow>
     \<not> (zone_count p \<noteq> 0 \<and> (zc < zone_start p \<or> zc - zone_start p < zone_count p))"

definition zone_valid :: "u32 \<Rightarrow> zone \<Rightarrow> bool" where
  "zone_valid blob z \<longleftrightarrow>
     \<not> (sample_offset z AND 1 \<noteq> 0 \<or> blob < sample_offset z \<or> (blob - sample_offset z) div 2 < sample_length z \<or>
        0x3fffff < sample_length z) \<and>
     \<not> ((loop_mode z = OFSF_LOOP_FORWARD \<or> loop_mode z = OFSF_LOOP_BIDI) \<and>
        (loop_end z \<le> loop_start z \<or> sample_length z < loop_end z))"

fun check_all :: "('a \<Rightarrow> bool) \<Rightarrow> (nat \<Rightarrow> 'a option) \<Rightarrow> nat list \<Rightarrow> bool option" where
  "check_all ok at [] = Some True"
| "check_all ok at (i # is) = do { x \<leftarrow> at i; if ok x then check_all ok at is else Some False }"

definition bank_prefix :: u32 where
  "bank_prefix = word_of_nat (header_bytes + OFSF_PRESET_COUNT * preset_size)"

definition of_smp_bank_valid :: "u8 list \<Rightarrow> u32 \<Rightarrow> bool option" where
  "of_smp_bank_valid d sz =
     (if sz < bank_prefix then Some False
      else do {
        h \<leftarrow> header_at d;
        if h_magic h \<noteq> OFSF_MAGIC \<or> h_version h \<noteq> OFSF_VERSION \<or> h_sample_rate h = 0 \<or> h_zone_count h = 0 \<or>
           (sz - bank_prefix) div word_of_nat zone_size < h_zone_count h then Some False
        else
          let metadata_end = bank_prefix + h_zone_count h * word_of_nat zone_size in
          if h_sample_data_offset h < metadata_end \<or> sz < h_sample_data_offset h \<or>
             sz - h_sample_data_offset h < h_sample_data_size h \<or>
             (h_sample_data_offset h OR h_sample_data_size h) AND 1 \<noteq> 0 then Some False
          else do {
            ps \<leftarrow> check_all (preset_valid (h_zone_count h)) (\<lambda>i. preset_at d (header_bytes + i * preset_size)) [0..<OFSF_PRESET_COUNT];
            if \<not> ps then Some False
            else check_all (zone_valid (h_sample_data_size h)) (\<lambda>i. zone_at d (unat bank_prefix + i * zone_size)) [0..<unat (h_zone_count h)]
          }
      })"

section \<open>Binding\<close>

text \<open>The copies of header, presets and zones, and the address of the samples.\<close>

record bank =
  hdr_copy :: bank_header
  preset_copy :: "preset list"
  zone_copy :: "zone list"
  sample_base :: u32

fun read_all :: "(nat \<Rightarrow> 'a option) \<Rightarrow> nat list \<Rightarrow> 'a list option" where
  "read_all at [] = Some []"
| "read_all at (i # is) = do { x \<leftarrow> at i; xs \<leftarrow> read_all at is; Some (x # xs) }"

text \<open>
  What the services table offers: base address, bytes and size of the preloaded file; \<open>None\<close> without a
  table, with a bad magic or without a preloaded file. The outcome is \<open>None\<close> for a read outside the file.
\<close>

definition of_smp_bank_bind_preloaded ::
    "(nat \<Rightarrow> bool) \<Rightarrow> (u32 \<times> u8 list \<times> u32) option \<Rightarrow> bank option \<Rightarrow> (int \<times> bank option) option" where
  "of_smp_bank_bind_preloaded malloc_ok preload b =
     (if b \<noteq> None then Some (1, b)
      else case preload of None \<Rightarrow> Some (0, b)
      | Some (base, d, sz) \<Rightarrow>
        if sz < word_of_nat header_bytes then Some (0, b)
        else do {
          h \<leftarrow> header_at d;
          if h_magic h \<noteq> OFSF_MAGIC \<or> h_version h \<noteq> OFSF_VERSION then Some (-1, b)
          else do {
            valid \<leftarrow> of_smp_bank_valid d sz;
            if \<not> valid then Some (-2, b)
            else
              let preset_bytes = OFSF_PRESET_COUNT * preset_size;
                  zone_bytes = h_zone_count h * word_of_nat zone_size in
              if \<not> malloc_ok preset_bytes \<or> \<not> malloc_ok (unat zone_bytes) then Some (-3, b)
              else do {
                ps \<leftarrow> read_all (\<lambda>i. preset_at d (header_bytes + i * preset_size)) [0..<OFSF_PRESET_COUNT];
                zs \<leftarrow> read_all (\<lambda>i. zone_at d (header_bytes + preset_bytes + i * zone_size)) [0..<unat (h_zone_count h)];
                Some (1, Some \<lparr>hdr_copy = h, preset_copy = ps, zone_copy = zs, sample_base = base + h_sample_data_offset h\<rparr>)
              }
          }
        })"

section \<open>Lookup\<close>

definition zone_match :: "int \<Rightarrow> int \<Rightarrow> zone \<Rightarrow> bool" where
  "zone_match key velocity z \<longleftrightarrow>
     uint (key_lo z) \<le> key \<and> key \<le> uint (key_hi z) \<and> uint (vel_lo z) \<le> velocity \<and> velocity \<le> uint (vel_hi z)"

text \<open>The loop over \<open>n\<close> more zones from \<open>zi\<close>, with room for \<open>room\<close> more results.\<close>

fun lookup_zones :: "bank \<Rightarrow> int \<Rightarrow> int \<Rightarrow> nat \<Rightarrow> nat \<Rightarrow> nat \<Rightarrow> zone list" where
  "lookup_zones b key velocity 0 zi room = []"
| "lookup_zones b key velocity (Suc n) zi room =
     (if room = 0 \<or> unat (h_zone_count (hdr_copy b)) \<le> zi then []
      else let z = zone_copy b ! zi in
        if zone_match key velocity z then z # lookup_zones b key velocity n (zi + 1) (room - 1)
        else lookup_zones b key velocity n (zi + 1) room)"

definition of_smp_zone_lookup :: "bank option \<Rightarrow> int \<Rightarrow> int \<Rightarrow> int \<Rightarrow> int \<Rightarrow> int \<Rightarrow> zone list" where
  "of_smp_zone_lookup bk bank_no program key velocity max_zones =
     (case bk of None \<Rightarrow> []
      | Some b \<Rightarrow>
        if program < 0 \<or> 127 < program then []
        else let idx = (if bank_no = 128 then 128 + program else program);
                 pr = preset_copy b ! nat idx in
          if zone_count pr = 0 then []
          else lookup_zones b key velocity (unat (zone_count pr)) (unat (zone_start pr)) (nat max_zones))"

end
