(* ===== verification/Midi.thy ===== *)
theory Midi
  imports SmpBank
begin

text \<open>
  The MIDI file player (\<open>of_midi.c\<close>): it parses a Standard MIDI File where it lies in the app's memory and,
  from the timer interrupt, turns its events into calls of the voice engine. The file is a list of bytes;
  a read outside it makes the whole operation \<open>None\<close>. The calls into the voice engine are a log in the
  order of the code, the microsecond clock is a sequence of readings, and the callback the kernel is asked
  to run is the frequency it is given (0 when detached).
\<close>

section \<open>State\<close>

definition MIDI_MAX_TRACKS :: nat where "MIDI_MAX_TRACKS = 32"
definition OF_MIDI_OK :: int where "OF_MIDI_OK = 0"
definition OF_MIDI_ERR_NOT_INIT :: int where "OF_MIDI_ERR_NOT_INIT = -1"
definition OF_MIDI_ERR_BAD_HDR :: int where "OF_MIDI_ERR_BAD_HDR = -2"
definition OF_MIDI_ERR_FORMAT :: int where "OF_MIDI_ERR_FORMAT = -3"
definition OF_MIDI_ERR_NO_TRACKS :: int where "OF_MIDI_ERR_NO_TRACKS = -4"
definition OF_MIDI_ERR_PLAYING :: int where "OF_MIDI_ERR_PLAYING = -5"
definition OF_MIDI_ERR_NO_BANK :: int where "OF_MIDI_ERR_NO_BANK = -6"

definition PUMP_BUDGET_US :: u32 where "PUMP_BUDGET_US = 2000"

record track =
  trk_data :: nat
  trk_len :: u32
  pos :: u32
  pending_us :: u64
  running :: u8
  ended :: bool

text \<open>What the player asks of the voice engine.\<close>

datatype voice_call =
    Voice_init
  | Note_on zone nat u8 u8
  | Note_off nat u8
  | Tick
  | Record_pump u32 nat bool
  | Volume nat u8 u8
  | Pan nat u8
  | Bend nat int
  | Mod nat u8
  | Sustain nat bool
  | Filter nat u8 u8
  | Reverb_send nat u8
  | Chorus_send nat u8
  | All_off nat
  | All_off_global
  | Master_volume int

record midi =
  inited :: bool
  playing :: bool
  paused :: bool
  looping :: bool
  song :: "u8 list"
  song_len :: u32
  song_format :: u16
  num_tracks :: u16
  division :: u16
  us_per_beat :: u32
  us_per_tick_q16 :: u64
  last_pump_us :: u32
  tick_accum_us :: u32
  tracks :: "track list"
  program :: "u8 list"
  volume :: "u8 list"
  expression :: "u8 list"
  pan :: "u8 list"
  sustain :: "u8 list"
  mod_wheel :: "u8 list"
  brightness :: "u8 list"
  resonance :: "u8 list"
  master_volume :: int
  loaded_bank :: "bank option"
  voice_log :: "voice_call list"
  callback_hz :: nat
  clock :: "nat \<Rightarrow> u32"
  clock_pos :: nat

definition emit :: "voice_call \<Rightarrow> midi \<Rightarrow> midi" where
  "emit c m = m\<lparr>voice_log := voice_log m @ [c]\<rparr>"

definition timer_get_us :: "midi \<Rightarrow> u32 \<times> midi" where
  "timer_get_us m = (clock m (clock_pos m), m\<lparr>clock_pos := clock_pos m + 1\<rparr>)"

section \<open>Bytes of the file\<close>

definition be16 :: "u8 list \<Rightarrow> nat \<Rightarrow> u16 option" where
  "be16 d i = do { a \<leftarrow> load8 d i; b \<leftarrow> load8 d (i + 1); Some (push_bit 8 (ucast a) OR ucast b) }"

definition be32 :: "u8 list \<Rightarrow> nat \<Rightarrow> u32 option" where
  "be32 d i = do {
     a \<leftarrow> load8 d i; b \<leftarrow> load8 d (i + 1); c \<leftarrow> load8 d (i + 2); e \<leftarrow> load8 d (i + 3);
     Some (push_bit 24 (ucast a) OR push_bit 16 (ucast b) OR push_bit 8 (ucast c) OR ucast e) }"

definition track_byte :: "u8 list \<Rightarrow> track \<Rightarrow> u32 \<Rightarrow> u8 option" where
  "track_byte d t i = load8 d (trk_data t + unat i)"

definition next_byte :: "u8 list \<Rightarrow> track \<Rightarrow> (u8 \<times> track) option" where
  "next_byte d t = do { b \<leftarrow> track_byte d t (pos t); Some (b, t\<lparr>pos := pos t + 1\<rparr>) }"

fun read_var_from :: "u8 list \<Rightarrow> nat \<Rightarrow> u32 \<Rightarrow> track \<Rightarrow> (u32 \<times> track) option" where
  "read_var_from d 0 val t = Some (val, t)"
| "read_var_from d (Suc n) val t =
     (if \<not> pos t < trk_len t then Some (val, t)
      else do {
        (b, t) \<leftarrow> next_byte d t;
        let val = push_bit 7 val OR (ucast b AND 0x7F);
        if b AND 0x80 = 0 then Some (val, t) else read_var_from d n val t
      })"

definition read_var :: "u8 list \<Rightarrow> track \<Rightarrow> (u32 \<times> track) option" where
  "read_var d t = read_var_from d 4 0 t"

section \<open>Tempo and channels\<close>

definition recompute_us_per_tick :: "midi \<Rightarrow> midi" where
  "recompute_us_per_tick m =
     m\<lparr>us_per_tick_q16 := (if division m \<noteq> 0 then push_bit 16 (ucast (us_per_beat m)) div ucast (division m) else 0)\<rparr>"

definition reset_channels :: "midi \<Rightarrow> midi" where
  "reset_channels m = recompute_us_per_tick
     (m\<lparr>program := replicate 16 0, volume := replicate 16 100, expression := replicate 16 127, pan := replicate 16 64,
        sustain := replicate 16 0, mod_wheel := replicate 16 0, brightness := replicate 16 64, resonance := replicate 16 64,
        us_per_beat := 500000\<rparr>)"

section \<open>Events\<close>

definition note_on :: "nat \<Rightarrow> u8 \<Rightarrow> u8 \<Rightarrow> midi \<Rightarrow> midi" where
  "note_on ch note vel m =
     (let bank_idx = (if ch = 9 then 128 else 0);
          zs = of_smp_zone_lookup (loaded_bank m) bank_idx (uint (program m ! ch)) (uint note) (uint vel) 4
      in fold (\<lambda>z. emit (Note_on z ch note vel)) zs m)"

definition control_change :: "nat \<Rightarrow> u8 \<Rightarrow> u8 \<Rightarrow> midi \<Rightarrow> midi" where
  "control_change ch cc val m =
     (if cc = 1 then emit (Mod ch val) (m\<lparr>mod_wheel := (mod_wheel m)[ch := val]\<rparr>)
      else if cc = 7 then emit (Volume ch val (expression m ! ch)) (m\<lparr>volume := (volume m)[ch := val]\<rparr>)
      else if cc = 10 then emit (Pan ch val) (m\<lparr>pan := (pan m)[ch := val]\<rparr>)
      else if cc = 11 then emit (Volume ch (volume m ! ch) val) (m\<lparr>expression := (expression m)[ch := val]\<rparr>)
      else if cc = 64 then emit (Sustain ch (64 \<le> val)) (m\<lparr>sustain := (sustain m)[ch := val]\<rparr>)
      else if cc = 71 then emit (Filter ch (brightness m ! ch) val) (m\<lparr>resonance := (resonance m)[ch := val]\<rparr>)
      else if cc = 74 then emit (Filter ch val (resonance m ! ch)) (m\<lparr>brightness := (brightness m)[ch := val]\<rparr>)
      else if cc = 91 then emit (Reverb_send ch val) m
      else if cc = 93 then emit (Chorus_send ch val) m
      else if cc = 120 \<or> cc = 123 then emit (All_off ch) m
      else if cc = 121 then
        emit (Bend ch 0) (emit (Filter ch 64 64) (emit (Mod ch 0) (emit (Volume ch (volume m ! ch) 127) (emit (Sustain ch False)
          (m\<lparr>expression := (expression m)[ch := 127], sustain := (sustain m)[ch := 0], mod_wheel := (mod_wheel m)[ch := 0],
             brightness := (brightness m)[ch := 64], resonance := (resonance m)[ch := 64]\<rparr>)))))
      else m)"

text \<open>Whether \<open>n\<close> more bytes are there; a track that ends before them is done.\<close>

definition trk_need :: "track \<Rightarrow> u32 \<Rightarrow> bool \<times> track" where
  "trk_need t n = (if trk_len t < pos t \<or> trk_len t - pos t < n then (False, t\<lparr>ended := True\<rparr>) else (True, t))"

definition meta_event :: "midi \<Rightarrow> track \<Rightarrow> (bool \<times> midi \<times> track) option" where
  "meta_event m t =
     (case trk_need t 1 of (False, t) \<Rightarrow> Some (False, m, t)
      | (True, t) \<Rightarrow> do {
          (meta, t) \<leftarrow> next_byte (song m) t;
          (mlen, t) \<leftarrow> read_var (song m) t;
          if trk_len t - pos t < mlen then Some (False, m, t\<lparr>ended := True\<rparr>)
          else do {
            (m, t) \<leftarrow>
              (if meta = 0x51 \<and> mlen = 3 then do {
                 a \<leftarrow> track_byte (song m) t (pos t); b \<leftarrow> track_byte (song m) t (pos t + 1); c \<leftarrow> track_byte (song m) t (pos t + 2);
                 Some (recompute_us_per_tick (m\<lparr>us_per_beat := push_bit 16 (ucast a) OR push_bit 8 (ucast b) OR ucast c\<rparr>), t) }
               else if meta = 0x2F then Some (m, t\<lparr>ended := True\<rparr>)
               else Some (m, t));
            Some (\<not> ended t, m, t\<lparr>pos := pos t + mlen\<rparr>)
          }
        })"

definition sysex_event :: "midi \<Rightarrow> track \<Rightarrow> (bool \<times> midi \<times> track) option" where
  "sysex_event m t = do {
     (slen, t) \<leftarrow> read_var (song m) t;
     if trk_len t - pos t < slen then Some (False, m, t\<lparr>ended := True\<rparr>)
     else Some (\<not> ended t, m, t\<lparr>pos := pos t + slen\<rparr>) }"

definition voice_event :: "midi \<Rightarrow> track \<Rightarrow> u8 \<Rightarrow> nat \<Rightarrow> (bool \<times> midi \<times> track) option" where
  "voice_event m t cmd ch =
     (case trk_need t (if cmd = 0xC0 \<or> cmd = 0xD0 then 1 else 2) of (False, t) \<Rightarrow> Some (False, m, t)
      | (True, t) \<Rightarrow>
        do {
          (m, t) \<leftarrow>
            (if cmd = 0x90 then do {
               (note, t) \<leftarrow> next_byte (song m) t; (vel, t) \<leftarrow> next_byte (song m) t;
               Some (if 0 < vel then note_on ch note vel m else emit (Note_off ch note) m, t) }
             else if cmd = 0x80 then do {
               (note, t) \<leftarrow> next_byte (song m) t;
               Some (emit (Note_off ch note) m, t\<lparr>pos := pos t + 1\<rparr>) }
             else if cmd = 0xC0 then do {
               (p, t) \<leftarrow> next_byte (song m) t;
               Some (m\<lparr>program := (program m)[ch := p]\<rparr>, t) }
             else if cmd = 0xB0 then do {
               (cc, t) \<leftarrow> next_byte (song m) t; (val, t) \<leftarrow> next_byte (song m) t;
               Some (control_change ch cc val m, t) }
             else if cmd = 0xE0 then do {
               (lsb, t) \<leftarrow> next_byte (song m) t; (msb, t) \<leftarrow> next_byte (song m) t;
               Some (emit (Bend ch (sint ((push_bit 7 (ucast msb) OR ucast lsb :: u16) - 8192))) m, t) }
             else if cmd = 0xD0 then Some (m, t\<lparr>pos := pos t + 1\<rparr>)
             else Some (m, t\<lparr>pos := pos t + 2\<rparr>));
          Some (\<not> ended t, m, t)
        })"

definition process_event :: "midi \<Rightarrow> track \<Rightarrow> (bool \<times> midi \<times> track) option" where
  "process_event m t =
     (if ended t \<or> trk_len t \<le> pos t then Some (False, m, t)
      else do {
        b \<leftarrow> track_byte (song m) t (pos t);
        if b < 0x80 \<and> running t = 0 then Some (False, m, t\<lparr>ended := True\<rparr>)
        else
          let status = (if b < 0x80 then running t else b);
              t = (if b < 0x80 then t else t\<lparr>pos := pos t + 1, running := (if b < 0xF0 then b else running t)\<rparr>)
          in if status = 0xFF then meta_event m t
             else if 0xF0 \<le> status \<and> status \<le> 0xF7 then sysex_event m t
             else voice_event m t (status AND 0xF0) (unat (status AND 0x0F))
      })"

definition read_next_delta :: "midi \<Rightarrow> track \<Rightarrow> track option" where
  "read_next_delta m t =
     (if ended t \<or> trk_len t \<le> pos t then Some (t\<lparr>ended := True\<rparr>)
      else do {
        (delta, t) \<leftarrow> read_var (song m) t;
        Some (t\<lparr>pending_us := pending_us t + drop_bit 16 (ucast delta * us_per_tick_q16 m)\<rparr>)
      })"

section \<open>Header and tracks\<close>

text \<open>
  The loop over the chunks of the file from \<open>offset\<close>, \<open>found\<close> tracks so far: the error code or their
  number. Each chunk takes at least 8 bytes, so the length of the file is more than enough fuel.
\<close>

fun find_tracks :: "nat \<Rightarrow> u32 \<Rightarrow> nat \<Rightarrow> midi \<Rightarrow> ((int + nat) \<times> midi) option" where
  "find_tracks 0 offset found m = None"
| "find_tracks (Suc fuel) offset found m =
     (if \<not> (found < unat (num_tracks m) \<and> 8 \<le> song_len m - offset) then Some (Inr found, m)
      else do {
        tlen \<leftarrow> be32 (song m) (unat (offset + 4));
        if song_len m - offset - 8 < tlen then Some (Inl OF_MIDI_ERR_BAD_HDR, m)
        else do {
          chunk \<leftarrow> be32 (song m) (unat offset);
          if chunk = 0x4D54726B
          then find_tracks fuel (offset + (8 + tlen)) (found + 1)
                 (m\<lparr>tracks := (tracks m)[found := \<lparr>trk_data = unat (offset + 8), trk_len = tlen, pos = 0, pending_us = 0, running = 0, ended = False\<rparr>]\<rparr>)
          else find_tracks fuel (offset + (8 + tlen)) found m
        }
      })"

definition parse_header :: "midi \<Rightarrow> (int \<times> midi) option" where
  "parse_header m =
     (if song_len m < 14 then Some (OF_MIDI_ERR_BAD_HDR, m)
      else do {
        magic \<leftarrow> be32 (song m) 0;
        if magic \<noteq> 0x4D546864 then Some (OF_MIDI_ERR_BAD_HDR, m)
        else do {
          hdr_len \<leftarrow> be32 (song m) 4;
          if hdr_len < 6 \<or> song_len m - 8 < hdr_len then Some (OF_MIDI_ERR_BAD_HDR, m)
          else do {
            fmt \<leftarrow> be16 (song m) 8; ntracks \<leftarrow> be16 (song m) 10; dv \<leftarrow> be16 (song m) 12;
            let m = m\<lparr>song_format := fmt, num_tracks := ntracks, division := dv\<rparr>;
            if 1 < fmt then Some (OF_MIDI_ERR_FORMAT, m)
            else if ntracks = 0 then Some (OF_MIDI_ERR_NO_TRACKS, m)
            else if dv = 0 then Some (OF_MIDI_ERR_BAD_HDR, m)
            else do {
              let m = (if word_of_nat MIDI_MAX_TRACKS < ntracks then m\<lparr>num_tracks := word_of_nat MIDI_MAX_TRACKS\<rparr> else m);
              (r, m) \<leftarrow> find_tracks (Suc (unat (song_len m))) (8 + hdr_len) 0 m;
              case r of Inl e \<Rightarrow> Some (e, m)
              | Inr found \<Rightarrow>
                  if found = 0 then Some (OF_MIDI_ERR_NO_TRACKS, m)
                  else if found \<noteq> unat (num_tracks m) then Some (OF_MIDI_ERR_BAD_HDR, m)
                  else Some (OF_MIDI_OK, m)
            }
          }
        }
      })"

fun reset_each :: "nat list \<Rightarrow> midi \<Rightarrow> midi option" where
  "reset_each [] m = Some m"
| "reset_each (i # is) m = do {
     t \<leftarrow> read_next_delta m ((tracks m ! i)\<lparr>pos := 0, pending_us := 0, running := 0, ended := False\<rparr>);
     reset_each is (m\<lparr>tracks := (tracks m)[i := t]\<rparr>) }"

definition reset_tracks :: "midi \<Rightarrow> midi option" where
  "reset_tracks m = reset_each [0..<unat (num_tracks m)] m"

section \<open>Calls of the app\<close>

text \<open>\<open>of_midi_init\<close> binds the preloaded bank; what the services table offers is a parameter.\<close>

definition of_midi_init :: "(nat \<Rightarrow> bool) \<Rightarrow> (u32 \<times> u8 list \<times> u32) option \<Rightarrow> midi \<Rightarrow> (int \<times> midi) option" where
  "of_midi_init malloc_ok preload m = do {
     (rc, b) \<leftarrow> of_smp_bank_bind_preloaded malloc_ok preload (loaded_bank m);
     let m = reset_channels (emit Voice_init (m\<lparr>loaded_bank := b\<rparr>));
     let m = m\<lparr>inited := True, playing := False, paused := False, tick_accum_us := 0, master_volume := 128\<rparr>;
     Some (OF_MIDI_OK, emit (Master_volume 128) m) }"

definition of_midi_play :: "u8 list \<Rightarrow> u32 \<Rightarrow> bool \<Rightarrow> midi \<Rightarrow> (int \<times> midi) option" where
  "of_midi_play data len loop m =
     (if \<not> inited m then Some (OF_MIDI_ERR_NOT_INIT, m)
      else if playing m then Some (OF_MIDI_ERR_PLAYING, m)
      else if loaded_bank m = None then Some (OF_MIDI_ERR_NO_BANK, m)
      else do {
        (rc, m) \<leftarrow> parse_header (m\<lparr>song := data, song_len := len, looping := loop\<rparr>);
        if rc \<noteq> OF_MIDI_OK then Some (rc, m)
        else do {
          m \<leftarrow> reset_tracks (emit All_off_global (reset_channels m));
          let (now, m) = timer_get_us (m\<lparr>playing := True, paused := False\<rparr>);
          Some (OF_MIDI_OK, m\<lparr>last_pump_us := now, callback_hz := 50\<rparr>)
        }
      })"

definition of_midi_stop :: "midi \<Rightarrow> midi" where
  "of_midi_stop m = (emit All_off_global (m\<lparr>callback_hz := 0\<rparr>))\<lparr>playing := False, paused := False\<rparr>"

definition of_midi_pause :: "midi \<Rightarrow> midi" where
  "of_midi_pause m = (if playing m then m\<lparr>paused := True\<rparr> else m)"

definition of_midi_resume :: "midi \<Rightarrow> midi" where
  "of_midi_resume m =
     (if paused m then let (now, m) = timer_get_us (m\<lparr>paused := False\<rparr>) in m\<lparr>last_pump_us := now\<rparr> else m)"

definition of_midi_set_volume :: "int \<Rightarrow> midi \<Rightarrow> midi" where
  "of_midi_set_volume v m =
     (let v = (if v < 0 then 0 else if 255 < v then 255 else v) in emit (Master_volume v) (m\<lparr>master_volume := v\<rparr>))"

definition of_midi_get_program :: "int \<Rightarrow> midi \<Rightarrow> int" where
  "of_midi_get_program ch m = (if ch < 0 \<or> 15 < ch then 0 else uint (program m ! nat ch))"

section \<open>The pump\<close>

text \<open>
  The envelope loop: the remaining budget, the ticks fired and whether it ran over its time.
\<close>

fun tick_loop :: "nat \<Rightarrow> nat \<Rightarrow> u32 \<Rightarrow> midi \<Rightarrow> nat \<times> nat \<times> bool \<times> midi" where
  "tick_loop 0 fired start m = (0, fired, False, m)"
| "tick_loop (Suc budget) fired start m =
     (if \<not> 1000 \<le> tick_accum_us m then (Suc budget, fired, False, m)
      else let m1 = emit Tick m;
               (now, m2) = timer_get_us (m1\<lparr>tick_accum_us := tick_accum_us m - 1000\<rparr>)
           in if PUMP_BUDGET_US < now - start then (budget, fired + 1, True, m2)
              else tick_loop budget (fired + 1) start m2)"

definition count_down :: "u32 \<Rightarrow> midi \<Rightarrow> midi" where
  "count_down elapsed m = m\<lparr>tracks :=
     map (\<lambda>t. if ended t then t else t\<lparr>pending_us := pending_us t - ucast elapsed\<rparr>) (take (unat (num_tracks m)) (tracks m)) @
     drop (unat (num_tracks m)) (tracks m)\<rparr>"

text \<open>
  The events of one track that are due: whether the time of the call is used up (the jump to
  \<open>pump_done\<close>), and what is left of the safety count.
\<close>

fun track_loop :: "nat \<Rightarrow> nat \<Rightarrow> u32 \<Rightarrow> midi \<Rightarrow> (bool \<times> nat \<times> midi) option" where
  "track_loop 0 i start m = Some (False, 0, m)"
| "track_loop (Suc safety) i start m =
     (let t = tracks m ! i in
      if \<not> (\<not> ended t \<and> sint (pending_us t) \<le> 0) then Some (False, Suc safety, m)
      else do {
        (more_events, m, t) \<leftarrow> process_event m t;
        t \<leftarrow> (if ended t then Some t else read_next_delta m t);
        let (now, m) = timer_get_us (m\<lparr>tracks := (tracks m)[i := t]\<rparr>);
        if PUMP_BUDGET_US < now - start then Some (True, safety, m)
        else track_loop safety i start m
      })"

fun dispatch :: "nat list \<Rightarrow> nat \<Rightarrow> u32 \<Rightarrow> midi \<Rightarrow> midi option" where
  "dispatch [] safety start m = Some m"
| "dispatch (i # is) safety start m = do {
     (overrun, safety, m) \<leftarrow> track_loop safety i start m;
     if overrun then Some m else dispatch is safety start m }"

definition song_end :: "midi \<Rightarrow> midi option" where
  "song_end m =
     (if looping m then do {
        m \<leftarrow> reset_tracks (reset_channels (emit All_off_global m));
        let (now, m) = timer_get_us m;
        Some (m\<lparr>last_pump_us := now\<rparr>) }
      else Some ((emit All_off_global m)\<lparr>playing := False\<rparr>))"

text \<open>The body of the pump for an elapsed time that is not 0.\<close>

definition pump_elapsed :: "u32 \<Rightarrow> midi \<Rightarrow> midi option" where
  "pump_elapsed elapsed m =
     (let (start, m) = timer_get_us (m\<lparr>tick_accum_us := tick_accum_us m + elapsed\<rparr>);
          (budget, fired, overrun, m) = tick_loop 500 0 start m;
          exceeded = (budget = 0 \<or> overrun);
          m = emit (Record_pump elapsed fired exceeded) (if exceeded then m\<lparr>tick_accum_us := 0\<rparr> else m);
          any_active = (\<exists>t \<in> set (take (unat (num_tracks m)) (tracks m)). \<not> ended t)
      in do {
        m \<leftarrow> dispatch [0..<unat (num_tracks m)] 10000 start (count_down elapsed m);
        if any_active then Some m else song_end m
      })"

definition of_midi_pump :: "midi \<Rightarrow> midi option" where
  "of_midi_pump m =
     (if \<not> playing m \<or> paused m then Some m
      else
        let (now, m) = timer_get_us m;
            elapsed = now - last_pump_us m;
            m = m\<lparr>last_pump_us := now\<rparr>;
            elapsed = (if 500000 < elapsed then 500000 else elapsed)
        in if elapsed = 0 then Some m else pump_elapsed elapsed m)"

end
