(* ===== verification/SmpBankSpec.thy ===== *)
theory SmpBankSpec
  imports SmpBank
begin

text \<open>
  A bank that passes validation: the validator and the copies read inside the file whatever it holds, a
  lookup answers with exactly the matching zones of the preset in the file's order, and every zone it
  answers with plays samples that lie inside the file.
\<close>

section \<open>Reads inside the file\<close>

lemma load8_Some: "i < length d \<Longrightarrow> load8 d i = Some (d ! i)"
  by (simp add: load8_def)

lemma load16_Some: "i + 2 \<le> length d \<Longrightarrow> \<exists>w. load16 d i = Some w"
  by (simp add: load16_def load8_Some)

lemma load32_Some: "i + 4 \<le> length d \<Longrightarrow> \<exists>w. load32 d i = Some w"
  by (simp add: load32_def load8_Some)

lemma header_at_Some: "header_bytes \<le> length d \<Longrightarrow> \<exists>h. header_at d = Some h"
  using load32_Some [of 0 d] load32_Some [of 4 d] load32_Some [of 8 d] load32_Some [of 12 d] load32_Some [of 16 d]
    load32_Some [of 20 d]
  by (auto simp: header_at_def header_bytes_def)

lemma preset_at_Some: "i + preset_size \<le> length d \<Longrightarrow> \<exists>p. preset_at d i = Some p"
  using load16_Some [of i d] load16_Some [of "i + 2" d] by (auto simp: preset_at_def preset_size_def)

lemma zone_at_Some: "i + zone_size \<le> length d \<Longrightarrow> \<exists>z. zone_at d i = Some z"
  using load32_Some [of "i + 4" d] load32_Some [of "i + 8" d] load32_Some [of "i + 12" d] load32_Some [of "i + 16" d]
  by (auto simp: zone_at_def zone_size_def load8_Some)

lemma check_all_Some:
  "(\<And>i. i \<in> set is \<Longrightarrow> at i \<noteq> None) \<Longrightarrow> check_all ok at is = Some (\<forall>i \<in> set is. ok (the (at i)))"
proof (induction "is")
  case (Cons a "is")
  then obtain x where "at a = Some x" by fastforce
  with Cons show ?case by simp
qed simp

lemma read_all_Some:
  "(\<And>i. i \<in> set is \<Longrightarrow> at i \<noteq> None) \<Longrightarrow> read_all at is = Some (map (\<lambda>i. the (at i)) is)"
proof (induction "is")
  case (Cons a "is")
  then obtain x where "at a = Some x" by fastforce
  with Cons show ?case by simp
qed simp

section \<open>The layout of a file\<close>

definition file_preset :: "u8 list \<Rightarrow> nat \<Rightarrow> preset" where
  "file_preset d i = the (preset_at d (header_bytes + i * preset_size))"

definition file_zone :: "u8 list \<Rightarrow> nat \<Rightarrow> zone" where
  "file_zone d i = the (zone_at d (header_bytes + OFSF_PRESET_COUNT * preset_size + i * zone_size))"

definition preset_zones :: "u8 list \<Rightarrow> nat \<Rightarrow> zone list" where
  "preset_zones d i = (let p = file_preset d i in
     map (file_zone d) [unat (zone_start p)..<unat (zone_start p) + unat (zone_count p)])"

lemma bank_prefix_nat: "unat bank_prefix = header_bytes + OFSF_PRESET_COUNT * preset_size"
  by (simp add: bank_prefix_def header_bytes_def OFSF_PRESET_COUNT_def preset_size_def)

lemmas layout = header_bytes_def preset_size_def zone_size_def OFSF_PRESET_COUNT_def

lemma presets_inside:
  assumes "bank_prefix \<le> sz" and "unat sz \<le> length d" and "i < OFSF_PRESET_COUNT"
  shows "preset_at d (header_bytes + i * preset_size) \<noteq> None"
proof -
  have "unat bank_prefix \<le> length d" using assms(1,2) by (simp add: word_le_nat_alt)
  then have "header_bytes + i * preset_size + preset_size \<le> length d"
    using assms(3) by (simp add: bank_prefix_nat layout)
  then show ?thesis using preset_at_Some by fastforce
qed

lemma zones_fit:
  assumes "bank_prefix \<le> sz" and "zc \<le> (sz - bank_prefix) div word_of_nat zone_size"
  shows "unat bank_prefix + unat zc * zone_size \<le> unat sz"
proof -
  have "unat ((sz - bank_prefix) div word_of_nat zone_size) = (unat sz - unat bank_prefix) div zone_size"
    using assms(1) by (simp add: unat_div_distrib unat_sub zone_size_def)
  then have "unat zc \<le> (unat sz - unat bank_prefix) div zone_size"
    using assms(2) by (simp add: word_le_nat_alt)
  then have "unat zc * zone_size \<le> unat sz - unat bank_prefix"
    by (metis mult_le_mono1 div_times_less_eq_dividend order_trans)
  moreover have "unat bank_prefix \<le> unat sz" using assms(1) by (simp add: word_le_nat_alt)
  ultimately show ?thesis by simp
qed

lemma zones_inside:
  assumes "bank_prefix \<le> sz" and "zc \<le> (sz - bank_prefix) div word_of_nat zone_size" and "unat sz \<le> length d" and "i < unat zc"
  shows "zone_at d (header_bytes + OFSF_PRESET_COUNT * preset_size + i * zone_size) \<noteq> None"
proof -
  have "Suc i * zone_size \<le> unat zc * zone_size" using assms(4) by (intro mult_le_mono1) simp
  then have "header_bytes + OFSF_PRESET_COUNT * preset_size + i * zone_size + zone_size \<le> length d"
    using zones_fit [OF assms(1,2)] assms(3) by (simp add: bank_prefix_nat)
  then show ?thesis using zone_at_Some by fastforce
qed

section \<open>Validation\<close>

definition bank_valid :: "u8 list \<Rightarrow> u32 \<Rightarrow> bank_header \<Rightarrow> bool" where
  "bank_valid d sz h \<longleftrightarrow> header_at d = Some h \<and> bank_prefix \<le> sz \<and>
     h_magic h = OFSF_MAGIC \<and> h_version h = OFSF_VERSION \<and> h_sample_rate h \<noteq> 0 \<and> h_zone_count h \<noteq> 0 \<and>
     h_zone_count h \<le> (sz - bank_prefix) div word_of_nat zone_size \<and>
     bank_prefix + h_zone_count h * word_of_nat zone_size \<le> h_sample_data_offset h \<and>
     h_sample_data_offset h \<le> sz \<and> h_sample_data_size h \<le> sz - h_sample_data_offset h \<and>
     (h_sample_data_offset h OR h_sample_data_size h) AND 1 = 0 \<and>
     (\<forall>i < OFSF_PRESET_COUNT. preset_valid (h_zone_count h) (file_preset d i)) \<and>
     (\<forall>i < unat (h_zone_count h). zone_valid (h_sample_data_size h) (file_zone d i))"

lemma of_smp_bank_valid_iff:
  assumes "unat sz \<le> length d"
  shows "of_smp_bank_valid d sz = Some (\<exists>h. bank_valid d sz h)"
proof (cases "sz < bank_prefix")
  case True
  then show ?thesis by (auto simp: of_smp_bank_valid_def bank_valid_def)
next
  case False
  then have pre: "bank_prefix \<le> sz" by simp
  then have "header_bytes \<le> length d"
    using assms by (simp add: word_le_nat_alt bank_prefix_nat layout)
  then obtain h where h: "header_at d = Some h" using header_at_Some by blast
  have ps: "check_all (preset_valid (h_zone_count h)) (\<lambda>i. preset_at d (header_bytes + i * preset_size)) [0..<OFSF_PRESET_COUNT] =
      Some (\<forall>i < OFSF_PRESET_COUNT. preset_valid (h_zone_count h) (file_preset d i))"
    by (subst check_all_Some) (use presets_inside [OF pre assms] in \<open>auto simp: file_preset_def\<close>)
  have zs: "check_all (zone_valid (h_sample_data_size h)) (\<lambda>i. zone_at d (unat bank_prefix + i * zone_size)) [0..<unat (h_zone_count h)] =
      Some (\<forall>i < unat (h_zone_count h). zone_valid (h_sample_data_size h) (file_zone d i))"
    if "h_zone_count h \<le> (sz - bank_prefix) div word_of_nat zone_size"
    using zones_inside [OF pre that assms]
    by (subst check_all_Some) (auto simp: file_zone_def bank_prefix_nat)
  have valid: "(\<exists>h. bank_valid d sz h) = bank_valid d sz h" by (auto simp: bank_valid_def h)
  let ?bad = "h_magic h \<noteq> OFSF_MAGIC \<or> h_version h \<noteq> OFSF_VERSION \<or> h_sample_rate h = 0 \<or> h_zone_count h = 0 \<or>
      (sz - bank_prefix) div word_of_nat zone_size < h_zone_count h"
  let ?out = "h_sample_data_offset h < bank_prefix + h_zone_count h * word_of_nat zone_size \<or> sz < h_sample_data_offset h \<or>
      sz - h_sample_data_offset h < h_sample_data_size h \<or> (h_sample_data_offset h OR h_sample_data_size h) AND 1 \<noteq> 0"
  consider ?bad | "\<not> ?bad" ?out | "\<not> ?bad" "\<not> ?out" by blast
  then show ?thesis
  proof cases
    case 1
    then have "\<not> bank_valid d sz h" by (auto simp: bank_valid_def not_less)
    then show ?thesis using 1 False unfolding of_smp_bank_valid_def valid h by simp
  next
    case 2
    then have "\<not> bank_valid d sz h" by (auto simp: bank_valid_def not_less)
    then show ?thesis using 2 False unfolding of_smp_bank_valid_def valid h Let_def by simp
  next
    case 3
    then have zc: "h_zone_count h \<le> (sz - bank_prefix) div word_of_nat zone_size" by (simp add: not_less)
    have "bank_valid d sz h \<longleftrightarrow> (\<forall>i < OFSF_PRESET_COUNT. preset_valid (h_zone_count h) (file_preset d i)) \<and>
        (\<forall>i < unat (h_zone_count h). zone_valid (h_sample_data_size h) (file_zone d i))"
      using 3 pre h unfolding bank_valid_def by (simp only: not_less de_Morgan_disj not_not) simp
    then show ?thesis
      using False unfolding of_smp_bank_valid_def valid h Let_def Option.bind_lunit ps zs [OF zc] if_not_P [OF 3(1)] if_not_P [OF 3(2)]
      by simp
  qed
qed

lemma bank_valid_zone:
  assumes "bank_valid d sz h" and "i < unat (h_zone_count h)"
  shows "zone_valid (h_sample_data_size h) (file_zone d i)"
  using assms by (simp add: bank_valid_def)

lemma zone_samples_inside:
  assumes "bank_valid d sz h" and "zone_valid (h_sample_data_size h) z"
  shows "unat (h_sample_data_offset h) + unat (sample_offset z) + 2 * unat (sample_length z) \<le> unat sz"
proof -
  have le: "sample_offset z \<le> h_sample_data_size h" "sample_length z \<le> (h_sample_data_size h - sample_offset z) div 2"
    using assms(2) by (auto simp: zone_valid_def not_less)
  have "unat (sample_length z) \<le> (unat (h_sample_data_size h) - unat (sample_offset z)) div 2"
    using le by (simp add: word_le_nat_alt unat_div_distrib unat_sub)
  moreover have "unat (h_sample_data_size h) \<le> unat sz - unat (h_sample_data_offset h)" "unat (h_sample_data_offset h) \<le> unat sz"
    using assms(1) by (auto simp: bank_valid_def word_le_nat_alt unat_sub)
  moreover have "unat (sample_offset z) \<le> unat (h_sample_data_size h)" using le(1) by (simp add: word_le_nat_alt)
  ultimately show ?thesis by linarith
qed

section \<open>Binding and lookup\<close>

definition bank_of :: "u32 \<Rightarrow> u8 list \<Rightarrow> bank_header \<Rightarrow> bank" where
  "bank_of base d h = \<lparr>hdr_copy = h, preset_copy = map (file_preset d) [0..<OFSF_PRESET_COUNT],
     zone_copy = map (file_zone d) [0..<unat (h_zone_count h)], sample_base = base + h_sample_data_offset h\<rparr>"

lemma bind_outcome:
  assumes "unat sz \<le> length d"
  shows "\<exists>rc. of_smp_bank_bind_preloaded ok (Some (base, d, sz)) None = Some rc \<and>
    (fst rc = 1 \<longrightarrow> (\<exists>h. bank_valid d sz h \<and> snd rc = Some (bank_of base d h))) \<and> (fst rc \<noteq> 1 \<longrightarrow> snd rc = None) \<and>
    ((\<exists>h. bank_valid d sz h) \<longrightarrow> (\<forall>n. ok n) \<longrightarrow> fst rc = 1)"
proof (cases "sz < word_of_nat header_bytes")
  case True
  moreover from this have "sz < bank_prefix" by (simp add: word_less_nat_alt bank_prefix_nat layout)
  ultimately show ?thesis by (auto simp: of_smp_bank_bind_preloaded_def bank_valid_def)
next
  case False
  then have "header_bytes \<le> length d" using assms by (simp add: word_less_nat_alt header_bytes_def)
  then obtain h where h: "header_at d = Some h" using header_at_Some by blast
  show ?thesis
  proof (cases "bank_valid d sz h")
    case True
    then have pre: "bank_prefix \<le> sz" and zc: "h_zone_count h \<le> (sz - bank_prefix) div word_of_nat zone_size"
      and magic: "h_magic h = OFSF_MAGIC" "h_version h = OFSF_VERSION"
      by (simp_all add: bank_valid_def)
    have "read_all (\<lambda>i. preset_at d (header_bytes + i * preset_size)) [0..<OFSF_PRESET_COUNT] =
        Some (map (file_preset d) [0..<OFSF_PRESET_COUNT])"
      by (subst read_all_Some) (use presets_inside [OF pre assms] in \<open>auto simp: file_preset_def\<close>)
    moreover have "read_all (\<lambda>i. zone_at d (header_bytes + OFSF_PRESET_COUNT * preset_size + i * zone_size)) [0..<unat (h_zone_count h)] =
        Some (map (file_zone d) [0..<unat (h_zone_count h)])"
      using zones_inside [OF pre zc assms] by (subst read_all_Some) (auto simp: file_zone_def)
    ultimately show ?thesis
      using False True h magic of_smp_bank_valid_iff [OF assms]
      by (auto simp: of_smp_bank_bind_preloaded_def bank_of_def Let_def)
  next
    case invalid: False
    then have "\<not> (\<exists>h. bank_valid d sz h)" using h by (auto simp: bank_valid_def)
    then show ?thesis
      using False h of_smp_bank_valid_iff [OF assms] by (auto simp: of_smp_bank_bind_preloaded_def)
  qed
qed

lemma lookup_zones_filter:
  assumes "zi + n \<le> length (zone_copy b)" and "length (zone_copy b) = unat (h_zone_count (hdr_copy b))"
  shows "lookup_zones b key velocity n zi room =
    take room (filter (zone_match key velocity) (map (\<lambda>i. zone_copy b ! i) [zi..<zi + n]))"
  using assms
proof (induction b key velocity n zi room rule: lookup_zones.induct)
  case (2 b key velocity n zi room)
  then show ?case by (cases room) (auto simp: Let_def upt_rec [of zi])
qed simp

lemma lookup_preset:
  assumes "bank_valid d sz h" and "0 \<le> program" and "program \<le> 127"
  shows "of_smp_zone_lookup (Some (bank_of base d h)) bank_no program key velocity m =
    take (nat m) (filter (zone_match key velocity) (preset_zones d (nat (if bank_no = 128 then 128 + program else program))))"
proof -
  let ?i = "nat (if bank_no = 128 then 128 + program else program)"
  have i: "?i < OFSF_PRESET_COUNT" using assms(2,3) by (auto simp: OFSF_PRESET_COUNT_def)
  let ?p = "file_preset d ?i"
  have p: "preset_copy (bank_of base d h) ! ?i = ?p" using i by (simp add: bank_of_def)
  show ?thesis
  proof (cases "zone_count ?p = 0")
    case True
    then show ?thesis using assms(2,3) by (simp add: of_smp_zone_lookup_def p Let_def preset_zones_def)
  next
    case False
    have "preset_valid (h_zone_count h) ?p" using assms(1) i by (simp add: bank_valid_def)
    then have "zone_start ?p \<le> h_zone_count h" "zone_count ?p \<le> h_zone_count h - zone_start ?p"
      using False by (auto simp: preset_valid_def not_less)
    then have fit: "unat (zone_start ?p) + unat (zone_count ?p) \<le> unat (h_zone_count h)"
      by (simp add: word_le_nat_alt unat_sub)
    have "lookup_zones (bank_of base d h) key velocity (unat (zone_count ?p)) (unat (zone_start ?p)) (nat m) =
        take (nat m) (filter (zone_match key velocity) (map (\<lambda>i. zone_copy (bank_of base d h) ! i)
          [unat (zone_start ?p)..<unat (zone_start ?p) + unat (zone_count ?p)]))"
      by (rule lookup_zones_filter) (use fit in \<open>simp_all add: bank_of_def\<close>)
    moreover have "map (\<lambda>i. zone_copy (bank_of base d h) ! i) [unat (zone_start ?p)..<unat (zone_start ?p) + unat (zone_count ?p)] =
        preset_zones d ?i"
      unfolding preset_zones_def Let_def by (rule map_cong) (use fit in \<open>auto simp: bank_of_def\<close>)
    ultimately show ?thesis using False assms(2,3) by (simp add: of_smp_zone_lookup_def p Let_def)
  qed
qed

lemma preset_zones_valid:
  assumes "bank_valid d sz h" and "i < OFSF_PRESET_COUNT" and "z \<in> set (preset_zones d i)"
  shows "zone_valid (h_sample_data_size h) z"
proof -
  let ?p = "file_preset d i"
  obtain j where j: "z = file_zone d j" "unat (zone_start ?p) \<le> j" "j < unat (zone_start ?p) + unat (zone_count ?p)"
    using assms(3) by (auto simp: preset_zones_def Let_def)
  then have "zone_count ?p \<noteq> 0" by auto
  moreover have "preset_valid (h_zone_count h) ?p" using assms(1,2) by (simp add: bank_valid_def)
  ultimately have "zone_start ?p \<le> h_zone_count h" "zone_count ?p \<le> h_zone_count h - zone_start ?p"
    by (auto simp: preset_valid_def not_less)
  then have "j < unat (h_zone_count h)" using j by (simp add: word_le_nat_alt unat_sub)
  then show ?thesis using bank_valid_zone [OF assms(1)] j(1) by simp
qed

section \<open>Property\<close>

text \<open>
  C36: Binding a preloaded instrument bank reads nothing outside the file, whatever its bytes; when it
  succeeds, every lookup of a program answers with the zones of its preset that match key and velocity, in
  the order of the file, up to the room of the caller, and each plays samples inside the file.
\<close>

theorem bank_lookup_exact:
  assumes "unat sz \<le> length d"
  shows "\<exists>rc b. of_smp_bank_bind_preloaded malloc_ok (Some (base, d, sz)) None = Some (rc, b) \<and>
    (rc = 1 \<longrightarrow> (\<forall>bank_no program key velocity m. 0 \<le> program \<longrightarrow> program \<le> 127 \<longrightarrow>
       (let zs = of_smp_zone_lookup b bank_no program key velocity m in
        zs = take (nat m) (filter (zone_match key velocity) (preset_zones d (nat (if bank_no = 128 then 128 + program else program)))) \<and>
        (\<forall>z \<in> set zs. unat (h_sample_data_offset (the (header_at d))) + unat (sample_offset z) + 2 * unat (sample_length z) \<le> unat sz))))"
proof -
  obtain rc b where r: "of_smp_bank_bind_preloaded malloc_ok (Some (base, d, sz)) None = Some (rc, b)"
    and ok: "rc = 1 \<Longrightarrow> \<exists>h. bank_valid d sz h \<and> b = Some (bank_of base d h)"
    using bind_outcome [OF assms, of malloc_ok base] by fastforce
  have "let zs = of_smp_zone_lookup b bank_no program key velocity m in
      zs = take (nat m) (filter (zone_match key velocity) (preset_zones d (nat (if bank_no = 128 then 128 + program else program)))) \<and>
      (\<forall>z \<in> set zs. unat (h_sample_data_offset (the (header_at d))) + unat (sample_offset z) + 2 * unat (sample_length z) \<le> unat sz)"
    if rc: "rc = 1" and prog: "0 \<le> program" "program \<le> 127" for bank_no program key velocity m
  proof -
    obtain h where h: "bank_valid d sz h" "b = Some (bank_of base d h)" using ok [OF rc] by blast
    let ?i = "nat (if bank_no = 128 then 128 + program else program)"
    have "?i < OFSF_PRESET_COUNT" using prog by (auto simp: OFSF_PRESET_COUNT_def)
    then have "zone_valid (h_sample_data_size h) z" if "z \<in> set (preset_zones d ?i)" for z
      using preset_zones_valid [OF h(1)] that by blast
    moreover have "header_at d = Some h" using h(1) by (simp add: bank_valid_def)
    ultimately show ?thesis
      using zone_samples_inside [OF h(1)] lookup_preset [OF h(1) prog, of base bank_no key velocity m]
      by (auto simp: h(2) Let_def dest: in_set_takeD)
  qed
  then show ?thesis using r by blast
qed

definition demo_bank :: "u8 list" where
  "demo_bank = [0x46, 0x53, 0x46, 0x4F, 3, 0, 0, 0, 0x44, 0xAC, 0, 0, 1, 0, 0, 0, 0xD0, 4, 0, 0, 4, 0, 0, 0] @ replicate 72 0 @
     [0, 0, 1, 0] @ replicate 1020 0 @
     [0, 127, 0, 127, 0, 0, 0, 0, 2, 0, 0, 0, 0, 0, 0, 0, 0, 0, 0, 0, 0] @ replicate 91 0 @ [1, 2, 3, 4]"

lemma demo_bank_length: "length demo_bank = 1236"
  by (simp add: demo_bank_def)

lemma demo_header:
  "header_at demo_bank = Some \<lparr>h_magic = OFSF_MAGIC, h_version = OFSF_VERSION, h_sample_rate = 44100, h_zone_count = 1,
     h_sample_data_offset = 1232, h_sample_data_size = 4\<rparr>"
  by (simp add: header_at_def load32_def load8_def demo_bank_length) (simp add: demo_bank_def le32_def OFSF_MAGIC_def OFSF_VERSION_def)

lemma demo_preset: "i < OFSF_PRESET_COUNT \<Longrightarrow> file_preset demo_bank i = \<lparr>zone_start = 0, zone_count = (if i = 0 then 1 else 0)\<rparr>"
  by (simp add: file_preset_def preset_at_def load16_def load8_def demo_bank_length layout)
    (auto simp: demo_bank_def nth_append nth_Cons' le16_def)

lemma demo_zone:
  "file_zone demo_bank 0 = \<lparr>key_lo = 0, key_hi = 127, vel_lo = 0, vel_hi = 127, sample_offset = 0, sample_length = 2,
     loop_start = 0, loop_end = 0, loop_mode = 0, voice_params = replicate 91 0\<rparr>"
  by (simp add: file_zone_def zone_at_def load32_def load8_def demo_bank_length layout)
    (simp add: demo_bank_def nth_append nth_Cons' le32_def)

lemma demo_bank_valid: "\<exists>h. bank_valid demo_bank 1236 h"
  by (simp add: bank_valid_def demo_header demo_preset demo_zone preset_valid_def zone_valid_def bank_prefix_def layout
      OFSF_LOOP_FORWARD_def OFSF_LOOP_BIDI_def)

theorem bank_lookup_exact_witness:
  "\<exists>b. of_smp_bank_bind_preloaded (\<lambda>_. True) (Some (0x13000000, demo_bank, 1236)) None = Some (1, b) \<and>
     map sample_length (of_smp_zone_lookup b 0 0 60 100 4) = [2]"
proof -
  have len: "unat (1236 :: u32) \<le> length demo_bank" by (simp add: demo_bank_length)
  obtain rc b where r: "of_smp_bank_bind_preloaded (\<lambda>_. True) (Some (0x13000000, demo_bank, 1236)) None = Some (rc, b)"
    and look: "rc = 1 \<longrightarrow> (\<forall>bank_no program key velocity m. 0 \<le> program \<longrightarrow> program \<le> 127 \<longrightarrow>
       (let zs = of_smp_zone_lookup b bank_no program key velocity m in
        zs = take (nat m) (filter (zone_match key velocity) (preset_zones demo_bank (nat (if bank_no = 128 then 128 + program else program)))) \<and>
        (\<forall>z \<in> set zs. unat (h_sample_data_offset (the (header_at demo_bank))) + unat (sample_offset z) + 2 * unat (sample_length z) \<le> unat (1236 :: u32))))"
    using bank_lookup_exact [OF len, where malloc_ok = "\<lambda>_. True" and base = "0x13000000"] by blast
  have "rc = 1" using bind_outcome [OF len, of "\<lambda>_. True" "0x13000000"] r demo_bank_valid by simp
  moreover have "preset_zones demo_bank 0 = [file_zone demo_bank 0]"
    by (simp add: preset_zones_def demo_preset OFSF_PRESET_COUNT_def)
  moreover have "of_smp_zone_lookup b 0 0 60 100 4 = take (nat 4) (filter (zone_match 60 100) (preset_zones demo_bank 0))"
    if "rc = 1" using mp [OF look that] by (simp add: Let_def)
  ultimately show ?thesis using r by (simp add: demo_zone zone_match_def)
qed

end
