(* ===== verification/MidiInv.thy ===== *)
theory MidiInv
  imports Midi SmpBankSpec
begin

text \<open>
  The player stays inside the file: every track is a window of it with its position inside the window,
  and each operation keeps that, whatever the bytes are. Every event consumes at least a byte of its track
  or ends it.
\<close>

section \<open>Tracks\<close>

definition track_ok :: "u8 list \<Rightarrow> track \<Rightarrow> bool" where
  "track_ok d t \<longleftrightarrow> trk_data t + unat (trk_len t) \<le> length d \<and> pos t \<le> trk_len t"

text \<open>Later positions of the same window.\<close>

definition advances :: "u8 list \<Rightarrow> track \<Rightarrow> track \<Rightarrow> bool" where
  "advances d t t' \<longleftrightarrow> trk_data t' = trk_data t \<and> trk_len t' = trk_len t \<and> pos t \<le> pos t' \<and> track_ok d t' \<and> (ended t \<longrightarrow> ended t')"

lemma advances_refl: "track_ok d t \<Longrightarrow> advances d t t"
  by (simp add: advances_def)

lemma advances_trans: "advances d t t' \<Longrightarrow> advances d t' t'' \<Longrightarrow> advances d t t''"
  by (auto simp: advances_def)

lemma advances_ok: "advances d t t' \<Longrightarrow> track_ok d t'"
  by (simp add: advances_def)

lemma track_byte_inside: "track_ok d t \<Longrightarrow> i < trk_len t \<Longrightarrow> \<exists>b. track_byte d t i = Some b"
  by (auto simp: track_ok_def track_byte_def load8_def word_less_nat_alt)

lemma pos_plus:
  assumes "track_ok d t" and "n \<le> trk_len t - pos t"
  shows "track_ok d (t\<lparr>pos := pos t + n\<rparr>)" and "pos t \<le> pos t + n" and "unat (pos t + n) = unat (pos t) + unat n"
proof -
  have "pos t \<le> trk_len t" using assms(1) by (simp add: track_ok_def)
  then have le: "unat (pos t) + unat n \<le> unat (trk_len t)" using assms(2) by (simp add: word_le_nat_alt unat_sub)
  moreover have "unat (trk_len t) < 2 ^ LENGTH(32)" by (rule unsigned_less)
  ultimately have "unat (pos t) + unat n < 2 ^ LENGTH(32)" by linarith
  then show u: "unat (pos t + n) = unat (pos t) + unat n" by (rule unat_add_lem [THEN iffD1])
  show "track_ok d (t\<lparr>pos := pos t + n\<rparr>)" using assms(1) le u by (simp add: track_ok_def word_le_nat_alt)
  show "pos t \<le> pos t + n" using u by (simp add: word_le_nat_alt)
qed

lemma advances_plus:
  "track_ok d t \<Longrightarrow> n \<le> trk_len t - pos t \<Longrightarrow> advances d t (t\<lparr>pos := pos t + n\<rparr>)"
  by (simp add: advances_def pos_plus)

lemma next_byte_inside:
  assumes "track_ok d t" and "pos t < trk_len t"
  obtains b where "next_byte d t = Some (b, t\<lparr>pos := pos t + 1\<rparr>)" "advances d t (t\<lparr>pos := pos t + 1\<rparr>)"
    "unat (pos t + 1) = unat (pos t) + 1"
proof -
  obtain b where "track_byte d t (pos t) = Some b" using track_byte_inside [OF assms] by blast
  moreover have "1 \<le> trk_len t - pos t" using assms(2) by unat_arith
  ultimately show ?thesis
    using that pos_plus(3) [OF assms(1), of 1] advances_plus [OF assms(1), of 1] by (simp add: next_byte_def)
qed

lemma read_var_from_inside:
  assumes "track_ok d t"
  shows "\<exists>v p. read_var_from d n val t = Some (v, t\<lparr>pos := p\<rparr>) \<and> advances d t (t\<lparr>pos := p\<rparr>) \<and>
    (n \<noteq> 0 \<longrightarrow> pos t < trk_len t \<longrightarrow> pos t < p)"
  using assms
proof (induction n arbitrary: val t)
  case 0
  then show ?case by (auto intro: exI [of _ "pos t"] simp: advances_refl)
next
  case (Suc n)
  show ?case
  proof (cases "pos t < trk_len t")
    case True
    obtain b where b: "next_byte d t = Some (b, t\<lparr>pos := pos t + 1\<rparr>)" and adv: "advances d t (t\<lparr>pos := pos t + 1\<rparr>)"
      and u: "unat (pos t + 1) = unat (pos t) + 1"
      by (rule next_byte_inside [OF Suc.prems True])
    have lt: "pos t < pos t + 1" using u by (simp add: word_less_nat_alt)
    show ?thesis
    proof (cases "b AND 0x80 = 0")
      case True
      then show ?thesis using b adv lt \<open>pos t < trk_len t\<close> by (auto simp: Let_def intro: exI [of _ "pos t + 1"])
    next
      case False
      obtain v p where "read_var_from d n (push_bit 7 val OR (ucast b AND 0x7F)) (t\<lparr>pos := pos t + 1\<rparr>) = Some (v, t\<lparr>pos := p\<rparr>)"
        and a: "advances d (t\<lparr>pos := pos t + 1\<rparr>) (t\<lparr>pos := p\<rparr>)"
        using Suc.IH [OF advances_ok [OF adv]] by fastforce
      moreover have "pos t < p" using a lt by (auto simp: advances_def)
      ultimately show ?thesis using b False \<open>pos t < trk_len t\<close> advances_trans [OF adv a] by (auto simp: Let_def)
    qed
  next
    case False
    then show ?thesis using Suc.prems by (auto intro: exI [of _ "pos t"] simp: advances_refl)
  qed
qed

lemma read_var_inside:
  assumes "track_ok d t"
  obtains v p where "read_var d t = Some (v, t\<lparr>pos := p\<rparr>)" "advances d t (t\<lparr>pos := p\<rparr>)" "pos t < trk_len t \<Longrightarrow> pos t < p"
  using read_var_from_inside [OF assms, of 4 0] unfolding read_var_def by fastforce

section \<open>Events leave the song alone\<close>

definition channels_ok :: "midi \<Rightarrow> bool" where
  "channels_ok m \<longleftrightarrow> length (program m) = 16 \<and> length (volume m) = 16 \<and> length (expression m) = 16 \<and> length (pan m) = 16 \<and>
     length (sustain m) = 16 \<and> length (mod_wheel m) = 16 \<and> length (brightness m) = 16 \<and> length (resonance m) = 16"

definition steady :: "midi \<Rightarrow> midi \<Rightarrow> bool" where
  "steady m m' \<longleftrightarrow> song m' = song m \<and> tracks m' = tracks m \<and> num_tracks m' = num_tracks m \<and> playing m' = playing m \<and>
     paused m' = paused m \<and> looping m' = looping m \<and> clock m' = clock m \<and> (channels_ok m \<longrightarrow> channels_ok m')"

lemma steady_refl [simp]: "steady m m"
  by (simp add: steady_def)

lemma steady_trans: "steady m m' \<Longrightarrow> steady m' m'' \<Longrightarrow> steady m m''"
  by (simp add: steady_def)

lemma steady_emit: "steady m m' \<Longrightarrow> steady m (emit c m')"
  by (simp add: steady_def emit_def channels_ok_def)

lemma steady_fold_emit: "steady m (fold (\<lambda>z. emit (f z)) zs m)"
proof (induction zs rule: rev_induct)
  case (snoc z zs)
  then show ?case by (simp add: steady_emit)
qed simp

lemma steady_recompute: "steady m m' \<Longrightarrow> steady m (recompute_us_per_tick m')"
  by (simp add: steady_def recompute_us_per_tick_def channels_ok_def)

lemma steady_control: "steady m (control_change ch cc val m)"
  unfolding control_change_def
  by (auto simp: steady_def emit_def channels_ok_def)

lemma steady_note_on: "steady m (note_on ch note vel m)"
  by (simp add: note_on_def Let_def steady_fold_emit)

text \<open>An outcome that moves the track on by at least a byte, or ends it.\<close>

definition consumes :: "midi \<Rightarrow> track \<Rightarrow> (bool \<times> midi \<times> track) option \<Rightarrow> bool" where
  "consumes m t r \<longleftrightarrow>
     (\<exists>b m' t'. r = Some (b, m', t') \<and> steady m m' \<and> advances (song m) t t' \<and> (ended t' \<or> pos t < pos t'))"

lemma consumesI: "r = Some (b, m', t') \<Longrightarrow> steady m m' \<Longrightarrow> advances (song m) t t' \<Longrightarrow> ended t' \<or> pos t < pos t' \<Longrightarrow> consumes m t r"
  by (auto simp: consumes_def)

lemma trk_need_True: "track_ok d t \<Longrightarrow> trk_need t n = (True, t') \<Longrightarrow> t' = t \<and> n \<le> trk_len t - pos t"
  by (auto simp: trk_need_def split: if_splits)

lemma trk_need_False: "trk_need t n = (False, t') \<Longrightarrow> t' = t\<lparr>ended := True\<rparr>"
  by (auto simp: trk_need_def split: if_splits)

lemma advances_ended: "track_ok d t \<Longrightarrow> advances d t (t\<lparr>ended := True\<rparr>)"
  by (simp add: advances_def track_ok_def)

lemma trk_need_cases:
  assumes "track_ok d t"
  obtains "trk_need t n = (False, t\<lparr>ended := True\<rparr>)" "advances d t (t\<lparr>ended := True\<rparr>)"
  | "trk_need t n = (True, t)" "n \<le> trk_len t - pos t"
proof (cases "trk_len t < pos t \<or> trk_len t - pos t < n")
  case True
  then show ?thesis using that(1) advances_ended [OF assms] by (simp add: trk_need_def)
next
  case False
  then show ?thesis using that(2) by (simp add: trk_need_def not_less)
qed

lemma meta_event_runs:
  assumes ok: "track_ok (song m) t"
  shows "consumes m t (meta_event m t)"
proof (rule trk_need_cases [OF ok, of 1])
  assume need: "trk_need t 1 = (False, t\<lparr>ended := True\<rparr>)" and adv: "advances (song m) t (t\<lparr>ended := True\<rparr>)"
  have "meta_event m t = Some (False, m, t\<lparr>ended := True\<rparr>)" by (simp add: meta_event_def need)
  then show ?thesis by (rule consumesI) (simp_all add: adv)
next
  assume need: "trk_need t 1 = (True, t)" and "1 \<le> trk_len t - pos t"
  then have "pos t < trk_len t" using ok unfolding track_ok_def by unat_arith
  then obtain b where nb: "next_byte (song m) t = Some (b, t\<lparr>pos := pos t + 1\<rparr>)" and a1: "advances (song m) t (t\<lparr>pos := pos t + 1\<rparr>)"
    and u1: "unat (pos t + 1) = unat (pos t) + 1"
    by (rule next_byte_inside [OF ok])
  have lt: "pos t < pos t + 1" using u1 by (simp add: word_less_nat_alt)
  obtain n p where rv: "read_var (song m) (t\<lparr>pos := pos t + 1\<rparr>) = Some (n, t\<lparr>pos := p\<rparr>)"
    and a2: "advances (song m) (t\<lparr>pos := pos t + 1\<rparr>) (t\<lparr>pos := p\<rparr>)"
    by (rule read_var_inside [OF advances_ok [OF a1]]) simp
  note adv = advances_trans [OF a1 a2]
  have lp: "pos t < p" using a2 lt by (auto simp: advances_def)
  show ?thesis
  proof (cases "trk_len t - p < n")
    case True
    have "meta_event m t = Some (False, m, t\<lparr>pos := p, ended := True\<rparr>)"
      using True by (simp add: meta_event_def need nb rv)
    then show ?thesis by (rule consumesI) (use advances_trans [OF adv advances_ended [OF advances_ok [OF adv]]] in simp_all)
  next
    case False
    have a3: "advances (song m) t (t\<lparr>pos := p + n\<rparr>)" "advances (song m) t (t\<lparr>ended := True, pos := p + n\<rparr>)"
      using advances_trans [OF adv advances_plus [OF advances_ok [OF adv], of n]] False
      by (auto simp: not_less advances_def track_ok_def)
    have lt3: "pos t < p + n"
      by (rule order.strict_trans2 [OF lp]) (use pos_plus(2) [OF advances_ok [OF adv], of n] False in simp)
    have "\<exists>a. track_byte (song m) (t\<lparr>pos := p\<rparr>) (p + k) = Some a" if "n = 3" "k < 3" for k
    proof -
      have "k < trk_len t - p" using False that by unat_arith
      then have "p + k < trk_len t" using advances_ok [OF adv] unfolding track_ok_def by simp unat_arith
      then show ?thesis using track_byte_inside [OF advances_ok [OF adv], of "p + k"] by simp
    qed
    from this [of 0] this [of 1] this [of 2] show ?thesis
      using False a3 lt3
      by (auto simp: meta_event_def need nb rv consumes_def steady_def channels_ok_def recompute_us_per_tick_def)
  qed
qed

lemma sysex_event_runs:
  assumes ok: "track_ok (song m) t" and "pos t < trk_len t"
  shows "consumes m t (sysex_event m t)"
proof -
  obtain n p where rv: "read_var (song m) t = Some (n, t\<lparr>pos := p\<rparr>)" and a: "advances (song m) t (t\<lparr>pos := p\<rparr>)" and lt: "pos t < p"
    by (rule read_var_inside [OF ok]) (use assms(2) in blast)
  show ?thesis
  proof (cases "trk_len t - p < n")
    case True
    then have "sysex_event m t = Some (False, m, t\<lparr>pos := p, ended := True\<rparr>)" by (simp add: sysex_event_def rv)
    then show ?thesis by (rule consumesI) (use advances_trans [OF a advances_ended [OF advances_ok [OF a]]] in simp_all)
  next
    case False
    then have "sysex_event m t = Some (\<not> ended t, m, t\<lparr>pos := p + n\<rparr>)" by (simp add: sysex_event_def rv)
    moreover have "advances (song m) t (t\<lparr>pos := p + n\<rparr>)"
      using advances_trans [OF a advances_plus [OF advances_ok [OF a], of n]] False by simp
    moreover have "pos t < p + n"
      by (rule order.strict_trans2 [OF lt]) (use pos_plus(2) [OF advances_ok [OF a], of n] False in simp)
    ultimately show ?thesis by (auto simp: consumes_def)
  qed
qed

lemma voice_event_runs:
  assumes ok: "track_ok (song m) t"
  shows "consumes m t (voice_event m t cmd ch)"
proof -
  have pl: "pos t \<le> trk_len t" using ok by (simp add: track_ok_def)
  show ?thesis
  proof (cases "cmd = 0xC0 \<or> cmd = 0xD0")
    case short: True
    show ?thesis
    proof (rule trk_need_cases [OF ok, of 1])
      assume need: "trk_need t 1 = (False, t\<lparr>ended := True\<rparr>)" and adv: "advances (song m) t (t\<lparr>ended := True\<rparr>)"
      have "voice_event m t cmd ch = Some (False, m, t\<lparr>ended := True\<rparr>)"
        unfolding voice_event_def using short need by simp
      then show ?thesis by (rule consumesI) (simp_all add: adv)
    next
      assume need: "trk_need t 1 = (True, t)" and n: "1 \<le> trk_len t - pos t"
      have "pos t < trk_len t" using n pl by unat_arith
      then obtain b where b: "next_byte (song m) t = Some (b, t\<lparr>pos := pos t + 1\<rparr>)" and a: "advances (song m) t (t\<lparr>pos := pos t + 1\<rparr>)"
        and u: "unat (pos t + 1) = unat (pos t) + 1"
        by (rule next_byte_inside [OF ok])
      have "pos t < pos t + 1" using u by (simp add: word_less_nat_alt)
      then show ?thesis using short b a need by (auto simp: voice_event_def consumes_def steady_def channels_ok_def)
    qed
  next
    case long: False
    show ?thesis
    proof (rule trk_need_cases [OF ok, of 2])
      assume need: "trk_need t 2 = (False, t\<lparr>ended := True\<rparr>)" and adv: "advances (song m) t (t\<lparr>ended := True\<rparr>)"
      have "voice_event m t cmd ch = Some (False, m, t\<lparr>ended := True\<rparr>)"
        unfolding voice_event_def using long need by simp
      then show ?thesis by (rule consumesI) (simp_all add: adv)
    next
      assume need: "trk_need t 2 = (True, t)" and n: "2 \<le> trk_len t - pos t"
      have p: "pos t < trk_len t" using n pl by unat_arith
      obtain b1 where b1: "next_byte (song m) t = Some (b1, t\<lparr>pos := pos t + 1\<rparr>)" and a1: "advances (song m) t (t\<lparr>pos := pos t + 1\<rparr>)"
        and u1: "unat (pos t + 1) = unat (pos t) + 1"
        by (rule next_byte_inside [OF ok p])
      have p2: "pos t + 1 < trk_len t" using n pl u1 by (simp add: word_less_nat_alt word_le_nat_alt unat_sub)
      obtain b2 where b2: "next_byte (song m) (t\<lparr>pos := pos t + 1\<rparr>) = Some (b2, t\<lparr>pos := pos t + 2\<rparr>)"
        by (rule next_byte_inside [OF advances_ok [OF a1]]) (use p2 in \<open>simp_all add: add.assoc\<close>)
      have u2: "unat (pos t + 2) = unat (pos t) + 2" and a2: "advances (song m) t (t\<lparr>pos := pos t + 2\<rparr>)"
        using pos_plus(3) [OF ok n] advances_plus [OF ok n] by simp_all
      have lt2: "pos t < pos t + 2" using u2 by (simp add: word_less_nat_alt)
      have "\<exists>m'. steady m m' \<and> (\<exists>b. voice_event m t cmd ch = Some (b, m', t\<lparr>pos := pos t + 2\<rparr>))"
        using long b1 b2 need steady_note_on [of m ch b1 b2] steady_control [of m ch b1 b2] steady_emit [OF steady_refl]
        by (auto simp: voice_event_def add.assoc)
      then show ?thesis using a2 lt2 by (auto simp: consumes_def)
    qed
  qed
qed

lemma process_event_runs:
  assumes ok: "track_ok (song m) t" and "\<not> ended t" and p: "pos t < trk_len t"
  shows "consumes m t (process_event m t)"
proof -
  obtain b where b: "track_byte (song m) t (pos t) = Some b" using track_byte_inside [OF ok p] by blast
  have p': "\<not> trk_len t \<le> pos t" using p by simp
  note unf = process_event_def b p' assms(2)
  show ?thesis
  proof (cases "b < 0x80")
    case low: True
    show ?thesis
    proof (cases "running t = 0")
      case True
      then have "process_event m t = Some (False, m, t\<lparr>ended := True\<rparr>)" using low by (simp add: unf)
      then show ?thesis by (rule consumesI) (simp_all add: advances_ended [OF ok])
    next
      case False
      then show ?thesis using low meta_event_runs [OF ok] sysex_event_runs [OF ok p] voice_event_runs [OF ok] by (simp add: unf Let_def)
    qed
  next
    case high: False
    define t1 where "t1 = t\<lparr>pos := pos t + 1, running := (if b < 0xF0 then b else running t)\<rparr>"
    obtain b' where "next_byte (song m) t = Some (b', t\<lparr>pos := pos t + 1\<rparr>)" and a1: "advances (song m) t (t\<lparr>pos := pos t + 1\<rparr>)"
      and u1: "unat (pos t + 1) = unat (pos t) + 1"
      by (rule next_byte_inside [OF ok p])
    have adv: "advances (song m) t t1" and ok1: "track_ok (song m) t1" and lt1: "pos t < pos t1"
      using a1 u1 by (simp_all add: t1_def advances_def track_ok_def word_less_nat_alt)
    have later: "consumes m t r" if "consumes m t1 r \<or> (\<exists>b m' t'. r = Some (b, m', t') \<and> steady m m' \<and> advances (song m) t1 t')" for r
      using that advances_trans [OF adv] lt1 unfolding consumes_def advances_def by fastforce
    have "process_event m t =
        (if b = 0xFF then meta_event m t1 else if 0xF0 \<le> b \<and> b \<le> 0xF7 then sysex_event m t1
         else voice_event m t1 (b AND 0xF0) (unat (b AND 0x0F)))"
      using high by (simp add: unf t1_def Let_def)
    moreover have "consumes m t (sysex_event m t1)"
    proof (rule later)
      obtain n q where rv: "read_var (song m) t1 = Some (n, t1\<lparr>pos := q\<rparr>)" and a: "advances (song m) t1 (t1\<lparr>pos := q\<rparr>)"
        by (rule read_var_inside [OF ok1])
      show "consumes m t1 (sysex_event m t1) \<or> (\<exists>b m' t'. sysex_event m t1 = Some (b, m', t') \<and> steady m m' \<and> advances (song m) t1 t')"
        using rv advances_trans [OF a advances_ended [OF advances_ok [OF a]]] advances_trans [OF a advances_plus [OF advances_ok [OF a], of n]]
        by (auto simp: sysex_event_def not_less)
    qed
    ultimately show ?thesis using later meta_event_runs [OF ok1] voice_event_runs [OF ok1] by simp
  qed
qed

lemma read_next_delta_inside:
  assumes "track_ok d t" and "song m = d"
  shows "\<exists>t'. read_next_delta m t = Some t' \<and> advances d t t'"
proof (cases "ended t \<or> trk_len t \<le> pos t")
  case True
  then show ?thesis using advances_ended [OF assms(1)] by (simp add: read_next_delta_def)
next
  case False
  obtain v p where "read_var d t = Some (v, t\<lparr>pos := p\<rparr>)" and a: "advances d t (t\<lparr>pos := p\<rparr>)"
    by (rule read_var_inside [OF assms(1)])
  moreover have "advances d t (t\<lparr>pos := p, pending_us := q\<rparr>)" for q using a by (simp add: advances_def track_ok_def)
  ultimately show ?thesis using False assms(2) by (simp add: read_next_delta_def)
qed

section \<open>The song\<close>

definition song_ok :: "midi \<Rightarrow> bool" where
  "song_ok m \<longleftrightarrow> length (tracks m) = MIDI_MAX_TRACKS \<and> unat (num_tracks m) \<le> MIDI_MAX_TRACKS \<and>
     (\<forall>i < unat (num_tracks m). track_ok (song m) (tracks m ! i))"

text \<open>What everything after the header leaves alone: all but the tracks' cursors and the controllers.\<close>

definition keeps :: "midi \<Rightarrow> midi \<Rightarrow> bool" where
  "keeps m m' \<longleftrightarrow> song m' = song m \<and> num_tracks m' = num_tracks m \<and> playing m' = playing m \<and> paused m' = paused m \<and>
     looping m' = looping m \<and> clock m' = clock m \<and> (channels_ok m \<longrightarrow> channels_ok m')"

lemma keeps_refl [simp]: "keeps m m"
  by (simp add: keeps_def)

lemma keeps_trans: "keeps m m' \<Longrightarrow> keeps m' m'' \<Longrightarrow> keeps m m''"
  by (simp add: keeps_def)

lemma steady_keeps: "steady m m' \<Longrightarrow> keeps m m'"
  by (simp add: keeps_def steady_def)

lemma song_ok_update:
  assumes "song_ok m" and "i < unat (num_tracks m)" and "track_ok (song m) t" and "keeps m m'" and "tracks m' = tracks m"
  shows "song_ok (m'\<lparr>tracks := (tracks m')[i := t]\<rparr>)" and "keeps m (m'\<lparr>tracks := (tracks m')[i := t]\<rparr>)"
  using assms by (auto simp: song_ok_def keeps_def nth_list_update channels_ok_def)

lemma track_ok_reset: "track_ok d t \<Longrightarrow> track_ok d (t\<lparr>pos := 0, pending_us := q, running := r, ended := e\<rparr>)"
  by (simp add: track_ok_def)

lemma reset_each_inside:
  assumes "song_ok m" and "\<And>i. i \<in> set is \<Longrightarrow> i < unat (num_tracks m)"
  shows "\<exists>m'. reset_each is m = Some m' \<and> song_ok m' \<and> keeps m m'"
  using assms
proof (induction "is" arbitrary: m)
  case (Cons i "is")
  let ?t = "(tracks m ! i)\<lparr>pos := 0, pending_us := 0, running := 0, ended := False\<rparr>"
  have "track_ok (song m) ?t" using Cons.prems by (intro track_ok_reset) (simp add: song_ok_def)
  then obtain t' where t': "read_next_delta m ?t = Some t'" "track_ok (song m) t'"
    using read_next_delta_inside [of "song m" ?t m] advances_ok by blast
  let ?m = "m\<lparr>tracks := (tracks m)[i := t']\<rparr>"
  have ok: "song_ok ?m" "keeps m ?m" using song_ok_update [OF Cons.prems(1) _ t'(2), of i m] Cons.prems(2) by simp_all
  then obtain m' where "reset_each is ?m = Some m'" "song_ok m'" "keeps ?m m'"
    using Cons.IH [OF ok(1)] Cons.prems(2) by auto
  then show ?case using t'(1) keeps_trans [OF ok(2)] by auto
qed simp

lemma reset_tracks_inside: "song_ok m \<Longrightarrow> \<exists>m'. reset_tracks m = Some m' \<and> song_ok m' \<and> keeps m m'"
  unfolding reset_tracks_def by (rule reset_each_inside) simp_all

lemma be32_inside: "i + 4 \<le> length d \<Longrightarrow> \<exists>w. be32 d i = Some w"
  by (simp add: be32_def load8_Some)

lemma be16_inside: "i + 2 \<le> length d \<Longrightarrow> \<exists>w. be16 d i = Some w"
  by (simp add: be16_def load8_Some)

lemma find_tracks_inside:
  assumes "unat (song_len m) \<le> length (song m)" and "offset \<le> song_len m" and "unat (song_len m) - unat offset < fuel"
    and "length (tracks m) = MIDI_MAX_TRACKS" and "unat (num_tracks m) \<le> MIDI_MAX_TRACKS" and "\<forall>i < found. track_ok (song m) (tracks m ! i)"
  shows "\<exists>r m'. find_tracks fuel offset found m = Some (r, m') \<and> keeps m m' \<and> length (tracks m') = MIDI_MAX_TRACKS \<and>
    (\<forall>f. r = Inr f \<longrightarrow> (\<forall>i < f. track_ok (song m) (tracks m' ! i)))"
  using assms
proof (induction fuel offset found m rule: find_tracks.induct)
  case (2 fuel offset found m)
  show ?case
  proof (cases "found < unat (num_tracks m) \<and> 8 \<le> song_len m - offset")
    case False
    then show ?thesis using 2(6,8) by auto
  next
    case True
    have u: "unat (song_len m - offset) = unat (song_len m) - unat offset" using 2(4) by (simp add: unat_sub word_le_nat_alt)
    then have room: "unat offset + 8 \<le> unat (song_len m)" using True by (auto simp: word_le_nat_alt)
    moreover have "unat (song_len m) < 2 ^ 32" using unsigned_less [of "song_len m", where 'a = nat] by simp
    ultimately have un: "unat (offset + 4) = unat offset + 4" "unat (offset + 8) = unat offset + 8"
      using unat_add_lem [of offset 4] unat_add_lem [of offset 8] by simp_all
    obtain tlen where tlen: "be32 (song m) (unat (offset + 4)) = Some tlen"
      using be32_inside [of "unat (offset + 4)" "song m"] 2(3) room un by auto
    obtain chunk where chunk: "be32 (song m) (unat offset) = Some chunk"
      using be32_inside [of "unat offset" "song m"] 2(3) room by auto
    show ?thesis
    proof (cases "song_len m - offset - 8 < tlen")
      case short: True
      then show ?thesis using True tlen 2(6) by simp
    next
      case False
      have "unat (song_len m - offset - 8) = unat (song_len m) - unat offset - 8"
        using True u by (simp add: unat_sub)
      then have "unat tlen \<le> unat (song_len m) - unat offset - 8" using False by (simp add: not_less word_le_nat_alt)
      then have sum: "unat offset + 8 + unat tlen \<le> unat (song_len m)" using room by simp
      then have nx: "unat (offset + (8 + tlen)) = unat offset + 8 + unat tlen"
        using un(2) unat_add_lem [of "offset + 8" tlen] unsigned_less [of "song_len m", where 'a = nat] by (simp add: add.assoc)
      have le: "offset + (8 + tlen) \<le> song_len m" using nx sum by (simp add: word_le_nat_alt)
      have fuel: "unat (song_len m) - unat (offset + (8 + tlen)) < fuel" using 2(5) nx room by simp
      let ?t = "\<lparr>trk_data = unat (offset + 8), trk_len = tlen, pos = 0, pending_us = 0, running = 0, ended = False\<rparr>"
      let ?m = "m\<lparr>tracks := (tracks m)[found := ?t]\<rparr>"
      have t_ok: "track_ok (song m) ?t" using sum 2(3) un by (simp add: track_ok_def)
      show ?thesis
      proof (cases "chunk = 0x4D54726B")
        case mtrk: True
        have "\<forall>i < found + 1. track_ok (song ?m) (tracks ?m ! i)"
          using 2(6-8) t_ok True by (auto simp: nth_list_update less_Suc_eq)
        then obtain r m' where "find_tracks fuel (offset + (8 + tlen)) (found + 1) ?m = Some (r, m')" "keeps ?m m'"
          "length (tracks m') = MIDI_MAX_TRACKS" "\<forall>f. r = Inr f \<longrightarrow> (\<forall>i < f. track_ok (song m) (tracks m' ! i))"
          using 2(1) [of tlen chunk] True tlen chunk False mtrk 2(3,6,7) le fuel by fastforce
        moreover have "keeps m ?m" by (simp add: keeps_def channels_ok_def)
        ultimately show ?thesis using True tlen chunk False mtrk keeps_trans [of m ?m m'] by simp
      next
        case other: False
        then obtain r m' where "find_tracks fuel (offset + (8 + tlen)) found m = Some (r, m')" "keeps m m'"
          "length (tracks m') = MIDI_MAX_TRACKS" "\<forall>f. r = Inr f \<longrightarrow> (\<forall>i < f. track_ok (song m) (tracks m' ! i))"
          using 2(2) [of tlen chunk] True tlen chunk False 2(3,6-8) le fuel by fastforce
        then show ?thesis using True tlen chunk False other by simp
      qed
    qed
  qed
qed simp

lemma find_tracks_error: "find_tracks fuel off found m = Some (Inl e, m') \<Longrightarrow> e = OF_MIDI_ERR_BAD_HDR"
proof (induction fuel off found m rule: find_tracks.induct)
  case (2 fuel off found m)
  then show ?case
    by (cases "be32 (song m) (unat (off + 4))"; cases "be32 (song m) (unat off)") (auto split: if_splits)
qed simp

lemma parse_header_inside:
  assumes "unat (song_len m) \<le> length (song m)" and "length (tracks m) = MIDI_MAX_TRACKS"
  shows "\<exists>rc m'. parse_header m = Some (rc, m') \<and> (rc = OF_MIDI_OK \<longrightarrow> song_ok m') \<and> length (tracks m') = MIDI_MAX_TRACKS \<and>
    song m' = song m \<and> playing m' = playing m \<and> clock m' = clock m \<and> (channels_ok m \<longrightarrow> channels_ok m')"
proof (cases "song_len m < 14")
  case True
  then show ?thesis using assms(2) by (simp add: parse_header_def OF_MIDI_OK_def OF_MIDI_ERR_BAD_HDR_def)
next
  case False
  then have long: "14 \<le> length (song m)" and l14: "14 \<le> unat (song_len m)"
    using assms(1) by (simp_all add: not_less word_le_nat_alt)
  obtain magic hl where a: "be32 (song m) 0 = Some magic" "be32 (song m) 4 = Some hl"
    using be32_inside [of 0 "song m"] be32_inside [of 4 "song m"] long by auto
  obtain fmt nt dv where b: "be16 (song m) 8 = Some fmt" "be16 (song m) 10 = Some nt" "be16 (song m) 12 = Some dv"
    using be16_inside [of 8 "song m"] be16_inside [of 10 "song m"] be16_inside [of 12 "song m"] long by auto
  note errs = OF_MIDI_OK_def OF_MIDI_ERR_BAD_HDR_def OF_MIDI_ERR_FORMAT_def OF_MIDI_ERR_NO_TRACKS_def
  note unf = parse_header_def a b False [unfolded linorder_not_less, THEN leD] Let_def
  let ?m = "m\<lparr>song_format := fmt, num_tracks := nt, division := dv\<rparr>"
  define m1 where "m1 = (if word_of_nat MIDI_MAX_TRACKS < nt then ?m\<lparr>num_tracks := word_of_nat MIDI_MAX_TRACKS\<rparr> else ?m)"
  consider "magic \<noteq> 0x4D546864" | "hl < 6 \<or> song_len m - 8 < hl" | "1 < fmt \<or> nt = 0 \<or> dv = 0"
    | "magic = 0x4D546864" "\<not> (hl < 6 \<or> song_len m - 8 < hl)" "\<not> 1 < fmt" "nt \<noteq> 0" "dv \<noteq> 0" by blast
  then show ?thesis
  proof cases
    case 1
    then show ?thesis using assms(2) False by (simp add: unf errs)
  next
    case 2
    then show ?thesis using assms(2) False by (cases "magic = 0x4D546864") (auto simp: unf errs)
  next
    case 3
    then show ?thesis using assms(2) False by (auto simp: unf errs channels_ok_def)
  next
    case 4
    have "unat (song_len m - 8) = unat (song_len m) - 8" using l14 by (simp add: unat_sub word_le_nat_alt)
    then have "unat hl \<le> unat (song_len m) - 8" using 4(2) by (simp add: not_less word_le_nat_alt)
    then have "8 + unat hl \<le> unat (song_len m)" using l14 by simp
    then have u: "unat (8 + hl) = 8 + unat hl" "8 + hl \<le> song_len m"
      using unat_add_lem [of 8 hl] unsigned_less [of "song_len m", where 'a = nat] by (simp_all add: word_le_nat_alt)
    have n: "unat (num_tracks m1) \<le> MIDI_MAX_TRACKS" by (simp add: m1_def MIDI_MAX_TRACKS_def word_less_nat_alt)
    have same: "song m1 = song m" "song_len m1 = song_len m" "tracks m1 = tracks m" "playing m1 = playing m" "clock m1 = clock m"
      "channels_ok m \<longrightarrow> channels_ok m1" by (simp_all add: m1_def channels_ok_def)
    obtain r m' where ft: "find_tracks (Suc (unat (song_len m))) (8 + hl) 0 m1 = Some (r, m')" and k: "keeps m1 m'"
      and len: "length (tracks m') = MIDI_MAX_TRACKS" and found: "\<forall>f. r = Inr f \<longrightarrow> (\<forall>i < f. track_ok (song m) (tracks m' ! i))"
    proof -
      have "unat (song_len m) - unat (8 + hl) < Suc (unat (song_len m))" by (rule le_imp_less_Suc) simp
      from find_tracks_inside [of m1 "8 + hl" "Suc (unat (song_len m))" 0, unfolded same(1-5), OF assms(1) u(2) this assms(2) n]
      show ?thesis using that by (simp only: not_less_zero simp_thms) blast
    qed
    have "parse_header m = (case r of Inl e \<Rightarrow> Some (e, m') | Inr f \<Rightarrow>
        if f = 0 then Some (OF_MIDI_ERR_NO_TRACKS, m') else if f \<noteq> unat (num_tracks m') then Some (OF_MIDI_ERR_BAD_HDR, m') else Some (OF_MIDI_OK, m'))"
      using 4 False ft unfolding m1_def
      by (cases "word_of_nat MIDI_MAX_TRACKS < nt") (simp_all add: unf del: find_tracks.simps)
    moreover have "e \<noteq> OF_MIDI_OK" if "r = Inl e" for e
      using find_tracks_error [OF ft [unfolded that]] by (simp add: errs)
    moreover have "song_ok m'" if "r = Inr (unat (num_tracks m'))"
      using found that len n k by (simp add: song_ok_def keeps_def same)
    ultimately show ?thesis using len k same by (cases r) (auto simp: keeps_def errs)
  qed
qed

section \<open>The pump\<close>

lemma tick_loop_steady: "tick_loop n f st m = (budget, fired, over, m') \<Longrightarrow> steady m m'"
proof (induction n arbitrary: f m)
  case (Suc n)
  let ?m = "(emit Tick m)\<lparr>tick_accum_us := tick_accum_us m - 1000, clock_pos := clock_pos m + 1\<rparr>"
  have "steady m ?m" by (simp add: steady_def emit_def channels_ok_def)
  then show ?case using Suc
    by (auto simp: timer_get_us_def Let_def emit_def split: if_splits intro: steady_trans)
qed simp

definition weight :: "track \<Rightarrow> nat" where
  "weight t = (if ended t then 0 else Suc (unat (trk_len t) - unat (pos t)))"

definition remaining :: "midi \<Rightarrow> nat" where
  "remaining m = (\<Sum>i < unat (num_tracks m). weight (tracks m ! i))"

lemma weight_advances:
  assumes "advances d t t'" and "\<not> ended t" and "ended t' \<or> pos t < pos t'"
  shows "weight t' < weight t"
  using assms by (auto simp: weight_def advances_def track_ok_def word_less_nat_alt word_le_nat_alt)

lemma weight_mono: "advances d t t' \<Longrightarrow> weight t' \<le> weight t"
  by (auto simp: weight_def advances_def word_le_nat_alt)

lemma remaining_update:
  assumes "i < unat (num_tracks m)" and "length (tracks m) = MIDI_MAX_TRACKS" and "unat (num_tracks m) \<le> MIDI_MAX_TRACKS"
    and "weight t < weight (tracks m ! i)" and "num_tracks m' = num_tracks m" and "tracks m' = (tracks m)[i := t]"
  shows "remaining m' < remaining m"
  unfolding remaining_def assms(5)
  by (rule sum_strict_mono_ex1) (use assms in \<open>auto simp: nth_list_update\<close>)

text \<open>One event and the delta that follows it.\<close>

lemma event_step:
  assumes "track_ok (song m) t" and "\<not> ended t"
  obtains b m' t' t'' where "process_event m t = Some (b, m', t')" "steady m m'"
    "(if ended t' then Some t' else read_next_delta m' t') = Some t''" "track_ok (song m) t''" "weight t'' < weight t"
proof (cases "pos t < trk_len t")
  case True
  obtain b m' t' where p: "process_event m t = Some (b, m', t')" and st: "steady m m'" and a: "advances (song m) t t'"
    and prog: "ended t' \<or> pos t < pos t'"
    using process_event_runs [OF assms True] unfolding consumes_def by blast
  obtain t'' where "(if ended t' then Some t' else read_next_delta m' t') = Some t''" and a2: "advances (song m) t' t''"
    using read_next_delta_inside [OF advances_ok [OF a], of m'] st advances_refl [OF advances_ok [OF a]]
    by (cases "ended t'") (auto simp: steady_def)
  moreover have "weight t'' < weight t"
    using weight_advances [OF a assms(2) prog] weight_mono [OF a2] by simp
  ultimately show ?thesis using that [OF p st] advances_ok [OF a2] by blast
next
  case False
  then have "trk_len t \<le> pos t" by simp
  then have "process_event m t = Some (False, m, t)" "read_next_delta m t = Some (t\<lparr>ended := True\<rparr>)"
    by (simp_all add: process_event_def read_next_delta_def)
  moreover have "weight (t\<lparr>ended := True\<rparr>) < weight t" using assms(2) by (simp add: weight_def)
  moreover have "track_ok (song m) (t\<lparr>ended := True\<rparr>)" using assms(1) by (simp add: track_ok_def)
  ultimately show ?thesis using that [of False m t "t\<lparr>ended := True\<rparr>"] assms(2) by simp
qed

definition waits :: "track \<Rightarrow> bool" where
  "waits t \<longleftrightarrow> ended t \<or> 0 < sint (pending_us t)"

lemma track_loop_inside:
  assumes "song_ok m" and "i < unat (num_tracks m)"
  shows "\<exists>b k m'. track_loop n i st m = Some (b, k, m') \<and> song_ok m' \<and> keeps m m' \<and>
    (remaining m' < remaining m \<or> m' = m \<and> \<not> b \<and> k = n \<and> (n = 0 \<or> waits (tracks m ! i)))"
  using assms
proof (induction n arbitrary: m)
  case (Suc n)
  let ?t = "tracks m ! i"
  show ?case
  proof (cases "\<not> ended ?t \<and> sint (pending_us ?t) \<le> 0")
    case False
    then show ?thesis using Suc.prems by (auto simp: waits_def Let_def)
  next
    case True
    obtain b m1 t1 t2 where ev: "process_event m ?t = Some (b, m1, t1)" "steady m m1"
      "(if ended t1 then Some t1 else read_next_delta m1 t1) = Some t2" "track_ok (song m) t2" "weight t2 < weight ?t"
      using event_step [of m ?t] Suc.prems True unfolding song_ok_def by metis
    let ?m2 = "m1\<lparr>tracks := (tracks m1)[i := t2], clock_pos := clock_pos m1 + 1\<rparr>"
    have tr: "tracks m1 = tracks m" "num_tracks m1 = num_tracks m" using ev(2) by (simp_all add: steady_def)
    have "song_ok (m1\<lparr>tracks := (tracks m1)[i := t2]\<rparr>)" "keeps m (m1\<lparr>tracks := (tracks m1)[i := t2]\<rparr>)"
      using song_ok_update [OF Suc.prems ev(4) steady_keeps [OF ev(2)] tr(1)] by simp_all
    then have ok: "song_ok ?m2" "keeps m ?m2" by (simp_all add: song_ok_def keeps_def channels_ok_def)
    have less: "remaining ?m2 < remaining m"
      by (rule remaining_update [of i]) (use Suc.prems ev(5) tr in \<open>simp_all add: song_ok_def\<close>)
    have step: "track_loop (Suc n) i st m =
        (if PUMP_BUDGET_US < clock m1 (clock_pos m1) - st then Some (True, n, ?m2) else track_loop n i st ?m2)"
      using True ev(1,3) by (auto simp: Let_def timer_get_us_def)
    show ?thesis
    proof (cases "PUMP_BUDGET_US < clock m1 (clock_pos m1) - st")
      case True
      then show ?thesis using step ok less by (auto simp del: track_loop.simps)
    next
      case False
      have "i < unat (num_tracks ?m2)" using Suc.prems tr by simp
      then obtain b' k m' where "track_loop n i st ?m2 = Some (b', k, m')" "song_ok m'" "keeps ?m2 m'"
        "remaining m' < remaining ?m2 \<or> m' = ?m2"
        using Suc.IH [OF ok(1)] by blast
      then show ?thesis using step False less keeps_trans [OF ok(2)] by (auto simp del: track_loop.simps)
    qed
  qed
qed auto

lemma dispatch_inside:
  assumes "song_ok m" and "\<And>i. i \<in> set is \<Longrightarrow> i < unat (num_tracks m)"
  shows "\<exists>m'. dispatch is n st m = Some m' \<and> song_ok m' \<and> keeps m m' \<and>
    (remaining m' < remaining m \<or> m' = m \<and> (n = 0 \<or> (\<forall>i \<in> set is. waits (tracks m ! i))))"
  using assms
proof (induction "is" arbitrary: m n)
  case (Cons i "is")
  obtain b k m1 where t: "track_loop n i st m = Some (b, k, m1)" "song_ok m1" "keeps m m1"
    "remaining m1 < remaining m \<or> m1 = m \<and> \<not> b \<and> k = n \<and> (n = 0 \<or> waits (tracks m ! i))"
    using track_loop_inside [OF Cons.prems(1), of i n st] Cons.prems(2) by auto
  show ?case
  proof (cases b)
    case True
    then show ?thesis using t by auto
  next
    case False
    have "j < unat (num_tracks m1)" if "j \<in> set is" for j using Cons.prems(2) that t(3) by (simp add: keeps_def)
    then obtain m' where "dispatch is k st m1 = Some m'" "song_ok m'" "keeps m1 m'"
      "remaining m' < remaining m1 \<or> m' = m1 \<and> (k = 0 \<or> (\<forall>i \<in> set is. waits (tracks m1 ! i)))"
      using Cons.IH [OF t(2)] by blast
    then show ?thesis using t False keeps_trans [OF t(3)] by auto
  qed
qed simp

end
