(* ===== verification/MidiSpec.thy ===== *)
theory MidiSpec
  imports MidiInv
begin

text \<open>
  The player as a whole: the calls of an app and of the timer interrupt, in any order, from the state at
  start. No call reads outside the file it was given or the preloaded bank; a song that does not loop comes
  to its end; a well-formed file is played from its tracks.
\<close>

section \<open>The pump\<close>

definition due_time :: "midi \<Rightarrow> nat" where
  "due_time m = (\<Sum>i < unat (num_tracks m). if ended (tracks m ! i) then 0 else unat (pending_us (tracks m ! i)))"

lemma count_down_nth:
  assumes "length (tracks m) = MIDI_MAX_TRACKS" and "unat (num_tracks m) \<le> MIDI_MAX_TRACKS" and "i < unat (num_tracks m)"
  shows "tracks (count_down e m) ! i =
    (if ended (tracks m ! i) then tracks m ! i else (tracks m ! i)\<lparr>pending_us := pending_us (tracks m ! i) - ucast e\<rparr>)"
  using assms by (simp add: count_down_def nth_append)

lemma count_down_keeps:
  assumes "song_ok m"
  shows "song_ok (count_down e m)" and "keeps m (count_down e m)" and "remaining (count_down e m) = remaining m"
proof -
  have l: "length (tracks m) = MIDI_MAX_TRACKS" "unat (num_tracks m) \<le> MIDI_MAX_TRACKS" using assms by (simp_all add: song_ok_def)
  note nth = count_down_nth [OF l]
  have n: "num_tracks (count_down e m) = num_tracks m" "song (count_down e m) = song m" by (simp_all add: count_down_def)
  show "song_ok (count_down e m)"
    using assms nth n by (auto simp: song_ok_def track_ok_def count_down_def)
  show "keeps m (count_down e m)" by (simp add: keeps_def count_down_def channels_ok_def)
  show "remaining (count_down e m) = remaining m"
    unfolding remaining_def n by (rule sum.cong) (simp_all add: nth weight_def)
qed

lemma count_down_due:
  fixes p :: u64 and e :: u32
  assumes "0 < sint (p - ucast e)" and "e \<noteq> 0"
  shows "unat (p - ucast e) < unat p"
proof -
  let ?q = "p - ucast e"
  have "uint ?q < 2 ^ 63"
  proof (rule ccontr)
    assume "\<not> uint ?q < 2 ^ 63"
    then have "sint ?q \<le> uint ?q - 2 ^ 64"
      using signed_take_bit_int_less_eq [of 63 "uint ?q"] by (simp add: sint_uint)
    moreover have "uint ?q < 2 ^ 64" using unsigned_less [of ?q, where 'a = int] by simp
    ultimately show False using assms(1) by simp
  qed
  then have q: "unat ?q < 2 ^ 63" by (simp only: uint_nat of_nat_less_numeral_power_cancel_iff)
  have e: "unat (ucast e :: u64) = unat e" "unat e < 2 ^ 32"
    using unsigned_less [of e, where 'a = nat] by (simp_all add: unsigned_ucast_eq take_bit_nat_eq_self)
  have "unat (?q + ucast e) = unat ?q + unat (ucast e :: u64)"
    by (rule unat_add_lem [THEN iffD1]) (use q e in simp)
  moreover have "0 < unat e" using assms(2) by (simp add: unat_gt_0)
  ultimately show ?thesis using e by simp
qed

definition active :: "midi \<Rightarrow> bool" where
  "active m \<longleftrightarrow> (\<exists>i < unat (num_tracks m). \<not> ended (tracks m ! i))"

lemma active_take:
  assumes "length (tracks m) = MIDI_MAX_TRACKS" and "unat (num_tracks m) \<le> MIDI_MAX_TRACKS"
  shows "(\<exists>t \<in> set (take (unat (num_tracks m)) (tracks m)). \<not> ended t) = active m"
  using assms by (fastforce simp: active_def in_set_conv_nth)

lemma song_ok_steady: "song_ok m \<Longrightarrow> steady m m' \<Longrightarrow> song_ok m'"
  by (simp add: song_ok_def steady_def)

lemma pump_steps:
  assumes "song_ok m" and "playing m" and "\<not> paused m" and "clock m (clock_pos m) \<noteq> last_pump_us m"
  obtains m3 start e where "steady m m3" "e \<noteq> 0"
    "of_midi_pump m = do {
       m \<leftarrow> dispatch [0..<unat (num_tracks m)] 10000 start (count_down e m3);
       if active m3 then Some m else song_end m }"
proof -
  let ?now = "clock m (clock_pos m)"
  define e where "e = (if 500000 < ?now - last_pump_us m then 500000 else ?now - last_pump_us m)"
  have e: "e \<noteq> 0" using assms(4) by (auto simp: e_def)
  let ?m0 = "m\<lparr>clock_pos := clock_pos m + 1, last_pump_us := ?now\<rparr>"
  let ?m1 = "?m0\<lparr>tick_accum_us := tick_accum_us m + e, clock_pos := clock_pos m + 2\<rparr>"
  let ?start = "clock m (clock_pos m + 1)"
  have pump: "of_midi_pump m = pump_elapsed e ?m0"
    unfolding of_midi_pump_def timer_get_us_def using assms(2,3) e by (simp add: Let_def e_def split: if_splits)
  obtain budget fired over m2 where tl: "tick_loop 500 0 ?start ?m1 = (budget, fired, over, m2)" by (metis prod_cases4)
  have s2: "steady m m2"
    by (rule steady_trans [OF _ tick_loop_steady [OF tl]]) (simp add: steady_def channels_ok_def)
  define m3 where "m3 = emit (Record_pump e fired (budget = 0 \<or> over)) (if budget = 0 \<or> over then m2\<lparr>tick_accum_us := 0\<rparr> else m2)"
  have s3: "steady m m3" unfolding m3_def
    by (rule steady_emit) (use s2 in \<open>simp add: steady_def channels_ok_def\<close>)
  have act: "(\<exists>t \<in> set (take (unat (num_tracks m3)) (tracks m3)). \<not> ended t) = active m3"
    using song_ok_steady [OF assms(1) s3] by (intro active_take) (simp_all add: song_ok_def)
  have n3: "num_tracks m3 = num_tracks m" using s3 by (simp add: steady_def)
  have "pump_elapsed e ?m0 = do {
       m \<leftarrow> dispatch [0..<unat (num_tracks m3)] 10000 ?start (count_down e m3);
       if active m3 then Some m else song_end m }"
    unfolding act [symmetric] using tl by (simp add: pump_elapsed_def timer_get_us_def Let_def m3_def del: tick_loop.simps)
  then show ?thesis using that [OF s3 e] pump n3 by simp
qed

lemma song_end_inside:
  assumes "song_ok m"
  shows "\<exists>m'. song_end m = Some m' \<and> song_ok m' \<and> song m' = song m \<and> clock m' = clock m \<and> (channels_ok m \<longrightarrow> channels_ok m') \<and>
    (\<not> looping m \<longrightarrow> \<not> playing m')"
proof (cases "looping m")
  case True
  let ?m = "reset_channels (emit All_off_global m)"
  have "song_ok ?m" using assms by (simp add: song_ok_def reset_channels_def recompute_us_per_tick_def emit_def)
  then obtain m' where "reset_tracks ?m = Some m'" "song_ok m'" "keeps ?m m'" using reset_tracks_inside by blast
  then show ?thesis using True
    by (auto simp: song_end_def timer_get_us_def song_ok_def keeps_def reset_channels_def recompute_us_per_tick_def emit_def channels_ok_def)
next
  case False
  then show ?thesis using assms by (simp add: song_end_def emit_def song_ok_def channels_ok_def)
qed

lemma due_time_decreases:
  assumes "song_ok m" and "active m" and "e \<noteq> 0" and "\<And>i. i < unat (num_tracks m) \<Longrightarrow> waits (tracks (count_down e m) ! i)"
  shows "due_time (count_down e m) < due_time m"
proof -
  have l: "length (tracks m) = MIDI_MAX_TRACKS" "unat (num_tracks m) \<le> MIDI_MAX_TRACKS" using assms(1) by (simp_all add: song_ok_def)
  note nth = count_down_nth [OF l, of _ e]
  have n: "num_tracks (count_down e m) = num_tracks m" by (simp add: count_down_def)
  have less: "unat (pending_us (tracks m ! i) - ucast e) < unat (pending_us (tracks m ! i))"
    if "i < unat (num_tracks m)" "\<not> ended (tracks m ! i)" for i
    using assms(4) [OF that(1)] that nth [OF that(1)] count_down_due [OF _ assms(3)] by (simp add: waits_def)
  show ?thesis unfolding due_time_def n
  proof (rule sum_strict_mono_ex1)
    show "\<forall>i \<in> {..<unat (num_tracks m)}. (if ended (tracks (count_down e m) ! i) then 0 else unat (pending_us (tracks (count_down e m) ! i)))
        \<le> (if ended (tracks m ! i) then 0 else unat (pending_us (tracks m ! i)))"
      using less by (auto simp: nth intro: less_imp_le)
    show "\<exists>i \<in> {..<unat (num_tracks m)}. (if ended (tracks (count_down e m) ! i) then 0 else unat (pending_us (tracks (count_down e m) ! i)))
        < (if ended (tracks m ! i) then 0 else unat (pending_us (tracks m ! i)))"
      using assms(2) less by (auto simp: active_def nth)
  qed simp
qed

lemma remaining_steady: "steady m m' \<Longrightarrow> remaining m' = remaining m \<and> due_time m' = due_time m \<and> active m' = active m"
proof -
  assume "steady m m'"
  then have "tracks m' = tracks m" "num_tracks m' = num_tracks m" by (simp_all add: steady_def)
  then show ?thesis unfolding remaining_def due_time_def active_def by (simp only: simp_thms)
qed

text \<open>
  A pump call that sees time pass keeps the song; unless the song loops, it ends it, or dispatches events,
  or brings every track nearer to its next event.
\<close>

lemma pump_progress:
  assumes "song_ok m" and "playing m" and "\<not> paused m" and "clock m (clock_pos m) \<noteq> last_pump_us m"
  shows "\<exists>m'. of_midi_pump m = Some m' \<and> song_ok m' \<and> song m' = song m \<and> clock m' = clock m \<and> (channels_ok m \<longrightarrow> channels_ok m') \<and>
    (\<not> looping m \<longrightarrow> \<not> playing m' \<or> playing m' \<and> (remaining m' < remaining m \<or> remaining m' = remaining m \<and> due_time m' < due_time m))"
proof -
  obtain m3 start e where s: "steady m m3" and e: "e \<noteq> 0"
    and p: "of_midi_pump m = do {
       m \<leftarrow> dispatch [0..<unat (num_tracks m)] 10000 start (count_down e m3);
       if active m3 then Some m else song_end m }"
    by (rule pump_steps [OF assms])
  have ok3: "song_ok m3" by (rule song_ok_steady [OF assms(1) s])
  note cd = count_down_keeps [OF ok3, of e]
  have n: "num_tracks (count_down e m3) = num_tracks m" using s by (simp add: count_down_def steady_def)
  obtain m4 where d: "dispatch [0..<unat (num_tracks m)] 10000 start (count_down e m3) = Some m4" "song_ok m4" "keeps (count_down e m3) m4"
    "remaining m4 < remaining (count_down e m3) \<or>
     m4 = count_down e m3 \<and> (\<forall>i \<in> set [0..<unat (num_tracks m)]. waits (tracks (count_down e m3) ! i))"
    using dispatch_inside [OF cd(1), of "[0..<unat (num_tracks m)]" 10000 start] n by fastforce
  have k: "keeps m m4" using keeps_trans [OF steady_keeps [OF s] keeps_trans [OF cd(2) d(3)]] .
  show ?thesis
  proof (cases "active m3")
    case True
    have "remaining m4 < remaining m \<or> remaining m4 = remaining m \<and> due_time m4 < due_time m"
      using d(4) cd(3) remaining_steady [OF s] due_time_decreases [OF ok3 True e] n s by (auto simp: steady_def)
    then show ?thesis using p d(1,2) True k assms(2) by (simp add: keeps_def)
  next
    case False
    then show ?thesis using p d(1) song_end_inside [OF d(2)] k by (auto simp: keeps_def)
  qed
qed

section \<open>Calls in any order\<close>

text \<open>The state at start: everything zero, no bank; the clock is arbitrary.\<close>

definition midi_start :: "(nat \<Rightarrow> u32) \<Rightarrow> midi" where
  "midi_start clk = (let z = replicate 16 0; t = \<lparr>trk_data = 0, trk_len = 0, pos = 0, pending_us = 0, running = 0, ended = False\<rparr> in
     \<lparr>inited = False, playing = False, paused = False, looping = False, song = [], song_len = 0, song_format = 0, num_tracks = 0,
      division = 0, us_per_beat = 0, us_per_tick_q16 = 0, last_pump_us = 0, tick_accum_us = 0, tracks = replicate MIDI_MAX_TRACKS t,
      program = z, volume = z, expression = z, pan = z, sustain = z, mod_wheel = z, brightness = z, resonance = z, master_volume = 0,
      loaded_bank = None, voice_log = [], callback_hz = 0, clock = clk, clock_pos = 0\<rparr>)"

definition bank_inside :: "(u32 \<times> u8 list \<times> u32) option \<Rightarrow> bool" where
  "bank_inside p \<longleftrightarrow> (case p of None \<Rightarrow> True | Some (base, d, sz) \<Rightarrow> unat sz \<le> length d)"

inductive midi_reach :: "midi \<Rightarrow> bool" where
  start: "midi_reach (midi_start clk)"
| init: "midi_reach m \<Longrightarrow> bank_inside p \<Longrightarrow> of_midi_init malloc_ok p m = Some (rc, m') \<Longrightarrow> midi_reach m'"
| play: "midi_reach m \<Longrightarrow> unat len \<le> length data \<Longrightarrow> of_midi_play data len loop m = Some (rc, m') \<Longrightarrow> midi_reach m'"
| pump: "midi_reach m \<Longrightarrow> of_midi_pump m = Some m' \<Longrightarrow> midi_reach m'"
| stop: "midi_reach m \<Longrightarrow> midi_reach (of_midi_stop m)"
| pause: "midi_reach m \<Longrightarrow> midi_reach (of_midi_pause m)"
| resume: "midi_reach m \<Longrightarrow> midi_reach (of_midi_resume m)"
| set_volume: "midi_reach m \<Longrightarrow> midi_reach (of_midi_set_volume v m)"

definition midi_ok :: "midi \<Rightarrow> bool" where
  "midi_ok m \<longleftrightarrow> channels_ok m \<and> length (tracks m) = MIDI_MAX_TRACKS \<and> (playing m \<longrightarrow> song_ok m)"

lemma init_inside:
  assumes "bank_inside p"
  shows "\<exists>rc m'. of_midi_init malloc_ok p m = Some (rc, m') \<and> (midi_ok m \<longrightarrow> midi_ok m')"
proof -
  obtain rc b where "of_smp_bank_bind_preloaded malloc_ok p (loaded_bank m) = Some (rc, b)"
  proof (cases p)
    case None
    then show ?thesis using that by (cases "loaded_bank m") (auto simp: of_smp_bank_bind_preloaded_def)
  next
    case (Some x)
    then obtain base d sz where x: "p = Some (base, d, sz)" "unat sz \<le> length d" using assms by (cases x) (auto simp: bank_inside_def)
    then show ?thesis
      using that bind_outcome [OF x(2), of malloc_ok base] by (cases "loaded_bank m") (auto simp: of_smp_bank_bind_preloaded_def [of _ _ "Some _"])
  qed
  then show ?thesis
    by (simp add: of_midi_init_def Let_def midi_ok_def emit_def reset_channels_def recompute_us_per_tick_def channels_ok_def)
qed

lemma play_inside:
  assumes "midi_ok m" and "unat len \<le> length data"
  shows "\<exists>rc m'. of_midi_play data len loop m = Some (rc, m') \<and> midi_ok m'"
proof (cases "\<not> inited m \<or> playing m \<or> loaded_bank m = None")
  case True
  then show ?thesis using assms by (auto simp: of_midi_play_def)
next
  case False
  let ?m = "m\<lparr>song := data, song_len := len, looping := loop\<rparr>"
  obtain rc m1 where p: "parse_header ?m = Some (rc, m1)" "rc = OF_MIDI_OK \<longrightarrow> song_ok m1" "length (tracks m1) = MIDI_MAX_TRACKS"
    "playing m1 = playing m" "channels_ok m1"
    using parse_header_inside [of ?m] assms by (auto simp: midi_ok_def channels_ok_def)
  show ?thesis
  proof (cases "rc = OF_MIDI_OK")
    case True
    let ?m1 = "emit All_off_global (reset_channels m1)"
    have "song_ok ?m1" "channels_ok ?m1"
      using p(2) True by (simp_all add: song_ok_def reset_channels_def recompute_us_per_tick_def emit_def channels_ok_def)
    moreover from this(1) obtain m2 where "reset_tracks ?m1 = Some m2" "song_ok m2" "keeps ?m1 m2" using reset_tracks_inside by blast
    ultimately show ?thesis using False p(1) True
      by (auto simp: of_midi_play_def timer_get_us_def midi_ok_def song_ok_def keeps_def channels_ok_def)
  next
    case bad: False
    then show ?thesis using False p by (auto simp: of_midi_play_def midi_ok_def)
  qed
qed

lemma pump_inside:
  assumes "midi_ok m"
  shows "\<exists>m'. of_midi_pump m = Some m' \<and> midi_ok m'"
proof -
  consider "\<not> playing m \<or> paused m" | "playing m" "\<not> paused m" "clock m (clock_pos m) = last_pump_us m"
    | "playing m" "\<not> paused m" "clock m (clock_pos m) \<noteq> last_pump_us m" by blast
  then show ?thesis
  proof cases
    case 1
    then show ?thesis using assms by (auto simp: of_midi_pump_def)
  next
    case 2
    then show ?thesis using assms
      by (auto simp: of_midi_pump_def timer_get_us_def midi_ok_def song_ok_def channels_ok_def)
  next
    case 3
    then show ?thesis using assms pump_progress [of m] by (auto simp: midi_ok_def song_ok_def)
  qed
qed

lemma midi_reach_ok: "midi_reach m \<Longrightarrow> midi_ok m"
proof (induction rule: midi_reach.induct)
  case (start clk)
  show ?case by (simp add: midi_ok_def midi_start_def channels_ok_def Let_def)
next
  case (init m p malloc_ok rc m')
  then show ?case using init_inside [of p malloc_ok m] by auto
next
  case (play m len data loop rc m')
  then show ?case using play_inside [of m len data loop] by auto
next
  case (pump m m')
  then show ?case using pump_inside [of m] by auto
qed (auto simp: of_midi_stop_def of_midi_pause_def of_midi_resume_def of_midi_set_volume_def timer_get_us_def emit_def Let_def
      midi_ok_def song_ok_def channels_ok_def)

section \<open>Files of tracks\<close>

definition be32_bytes :: "nat \<Rightarrow> u8 list" where
  "be32_bytes n = map word_of_nat [drop_bit 24 n, drop_bit 16 n, drop_bit 8 n, n]"

definition be16_bytes :: "nat \<Rightarrow> u8 list" where
  "be16_bytes n = map word_of_nat [drop_bit 8 n, n]"

definition MTrk :: nat where "MTrk = 0x4D54726B"

text \<open>A chunk with its tag; a file with format, division and chunks, which counts its tracks in its header.\<close>

definition chunk :: "nat \<times> u8 list \<Rightarrow> u8 list" where
  "chunk c = be32_bytes (fst c) @ be32_bytes (length (snd c)) @ snd c"

definition track_bodies :: "(nat \<times> u8 list) list \<Rightarrow> u8 list list" where
  "track_bodies cs = map snd (filter (\<lambda>c. fst c = MTrk) cs)"

definition midi_file :: "nat \<Rightarrow> nat \<Rightarrow> (nat \<times> u8 list) list \<Rightarrow> u8 list" where
  "midi_file fmt dv cs = be32_bytes 0x4D546864 @ be32_bytes 6 @
     be16_bytes fmt @ be16_bytes (length (track_bodies cs)) @ be16_bytes dv @ concat (map chunk cs)"

lemma be32_here: "be32 (pre @ be32_bytes n @ post) (length pre) = Some (word_of_nat n)"
proof -
  have w: "push_bit 24 (ucast (word_of_nat (drop_bit 24 n) :: u8)) OR push_bit 16 (ucast (word_of_nat (drop_bit 16 n) :: u8)) OR
      push_bit 8 (ucast (word_of_nat (drop_bit 8 n) :: u8)) OR ucast (word_of_nat n :: u8) = (word_of_nat n :: u32)"
  proof (rule bit_word_eqI)
    fix k assume "k < LENGTH(32)"
    then consider "k < 8" | "8 \<le> k" "k < 16" | "16 \<le> k" "k < 24" | "24 \<le> k" "k < 32" by fastforce
    then show "bit (push_bit 24 (ucast (word_of_nat (drop_bit 24 n) :: u8)) OR push_bit 16 (ucast (word_of_nat (drop_bit 16 n) :: u8)) OR
      push_bit 8 (ucast (word_of_nat (drop_bit 8 n) :: u8)) OR ucast (word_of_nat n :: u8) :: u32) k = bit (word_of_nat n :: u32) k"
      by cases (auto simp: bit_simps)
  qed
  show ?thesis by (simp add: be32_def load8_def be32_bytes_def nth_append w)
qed

lemma be16_here: "be16 (pre @ be16_bytes n @ post) (length pre) = Some (word_of_nat n)"
proof -
  have w: "push_bit 8 (ucast (word_of_nat (drop_bit 8 n) :: u8)) OR ucast (word_of_nat n :: u8) = (word_of_nat n :: u16)"
    by (rule bit_word_eqI) (auto simp: bit_simps)
  show ?thesis by (simp add: be16_def load8_def be16_bytes_def nth_append w)
qed

lemma length_bytes [simp]: "length (be32_bytes n) = 4" "length (be16_bytes n) = 2"
  by (simp_all add: be32_bytes_def be16_bytes_def)

definition track_body :: "u8 list \<Rightarrow> track \<Rightarrow> u8 list" where
  "track_body d t = take (unat (trk_len t)) (drop (trk_data t) d)"

lemma unat_word: "n < 2 ^ 32 \<Longrightarrow> unat (word_of_nat n :: u32) = n"
  by (simp add: unsigned_of_nat take_bit_nat_eq_self)

lemma word_of_nat_eq: "a < 2 ^ 32 \<Longrightarrow> b < 2 ^ 32 \<Longrightarrow> (word_of_nat a :: u32) = word_of_nat b \<longleftrightarrow> a = b"
  by (metis unat_word)

lemma find_tracks_step:
  assumes "song m = pre @ chunk (tag, b) @ post" and "song_len m = word_of_nat (length (song m))" and "length (song m) < 2 ^ 32"
    and "found < unat (num_tracks m)" and "tag < 2 ^ 32" and "MTrk < 2 ^ 32"
  shows "find_tracks (Suc fuel) (word_of_nat (length pre)) found m =
    (if tag = MTrk
     then find_tracks fuel (word_of_nat (length (pre @ chunk (tag, b)))) (found + 1)
       (m\<lparr>tracks := (tracks m)[found := \<lparr>trk_data = length pre + 8, trk_len = word_of_nat (length b), pos = 0, pending_us = 0, running = 0, ended = False\<rparr>]\<rparr>)
     else find_tracks fuel (word_of_nat (length (pre @ chunk (tag, b)))) found m)"
proof -
  let ?o = "word_of_nat (length pre) :: u32"
  have len: "length (song m) = length pre + 8 + length b + length post" by (simp add: assms(1) chunk_def)
  have o: "unat ?o = length pre" "unat (?o + 4) = length pre + 4" "unat (?o + 8) = length pre + 8"
    using len assms(3) unat_word [of "length pre"] unat_word [of "length pre + 4"] unat_word [of "length pre + 8"]
    by (simp_all add: add.commute)
  have sl: "unat (song_len m) = length (song m)" using assms(2,3) unat_word by simp
  have room: "unat (song_len m - ?o) = 8 + length b + length post"
    using sl o(1) len by (simp add: unat_sub word_le_nat_alt)
  have r8: "8 \<le> song_len m - ?o" using room by (simp add: word_le_nat_alt)
  have "unat (song_len m - ?o - 8) = length b + length post" using room r8 by (simp add: unat_sub)
  then have fits: "\<not> song_len m - ?o - 8 < word_of_nat (length b)"
    using unat_word [of "length b"] len assms(3) by (simp add: word_less_nat_alt)
  have tl: "be32 (song m) (unat (?o + 4)) = Some (word_of_nat (length b))"
    using be32_here [of "pre @ be32_bytes tag" "length b" "b @ post"] o(2) by (simp add: assms(1) chunk_def)
  have tg: "be32 (song m) (unat ?o) = Some (word_of_nat tag)"
    using be32_here [of pre tag "be32_bytes (length b) @ b @ post"] o(1) by (simp add: assms(1) chunk_def)
  have nx: "word_of_nat (length (pre @ chunk (t, b))) = ?o + (8 + word_of_nat (length b))" for t
    by (simp add: chunk_def)
  have mt: "(word_of_nat tag :: u32) = 0x4D54726B \<longleftrightarrow> tag = MTrk"
    using word_of_nat_eq [OF assms(5,6)] by (simp add: MTrk_def)
  show ?thesis
    using assms(4) r8 by (simp add: tl tg fits mt o(3) nx del: length_append of_nat_add)
qed

lemma find_tracks_chunks:
  assumes "song m = pre @ concat (map chunk cs)" and "song_len m = word_of_nat (length (song m))" and "length (song m) < 2 ^ 32"
    and "unat (num_tracks m) = found + length (track_bodies cs)" and "\<And>c. c \<in> set cs \<Longrightarrow> fst c < 2 ^ 32"
    and "length cs < fuel" and "unat (num_tracks m) \<le> length (tracks m)"
  shows "\<exists>ts. find_tracks fuel (word_of_nat (length pre)) found m = Some (Inr (unat (num_tracks m)), m\<lparr>tracks := ts\<rparr>) \<and>
    length ts = length (tracks m) \<and> (\<forall>i < found. ts ! i = tracks m ! i) \<and>
    (\<forall>j < length (track_bodies cs). track_body (song m) (ts ! (found + j)) = track_bodies cs ! j)"
  using assms
proof (induction cs arbitrary: pre found m fuel)
  case Nil
  have n: "unat (num_tracks m) = found" using Nil.prems(4) by (simp add: track_bodies_def)
  obtain f where "fuel = Suc f" using Nil.prems(6) by (cases fuel) simp_all
  then show ?case by (intro exI [of _ "tracks m"]) (simp add: n track_bodies_def)
next
  case (Cons c cs)
  obtain tag b where c: "c = (tag, b)" by fastforce
  obtain f where f: "fuel = Suc f" "length cs < f" using Cons.prems(6) by (cases fuel) auto
  show ?case
  proof (cases "found < unat (num_tracks m)")
    case False
    then have n: "unat (num_tracks m) = found" "track_bodies (c # cs) = []" using Cons.prems(4) by auto
    show ?thesis by (rule exI [of _ "tracks m"]) (simp add: f(1) n)
  next
    case True
    have tag: "tag < 2 ^ 32" "MTrk < 2 ^ 32" using Cons.prems(5) [of c] c by (auto simp: MTrk_def)
    have sp: "song m = pre @ chunk (tag, b) @ concat (map chunk cs)" using Cons.prems(1) c by simp
    note step = find_tracks_step [OF sp Cons.prems(2,3) True tag, of f]
    have sp': "song m = (pre @ chunk (tag, b)) @ concat (map chunk cs)" using sp by simp
    show ?thesis
    proof (cases "tag = MTrk")
      case mtrk: True
      let ?t = "\<lparr>trk_data = length pre + 8, trk_len = word_of_nat (length b), pos = 0, pending_us = 0, running = 0, ended = False\<rparr>"
      let ?m = "m\<lparr>tracks := (tracks m)[found := ?t]\<rparr>"
      have bodies: "track_bodies (c # cs) = b # track_bodies cs" using c mtrk by (simp add: track_bodies_def)
      obtain ts where ts: "find_tracks f (word_of_nat (length (pre @ chunk (tag, b)))) (found + 1) ?m = Some (Inr (unat (num_tracks ?m)), ?m\<lparr>tracks := ts\<rparr>)"
        "length ts = length (tracks ?m)" "\<forall>i < found + 1. ts ! i = tracks ?m ! i"
        "\<forall>j < length (track_bodies cs). track_body (song ?m) (ts ! (found + 1 + j)) = track_bodies cs ! j"
        using Cons.IH [of ?m "pre @ chunk (tag, b)" "found + 1" f] Cons.prems sp' f(2) bodies by auto
      have "track_body (song m) ?t = b"
        using Cons.prems(3) unat_word [of "length b"] by (simp add: track_body_def sp chunk_def)
      then have "track_body (song m) (ts ! (found + j)) = track_bodies (c # cs) ! j" if "j < length (track_bodies (c # cs))" for j
        using ts(3,4) that True Cons.prems(7) by (cases j) (auto simp: bodies)
      then show ?thesis using ts(1-3) step mtrk by (intro exI [of _ ts]) (auto simp: f(1))
    next
      case other: False
      have bodies: "track_bodies (c # cs) = track_bodies cs" using c other by (simp add: track_bodies_def)
      show ?thesis
        using Cons.IH [of m "pre @ chunk (tag, b)" found f] Cons.prems sp' f(2) step other unfolding bodies f(1) by auto
    qed
  qed
qed

lemma chunks_long: "8 * length cs \<le> length (concat (map chunk cs))"
  by (induction cs) (auto simp: chunk_def)

lemma parse_header_midi_file:
  assumes "song m = midi_file fmt dv cs" and "song_len m = word_of_nat (length (song m))" and "length (song m) < 2 ^ 32"
    and "fmt \<le> 1" and "0 < dv" and "dv < 2 ^ 16" and "track_bodies cs \<noteq> []" and "length (track_bodies cs) \<le> MIDI_MAX_TRACKS"
    and "\<And>c. c \<in> set cs \<Longrightarrow> fst c < 2 ^ 32" and "length (tracks m) = MIDI_MAX_TRACKS"
  shows "\<exists>ts. parse_header m = Some (OF_MIDI_OK, m\<lparr>song_format := word_of_nat fmt, num_tracks := word_of_nat (length (track_bodies cs)),
      division := word_of_nat dv, tracks := ts\<rparr>) \<and> length ts = MIDI_MAX_TRACKS \<and>
    (\<forall>j < length (track_bodies cs). track_body (song m) (ts ! j) = track_bodies cs ! j)"
proof -
  let ?n = "length (track_bodies cs)"
  let ?rest = "concat (map chunk cs)"
  have bytes: "song m = be32_bytes 0x4D546864 @ be32_bytes 6 @ be16_bytes fmt @ be16_bytes ?n @ be16_bytes dv @ ?rest"
    using assms(1) by (simp add: midi_file_def)
  have a: "be32 (song m) 0 = Some 0x4D546864" "be32 (song m) 4 = Some 6"
    using be32_here [of "[]" "0x4D546864" "be32_bytes 6 @ be16_bytes fmt @ be16_bytes ?n @ be16_bytes dv @ ?rest"]
      be32_here [of "be32_bytes 0x4D546864" 6 "be16_bytes fmt @ be16_bytes ?n @ be16_bytes dv @ ?rest"]
    by (simp_all add: bytes)
  have b: "be16 (song m) 8 = Some (word_of_nat fmt)" "be16 (song m) 10 = Some (word_of_nat ?n)" "be16 (song m) 12 = Some (word_of_nat dv)"
    using be16_here [of "be32_bytes 0x4D546864 @ be32_bytes 6" fmt "be16_bytes ?n @ be16_bytes dv @ ?rest"]
      be16_here [of "be32_bytes 0x4D546864 @ be32_bytes 6 @ be16_bytes fmt" ?n "be16_bytes dv @ ?rest"]
      be16_here [of "be32_bytes 0x4D546864 @ be32_bytes 6 @ be16_bytes fmt @ be16_bytes ?n" dv ?rest]
    by (simp_all add: bytes)
  have sl: "unat (song_len m) = length (song m)" using assms(2,3) unat_word by simp
  have l14: "14 \<le> length (song m)" by (simp add: bytes)
  have u16: "unat (word_of_nat k :: u16) = k" if "k < 2 ^ 16" for k
    using that by (simp add: unsigned_of_nat take_bit_nat_eq_self)
  have n16: "unat (word_of_nat ?n :: u16) = ?n" using assms(8) by (intro u16) (simp add: MIDI_MAX_TRACKS_def)
  have checks: "\<not> song_len m < 14" "\<not> song_len m - 8 < 6" "\<not> 1 < (word_of_nat fmt :: u16)" "(word_of_nat ?n :: u16) \<noteq> 0" "(word_of_nat dv :: u16) \<noteq> 0"
    "\<not> (word_of_nat MIDI_MAX_TRACKS :: u16) < word_of_nat ?n"
  proof -
    show "\<not> song_len m < 14" using sl l14 by (simp add: word_less_nat_alt)
    then show "\<not> song_len m - 8 < 6" using sl l14 by (simp add: word_less_nat_alt unat_sub word_le_nat_alt)
    show "\<not> 1 < (word_of_nat fmt :: u16)" using u16 [of fmt] assms(4) by (simp add: word_less_nat_alt)
    show "(word_of_nat ?n :: u16) \<noteq> 0" using n16 assms(7) by (metis length_greater_0_conv not_less_iff_gr_or_eq unsigned_0)
    show "(word_of_nat dv :: u16) \<noteq> 0" using u16 [of dv] assms(5,6) by (metis not_less_iff_gr_or_eq unsigned_0)
    show "\<not> (word_of_nat MIDI_MAX_TRACKS :: u16) < word_of_nat ?n" using n16 assms(8) by (simp add: word_less_nat_alt MIDI_MAX_TRACKS_def)
  qed
  define m1 where "m1 = m\<lparr>song_format := word_of_nat fmt, num_tracks := word_of_nat ?n, division := word_of_nat dv\<rparr>"
  obtain ts where ts: "find_tracks (Suc (unat (song_len m))) 14 0 m1 = Some (Inr ?n, m1\<lparr>tracks := ts\<rparr>)" "length ts = MIDI_MAX_TRACKS"
    "\<forall>j < ?n. track_body (song m) (ts ! j) = track_bodies cs ! j"
  proof -
    have "length cs < Suc (unat (song_len m))" using chunks_long [of cs] sl by (simp add: bytes)
    then show ?thesis
      using find_tracks_chunks [of m1 "be32_bytes 0x4D546864 @ be32_bytes 6 @ be16_bytes fmt @ be16_bytes ?n @ be16_bytes dv" cs 0 "Suc (unat (song_len m))"]
        assms(2,3,8-10) that n16 by (auto simp: m1_def bytes simp del: find_tracks.simps)
  qed
  have "parse_header m = Some (OF_MIDI_OK, m1\<lparr>tracks := ts\<rparr>)"
    using checks ts(1) n16 assms(7)
    by (simp add: parse_header_def a b Let_def m1_def [symmetric] del: find_tracks.simps) (simp add: m1_def)
  then show ?thesis using ts by (intro exI [of _ ts]) (simp add: m1_def)
qed

text \<open>Every track is rewound and its first delta read, under the same tempo.\<close>

abbreviation rewound :: "track \<Rightarrow> track" where
  "rewound t \<equiv> t\<lparr>pos := 0, pending_us := 0, running := 0, ended := False\<rparr>"

lemma read_next_delta_cong: "song m' = song m \<Longrightarrow> us_per_tick_q16 m' = us_per_tick_q16 m \<Longrightarrow> read_next_delta m' t = read_next_delta m t"
  by (simp add: read_next_delta_def)

lemma reset_each_reads:
  assumes "reset_each is m = Some m'" and "distinct is" and "\<And>i. i \<in> set is \<Longrightarrow> i < length (tracks m)"
  shows "\<exists>ts. m' = m\<lparr>tracks := ts\<rparr> \<and> (\<forall>j. j \<notin> set is \<longrightarrow> ts ! j = tracks m ! j) \<and>
    (\<forall>i \<in> set is. read_next_delta m (rewound (tracks m ! i)) = Some (ts ! i))"
  using assms
proof (induction "is" arbitrary: m)
  case Nil
  then show ?case by (intro exI [of _ "tracks m"]) simp
next
  case (Cons i "is")
  obtain t' where t': "read_next_delta m (rewound (tracks m ! i)) = Some t'" "reset_each is (m\<lparr>tracks := (tracks m)[i := t']\<rparr>) = Some m'"
    using Cons.prems(1) by (auto simp: Option.bind_eq_Some_conv)
  let ?m = "m\<lparr>tracks := (tracks m)[i := t']\<rparr>"
  have "\<And>j. j \<in> set is \<Longrightarrow> j < length (tracks ?m)" using Cons.prems(3) by simp
  then obtain ts where ts: "m' = ?m\<lparr>tracks := ts\<rparr>" "\<forall>j. j \<notin> set is \<longrightarrow> ts ! j = tracks ?m ! j"
    "\<forall>j \<in> set is. read_next_delta ?m (rewound (tracks ?m ! j)) = Some (ts ! j)"
    using Cons.IH [OF t'(2)] Cons.prems(2) by auto
  have i: "i \<notin> set is" "i < length (tracks m)" using Cons.prems(2,3) by simp_all
  have "read_next_delta m (rewound (tracks m ! j)) = Some (ts ! j)" if "j \<in> set is" for j
    using ts(3) that i(1) read_next_delta_cong [of ?m m] by (cases "j = i") auto
  moreover have "ts ! i = t'" using ts(2) i by simp
  ultimately show ?case using ts(1,2) t'(1) by (intro exI [of _ ts]) simp
qed

text \<open>Playing a file: its tracks, each rewound with its first delta read, the tempo, and the clock.\<close>

lemma play_midi_file_reads:
  assumes "data = midi_file fmt dv cs" and "len = word_of_nat (length data)" and "length data < 2 ^ 32"
    and "fmt \<le> 1" and "0 < dv" and "dv < 2 ^ 16" and "track_bodies cs \<noteq> []" and "length (track_bodies cs) \<le> MIDI_MAX_TRACKS"
    and "\<And>c. c \<in> set cs \<Longrightarrow> fst c < 2 ^ 32" and "midi_ok m" and "inited m" and "\<not> playing m" and "loaded_bank m \<noteq> None"
  obtains m' where "of_midi_play data len loop m = Some (OF_MIDI_OK, m')" "playing m'" "callback_hz m' = 50"
    "unat (num_tracks m') = length (track_bodies cs)" "song_ok m'" "song m' = data" "\<not> paused m'"
    "\<forall>j < length (track_bodies cs). \<exists>t. track_ok data t \<and> track_body data t = track_bodies cs ! j \<and>
       read_next_delta m' (rewound t) = Some (tracks m' ! j)"
    "division m' = word_of_nat dv" "us_per_tick_q16 m' = push_bit 16 500000 div ucast (division m')"
    "last_pump_us m' = clock m (clock_pos m)" "clock m' = clock m" "clock_pos m' = clock_pos m + 1"
proof -
  let ?m = "m\<lparr>song := data, song_len := len, looping := loop\<rparr>"
  let ?n = "length (track_bodies cs)"
  have len: "length (tracks ?m) = MIDI_MAX_TRACKS" using assms(10) by (simp add: midi_ok_def)
  obtain ts0 where p: "parse_header ?m = Some (OF_MIDI_OK, ?m\<lparr>song_format := word_of_nat fmt, num_tracks := word_of_nat ?n,
      division := word_of_nat dv, tracks := ts0\<rparr>)" and bodies: "\<forall>j < ?n. track_body data (ts0 ! j) = track_bodies cs ! j"
    using parse_header_midi_file [of ?m fmt dv cs] assms(1-9) len by auto
  let ?h = "?m\<lparr>song_format := word_of_nat fmt, num_tracks := word_of_nat ?n, division := word_of_nat dv, tracks := ts0\<rparr>"
  have "unat len \<le> length data" using assms(2,3) unat_word by simp
  then have ok: "song_ok ?h" using parse_header_inside [of ?m] len p by auto
  let ?m1 = "emit All_off_global (reset_channels ?h)"
  have n: "unat (word_of_nat ?n :: u16) = ?n"
    using assms(8) by (simp add: MIDI_MAX_TRACKS_def unsigned_of_nat take_bit_nat_eq_self)
  have u16: "(word_of_nat dv :: u16) \<noteq> 0"
  proof -
    have "unat (word_of_nat dv :: u16) = dv" using assms(6) by (simp add: unsigned_of_nat take_bit_nat_eq_self)
    then show ?thesis using assms(5) by (metis less_not_refl unsigned_0)
  qed
  have same: "tracks ?m1 = ts0" "song ?m1 = data" "num_tracks ?m1 = word_of_nat ?n" "division ?m1 = word_of_nat dv"
    "us_per_tick_q16 ?m1 = push_bit 16 500000 div ucast (word_of_nat dv :: u16)" "clock ?m1 = clock m" "clock_pos ?m1 = clock_pos m"
    using u16 by (simp_all add: reset_channels_def recompute_us_per_tick_def emit_def)
  have ok1: "song_ok ?m1" using ok same by (simp add: song_ok_def)
  obtain m2 where m2: "reset_tracks ?m1 = Some m2" "song_ok m2" using reset_tracks_inside [OF ok1] by blast
  have idx: "\<And>i. i \<in> set [0..<unat (num_tracks ?m1)] \<Longrightarrow> i < length (tracks ?m1)" using ok1 by (simp add: song_ok_def)
  obtain ts where ts: "m2 = ?m1\<lparr>tracks := ts\<rparr>"
    "\<forall>i \<in> set [0..<unat (num_tracks ?m1)]. read_next_delta ?m1 (rewound (tracks ?m1 ! i)) = Some (ts ! i)"
    using reset_each_reads [OF m2(1) [unfolded reset_tracks_def] distinct_upt idx] by blast
  let ?r = "m2\<lparr>playing := True, paused := False, clock_pos := clock_pos m2 + 1, last_pump_us := clock m2 (clock_pos m2), callback_hz := 50\<rparr>"
  have run: "of_midi_play data len loop m = Some (OF_MIDI_OK, ?r)"
    using assms(11-13) p m2(1) by (auto simp: of_midi_play_def timer_get_us_def)
  have reads: "\<exists>t. track_ok data t \<and> track_body data t = track_bodies cs ! j \<and> read_next_delta ?r (rewound t) = Some (tracks ?r ! j)" if "j < ?n" for j
  proof (intro exI [of _ "ts0 ! j"] conjI)
    show "track_ok data (ts0 ! j)" using ok1 same n that by (simp add: song_ok_def)
    show "track_body data (ts0 ! j) = track_bodies cs ! j" using bodies that by simp
    show "read_next_delta ?r (rewound (ts0 ! j)) = Some (tracks ?r ! j)"
      using ts(2) same(1,3) n that read_next_delta_cong [of ?r ?m1] by (simp add: ts(1))
  qed
  show ?thesis
    by (rule that [OF run]) (use reads m2(2) same n in \<open>simp_all add: ts(1) song_ok_def\<close>)
qed

lemma play_midi_file:
  assumes "data = midi_file fmt dv cs" and "len = word_of_nat (length data)" and "length data < 2 ^ 32"
    and "fmt \<le> 1" and "0 < dv" and "dv < 2 ^ 16" and "track_bodies cs \<noteq> []" and "length (track_bodies cs) \<le> MIDI_MAX_TRACKS"
    and "\<And>c. c \<in> set cs \<Longrightarrow> fst c < 2 ^ 32" and "midi_ok m" and "inited m" and "\<not> playing m" and "loaded_bank m \<noteq> None"
  obtains m' where "of_midi_play data len loop m = Some (OF_MIDI_OK, m')" "playing m'" "callback_hz m' = 50"
    "unat (num_tracks m') = length (track_bodies cs)"
    "\<forall>j < length (track_bodies cs). track_body data (tracks m' ! j) = track_bodies cs ! j"
proof -
  obtain m' where m': "of_midi_play data len loop m = Some (OF_MIDI_OK, m')" "playing m'" "callback_hz m' = 50"
    "unat (num_tracks m') = length (track_bodies cs)" "song m' = data"
    "\<forall>j < length (track_bodies cs). \<exists>t. track_ok data t \<and> track_body data t = track_bodies cs ! j \<and>
       read_next_delta m' (rewound t) = Some (tracks m' ! j)"
    by (rule play_midi_file_reads [OF assms]) blast
  have "track_body data (tracks m' ! j) = track_bodies cs ! j" if j: "j < length (track_bodies cs)" for j
  proof -
    obtain t where t: "track_ok data t" "track_body data t = track_bodies cs ! j" "read_next_delta m' (rewound t) = Some (tracks m' ! j)"
      using m'(6) j by blast
    have "track_ok data (rewound t)" by (rule track_ok_reset [OF t(1)])
    then have "advances data (rewound t) (tracks m' ! j)"
      using read_next_delta_inside [of data "rewound t" m'] m'(5) t(3) by auto
    then show ?thesis using t(2) by (simp add: advances_def track_body_def)
  qed
  then show ?thesis using that m'(1-4) by blast
qed

end
