(* ===== verification/MidiClaims.thy ===== *)
theory MidiClaims
  imports MidiSpec
begin

text \<open>The properties of the MIDI player, with a short song played from the demonstration bank.\<close>

section \<open>A song\<close>

text \<open>One track: a chord note on and off after 96 ticks, then the end of the track.\<close>

definition demo_track :: "u8 list" where
  "demo_track = [0, 0x90, 60, 100, 96, 0x80, 60, 0, 0, 0xFF, 0x2F, 0]"

definition demo_chunks :: "(nat \<times> u8 list) list" where
  "demo_chunks = [(0x74657374, [1, 2]), (MTrk, demo_track)]"

definition demo_song :: "u8 list" where
  "demo_song = midi_file 0 96 demo_chunks"

lemma demo_bodies: "track_bodies demo_chunks = [demo_track]"
  by (simp add: demo_chunks_def track_bodies_def MTrk_def)

lemma demo_song_length: "length demo_song = 44"
  by (simp add: demo_song_def demo_chunks_def midi_file_def chunk_def demo_track_def)

lemma demo_song_facts: "44 = word_of_nat (length demo_song)" "length demo_song < 2 ^ 32" "track_bodies demo_chunks \<noteq> []"
  "length (track_bodies demo_chunks) \<le> MIDI_MAX_TRACKS" "c \<in> set demo_chunks \<Longrightarrow> fst c < 2 ^ 32"
proof -
  show "44 = word_of_nat (length demo_song)" "length demo_song < 2 ^ 32" by (simp_all add: demo_song_length)
  show "track_bodies demo_chunks \<noteq> []" "length (track_bodies demo_chunks) \<le> MIDI_MAX_TRACKS"
    by (simp_all add: demo_bodies MIDI_MAX_TRACKS_def)
  show "fst c < 2 ^ 32" if "c \<in> set demo_chunks" using that by (auto simp: demo_chunks_def MTrk_def)
qed

text \<open>The player after its start and \<open>of_midi_init\<close> with the demonstration bank.\<close>

lemma demo_ready:
  obtains m where "midi_reach m" "inited m" "\<not> playing m" "loaded_bank m \<noteq> None" "clock m = clk" "clock_pos m = 0"
proof -
  let ?p = "Some (0x13000000, demo_bank, 1236 :: u32) :: (u32 \<times> u8 list \<times> u32) option"
  obtain b where b: "of_smp_bank_bind_preloaded (\<lambda>_. True) ?p None = Some (1, Some b)"
    using bind_outcome [of 1236 demo_bank "\<lambda>_. True" "0x13000000"] demo_bank_valid by (fastforce simp: demo_bank_length)
  have l: "loaded_bank (midi_start clk) = None" by (simp add: midi_start_def Let_def)
  obtain m where i: "of_midi_init (\<lambda>_. True) ?p (midi_start clk) = Some (OF_MIDI_OK, m)" and m: "inited m" "\<not> playing m" "loaded_bank m = Some b" "clock m = clk" "clock_pos m = 0"
    by (simp add: of_midi_init_def l b Let_def emit_def reset_channels_def recompute_us_per_tick_def)
      (simp add: midi_start_def Let_def)
  have "midi_reach m"
    by (rule midi_reach.init [OF midi_reach.start _ i]) (simp add: bank_inside_def demo_bank_length)
  then show ?thesis using that m by simp
qed

lemma demo_playing:
  obtains m where "midi_reach m" "playing m" "unat (num_tracks m) = 1" "track_body demo_song (tracks m ! 0) = demo_track"
proof -
  obtain m0 where m0: "midi_reach m0" "inited m0" "\<not> playing m0" "loaded_bank m0 \<noteq> None"
    by (rule demo_ready)
  obtain m where p: "of_midi_play demo_song 44 False m0 = Some (OF_MIDI_OK, m)" "playing m" "unat (num_tracks m) = 1"
    "track_body demo_song (tracks m ! 0) = demo_track"
    by (rule play_midi_file [OF demo_song_def demo_song_facts(1,2) _ _ _ demo_song_facts(3,4) demo_song_facts(5)
          midi_reach_ok [OF m0(1)] m0(2-4), of False]) (simp_all add: demo_bodies)
  have "midi_reach m" by (rule midi_reach.play [OF m0(1) _ p(1)]) (simp add: demo_song_length)
  then show ?thesis using that p by blast
qed

section \<open>Properties\<close>

text \<open>
  C37: In every state the calls of an app and of the timer can bring about, no call reads a byte outside
  the MIDI file or the preloaded bank, whatever these hold, and the controller tables have their 16 entries.
\<close>

theorem midi_reads_confined:
  assumes "midi_reach m"
  shows "of_midi_pump m \<noteq> None \<and>
    (\<forall>data len loop. unat len \<le> length data \<longrightarrow> of_midi_play data len loop m \<noteq> None) \<and>
    (\<forall>malloc_ok p. bank_inside p \<longrightarrow> of_midi_init malloc_ok p m \<noteq> None) \<and> channels_ok m"
  using pump_inside [OF midi_reach_ok [OF assms]] play_inside [OF midi_reach_ok [OF assms]] init_inside midi_reach_ok [OF assms]
  by (fastforce simp: midi_ok_def)

theorem midi_reads_confined_witness: "\<exists>m. midi_reach m \<and> playing m \<and> of_midi_pump m \<noteq> None"
proof -
  obtain m where "midi_reach m" "playing m" by (rule demo_playing)
  then show ?thesis using midi_reads_confined [of m] by blast
qed

text \<open>
  C38: A song that does not loop ends: there is no infinite sequence of timer calls that each see the
  clock move while it plays, whatever its bytes and however often a call runs over its time.
\<close>

theorem midi_song_ends:
  "wfp (\<lambda>m' m. midi_reach m \<and> playing m \<and> \<not> paused m \<and> \<not> looping m \<and> clock m (clock_pos m) \<noteq> last_pump_us m \<and>
     of_midi_pump m = Some m')"
proof -
  let ?f = "\<lambda>m. (of_bool (playing m) :: nat, remaining m, due_time m)"
  let ?r = "{(m', m). midi_reach m \<and> playing m \<and> \<not> paused m \<and> \<not> looping m \<and> clock m (clock_pos m) \<noteq> last_pump_us m \<and>
      of_midi_pump m = Some m'}"
  have "wf (inv_image (less_than <*lex*> less_than <*lex*> less_than) ?f)" by (intro wf_inv_image wf_lex_prod wf_less_than)
  moreover have "?r \<subseteq> inv_image (less_than <*lex*> less_than <*lex*> less_than) ?f"
  proof safe
    fix m' m assume "midi_reach m" "playing m" "\<not> paused m" "\<not> looping m" "clock m (clock_pos m) \<noteq> last_pump_us m" "of_midi_pump m = Some m'"
    then show "(m', m) \<in> inv_image (less_than <*lex*> less_than <*lex*> less_than) ?f"
      using pump_progress [of m] midi_reach_ok [of m] by (auto simp: midi_ok_def)
  qed
  ultimately show ?thesis unfolding wfp_def by (rule wf_subset)
qed

end
