(* ===== verification/MidiPlay.thy ===== *)
theory MidiPlay
  imports MidiClaims
begin

text \<open>
  What a track means: a list of events, each with the ticks to wait before it, written with variable-length
  deltas and, where wanted, running status. A timer call that is not cut short plays exactly the events
  that are due, in the order of the tracks, and leaves each track waiting for its next one.
\<close>

section \<open>Events as bytes\<close>

datatype song_event =
    Ev_note_off nat u8 u8
  | Ev_note_on nat u8 u8
  | Ev_aftertouch nat u8 u8
  | Ev_control nat u8 u8
  | Ev_program nat u8
  | Ev_pressure nat u8
  | Ev_bend nat u8 u8
  | Ev_tempo nat
  | Ev_text u8 "u8 list"
  | Ev_sysex "u8 list"
  | Ev_end

definition group7 :: "nat \<Rightarrow> nat \<Rightarrow> u8" where
  "group7 k n = word_of_nat (take_bit 7 (drop_bit (7 * k) n))"

definition vlq :: "nat \<Rightarrow> u8 list" where
  "vlq n = (if n < 2 ^ 7 then [group7 0 n]
     else if n < 2 ^ 14 then [0x80 OR group7 1 n, group7 0 n]
     else if n < 2 ^ 21 then [0x80 OR group7 2 n, 0x80 OR group7 1 n, group7 0 n]
     else [0x80 OR group7 3 n, 0x80 OR group7 2 n, 0x80 OR group7 1 n, group7 0 n])"

text \<open>The status byte of a channel message and its data; \<open>None\<close> for the others.\<close>

fun voice_bytes :: "song_event \<Rightarrow> (u8 \<times> u8 list) option" where
  "voice_bytes (Ev_note_off ch n v) = Some (0x80 OR word_of_nat ch, [n, v])"
| "voice_bytes (Ev_note_on ch n v) = Some (0x90 OR word_of_nat ch, [n, v])"
| "voice_bytes (Ev_aftertouch ch n v) = Some (0xA0 OR word_of_nat ch, [n, v])"
| "voice_bytes (Ev_control ch c v) = Some (0xB0 OR word_of_nat ch, [c, v])"
| "voice_bytes (Ev_program ch p) = Some (0xC0 OR word_of_nat ch, [p])"
| "voice_bytes (Ev_pressure ch p) = Some (0xD0 OR word_of_nat ch, [p])"
| "voice_bytes (Ev_bend ch l h) = Some (0xE0 OR word_of_nat ch, [l, h])"
| "voice_bytes _ = None"

fun other_bytes :: "song_event \<Rightarrow> u8 list" where
  "other_bytes (Ev_tempo us) = [0xFF, 0x51, 3, word_of_nat (drop_bit 16 us), word_of_nat (drop_bit 8 us), word_of_nat us]"
| "other_bytes (Ev_text ty ds) = 0xFF # ty # vlq (length ds) @ ds"
| "other_bytes (Ev_sysex ds) = 0xF0 # vlq (length ds) @ ds"
| "other_bytes _ = [0xFF, 0x2F, 0]"

text \<open>An event's bytes under running status \<open>r\<close>; \<open>short\<close> asks to leave out a status byte that is running.\<close>

definition event_bytes :: "bool \<Rightarrow> u8 \<Rightarrow> song_event \<Rightarrow> u8 list" where
  "event_bytes short r e = (case voice_bytes e of None \<Rightarrow> other_bytes e
     | Some (s, ds) \<Rightarrow> if short \<and> r = s then ds else s # ds)"

definition running_after :: "song_event \<Rightarrow> u8 \<Rightarrow> u8" where
  "running_after e r = (case voice_bytes e of None \<Rightarrow> r | Some (s, ds) \<Rightarrow> s)"

fun event_ok :: "song_event \<Rightarrow> bool" where
  "event_ok (Ev_note_off ch n v) = (ch < 16 \<and> n < 0x80)"
| "event_ok (Ev_note_on ch n v) = (ch < 16 \<and> n < 0x80)"
| "event_ok (Ev_aftertouch ch n v) = (ch < 16 \<and> n < 0x80)"
| "event_ok (Ev_control ch c v) = (ch < 16 \<and> c < 0x80)"
| "event_ok (Ev_program ch p) = (ch < 16 \<and> p < 0x80)"
| "event_ok (Ev_pressure ch p) = (ch < 16 \<and> p < 0x80)"
| "event_ok (Ev_bend ch l h) = (ch < 16 \<and> l < 0x80)"
| "event_ok (Ev_tempo us) = (us < 2 ^ 24)"
| "event_ok (Ev_text ty ds) = (ty \<noteq> 0x51 \<and> ty \<noteq> 0x2F \<and> length ds < 2 ^ 28)"
| "event_ok (Ev_sysex ds) = (length ds < 2 ^ 28)"
| "event_ok Ev_end = True"

fun apply_event :: "song_event \<Rightarrow> midi \<Rightarrow> midi" where
  "apply_event (Ev_note_off ch n v) m = emit (Note_off ch n) m"
| "apply_event (Ev_note_on ch n v) m = (if 0 < v then note_on ch n v m else emit (Note_off ch n) m)"
| "apply_event (Ev_control ch c v) m = control_change ch c v m"
| "apply_event (Ev_program ch p) m = m\<lparr>program := (program m)[ch := p]\<rparr>"
| "apply_event (Ev_bend ch l h) m = emit (Bend ch (uint h * 128 + uint l - 8192)) m"
| "apply_event (Ev_tempo us) m = recompute_us_per_tick (m\<lparr>us_per_beat := word_of_nat us\<rparr>)"
| "apply_event _ m = m"

section \<open>Reading them back\<close>

text \<open>The bytes of a track that are still to come.\<close>

definition rest :: "u8 list \<Rightarrow> track \<Rightarrow> u8 list" where
  "rest d t = take (unat (trk_len t) - unat (pos t)) (drop (trk_data t + unat (pos t)) d)"

lemma rest_Cons:
  assumes "track_ok d t" and "rest d t = b # xs"
  shows "pos t < trk_len t" and "track_byte d t (pos t) = Some b" and "next_byte d t = Some (b, t\<lparr>pos := pos t + 1\<rparr>)"
    and "track_ok d (t\<lparr>pos := pos t + 1\<rparr>)" and "rest d (t\<lparr>pos := pos t + 1\<rparr>) = xs" and "unat (pos t + 1) = unat (pos t) + 1"
proof -
  let ?k = "trk_data t + unat (pos t)"
  have "unat (trk_len t) - unat (pos t) \<noteq> 0" using assms(2) by (metis rest_def take_eq_Nil list.distinct(1))
  then show p: "pos t < trk_len t" by (simp add: word_less_nat_alt)
  have k: "?k < length d" using p assms(1) by (simp add: track_ok_def word_less_nat_alt)
  have "rest d t = d ! ?k # take (unat (trk_len t) - unat (pos t) - 1) (drop (Suc ?k) d)"
    using p k by (cases "unat (trk_len t) - unat (pos t)") (simp_all add: rest_def Cons_nth_drop_Suc [symmetric] word_less_nat_alt)
  then have b: "b = d ! ?k" and xs: "xs = take (unat (trk_len t) - unat (pos t) - 1) (drop (Suc ?k) d)" using assms(2) by simp_all
  show tb: "track_byte d t (pos t) = Some b" using k b by (simp add: track_byte_def load8_def)
  obtain b' where nb: "next_byte d t = Some (b', t\<lparr>pos := pos t + 1\<rparr>)" "advances d t (t\<lparr>pos := pos t + 1\<rparr>)" and u: "unat (pos t + 1) = unat (pos t) + 1"
    by (rule next_byte_inside [OF assms(1) p])
  show "next_byte d t = Some (b, t\<lparr>pos := pos t + 1\<rparr>)" using tb by (simp add: next_byte_def)
  show "track_ok d (t\<lparr>pos := pos t + 1\<rparr>)" using nb(2) by (rule advances_ok)
  show "unat (pos t + 1) = unat (pos t) + 1" by (rule u)
  show "rest d (t\<lparr>pos := pos t + 1\<rparr>) = xs" using xs u by (simp add: rest_def)
qed

lemma rest_skip:
  assumes "track_ok d t" and "rest d t = ys @ xs"
  shows "track_ok d (t\<lparr>pos := pos t + word_of_nat (length ys)\<rparr>)" and "rest d (t\<lparr>pos := pos t + word_of_nat (length ys)\<rparr>) = xs"
    and "\<not> trk_len t - pos t < word_of_nat (length ys)"
proof -
  have pl: "unat (pos t) \<le> unat (trk_len t)" "trk_data t + unat (trk_len t) \<le> length d"
    using assms(1) by (simp_all add: track_ok_def word_le_nat_alt)
  have l: "length ys + length xs = unat (trk_len t) - unat (pos t)"
    using arg_cong [OF assms(2), of length] pl by (simp add: rest_def)
  then have "length ys < 2 ^ 32" using unsigned_less [of "trk_len t", where 'a = nat] by simp
  then have u: "unat (word_of_nat (length ys) :: u32) = length ys" by (rule unat_word)
  have n: "word_of_nat (length ys) \<le> trk_len t - pos t"
    using l u pl by (simp add: word_le_nat_alt unat_sub)
  then show "\<not> trk_len t - pos t < word_of_nat (length ys)" by simp
  show "track_ok d (t\<lparr>pos := pos t + word_of_nat (length ys)\<rparr>)" by (rule pos_plus(1) [OF assms(1) n])
  have up: "unat (pos t + word_of_nat (length ys)) = unat (pos t) + length ys" using pos_plus(3) [OF assms(1) n] u by simp
  have "rest d (t\<lparr>pos := pos t + word_of_nat (length ys)\<rparr>) = drop (length ys) (rest d t)"
    using l up by (simp add: rest_def drop_take ac_simps)
  then show "rest d (t\<lparr>pos := pos t + word_of_nat (length ys)\<rparr>) = xs" by (simp add: assms(2))
qed

text \<open>A variable-length number is read back.\<close>

lemma bit_group7: "bit (group7 k n) i \<longleftrightarrow> i < 7 \<and> bit n (7 * k + i)"
  by (auto simp: group7_def bit_simps)

lemma bit_0x80: "bit (0x80 :: int) i \<longleftrightarrow> i = 7"
proof -
  have "(0x80 :: int) = 2 ^ 7" by simp
  then show ?thesis by (auto simp only: bit_exp_iff) simp_all
qed

lemma bit_0x7F: "bit (0x7F :: int) i \<longleftrightarrow> i < 7"
proof -
  have "(0x7F :: int) = mask 7" by (simp add: mask_eq_exp_minus_1)
  then show ?thesis by (simp only: bit_mask_iff) simp
qed

lemma group7_high: "(0x80 OR group7 k n) AND 0x80 \<noteq> 0" "group7 k n AND 0x80 = 0"
proof -
  have "bit ((0x80 OR group7 k n) AND 0x80 :: u8) 7" by (simp add: bit_and_iff bit_or_iff bit_0x80)
  then show "(0x80 OR group7 k n) AND 0x80 \<noteq> 0" by (metis bit_0_eq bot_apply bot_bool_def)
  show "group7 k n AND 0x80 = 0" by (rule bit_word_eqI) (auto simp: bit_and_iff bit_0x80 bit_group7)
qed

definition group7_value :: "nat \<Rightarrow> nat \<Rightarrow> u32" where
  "group7_value k n = word_of_nat (take_bit 7 (drop_bit (7 * k) n))"

lemma bit_group7_value: "bit (group7_value k n) i \<longleftrightarrow> i < 7 \<and> bit n (7 * k + i)"
  by (auto simp: group7_value_def bit_simps)

lemma group7_low: "ucast (0x80 OR group7 k n) AND 0x7F = group7_value k n" "ucast (group7 k n) AND 0x7F = group7_value k n"
  by (rule bit_word_eqI, auto simp: bit_and_iff bit_or_iff bit_ucast_iff bit_0x80 bit_0x7F bit_group7 bit_group7_value)+

lemma bit_high_nat: "n < 2 ^ k \<Longrightarrow> bit (n :: nat) i \<Longrightarrow> i < k"
  by (metis bit_take_bit_iff take_bit_nat_eq_self)

lemma read_var_more:
  assumes "track_ok d t" and "rest d t = (0x80 OR group7 k n) # xs"
  shows "read_var_from d (Suc j) v t = read_var_from d j (push_bit 7 v OR group7_value k n) (t\<lparr>pos := pos t + 1\<rparr>)"
  using rest_Cons [OF assms] by (simp add: Let_def group7_high group7_low)

lemma read_var_last:
  assumes "track_ok d t" and "rest d t = group7 k n # xs"
  shows "read_var_from d (Suc j) v t = Some (push_bit 7 v OR group7_value k n, t\<lparr>pos := pos t + 1\<rparr>)"
  using rest_Cons [OF assms] by (simp add: Let_def group7_high group7_low)

lemma vlq_value:
  "n < 2 ^ 7 \<Longrightarrow> group7_value 0 n = word_of_nat n"
  "n < 2 ^ 14 \<Longrightarrow> push_bit 7 (group7_value 1 n) OR group7_value 0 n = word_of_nat n"
  "n < 2 ^ 21 \<Longrightarrow> push_bit 7 (push_bit 7 (group7_value 2 n) OR group7_value 1 n) OR group7_value 0 n = word_of_nat n"
  "n < 2 ^ 28 \<Longrightarrow> push_bit 7 (push_bit 7 (push_bit 7 (group7_value 3 n) OR group7_value 2 n) OR group7_value 1 n) OR group7_value 0 n = word_of_nat n"
proof -
  note bits = bit_push_bit_iff bit_or_iff bit_group7_value bit_simps
  show "group7_value 0 n = word_of_nat n" if "n < 2 ^ 7"
    using bit_high_nat [OF that] by (intro bit_word_eqI) (auto simp: bits)
  show "push_bit 7 (group7_value 1 n) OR group7_value 0 n = word_of_nat n" if "n < 2 ^ 14"
  proof (rule bit_word_eqI)
    fix i assume "i < LENGTH(32)"
    then show "bit (push_bit 7 (group7_value 1 n) OR group7_value 0 n) i = bit (word_of_nat n :: u32) i"
      using bit_high_nat [OF that, of i] by (cases "i < 7") (auto simp: bits)
  qed
  show "push_bit 7 (push_bit 7 (group7_value 2 n) OR group7_value 1 n) OR group7_value 0 n = word_of_nat n" if "n < 2 ^ 21"
  proof (rule bit_word_eqI)
    fix i assume "i < LENGTH(32)"
    then show "bit (push_bit 7 (push_bit 7 (group7_value 2 n) OR group7_value 1 n) OR group7_value 0 n) i = bit (word_of_nat n :: u32) i"
      using bit_high_nat [OF that, of i] by (cases "i < 7"; cases "i < 14") (auto simp: bits)
  qed
  show "push_bit 7 (push_bit 7 (push_bit 7 (group7_value 3 n) OR group7_value 2 n) OR group7_value 1 n) OR group7_value 0 n = word_of_nat n"
    if "n < 2 ^ 28"
  proof (rule bit_word_eqI)
    fix i assume "i < LENGTH(32)"
    then show "bit (push_bit 7 (push_bit 7 (push_bit 7 (group7_value 3 n) OR group7_value 2 n) OR group7_value 1 n) OR group7_value 0 n) i =
        bit (word_of_nat n :: u32) i"
      using bit_high_nat [OF that, of i] by (cases "i < 7"; cases "i < 14"; cases "i < 21") (auto simp: bits)
  qed
qed

lemma read_var_vlq:
  assumes ok: "track_ok d t" and r: "rest d t = vlq n @ xs" and n: "n < 2 ^ 28"
  obtains p where "read_var d t = Some (word_of_nat n, t\<lparr>pos := p\<rparr>)" "track_ok d (t\<lparr>pos := p\<rparr>)" "rest d (t\<lparr>pos := p\<rparr>) = xs"
proof -
  let ?t = "\<lambda>k. t\<lparr>pos := pos t + k\<rparr>"
  have four: "read_var d t = read_var_from d (Suc (Suc (Suc (Suc 0)))) 0 t" by (simp add: read_var_def numeral_eq_Suc del: read_var_from.simps)
  have step: "track_ok d (?t (k + 1)) \<and> rest d (?t (k + 1)) = ys" if "track_ok d (?t k)" "rest d (?t k) = b # ys" for k b ys
    using rest_Cons(4,5) [OF that] by (simp add: add.assoc)
  have zero: "?t 0 = t" by simp
  consider "n < 2 ^ 7" | "\<not> n < 2 ^ 7" "n < 2 ^ 14" | "\<not> n < 2 ^ 14" "n < 2 ^ 21" | "\<not> n < 2 ^ 21" by linarith
  then show ?thesis
  proof cases
    case 1
    then have r1: "rest d t = group7 0 n # xs" using r by (simp add: vlq_def)
    have "read_var d t = Some (word_of_nat n, ?t 1)"
      unfolding four read_var_last [OF ok r1] using vlq_value(1) [OF 1] by simp
    then show ?thesis using that rest_Cons(4,5) [OF ok r1] by blast
  next
    case 2
    then have r2: "rest d t = (0x80 OR group7 1 n) # group7 0 n # xs" using r by (simp add: vlq_def)
    have s1: "track_ok d (?t 1)" "rest d (?t 1) = group7 0 n # xs" using step [of 0] ok r2 by simp_all
    have "read_var d t = Some (word_of_nat n, ?t 2)"
      unfolding four read_var_more [OF ok r2] read_var_last [OF s1] using vlq_value(2) [OF 2(2)] by (simp add: add.assoc)
    then show ?thesis using that step [of 1, OF s1] by simp
  next
    case 3
    then have r3: "rest d t = (0x80 OR group7 2 n) # (0x80 OR group7 1 n) # group7 0 n # xs" using r by (simp add: vlq_def)
    have s1: "track_ok d (?t 1)" "rest d (?t 1) = (0x80 OR group7 1 n) # group7 0 n # xs" using step [of 0] ok r3 by simp_all
    have s2: "track_ok d (?t 2)" "rest d (?t 2) = group7 0 n # xs" using step [OF s1] by simp_all
    have "read_var d t = Some (word_of_nat n, ?t 3)"
      unfolding four read_var_more [OF ok r3] read_var_more [OF s1]
      using read_var_last [OF s2] vlq_value(3) [OF 3(2)] by (simp add: add.assoc del: read_var_from.simps)
    then show ?thesis using that step [of 2, OF s2] by simp
  next
    case 4
    then have r4: "rest d t = (0x80 OR group7 3 n) # (0x80 OR group7 2 n) # (0x80 OR group7 1 n) # group7 0 n # xs" using r by (simp add: vlq_def)
    have s1: "track_ok d (?t 1)" "rest d (?t 1) = (0x80 OR group7 2 n) # (0x80 OR group7 1 n) # group7 0 n # xs" using step [of 0] ok r4 by simp_all
    have s2: "track_ok d (?t 2)" "rest d (?t 2) = (0x80 OR group7 1 n) # group7 0 n # xs" using step [OF s1] by simp_all
    have s3: "track_ok d (?t 3)" "rest d (?t 3) = group7 0 n # xs" using step [OF s2] by simp_all
    have "read_var d t = Some (word_of_nat n, ?t 4)"
      unfolding four read_var_more [OF ok r4] read_var_more [OF s1]
      using read_var_more [OF s2, of "Suc 0"] read_var_last [OF s3] vlq_value(4) [OF n] by (simp add: add.assoc del: read_var_from.simps)
    then show ?thesis using that step [of 3, OF s3] by simp
  qed
qed

section \<open>Events are played as written\<close>

lemma status_table:
  "list_all (\<lambda>ch. list_all (\<lambda>c. (c OR word_of_nat ch) AND 0xF0 = (c :: u8) \<and> unat ((c OR word_of_nat ch) AND 0x0F) = ch \<and>
     \<not> c OR word_of_nat ch < 0x80 \<and> c OR word_of_nat ch < 0xF0) [0x80, 0x90, 0xA0, 0xB0, 0xC0, 0xD0, 0xE0])
     [0, 1, 2, 3, 4, 5, 6, 7, 8, 9, 10, 11, 12, 13, 14, 15]"
  by code_simp

lemma status_nibbles:
  assumes "ch < 16" and "c \<in> {0x80, 0x90, 0xA0, 0xB0, 0xC0, 0xD0, 0xE0}"
  shows "(c OR word_of_nat ch) AND 0xF0 = (c :: u8)" and "unat ((c OR word_of_nat ch) AND 0x0F) = ch"
    and "\<not> c OR word_of_nat ch < 0x80" and "c OR word_of_nat ch < 0xF0"
proof -
  have "ch \<in> set [0, 1, 2, 3, 4, 5, 6, 7, 8, 9, 10, 11, 12, 13, 14, 15]"
    unfolding set_simps insert_iff empty_iff using assms(1) by presburger
  moreover have "c \<in> set [0x80, 0x90, 0xA0, 0xB0, 0xC0, 0xD0, 0xE0]" using assms(2) by simp
  ultimately show "(c OR word_of_nat ch) AND 0xF0 = c" "unat ((c OR word_of_nat ch) AND 0x0F) = ch"
    "\<not> c OR word_of_nat ch < 0x80" "c OR word_of_nat ch < 0xF0"
    using status_table unfolding list_all_iff by blast+
qed

text \<open>A channel message, with its status byte or without it when that is the running one.\<close>

lemma process_voice:
  assumes ok: "track_ok (song m) t" and e: "\<not> ended t" and v: "voice_bytes ev = Some (s, ds)" and eo: "event_ok ev"
    and r: "rest (song m) t = event_bytes short (running t) ev @ xs"
  obtains p where "process_event m t = voice_event m (t\<lparr>pos := p, running := s\<rparr>) (s AND 0xF0) (unat (s AND 0x0F))"
    "track_ok (song m) (t\<lparr>pos := p, running := s\<rparr>)" "rest (song m) (t\<lparr>pos := p, running := s\<rparr>) = ds @ xs"
proof -
  have s: "\<not> s < 0x80" "s < 0xF0" and ds: "ds \<noteq> []" "hd ds < 0x80"
    using v eo status_nibbles by (cases ev; auto)+
  have s2: "s \<noteq> 0xFF" "\<not> 0xF0 \<le> s" "s \<noteq> 0" using s by auto
  show ?thesis
  proof (cases "short \<and> running t = s")
    case True
    then have r': "rest (song m) t = hd ds # (tl ds @ xs)" using r v ds by (simp add: event_bytes_def)
    have p: "\<not> trk_len t \<le> pos t" using rest_Cons(1) [OF ok r'] by simp
    have same: "t\<lparr>pos := pos t, running := s\<rparr> = t" using True by simp
    show ?thesis
    proof (rule that [of "pos t"], unfold same)
      show "process_event m t = voice_event m t (s AND 0xF0) (unat (s AND 0x0F))"
        using e p ds(2) s2 True by (simp add: process_event_def rest_Cons(2) [OF ok r'] Let_def)
      show "track_ok (song m) t" by (rule ok)
      show "rest (song m) t = ds @ xs" using r' ds(1) by simp
    qed
  next
    case False
    then have r': "rest (song m) t = s # (ds @ xs)" using r v by (simp add: event_bytes_def)
    have p: "\<not> trk_len t \<le> pos t" using rest_Cons(1) [OF ok r'] by simp
    show ?thesis
    proof (rule that [of "pos t + 1"])
      show "process_event m t = voice_event m (t\<lparr>pos := pos t + 1, running := s\<rparr>) (s AND 0xF0) (unat (s AND 0x0F))"
        using e p s s2 by (simp add: process_event_def rest_Cons(2) [OF ok r'] Let_def)
      show "track_ok (song m) (t\<lparr>pos := pos t + 1, running := s\<rparr>)" using rest_Cons(4) [OF ok r'] by (simp add: track_ok_def)
      show "rest (song m) (t\<lparr>pos := pos t + 1, running := s\<rparr>) = ds @ xs" using rest_Cons(5) [OF ok r'] by (simp add: rest_def)
    qed
  qed
qed

lemma trk_need_rest:
  assumes "track_ok d t" and "rest d t = ys @ xs" and "n = word_of_nat (length ys)"
  shows "trk_need t n = (True, t)"
  using rest_skip(3) [OF assms(1,2)] assms(1,3) by (auto simp: trk_need_def track_ok_def)

lemma sint_of_int: "- (2 ^ 15) \<le> k \<Longrightarrow> k < 2 ^ 15 \<Longrightarrow> sint (word_of_int k :: u16) = k"
  by (simp add: signed_of_int signed_take_bit_int_eq_self)

lemma bend_value:
  assumes "l < (0x80 :: u8)"
  shows "sint ((push_bit 7 (ucast (h :: u8)) OR ucast l :: u16) - 8192) = uint h * 128 + uint l - 8192"
proof -
  have l: "uint l < 128" using assms by (simp add: word_less_def)
  have h: "uint h < 256" "0 \<le> uint h" using unsigned_less [of h, where 'a = int] by simp_all
  have "unat l < 2 ^ 7" using assms by (simp add: word_less_nat_alt)
  then have "unat (take_bit 7 l) = unat l" by (simp add: unsigned_take_bit_eq take_bit_nat_eq_self)
  then have "take_bit 7 l = l" by (simp only: word_unat_eq_iff)
  then have low: "bit l n \<Longrightarrow> n < 7" for n by (metis bit_take_bit_iff)
  have "(push_bit 7 (ucast h) OR ucast l :: u16) = push_bit 7 (ucast h) + ucast l"
  proof (rule disjunctive_add [symmetric])
    show "\<not> bit (push_bit 7 (ucast h) :: u16) n \<or> \<not> bit (ucast l :: u16) n" for n
      using low [of n] by (cases "n < 7") (auto simp: bit_simps)
  qed
  also have "\<dots> = word_of_int (uint h * 128 + uint l)"
  proof -
    have "(ucast h :: u16) = word_of_int (uint h)" "(ucast l :: u16) = word_of_int (uint l)" by (rule ucast_eq)+
    then show ?thesis by (simp only: push_bit_eq_mult of_int_add of_int_mult) simp
  qed
  finally have "sint ((push_bit 7 (ucast h) OR ucast l :: u16) - 8192) = sint (word_of_int (uint h * 128 + uint l - 8192) :: u16)"
    by (simp only: of_int_diff) simp
  also have "\<dots> = uint h * 128 + uint l - 8192"
    by (rule sint_of_int) (use l h in simp_all)
  finally show ?thesis .
qed

lemma tempo_value:
  assumes "us < 2 ^ 24"
  shows "push_bit 16 (ucast (word_of_nat (drop_bit 16 us) :: u8)) OR push_bit 8 (ucast (word_of_nat (drop_bit 8 us) :: u8)) OR
    ucast (word_of_nat us :: u8) = (word_of_nat us :: u32)"
proof (rule bit_word_eqI)
  fix k assume "k < LENGTH(32)"
  then consider "k < 8" | "8 \<le> k" "k < 16" | "16 \<le> k" "k < 24" | "24 \<le> k" "k < 32" by fastforce
  then show "bit (push_bit 16 (ucast (word_of_nat (drop_bit 16 us) :: u8)) OR push_bit 8 (ucast (word_of_nat (drop_bit 8 us) :: u8)) OR
    ucast (word_of_nat us :: u8) :: u32) k = bit (word_of_nat us :: u32) k"
    using bit_high_nat [OF assms, of k] by cases (auto simp: bit_simps)
qed

text \<open>What playing the next event of a track comes to.\<close>

definition plays :: "midi \<Rightarrow> track \<Rightarrow> song_event \<Rightarrow> u8 list \<Rightarrow> (bool \<times> midi \<times> track) option \<Rightarrow> bool" where
  "plays m t ev xs r \<longleftrightarrow> (\<exists>b p. let t' = t\<lparr>pos := p, running := running_after ev (running t), ended := (ev = Ev_end)\<rparr> in
     r = Some (b, apply_event ev m, t') \<and> track_ok (song m) t' \<and> rest (song m) t' = xs)"

lemma playsI:
  assumes "r = Some (b, apply_event ev m, t\<lparr>pos := p, running := running_after ev (running t), ended := (ev = Ev_end)\<rparr>)"
    and "track_ok (song m) (t\<lparr>pos := p\<rparr>)" and "rest (song m) (t\<lparr>pos := p\<rparr>) = xs"
  shows "plays m t ev xs r"
  using assms by (auto simp: plays_def Let_def track_ok_def rest_def)

lemma process_two:
  assumes ok: "track_ok (song m) t" and e: "\<not> ended t" and eo: "event_ok ev" and v: "voice_bytes ev = Some (s, [a, b])"
    and r: "rest (song m) t = event_bytes short (running t) ev @ xs"
    and nib: "s AND 0xF0 = cmd" "unat (s AND 0x0F) = ch"
    and run: "\<And>t t1 t2. trk_need t 2 = (True, t) \<Longrightarrow> next_byte (song m) t = Some (a, t1) \<Longrightarrow> next_byte (song m) t1 = Some (b, t2) \<Longrightarrow>
      t1 = t\<lparr>pos := pos t + 1\<rparr> \<Longrightarrow> t2 = t\<lparr>pos := pos t + 2\<rparr> \<Longrightarrow> \<not> ended t \<Longrightarrow>
      voice_event m t cmd ch = Some (True, apply_event ev m, t2)"
  shows "plays m t ev xs (process_event m t)"
proof -
  obtain p where p: "process_event m t = voice_event m (t\<lparr>pos := p, running := s\<rparr>) (s AND 0xF0) (unat (s AND 0x0F))"
    and ok1: "track_ok (song m) (t\<lparr>pos := p, running := s\<rparr>)" and r1: "rest (song m) (t\<lparr>pos := p, running := s\<rparr>) = [a, b] @ xs"
    by (rule process_voice [OF ok e v eo r])
  let ?t = "t\<lparr>pos := p, running := s\<rparr>"
  have r1': "rest (song m) ?t = a # b # xs" using r1 by simp
  note one = rest_Cons(3-5) [OF ok1 r1']
  note two = rest_Cons(3-5) [OF one(2,3)]
  have "voice_event m ?t cmd ch = Some (True, apply_event ev m, ?t\<lparr>pos := p + 2\<rparr>)"
    by (rule run [OF _ one(1)]) (use trk_need_rest [OF ok1 r1, of 2] two e in \<open>simp_all add: add.assoc\<close>)
  moreover have "ev \<noteq> Ev_end" "running_after ev (running t) = s" using v by (auto simp: running_after_def)
  ultimately show ?thesis
    using p nib two e by (intro playsI [where b = True and p = "p + 2"]) (simp_all add: add.assoc track_ok_def rest_def)
qed

lemma process_one:
  assumes ok: "track_ok (song m) t" and e: "\<not> ended t" and eo: "event_ok ev" and v: "voice_bytes ev = Some (s, [a])"
    and r: "rest (song m) t = event_bytes short (running t) ev @ xs"
    and nib: "s AND 0xF0 = cmd" "unat (s AND 0x0F) = ch"
    and run: "\<And>t t1. trk_need t 1 = (True, t) \<Longrightarrow> next_byte (song m) t = Some (a, t1) \<Longrightarrow> t1 = t\<lparr>pos := pos t + 1\<rparr> \<Longrightarrow> \<not> ended t \<Longrightarrow>
      voice_event m t cmd ch = Some (True, apply_event ev m, t1)"
  shows "plays m t ev xs (process_event m t)"
proof -
  obtain p where p: "process_event m t = voice_event m (t\<lparr>pos := p, running := s\<rparr>) (s AND 0xF0) (unat (s AND 0x0F))"
    and ok1: "track_ok (song m) (t\<lparr>pos := p, running := s\<rparr>)" and r1: "rest (song m) (t\<lparr>pos := p, running := s\<rparr>) = [a] @ xs"
    by (rule process_voice [OF ok e v eo r])
  let ?t = "t\<lparr>pos := p, running := s\<rparr>"
  have r1': "rest (song m) ?t = a # xs" using r1 by simp
  note one = rest_Cons(3-5) [OF ok1 r1']
  have "voice_event m ?t cmd ch = Some (True, apply_event ev m, ?t\<lparr>pos := pos ?t + 1\<rparr>)"
    by (rule run [OF _ one(1)]) (use trk_need_rest [OF ok1 r1, of 1] e in simp_all)
  moreover have "ev \<noteq> Ev_end" "running_after ev (running t) = s" using v by (auto simp: running_after_def)
  ultimately show ?thesis
    using p nib one e by (intro playsI [where b = True and p = "p + 1"]) (simp_all add: track_ok_def rest_def)
qed

lemma process_other:
  assumes ok: "track_ok (song m) t" and e: "\<not> ended t" and r: "rest (song m) t = s # ys" and s: "\<not> s < 0x80" "\<not> s < 0xF0"
  shows "process_event m t =
      (if s = 0xFF then meta_event m (t\<lparr>pos := pos t + 1\<rparr>) else if s \<le> 0xF7 then sysex_event m (t\<lparr>pos := pos t + 1\<rparr>)
       else voice_event m (t\<lparr>pos := pos t + 1\<rparr>) (s AND 0xF0) (unat (s AND 0x0F)))"
proof -
  have "\<not> trk_len t \<le> pos t" using rest_Cons(1) [OF ok r] by simp
  moreover have "t\<lparr>pos := pos t + 1, running := running t\<rparr> = t\<lparr>pos := pos t + 1\<rparr>" by simp
  moreover have "0xF0 \<le> s" using s(2) by simp
  ultimately show ?thesis using e unfolding process_event_def rest_Cons(2) [OF ok r] Let_def Option.bind_lunit
    by (simp only: s if_False if_True simp_thms)
qed

text \<open>A meta event whose length byte announces just its data.\<close>

lemma meta_data:
  assumes ok: "track_ok (song m) t" and e: "\<not> ended t" and r: "rest (song m) t = 0xFF # ty # vlq (length ds) @ ds @ xs"
    and l: "length ds < 2 ^ 28"
  obtains t1 p where "track_ok (song m) t1" "t1 = t\<lparr>pos := p\<rparr>" "rest (song m) t1 = ds @ xs"
    "process_event m t = do {
       (m, t) \<leftarrow>
         (if ty = 0x51 \<and> word_of_nat (length ds) = (3 :: u32) then do {
            a \<leftarrow> track_byte (song m) t1 (pos t1); b \<leftarrow> track_byte (song m) t1 (pos t1 + 1); c \<leftarrow> track_byte (song m) t1 (pos t1 + 2);
            Some (recompute_us_per_tick (m\<lparr>us_per_beat := push_bit 16 (ucast a) OR push_bit 8 (ucast b) OR ucast c\<rparr>), t1) }
          else if ty = 0x2F then Some (m, t1\<lparr>ended := True\<rparr>)
          else Some (m, t1));
       Some (\<not> ended t, m, t\<lparr>pos := pos t + word_of_nat (length ds)\<rparr>) }"
proof -
  note one = rest_Cons(3-5) [OF ok r]
  note two = rest_Cons(3-5) [OF one(2,3)]
  obtain p where rv: "read_var (song m) (t\<lparr>pos := pos t + 1, pos := pos (t\<lparr>pos := pos t + 1\<rparr>) + 1\<rparr>) = Some (word_of_nat (length ds), t\<lparr>pos := p\<rparr>)"
    and ok1: "track_ok (song m) (t\<lparr>pos := p\<rparr>)" and r1: "rest (song m) (t\<lparr>pos := p\<rparr>) = ds @ xs"
    using read_var_vlq [OF two(2,3) l] by auto
  have need: "trk_need (t\<lparr>pos := pos t + 1\<rparr>) 1 = (True, t\<lparr>pos := pos t + 1\<rparr>)"
    by (rule trk_need_rest [of "song m" _ "[ty]" "vlq (length ds) @ ds @ xs"]) (use one in simp_all)
  have fits: "\<not> trk_len t - p < word_of_nat (length ds)" using rest_skip(3) [OF ok1 r1] by simp
  have "process_event m t = meta_event m (t\<lparr>pos := pos t + 1\<rparr>)" using process_other [OF ok e r] by simp
  then show ?thesis
    by (intro that [OF ok1 refl r1]) (use need two rv fits in \<open>simp add: meta_event_def\<close>)
qed

lemma rest_bytes:
  assumes "track_ok d t" and "rest d t = a # b # c # xs"
  shows "track_byte d t (pos t) = Some a" and "track_byte d t (pos t + 1) = Some b" and "track_byte d t (pos t + 2) = Some c"
proof -
  note one = rest_Cons(4,5) [OF assms]
  note two = rest_Cons(4,5) [OF one]
  show "track_byte d t (pos t) = Some a" by (rule rest_Cons(2) [OF assms])
  show "track_byte d t (pos t + 1) = Some b" using rest_Cons(2) [OF one] by (simp add: track_byte_def)
  show "track_byte d t (pos t + 2) = Some c" using rest_Cons(2) [OF two] by (simp add: track_byte_def add.assoc)
qed

lemma voice_two:
  assumes "trk_need t 2 = (True, t)" and "next_byte (song m) t = Some (a, t1)" and "next_byte (song m) t1 = Some (b, t2)"
    and "t1 = t\<lparr>pos := pos t + 1\<rparr>" and "t2 = t\<lparr>pos := pos t + 2\<rparr>" and "\<not> ended t"
  shows "voice_event m t 0x80 ch = Some (True, emit (Note_off ch a) m, t2)"
    and "voice_event m t 0x90 ch = Some (True, if 0 < b then note_on ch a b m else emit (Note_off ch a) m, t2)"
    and "voice_event m t 0xA0 ch = Some (True, m, t2)"
    and "voice_event m t 0xB0 ch = Some (True, control_change ch a b m, t2)"
    and "voice_event m t 0xE0 ch = Some (True, emit (Bend ch (sint ((push_bit 7 (ucast b) OR ucast a :: u16) - 8192))) m, t2)"
  using assms by (simp_all add: voice_event_def)

lemma voice_one:
  assumes "trk_need t 1 = (True, t)" and "next_byte (song m) t = Some (a, t1)" and "t1 = t\<lparr>pos := pos t + 1\<rparr>" and "\<not> ended t"
  shows "voice_event m t 0xC0 ch = Some (True, m\<lparr>program := (program m)[ch := a]\<rparr>, t1)"
    and "voice_event m t 0xD0 ch = Some (True, m, t1)"
  using assms by (simp_all add: voice_event_def)

lemma process_event_plays:
  assumes ok: "track_ok (song m) t" and e: "\<not> ended t" and eo: "event_ok ev"
    and r: "rest (song m) t = event_bytes short (running t) ev @ xs"
  shows "plays m t ev xs (process_event m t)"
proof (cases ev)
  case (Ev_note_off ch n v)
  then have ch: "ch < 16" "n < 0x80" using eo by simp_all
  have v: "voice_bytes ev = Some (0x80 OR word_of_nat ch, [n, v])" by (simp add: Ev_note_off)
  note nib = status_nibbles(1,2) [OF ch(1), of "0x80"]
  show ?thesis
    by (rule process_two [OF ok e eo v r nib]) (use ch voice_two(1) in \<open>simp_all add: Ev_note_off\<close>)
next
  case (Ev_note_on ch n v)
  then have ch: "ch < 16" "n < 0x80" using eo by simp_all
  have v: "voice_bytes ev = Some (0x90 OR word_of_nat ch, [n, v])" by (simp add: Ev_note_on)
  note nib = status_nibbles(1,2) [OF ch(1), of "0x90"]
  show ?thesis
    by (rule process_two [OF ok e eo v r nib]) (use ch voice_two(2) in \<open>simp_all add: Ev_note_on\<close>)
next
  case (Ev_aftertouch ch n v)
  then have ch: "ch < 16" "n < 0x80" using eo by simp_all
  have v: "voice_bytes ev = Some (0xA0 OR word_of_nat ch, [n, v])" by (simp add: Ev_aftertouch)
  note nib = status_nibbles(1,2) [OF ch(1), of "0xA0"]
  show ?thesis
    by (rule process_two [OF ok e eo v r nib]) (use ch voice_two(3) in \<open>simp_all add: Ev_aftertouch\<close>)
next
  case (Ev_control ch n v)
  then have ch: "ch < 16" "n < 0x80" using eo by simp_all
  have v: "voice_bytes ev = Some (0xB0 OR word_of_nat ch, [n, v])" by (simp add: Ev_control)
  note nib = status_nibbles(1,2) [OF ch(1), of "0xB0"]
  show ?thesis
    by (rule process_two [OF ok e eo v r nib]) (use ch voice_two(4) in \<open>simp_all add: Ev_control\<close>)
next
  case (Ev_program ch n)
  then have ch: "ch < 16" "n < 0x80" using eo by simp_all
  have v: "voice_bytes ev = Some (0xC0 OR word_of_nat ch, [n])" by (simp add: Ev_program)
  note nib = status_nibbles(1,2) [OF ch(1), of "0xC0"]
  show ?thesis
    by (rule process_one [OF ok e eo v r nib]) (use ch voice_one(1) in \<open>simp_all add: Ev_program\<close>)
next
  case (Ev_pressure ch n)
  then have ch: "ch < 16" "n < 0x80" using eo by simp_all
  have v: "voice_bytes ev = Some (0xD0 OR word_of_nat ch, [n])" by (simp add: Ev_pressure)
  note nib = status_nibbles(1,2) [OF ch(1), of "0xD0"]
  show ?thesis
    by (rule process_one [OF ok e eo v r nib]) (use ch voice_one(2) in \<open>simp_all add: Ev_pressure\<close>)
next
  case (Ev_bend ch n v)
  then have ch: "ch < 16" "n < 0x80" using eo by simp_all
  have v: "voice_bytes ev = Some (0xE0 OR word_of_nat ch, [n, v])" by (simp add: Ev_bend)
  note nib = status_nibbles(1,2) [OF ch(1), of "0xE0"]
  show ?thesis
    by (rule process_two [OF ok e eo v r nib]) (use ch voice_two(5) in \<open>simp_all add: Ev_bend bend_value\<close>)
next
  case (Ev_tempo us)
  let ?ds = "[word_of_nat (drop_bit 16 us), word_of_nat (drop_bit 8 us), word_of_nat us] :: u8 list"
  have "rest (song m) t = 0xFF # 0x51 # vlq (length ?ds) @ ?ds @ xs"
    using r Ev_tempo by (simp add: event_bytes_def vlq_def group7_def take_bit_eq_mod)
  then obtain t1 p where t1: "track_ok (song m) t1" "t1 = t\<lparr>pos := p\<rparr>" "rest (song m) t1 = ?ds @ xs"
    and run: "process_event m t = do {
       (m, t) \<leftarrow>
         (if 0x51 = (0x51 :: u8) \<and> word_of_nat (length ?ds) = (3 :: u32) then do {
            a \<leftarrow> track_byte (song m) t1 (pos t1); b \<leftarrow> track_byte (song m) t1 (pos t1 + 1); c \<leftarrow> track_byte (song m) t1 (pos t1 + 2);
            Some (recompute_us_per_tick (m\<lparr>us_per_beat := push_bit 16 (ucast a) OR push_bit 8 (ucast b) OR ucast c\<rparr>), t1) }
          else if 0x51 = (0x2F :: u8) then Some (m, t1\<lparr>ended := True\<rparr>)
          else Some (m, t1));
       Some (\<not> ended t, m, t\<lparr>pos := pos t + word_of_nat (length ?ds)\<rparr>) }"
    by (rule meta_data [OF ok e]) simp
  have bytes: "track_byte (song m) t1 (pos t1) = Some (word_of_nat (drop_bit 16 us))"
    "track_byte (song m) t1 (pos t1 + 1) = Some (word_of_nat (drop_bit 8 us))" "track_byte (song m) t1 (pos t1 + 2) = Some (word_of_nat us)"
    using rest_bytes [OF t1(1)] t1(3) by simp_all
  have "process_event m t = Some (True, apply_event ev m, t1\<lparr>pos := pos t1 + word_of_nat (length ?ds)\<rparr>)"
    unfolding run using bytes tempo_value [of us] eo e t1(2) Ev_tempo by simp
  then show ?thesis
    using rest_skip(1,2) [OF t1(1,3)] t1(2) e
    by (intro playsI [where b = True and p = "p + word_of_nat (length ?ds)"]) (simp_all add: Ev_tempo running_after_def)
next
  case (Ev_text ty ds)
  then have "rest (song m) t = 0xFF # ty # vlq (length ds) @ ds @ xs" using r by (simp add: event_bytes_def)
  from meta_data [OF ok e this] obtain t1 p where t1: "track_ok (song m) t1" "t1 = t\<lparr>pos := p\<rparr>" "rest (song m) t1 = ds @ xs"
    and run: "process_event m t = Some (True, m, t1\<lparr>pos := pos t1 + word_of_nat (length ds)\<rparr>)"
    using eo Ev_text e by auto
  show ?thesis
    using run rest_skip(1,2) [OF t1(1,3)] t1(2) e
    by (intro playsI [where b = True and p = "p + word_of_nat (length ds)"]) (simp_all add: Ev_text running_after_def)
next
  case (Ev_sysex ds)
  then have r': "rest (song m) t = 0xF0 # vlq (length ds) @ ds @ xs" using r by (simp add: event_bytes_def)
  note one = rest_Cons(3-5) [OF ok r']
  obtain p where rv: "read_var (song m) (t\<lparr>pos := pos t + 1\<rparr>) = Some (word_of_nat (length ds), t\<lparr>pos := p\<rparr>)"
    and ok1: "track_ok (song m) (t\<lparr>pos := p\<rparr>)" and r1: "rest (song m) (t\<lparr>pos := p\<rparr>) = ds @ xs"
    using read_var_vlq [OF one(2,3)] eo Ev_sysex by auto
  have "process_event m t = Some (True, m, t\<lparr>pos := p + word_of_nat (length ds)\<rparr>)"
    using process_other [OF ok e r'] rv rest_skip(3) [OF ok1 r1] e by (simp add: sysex_event_def)
  then show ?thesis
    using rest_skip(1,2) [OF ok1 r1] e
    by (intro playsI [where b = True and p = "p + word_of_nat (length ds)"]) (simp_all add: Ev_sysex running_after_def)
next
  case Ev_end
  then have "rest (song m) t = 0xFF # 0x2F # vlq (length ([] :: u8 list)) @ [] @ xs"
    using r by (simp add: event_bytes_def vlq_def group7_def)
  from meta_data [OF ok e this] obtain t1 p where t1: "track_ok (song m) t1" "t1 = t\<lparr>pos := p\<rparr>" "rest (song m) t1 = [] @ xs"
    and run: "process_event m t = Some (False, m, t\<lparr>pos := p, ended := True\<rparr>)"
    by auto
  show ?thesis
    using run t1 by (intro playsI [where b = False and p = p]) (simp_all add: Ev_end running_after_def)
qed

end
