(* ===== verification/MidiTime.thy ===== *)
theory MidiTime
  imports MidiPlay
begin

text \<open>
  Time: a track stands for the list of its coming events and the time until the first of them. A timer
  call refines the plain semantics of that list: every event whose time has come is played, the others wait.
\<close>

section \<open>Tracks as timed events\<close>

type_synonym item = "nat \<times> bool \<times> song_event"

text \<open>An item: the ticks before the event, whether its status byte may be left out, and the event.\<close>

fun encode :: "u8 \<Rightarrow> item list \<Rightarrow> u8 list" where
  "encode r [] = []"
| "encode r ((ticks, short, e) # es) = vlq ticks @ event_bytes short r e @ encode (running_after e r) es"

definition item_ok :: "item \<Rightarrow> bool" where
  "item_ok x \<longleftrightarrow> fst x < 2 ^ 28 \<and> event_ok (snd (snd x))"

text \<open>The track waits \<open>p\<close> microseconds for the first of \<open>items\<close>, whose ticks are read already.\<close>

definition stands_for :: "u8 list \<Rightarrow> track \<Rightarrow> int \<times> item list \<Rightarrow> bool" where
  "stands_for d t q \<longleftrightarrow> track_ok d t \<and> list_all item_ok (snd q) \<and>
     (case snd q of [] \<Rightarrow> ended t
      | (ticks, short, e) # es \<Rightarrow> \<not> ended t \<and> sint (pending_us t) = fst q \<and>
          rest d t = event_bytes short (running t) e @ encode (running_after e (running t)) es)"

section \<open>The plain semantics\<close>

text \<open>The time of a number of ticks: \<open>\<lfloor>ticks \<cdot> \<lfloor>tempo \<cdot> 2^16 / division\<rfloor> / 2^16\<rfloor>\<close> microseconds.\<close>

definition delay :: "midi \<Rightarrow> nat \<Rightarrow> int" where
  "delay m ticks = int ((ticks * unat (us_per_tick_q16 m)) div 2 ^ 16)"

definition next_item :: "midi \<Rightarrow> song_event \<Rightarrow> int \<Rightarrow> item list \<Rightarrow> int \<times> item list" where
  "next_item m e p es = (if e = Ev_end then (p, []) else case es of [] \<Rightarrow> (p, []) | (ticks, _) # _ \<Rightarrow> (p + delay m ticks, es))"

fun due :: "item list \<Rightarrow> int \<Rightarrow> midi \<Rightarrow> (int \<times> item list) \<times> midi" where
  "due [] p m = ((p, []), m)"
| "due ((ticks, short, e) # es) p m =
     (if 0 < p then ((p, (ticks, short, e) # es), m)
      else let m1 = apply_event e m in
        if e = Ev_end then ((p, []), m1)
        else (case es of [] \<Rightarrow> ((p, []), m1) | (ticks', _) # _ \<Rightarrow> due es (p + delay m1 ticks') m1))"

fun play_due :: "(int \<times> item list) list \<Rightarrow> midi \<Rightarrow> (int \<times> item list) list \<times> midi" where
  "play_due [] m = ([], m)"
| "play_due (q # qs) m = (let (q', m1) = due (snd q) (fst q) m; (qs', m2) = play_due qs m1 in (q' # qs', m2))"

text \<open>The player without its cursors and clocks, and with the envelope ticks left out of the log.\<close>

definition music :: "voice_call \<Rightarrow> bool" where
  "music c = (case c of Tick \<Rightarrow> False | Record_pump _ _ _ \<Rightarrow> False | _ \<Rightarrow> True)"

definition core :: "midi \<Rightarrow> midi" where
  "core m = m\<lparr>tracks := [], clock_pos := 0, tick_accum_us := 0, last_pump_us := 0, voice_log := filter music (voice_log m)\<rparr>"

lemma core_emit: "music c \<Longrightarrow> core (emit c m) = emit c (core m)"
  by (simp add: core_def emit_def)

lemma core_fold_emit: "(\<And>z. music (f z)) \<Longrightarrow> core (fold (\<lambda>z. emit (f z)) zs m) = fold (\<lambda>z. emit (f z)) zs (core m)"
  by (induction zs arbitrary: m) (simp_all add: core_emit)

text \<open>Parts of the state an update leaves out of the core.\<close>

lemma core_select [simp]:
  "expression (core m) = expression m" "volume (core m) = volume m" "brightness (core m) = brightness m" "resonance (core m) = resonance m"
  "mod_wheel (core m) = mod_wheel m" "pan (core m) = pan m" "sustain (core m) = sustain m" "program (core m) = program m"
  "division (core m) = division m" "us_per_tick_q16 (core m) = us_per_tick_q16 m" "loaded_bank (core m) = loaded_bank m"
  by (simp_all add: core_def)

lemma core_update:
  "core (m\<lparr>expression := xs\<rparr>) = (core m)\<lparr>expression := xs\<rparr>" "core (m\<lparr>volume := xs\<rparr>) = (core m)\<lparr>volume := xs\<rparr>"
  "core (m\<lparr>brightness := xs\<rparr>) = (core m)\<lparr>brightness := xs\<rparr>" "core (m\<lparr>resonance := xs\<rparr>) = (core m)\<lparr>resonance := xs\<rparr>"
  "core (m\<lparr>mod_wheel := xs\<rparr>) = (core m)\<lparr>mod_wheel := xs\<rparr>" "core (m\<lparr>pan := xs\<rparr>) = (core m)\<lparr>pan := xs\<rparr>"
  "core (m\<lparr>sustain := xs\<rparr>) = (core m)\<lparr>sustain := xs\<rparr>" "core (m\<lparr>program := xs\<rparr>) = (core m)\<lparr>program := xs\<rparr>"
  "core (m\<lparr>us_per_beat := u\<rparr>) = (core m)\<lparr>us_per_beat := u\<rparr>" "core (m\<lparr>us_per_tick_q16 := q\<rparr>) = (core m)\<lparr>us_per_tick_q16 := q\<rparr>"
  by (simp_all add: core_def)

lemma core_place [simp]:
  "core (m\<lparr>tracks := ts\<rparr>) = core m" "core (m\<lparr>clock_pos := k\<rparr>) = core m" "core (m\<lparr>tick_accum_us := u\<rparr>) = core m"
  "core (m\<lparr>last_pump_us := u\<rparr>) = core m"
  by (simp_all add: core_def)

lemma music_simps [simp]:
  "music (Note_on z ch n v)" "music (Note_off ch n)" "music (Volume ch a b)" "music (Pan ch a)" "music (Bend ch k)" "music (Mod ch a)"
  "music (Sustain ch h)" "music (Filter ch a b)" "music (Reverb_send ch a)" "music (Chorus_send ch a)" "music (All_off ch)"
  "\<not> music Tick" "\<not> music (Record_pump u i h)"
  by (simp_all add: music_def)

lemma core_silent: "\<not> music c \<Longrightarrow> core (emit c m) = core m"
  by (simp add: core_def emit_def)

lemma core_note_on: "core (note_on ch n v m) = note_on ch n v (core m)"
  by (simp add: note_on_def Let_def core_fold_emit)

lemma core_control: "core (control_change ch c v m) = control_change ch c v (core m)"
  unfolding control_change_def if_distrib [of core] by (simp only: core_emit core_update music_simps core_select)

lemma core_apply: "core (apply_event e m) = apply_event e (core m)"
  by (cases e) (simp_all add: core_emit core_note_on core_control core_update recompute_us_per_tick_def)

lemma delay_core: "delay (core m) = delay m"
  by (simp add: delay_def core_def fun_eq_iff)

lemma fold_emit_frame:
  "tracks (fold (\<lambda>z. emit (f z)) zs m) = tracks m \<and> clock_pos (fold (\<lambda>z. emit (f z)) zs m) = clock_pos m \<and>
   us_per_tick_q16 (fold (\<lambda>z. emit (f z)) zs m) = us_per_tick_q16 m \<and> division (fold (\<lambda>z. emit (f z)) zs m) = division m"
  by (induction zs arbitrary: m) (simp_all add: emit_def)

lemma apply_steady: "steady m (apply_event e m)"
  by (cases e) (simp_all add: steady_emit steady_note_on steady_control steady_recompute, simp_all add: steady_def channels_ok_def recompute_us_per_tick_def)

lemma apply_clock_pos: "clock_pos (apply_event e m) = clock_pos m"
  by (cases e) (auto simp: emit_def note_on_def Let_def fold_emit_frame control_change_def recompute_us_per_tick_def)

section \<open>One event\<close>

text \<open>Tempo and division small enough for the product with any delta to fit 64 bits.\<close>

definition tempo_ok :: "midi \<Rightarrow> bool" where
  "tempo_ok m \<longleftrightarrow> 16 \<le> unat (division m) \<and> unat (us_per_tick_q16 m) < 2 ^ 36"

lemma tempo_ok_core: "tempo_ok (core m) = tempo_ok m"
  by (simp add: tempo_ok_def core_def)

lemma tempo_ok_apply:
  assumes "tempo_ok m" and "event_ok e"
  shows "tempo_ok (apply_event e m)"
proof (cases e)
  case (Ev_tempo us)
  have d: "16 \<le> unat (division m)" using assms(1) by (simp add: tempo_ok_def)
  have us: "us < 2 ^ 24" using assms(2) Ev_tempo by simp
  have "unat (push_bit 16 (ucast (word_of_nat us :: u32)) :: u64) = us * 2 ^ 16"
  proof -
    have "unat (ucast (word_of_nat us :: u32) :: u64) = us"
      using us by (simp add: unsigned_ucast_eq unsigned_of_nat take_bit_nat_eq_self)
    moreover have "us * 2 ^ 16 < 2 ^ 64" using us by simp
    ultimately show ?thesis unfolding push_bit_eq_mult
      using unat_mult_lem [of "ucast (word_of_nat us :: u32) :: u64" "2 ^ 16"] by simp
  qed
  moreover have "unat (ucast (division m) :: u64) = unat (division m)"
    using unsigned_less [of "division m", where 'a = nat] by (simp add: unsigned_ucast_eq take_bit_nat_eq_self)
  ultimately have "unat (push_bit 16 (ucast (word_of_nat us :: u32)) div ucast (division m) :: u64) = us * 2 ^ 16 div unat (division m)"
    by (simp only: unat_div_distrib)
  also have "\<dots> \<le> us * 2 ^ 16 div 16" using d by (intro div_le_mono2) simp_all
  also have "\<dots> < 2 ^ 36" using us by simp
  finally show ?thesis using d by (simp add: Ev_tempo tempo_ok_def recompute_us_per_tick_def)
qed (use assms(1) in \<open>auto simp: tempo_ok_def emit_def note_on_def Let_def fold_emit_frame control_change_def\<close>)

text \<open>The wait for a delta, added to a due track's overdue time, stays far from overflowing.\<close>

lemma add_delay:
  assumes q: "unat (us_per_tick_q16 m) < 2 ^ 36" and k: "k < 2 ^ 28" and p: "sint (w :: u64) \<le> 0" "- (2 ^ 62) \<le> sint w"
  shows "sint (w + drop_bit 16 (ucast (word_of_nat k :: u32) * us_per_tick_q16 m)) = sint w + delay m k"
proof -
  let ?q = "us_per_tick_q16 m"
  let ?x = "ucast (word_of_nat k :: u32) :: u64"
  have x: "unat ?x = k" using k by (simp add: unsigned_ucast_eq unsigned_of_nat take_bit_nat_eq_self)
  have "k * unat ?q < 2 ^ 28 * 2 ^ 36" using k q by (intro mult_strict_mono) simp_all
  then have prod: "unat (?x * ?q) = k * unat ?q" using unat_mult_lem [of ?x ?q] x by simp
  have d: "unat (drop_bit 16 (?x * ?q)) = (k * unat ?q) div 2 ^ 16"
    by (simp add: drop_bit_eq_div unat_div_distrib prod)
  have small: "(k * unat ?q) div 2 ^ 16 < 2 ^ 48" using \<open>k * unat ?q < 2 ^ 28 * 2 ^ 36\<close> by simp
  have dl: "0 \<le> delay m k" "delay m k < 2 ^ 48" using small by (simp_all add: delay_def)
  have "drop_bit 16 (?x * ?q) = word_of_nat (unat (drop_bit 16 (?x * ?q)))" by (simp only: of_nat_unat ucast_id)
  then have "drop_bit 16 (?x * ?q) = word_of_int (delay m k)" unfolding d delay_def by simp
  then have "w + drop_bit 16 (?x * ?q) = word_of_int (sint w + delay m k)" by simp
  then have "sint (w + drop_bit 16 (?x * ?q)) = signed_take_bit 63 (sint w + delay m k)" by (simp only: signed_of_int) simp
  also have "\<dots> = sint w + delay m k" by (rule signed_take_bit_int_eq_self) (use p dl in simp_all)
  finally show ?thesis .
qed

text \<open>Playing the first item of a due track, and reading the time of the next.\<close>

lemma event_due:
  assumes st: "stands_for (song m) t (p, (ticks, short, e) # es)" and p: "p \<le> 0" "- (2 ^ 62) \<le> p" and tempo: "tempo_ok m"
  obtains b t1 t2 where "process_event m t = Some (b, apply_event e m, t1)"
    "(if ended t1 then Some t1 else read_next_delta (apply_event e m) t1) = Some t2"
    "stands_for (song m) t2 (next_item (apply_event e m) e p es)"
proof -
  let ?m = "apply_event e m"
  have t: "track_ok (song m) t" "\<not> ended t" "event_ok e" "list_all item_ok es" "sint (pending_us t) = p"
    and r: "rest (song m) t = event_bytes short (running t) e @ encode (running_after e (running t)) es"
    using st by (simp_all add: stands_for_def item_ok_def)
  have song: "song ?m = song m" using apply_steady [of m e] by (simp add: steady_def)
  have q: "unat (us_per_tick_q16 ?m) < 2 ^ 36" using tempo_ok_apply [OF tempo t(3)] by (simp add: tempo_ok_def)
  obtain b k where run: "process_event m t =
      Some (b, ?m, t\<lparr>pos := k, running := running_after e (running t), ended := (e = Ev_end)\<rparr>)"
    and ok1: "track_ok (song m) (t\<lparr>pos := k, running := running_after e (running t), ended := (e = Ev_end)\<rparr>)"
    and r1: "rest (song m) (t\<lparr>pos := k, running := running_after e (running t), ended := (e = Ev_end)\<rparr>) =
      encode (running_after e (running t)) es"
    using process_event_plays [OF t(1-3) r] by (auto simp: plays_def Let_def)
  let ?t = "t\<lparr>pos := k, running := running_after e (running t), ended := (e = Ev_end)\<rparr>"
  show ?thesis
  proof (cases "e = Ev_end")
    case True
    then show ?thesis
      by (intro that [OF run, of ?t]) (use ok1 in \<open>simp_all add: next_item_def stands_for_def\<close>)
  next
    case False
    show ?thesis
    proof (cases es)
      case Nil
      have "trk_len t \<le> k"
      proof (rule ccontr)
        assume "\<not> trk_len t \<le> k"
        then have "rest (song m) ?t \<noteq> []" using ok1 by (simp add: rest_def track_ok_def word_le_nat_alt)
        then show False using r1 Nil by simp
      qed
      then have "read_next_delta ?m ?t = Some (?t\<lparr>ended := True\<rparr>)" by (simp add: read_next_delta_def)
      moreover have "track_ok (song m) (?t\<lparr>ended := True\<rparr>)" using ok1 by (simp add: track_ok_def)
      ultimately show ?thesis
        by (intro that [OF run, of "?t\<lparr>ended := True\<rparr>"]) (use False Nil in \<open>simp_all add: next_item_def stands_for_def\<close>)
    next
      case (Cons x es')
      obtain ticks' short' e' where x: "x = (ticks', short', e')" by (cases x)
      let ?ys = "event_bytes short' (running ?t) e' @ encode (running_after e' (running ?t)) es'"
      have k: "ticks' < 2 ^ 28" using t(4) by (simp add: Cons x item_ok_def)
      have rv: "rest (song m) ?t = vlq ticks' @ ?ys" using r1 by (simp add: Cons x)
      obtain j where j: "read_var (song m) ?t = Some (word_of_nat ticks', ?t\<lparr>pos := j\<rparr>)" "track_ok (song m) (?t\<lparr>pos := j\<rparr>)"
        "rest (song m) (?t\<lparr>pos := j\<rparr>) = ?ys"
        by (rule read_var_vlq [OF ok1 rv k])
      have "vlq ticks' \<noteq> []" by (simp add: vlq_def)
      then obtain c cs where "rest (song m) ?t = c # cs" using rv by (cases "vlq ticks'") simp_all
      then have inside: "\<not> trk_len t \<le> k" using rest_Cons(1) [OF ok1, of c cs] by simp
      let ?w = "pending_us t + drop_bit 16 (ucast (word_of_nat ticks' :: u32) * us_per_tick_q16 ?m)"
      let ?t2 = "?t\<lparr>pos := j, pending_us := ?w\<rparr>"
      have "read_next_delta ?m ?t = Some ?t2" using False inside j(1) by (simp add: read_next_delta_def song)
      moreover have "stands_for (song m) ?t2 (p + delay ?m ticks', es)"
        using j(2,3) t(4) add_delay [OF q k, of "pending_us t"] t(5) p False
        by (simp add: stands_for_def Cons x track_ok_def rest_def)
      ultimately show ?thesis
        by (intro that [OF run, of ?t2]) (use False in \<open>simp_all add: next_item_def Cons x\<close>)
    qed
  qed
qed

section \<open>One track\<close>

text \<open>The next \<open>n\<close> readings of the clock are within the budget of a call that started at \<open>start\<close>.\<close>

definition prompt :: "u32 \<Rightarrow> nat \<Rightarrow> midi \<Rightarrow> bool" where
  "prompt start n m \<longleftrightarrow> (\<forall>k < n. \<not> PUMP_BUDGET_US < clock m (clock_pos m + k) - start)"

lemma prompt_later:
  assumes "prompt start n m" and "clock m' = clock m" and "clock_pos m \<le> clock_pos m'" and "clock_pos m' + n' \<le> clock_pos m + n"
  shows "prompt start n' m'"
  unfolding prompt_def
proof (intro allI impI)
  fix k assume k: "k < n'"
  have eq: "clock_pos m' + k = clock_pos m + (clock_pos m' - clock_pos m + k)" using assms(3) by simp
  have "clock_pos m' - clock_pos m + k < n" using k assms(3,4) by simp
  then show "\<not> PUMP_BUDGET_US < clock m' (clock_pos m' + k) - start"
    using assms(1) unfolding prompt_def assms(2) eq by blast
qed

text \<open>What the loop over one track leaves alone besides the cursors of the others.\<close>

definition at_track :: "nat \<Rightarrow> midi \<Rightarrow> midi \<Rightarrow> bool" where
  "at_track i m m' \<longleftrightarrow> song m' = song m \<and> num_tracks m' = num_tracks m \<and> looping m' = looping m \<and> clock m' = clock m \<and>
     length (tracks m') = length (tracks m) \<and> (\<forall>j. j \<noteq> i \<longrightarrow> tracks m' ! j = tracks m ! j) \<and> clock_pos m \<le> clock_pos m'"

lemma at_track_trans: "at_track i m m' \<Longrightarrow> at_track i m' m'' \<Longrightarrow> at_track i m m''"
  unfolding at_track_def by (metis le_trans)

definition startable :: "int \<times> item list \<Rightarrow> bool" where
  "startable q \<longleftrightarrow> (snd q \<noteq> [] \<longrightarrow> - (2 ^ 62) \<le> fst q)"

lemma next_item_snd: "length (snd (next_item m e p es)) \<le> length es"
  by (auto simp: next_item_def split: list.splits)

lemma next_item_core: "next_item (core m) e p es = next_item m e p es"
  by (simp add: next_item_def delay_core split: list.splits)

lemma due_step:
  assumes "p \<le> 0"
  shows "due ((ticks, short, e) # es) p m =
    due (snd (next_item (apply_event e m) e p es)) (fst (next_item (apply_event e m) e p es)) (apply_event e m)"
  using assms by (cases es) (auto simp: next_item_def Let_def)

lemma track_loop_due:
  assumes "prompt start (length (snd q)) m" and "tempo_ok m" and "i < length (tracks m)" and "length (snd q) < fuel"
    and "stands_for (song m) (tracks m ! i) q" and "startable q"
  shows "\<exists>k m'. track_loop fuel i start m = Some (False, k, m') \<and> fuel \<le> k + length (snd q) \<and> at_track i m m' \<and> tempo_ok m' \<and>
    clock_pos m' \<le> clock_pos m + length (snd q) \<and>
    due (snd q) (fst q) (core m) = (fst (due (snd q) (fst q) (core m)), core m') \<and>
    stands_for (song m) (tracks m' ! i) (fst (due (snd q) (fst q) (core m)))"
  using assms
proof (induction "length (snd q)" arbitrary: q m fuel rule: less_induct)
  case less
  let ?t = "tracks m ! i"
  obtain n where n: "fuel = Suc n" using less.prems(4) by (cases fuel) simp_all
  show ?case
  proof (cases "snd q = [] \<or> 0 < fst q")
    case True
    then have "\<not> (\<not> ended ?t \<and> sint (pending_us ?t) \<le> 0)"
      using less.prems(5) by (auto simp: stands_for_def split: list.splits)
    then have loop: "track_loop fuel i start m = Some (False, fuel, m)" by (auto simp: n Let_def)
    have "due (snd q) (fst q) (core m) = (q, core m)" using True by (cases q; cases "snd q") auto
    then show ?thesis using loop less.prems(2,5) by (simp add: at_track_def del: track_loop.simps)
  next
    case False
    obtain ticks short e es where q: "q = (fst q, (ticks, short, e) # es)" using False by (cases q; cases "snd q") auto
    then have sq: "snd q = (ticks, short, e) # es" by (metis snd_conv)
    have p: "fst q \<le> 0" "- (2 ^ 62) \<le> fst q" using False less.prems(6) by (simp_all add: startable_def)
    let ?m1 = "apply_event e m"
    let ?q = "next_item ?m1 e (fst q) es"
    have "stands_for (song m) ?t (fst q, (ticks, short, e) # es)" using less.prems(5) q by simp
    then obtain b t1 t2 where ev: "process_event m ?t = Some (b, ?m1, t1)"
      "(if ended t1 then Some t1 else read_next_delta ?m1 t1) = Some t2" "stands_for (song m) t2 ?q"
      using event_due [OF _ p less.prems(2)] by blast
    have e_ok: "event_ok e" using less.prems(5) sq by (simp add: stands_for_def item_ok_def)
    have steady: "steady m ?m1" by (rule apply_steady)
    let ?m2 = "?m1\<lparr>tracks := (tracks ?m1)[i := t2], clock_pos := clock_pos ?m1 + 1\<rparr>"
    have active: "\<not> ended ?t \<and> sint (pending_us ?t) \<le> 0" using less.prems(5) sq p(1) by (simp add: stands_for_def)
    have budget: "\<not> PUMP_BUDGET_US < clock ?m1 (clock_pos ?m1) - start"
      using less.prems(1) sq steady by (auto simp: prompt_def steady_def apply_clock_pos dest: spec [of _ 0])
    have loop: "track_loop fuel i start m = track_loop n i start ?m2"
      using active ev(1,2) budget by (auto simp: n Let_def timer_get_us_def)
    have at: "at_track i m ?m2" using steady by (simp add: at_track_def steady_def apply_clock_pos)
    have short1: "length (snd ?q) < length (snd q)" using next_item_snd [of ?m1 e "fst q" es] sq by simp
    have fits: "startable ?q"
      using p by (auto simp: startable_def next_item_def delay_def split: list.splits)
    have "prompt start (length (snd ?q)) ?m2"
      by (rule prompt_later [OF less.prems(1)]) (use steady short1 in \<open>simp_all add: steady_def apply_clock_pos\<close>)
    moreover have pre: "tempo_ok ?m2" "i < length (tracks ?m2)" "length (snd ?q) < n" "stands_for (song ?m2) (tracks ?m2 ! i) ?q"
      using less.prems(3,4) tempo_ok_apply [OF less.prems(2) e_ok] ev(3) steady short1 n
      by (simp_all add: steady_def tempo_ok_def)
    ultimately obtain k m' where ih: "track_loop n i start ?m2 = Some (False, k, m')" "n \<le> k + length (snd ?q)" "at_track i ?m2 m'" "tempo_ok m'"
      "due (snd ?q) (fst ?q) (core ?m2) = (fst (due (snd ?q) (fst ?q) (core ?m2)), core m')"
      "stands_for (song ?m2) (tracks m' ! i) (fst (due (snd ?q) (fst ?q) (core ?m2)))"
      "clock_pos m' \<le> clock_pos ?m2 + length (snd ?q)"
      using less.hyps [OF short1 _ pre fits] by blast
    have core2: "core ?m2 = apply_event e (core m)" by (simp add: core_apply)
    have "next_item (apply_event e (core m)) e (fst q) es = ?q" by (simp add: core_apply [symmetric] next_item_core)
    then have "due (snd q) (fst q) (core m) = due (snd ?q) (fst ?q) (core ?m2)"
      unfolding core2 using due_step [OF p(1), of ticks short e es "core m"] sq by simp
    moreover have "song ?m2 = song m" using steady by (simp add: steady_def)
    moreover have "fuel \<le> k + length (snd q)" using ih(2) short1 n by simp
    moreover have "clock_pos m' \<le> clock_pos m + length (snd q)" using ih(7) short1 by (simp add: apply_clock_pos)
    ultimately show ?thesis
      using ih(1,4-6) loop at_track_trans [OF at ih(3)] by (auto simp del: track_loop.simps)
  qed
qed

section \<open>All tracks\<close>

definition items :: "(int \<times> item list) list \<Rightarrow> nat" where
  "items qs = sum_list (map (\<lambda>q. length (snd q)) qs)"

definition others :: "nat list \<Rightarrow> midi \<Rightarrow> midi \<Rightarrow> bool" where
  "others is m m' \<longleftrightarrow> song m' = song m \<and> num_tracks m' = num_tracks m \<and> looping m' = looping m \<and> clock m' = clock m \<and>
     length (tracks m') = length (tracks m) \<and> (\<forall>j. j \<notin> set is \<longrightarrow> tracks m' ! j = tracks m ! j)"

lemma dispatch_due:
  assumes "prompt start (items qs) m" and "tempo_ok m" and "distinct is" and "\<And>i. i \<in> set is \<Longrightarrow> i < length (tracks m)"
    and "list_all2 (\<lambda>i q. stands_for (song m) (tracks m ! i) q \<and> startable q) is qs" and "items qs < fuel"
  shows "\<exists>m'. dispatch is fuel start m = Some m' \<and> others is m m' \<and>
    play_due qs (core m) = (fst (play_due qs (core m)), core m') \<and>
    list_all2 (\<lambda>i q. stands_for (song m) (tracks m' ! i) q) is (fst (play_due qs (core m)))"
  using assms
proof (induction "is" arbitrary: m qs fuel)
  case (Cons i "is")
  obtain q qs' where qs: "qs = q # qs'" and q: "stands_for (song m) (tracks m ! i) q" "startable q"
    and rest: "list_all2 (\<lambda>i q. stands_for (song m) (tracks m ! i) q \<and> startable q) is qs'"
    using Cons.prems(5) by (cases qs) auto
  have "length (snd q) < fuel" using Cons.prems(6) by (simp add: items_def qs)
  moreover have "prompt start (length (snd q)) m"
    by (rule prompt_later [OF Cons.prems(1)]) (simp_all add: items_def qs)
  ultimately obtain k m1 where t: "track_loop fuel i start m = Some (False, k, m1)" "fuel \<le> k + length (snd q)" "at_track i m m1" "tempo_ok m1"
    "due (snd q) (fst q) (core m) = (fst (due (snd q) (fst q) (core m)), core m1)"
    "stands_for (song m) (tracks m1 ! i) (fst (due (snd q) (fst q) (core m)))" "clock_pos m1 \<le> clock_pos m + length (snd q)"
    using track_loop_due [OF _ Cons.prems(2) _ _ q] Cons.prems(4) by (meson list.set_intros(1))
  have keep: "song m1 = song m" "clock m1 = clock m" "length (tracks m1) = length (tracks m)" "clock_pos m \<le> clock_pos m1" using t(3) by (simp_all add: at_track_def)
  have same: "tracks m1 ! j = tracks m ! j" if "j \<in> set is" for j using t(3) Cons.prems(3) that by (auto simp: at_track_def)
  have rest1: "list_all2 (\<lambda>i q. stands_for (song m1) (tracks m1 ! i) q \<and> startable q) is qs'"
    using rest same keep(1) by (simp add: list_all2_conv_all_nth)
  have fuel: "items qs' < k" using Cons.prems(6) t(2) by (simp add: items_def qs)
  have pre: "prompt start (items qs') m1"
    by (rule prompt_later [OF Cons.prems(1)]) (use keep t(7) in \<open>simp_all add: items_def qs\<close>)
  have dist: "distinct is" using Cons.prems(3) by simp
  have idx: "\<And>j. j \<in> set is \<Longrightarrow> j < length (tracks m1)" using Cons.prems(4) keep(3) by simp
  obtain m' where m': "dispatch is k start m1 = Some m'" "others is m1 m'"
    "play_due qs' (core m1) = (fst (play_due qs' (core m1)), core m')"
    "list_all2 (\<lambda>i q. stands_for (song m1) (tracks m' ! i) q) is (fst (play_due qs' (core m1)))"
    using Cons.IH [OF pre t(4) dist idx rest1 fuel] by blast
  have "dispatch (i # is) fuel start m = Some m'" using t(1) m'(1) by simp
  moreover have "others (i # is) m m'" using m'(2) t(3) by (simp add: others_def at_track_def)
  moreover have "tracks m' ! i = tracks m1 ! i" using m'(2) Cons.prems(3) by (simp add: others_def)
  moreover have "play_due qs (core m) = (fst (due (snd q) (fst q) (core m)) # fst (play_due qs' (core m1)), core m')"
    using t(5) m'(3) by (simp add: qs split_beta) (metis prod.collapse snd_conv)
  ultimately show ?case using m'(4) t(6) keep(1) by auto
qed (simp add: others_def)

lemma tick_loop_core: "core (snd (snd (snd (tick_loop n f st m)))) = core m"
proof (induction n arbitrary: f m)
  case (Suc n)
  have "core ((emit Tick m)\<lparr>tick_accum_us := u, clock_pos := k\<rparr>) = core m" for u k by (simp add: core_silent)
  then show ?case using Suc by (simp add: Let_def timer_get_us_def emit_def)
qed simp

lemma tick_loop_clock: "clock_pos m \<le> clock_pos (snd (snd (snd (tick_loop n f st m)))) \<and>
    clock_pos (snd (snd (snd (tick_loop n f st m)))) \<le> clock_pos m + n"
proof (induction n arbitrary: f m)
  case (Suc n)
  let ?m = "(emit Tick m)\<lparr>tick_accum_us := tick_accum_us m - 1000, clock_pos := clock_pos m + 1\<rparr>"
  have "clock_pos ?m = clock_pos m + 1" by simp
  show ?case
  proof (cases "1000 \<le> tick_accum_us m \<and> \<not> PUMP_BUDGET_US < clock m (clock_pos m) - st")
    case True
    then have "tick_loop (Suc n) f st m = tick_loop n (f + 1) st ?m" by (simp add: Let_def timer_get_us_def emit_def)
    then show ?thesis using Suc [of ?m "f + 1"] by (simp del: tick_loop.simps)
  qed (auto simp: Let_def timer_get_us_def emit_def)
qed simp

lemma tick_loop_tempo: "tempo_ok (snd (snd (snd (tick_loop n f st m)))) = tempo_ok m"
  by (metis tempo_ok_core tick_loop_core)

lemma stands_for_later:
  assumes "stands_for d t q" and "0 \<le> e" and "e \<le> 500000" and "- (2 ^ 62) \<le> fst q - e"
  shows "stands_for d (if ended t then t else t\<lparr>pending_us := pending_us t - word_of_int e\<rparr>) (fst q - e, snd q)"
proof (cases "snd q")
  case Nil
  then show ?thesis using assms(1) by (simp add: stands_for_def)
next
  case (Cons x es)
  have "sint (pending_us t - word_of_int e) = fst q - e" if "sint (pending_us t) = fst q"
  proof -
    have "pending_us t - word_of_int e = word_of_int (fst q - e)" by (simp add: that [symmetric])
    then have "sint (pending_us t - word_of_int e) = signed_take_bit 63 (fst q - e)" by (simp only: signed_of_int) simp
    also have "\<dots> = fst q - e"
      by (rule signed_take_bit_int_eq_self) (use assms(2,4) that sint_less [of "pending_us t"] in simp_all)
    finally show ?thesis .
  qed
  then show ?thesis using assms(1) Cons by (auto simp: stands_for_def track_ok_def rest_def split: prod.splits)
qed

section \<open>The timer call\<close>

text \<open>The tracks of the song stand for \<open>qs\<close>, each with its time.\<close>

definition performing :: "midi \<Rightarrow> (int \<times> item list) list \<Rightarrow> bool" where
  "performing m qs \<longleftrightarrow> list_all2 (stands_for (song m)) (take (unat (num_tracks m)) (tracks m)) qs"

definition earlier :: "int \<Rightarrow> (int \<times> item list) list \<Rightarrow> (int \<times> item list) list" where
  "earlier e = map (\<lambda>(p, es). (p - e, es))"

lemma count_down_tracks:
  "tracks (count_down el m) = map (\<lambda>t. if ended t then t else t\<lparr>pending_us := pending_us t - word_of_int (uint el)\<rparr>)
     (take (unat (num_tracks m)) (tracks m)) @ drop (unat (num_tracks m)) (tracks m)"
  by (simp add: count_down_def)

lemma performing_later:
  assumes "performing m qs" and "uint el \<le> 500000" and "\<And>q. q \<in> set qs \<Longrightarrow> - (2 ^ 61) \<le> fst q"
    and "unat (num_tracks m) \<le> length (tracks m)" and "i < unat (num_tracks m)"
  shows "stands_for (song m) (tracks (count_down el m) ! i) (earlier (uint el) qs ! i) \<and> startable (earlier (uint el) qs ! i)"
proof -
  have l: "length qs = unat (num_tracks m)" using list_all2_lengthD [OF assms(1) [unfolded performing_def]] assms(4) by simp
  have q: "stands_for (song m) (tracks m ! i) (qs ! i)"
    using list_all2_nthD [OF assms(1) [unfolded performing_def], of i] assms(4,5) by simp
  have low: "- (2 ^ 62) \<le> fst (qs ! i) - uint el" using assms(3) [of "qs ! i"] assms(2,5) l by simp
  have eq: "earlier (uint el) qs ! i = (fst (qs ! i) - uint el, snd (qs ! i))" using assms(5) l by (simp add: earlier_def split_beta)
  show ?thesis
    using stands_for_later [OF q _ assms(2) low] low assms(4,5)
    by (auto simp: eq count_down_tracks nth_append startable_def)
qed

lemma items_earlier: "items (earlier e qs) = items qs"
  by (simp add: items_def earlier_def comp_def split_beta)

lemma active_iff:
  assumes "performing m qs"
  shows "(\<exists>t \<in> set (take (unat (num_tracks m)) (tracks m)). \<not> ended t) \<longleftrightarrow> 0 < items qs"
  using assms unfolding performing_def
  by (induction rule: list_all2_induct) (auto simp: items_def stands_for_def split: list.splits)

lemma pump_due:
  assumes ok: "song_ok m" and el: "0 < el" "el \<le> 500000" and tempo: "tempo_ok m" and perf: "performing m qs"
    and time: "prompt (clock m (clock_pos m)) (501 + items qs) m"
    and n: "0 < items qs" "items qs < 10000" and low: "\<And>q. q \<in> set qs \<Longrightarrow> - (2 ^ 61) \<le> fst q"
  shows "\<exists>m'. pump_elapsed el m = Some m' \<and> performing m' (fst (play_due (earlier (uint el) qs) (core m))) \<and>
    core m' = snd (play_due (earlier (uint el) qs) (core m))"
proof -
  let ?start = "clock m (clock_pos m)"
  let ?m0 = "m\<lparr>tick_accum_us := tick_accum_us m + el, clock_pos := clock_pos m + 1\<rparr>"
  obtain budget fired over m1 where tick: "tick_loop 500 0 ?start ?m0 = (budget, fired, over, m1)" by (metis prod_cases4)
  let ?x = "budget = 0 \<or> over"
  let ?m2 = "emit (Record_pump el fired ?x) (if ?x then m1\<lparr>tick_accum_us := 0\<rparr> else m1)"
  have st0: "steady m ?m0" by (simp add: steady_def channels_ok_def)
  have st1: "steady m m1" by (rule steady_trans [OF st0 tick_loop_steady [OF tick]])
  have core1: "core m1 = core m" using tick_loop_core [of 500 0 ?start ?m0] tick by simp
  have pos1: "clock_pos m + 1 \<le> clock_pos m1" "clock_pos m1 \<le> clock_pos m + 501" using tick_loop_clock [of ?m0 500 0 ?start] tick by simp_all
  have st2: "steady m (if ?x then m1\<lparr>tick_accum_us := 0\<rparr> else m1)" using st1 by (simp add: steady_def channels_ok_def)
  have two: "steady m ?m2" "core ?m2 = core m" "clock_pos ?m2 = clock_pos m1"
    using steady_emit [OF st2] core1 by (simp_all add: core_silent) (simp_all add: emit_def)
  let ?m3 = "count_down el ?m2"
  have three: "song ?m3 = song m" "num_tracks ?m3 = num_tracks m" "clock ?m3 = clock m" "clock_pos ?m3 = clock_pos m1" "core ?m3 = core m"
    using two by (simp_all add: count_down_def steady_def)
  have perf2: "performing ?m2 qs" using perf two(1) by (simp add: performing_def steady_def)
  have len: "unat (num_tracks ?m2) \<le> length (tracks ?m2)" "num_tracks ?m2 = num_tracks m" "song ?m2 = song m"
    using ok two(1) by (simp_all add: song_ok_def steady_def)
  have len3: "length (tracks ?m3) = length (tracks ?m2)" by (simp add: count_down_tracks)
  have uel: "uint el \<le> 500000" "0 \<le> uint el" using el(2) by (simp_all add: word_le_def)
  have lq: "length (earlier (uint el) qs) = unat (num_tracks m)"
    using list_all2_lengthD [OF perf2 [unfolded performing_def]] len by (simp add: earlier_def)
  let ?is = "[0..<unat (num_tracks m)]"
  let ?qs = "earlier (uint el) qs"
  have stands: "list_all2 (\<lambda>i q. stands_for (song ?m3) (tracks ?m3 ! i) q \<and> startable q) ?is ?qs"
    using performing_later [OF perf2 uel(1) low len(1)] len three(1) lq by (simp add: list_all2_conv_all_nth)
  have prompt3: "prompt ?start (items ?qs) ?m3"
    by (rule prompt_later [OF time]) (use three pos1 in \<open>simp_all add: items_earlier\<close>)
  have tempo3: "tempo_ok ?m3" using tempo three(5) by (metis tempo_ok_core)
  obtain m' where m': "dispatch ?is 10000 ?start ?m3 = Some m'" "others ?is ?m3 m'"
    "play_due ?qs (core m) = (fst (play_due ?qs (core m)), core m')"
    "list_all2 (\<lambda>i q. stands_for (song m) (tracks m' ! i) q) ?is (fst (play_due ?qs (core m)))"
    using dispatch_due [OF prompt3 tempo3, of ?is 10000] stands n(2) len len3 unfolding three(1) three(5) items_earlier by auto
  have active: "\<exists>t \<in> set (take (unat (num_tracks ?m2)) (tracks ?m2)). \<not> ended t" using active_iff [OF perf2] n(1) by simp
  have run: "pump_elapsed el m = Some m'"
    using tick m'(1) active len(2) by (simp add: pump_elapsed_def timer_get_us_def Let_def)
  have "num_tracks m' = num_tracks m" "song m' = song m" "length (tracks m') = length (tracks ?m2)"
    using m'(2) three len3 by (simp_all add: others_def)
  then have "performing m' (fst (play_due ?qs (core m)))"
    using m'(4) len(1,2) by (simp add: performing_def list_all2_conv_all_nth)
  then show ?thesis using run m'(3) by (metis snd_conv)
qed

end
