(* ===== verification/MidiPerform.thy ===== *)
theory MidiPerform
  imports MidiTime
begin

text \<open>
  From the file to the sound: a file written from timed events is played as those events. Starting it
  leaves every track waiting for its first event; each timer call then plays what is due.
\<close>

section \<open>Starting a song\<close>

text \<open>A track before its first event.\<close>

definition first_wait :: "midi \<Rightarrow> item list \<Rightarrow> int \<times> item list" where
  "first_wait m es = (case es of [] \<Rightarrow> 0 | (ticks, _) # _ \<Rightarrow> delay m ticks, es)"

lemma reads_performs:
  assumes t: "track_ok d t" and body: "track_body d t = encode 0 es" and ok: "list_all item_ok es"
    and q: "unat (us_per_tick_q16 m) < 2 ^ 36" and d: "song m = d"
    and t': "read_next_delta m (rewound t) = Some t'"
  shows "stands_for d t' (first_wait m es)"
proof -
  let ?t = "rewound t"
  have ok0: "track_ok d ?t" by (rule track_ok_reset [OF t])
  have r: "rest d ?t = encode 0 es" using body by (simp add: rest_def track_body_def)
  show ?thesis
  proof (cases es)
    case Nil
    have "trk_len t \<le> 0"
    proof (rule ccontr)
      assume "\<not> trk_len t \<le> 0"
      then have "rest d ?t \<noteq> []" using t by (simp add: rest_def track_ok_def word_le_nat_alt)
      then show False using r Nil by simp
    qed
    then have "t' = ?t\<lparr>ended := True\<rparr>" using t' by (simp add: read_next_delta_def)
    then show ?thesis using ok0 by (simp add: stands_for_def first_wait_def Nil track_ok_def)
  next
    case (Cons x es')
    obtain ticks short e where x: "x = (ticks, short, e)" by (cases x)
    let ?ys = "event_bytes short 0 e @ encode (running_after e 0) es'"
    have rv: "rest d ?t = vlq ticks @ ?ys" using r by (simp add: Cons x)
    have k: "ticks < 2 ^ 28" using ok by (simp add: Cons x item_ok_def)
    obtain j where j: "read_var d ?t = Some (word_of_nat ticks, ?t\<lparr>pos := j\<rparr>)" "track_ok d (?t\<lparr>pos := j\<rparr>)"
      "rest d (?t\<lparr>pos := j\<rparr>) = ?ys"
      by (rule read_var_vlq [OF ok0 rv k])
    have "vlq ticks \<noteq> []" by (simp add: vlq_def)
    then obtain c cs where "rest d ?t = c # cs" using rv by (cases "vlq ticks") simp_all
    then have inside: "\<not> trk_len t \<le> 0" using rest_Cons(1) [OF ok0, of c cs] by simp
    let ?w = "drop_bit 16 (ucast (word_of_nat ticks :: u32) * us_per_tick_q16 m)"
    have "t' = ?t\<lparr>pos := j, pending_us := ?w\<rparr>" using t' inside j(1) d by (simp add: read_next_delta_def)
    moreover have "sint ?w = delay m ticks" using add_delay [OF q k, of 0] by simp
    ultimately show ?thesis
      using j(2,3) ok by (simp add: stands_for_def first_wait_def Cons x track_ok_def rest_def)
  qed
qed

lemma tempo_ok_start:
  assumes "division m = word_of_nat dv" and "us_per_tick_q16 m = push_bit 16 500000 div ucast (division m)" and "16 \<le> dv" and "dv < 2 ^ 16"
  shows "tempo_ok m"
proof -
  have d: "unat (division m) = dv" using assms(1,4) by (simp add: unsigned_of_nat take_bit_nat_eq_self)
  then have "unat (ucast (division m) :: u64) = dv" using assms(4) by (simp add: unsigned_ucast_eq take_bit_nat_eq_self)
  then have "unat (us_per_tick_q16 m) = unat (push_bit 16 500000 :: u64) div dv" by (simp add: assms(2) unat_div_distrib)
  also have "\<dots> \<le> unat (push_bit 16 500000 :: u64)" by (rule div_le_dividend)
  also have "\<dots> < 2 ^ 36" by (simp add: push_bit_eq_mult)
  finally show ?thesis using d assms(3) by (simp add: tempo_ok_def)
qed

text \<open>
  C39: A MIDI file of format 0 or 1 written from timed events, with 16 to 32767 ticks per quarter note and
  any other chunks among its tracks, is accepted, and then every track of the player waits for the first of
  its events, with just these events to come. SMPTE divisions, which the player does not support, are not
  claimed.
\<close>

theorem midi_file_performs:
  assumes "data = midi_file fmt dv cs" and "track_bodies cs = map (encode 0) song_items" and "\<And>es. es \<in> set song_items \<Longrightarrow> list_all item_ok es"
    and "len = word_of_nat (length data)" and "length data < 2 ^ 32"
    and "fmt \<le> 1" and "16 \<le> dv" and "dv < 2 ^ 15" and "song_items \<noteq> []" and "length song_items \<le> MIDI_MAX_TRACKS"
    and "\<And>c. c \<in> set cs \<Longrightarrow> fst c < 2 ^ 32" and "midi_reach m" and "inited m" and "\<not> playing m" and "loaded_bank m \<noteq> None"
  shows "\<exists>m'. of_midi_play data len loop m = Some (OF_MIDI_OK, m') \<and> playing m' \<and> callback_hz m' = 50 \<and> tempo_ok m' \<and>
    performing m' (map (first_wait m') song_items)"
proof -
  have dv: "dv < 2 ^ 16" using assms(8) by simp
  have pre: "0 < dv" "track_bodies cs \<noteq> []" "length (track_bodies cs) \<le> MIDI_MAX_TRACKS" using assms(2,7,9,10) by simp_all
  obtain m' where p: "of_midi_play data len loop m = Some (OF_MIDI_OK, m')" "playing m'" "callback_hz m' = 50"
    "unat (num_tracks m') = length (track_bodies cs)" "song_ok m'" "song m' = data"
    and t: "\<forall>j < length (track_bodies cs). \<exists>t. track_ok data t \<and> track_body data t = track_bodies cs ! j \<and>
       read_next_delta m' (rewound t) = Some (tracks m' ! j)"
    and tempo: "division m' = word_of_nat dv" "us_per_tick_q16 m' = push_bit 16 500000 div ucast (division m')"
    by (rule play_midi_file_reads [OF assms(1,4,5,6) pre(1) dv pre(2,3) assms(11) midi_reach_ok [OF assms(12)] assms(13-15), of loop]) blast
  have ok: "tempo_ok m'" by (rule tempo_ok_start [OF tempo assms(7) dv])
  then have q: "unat (us_per_tick_q16 m') < 2 ^ 36" by (simp add: tempo_ok_def)
  have n: "unat (num_tracks m') = length song_items" "unat (num_tracks m') \<le> length (tracks m')"
    using p(4,5) by (simp_all add: assms(2) song_ok_def)
  have "stands_for data (tracks m' ! j) (first_wait m' (song_items ! j))" if j: "j < length song_items" for j
  proof -
    obtain t' where "track_ok data t'" "track_body data t' = encode 0 (song_items ! j)" "read_next_delta m' (rewound t') = Some (tracks m' ! j)"
      using t j by (auto simp: assms(2))
    then show ?thesis using reads_performs [OF _ _ _ q p(6)] assms(3) j by simp
  qed
  then have "performing m' (map (first_wait m') song_items)"
    using n p(6) by (simp add: performing_def list_all2_conv_all_nth)
  then show ?thesis using p(1-3) ok by blast
qed

definition demo_items :: "item list" where
  "demo_items = [(0, False, Ev_note_on 0 60 100), (96, False, Ev_note_off 0 60 0), (0, False, Ev_end)]"

lemma demo_items_facts: "track_bodies demo_chunks = map (encode 0) [demo_items]" "list_all item_ok demo_items"
  by (simp_all add: demo_bodies demo_items_def demo_track_def vlq_def group7_def take_bit_eq_mod event_bytes_def running_after_def item_ok_def)

theorem midi_file_performs_witness:
  "\<exists>m m'. midi_reach m \<and> of_midi_play demo_song 44 False m = Some (OF_MIDI_OK, m') \<and> performing m' [first_wait m' demo_items]"
proof -
  obtain m0 where m0: "midi_reach m0" "inited m0" "\<not> playing m0" "loaded_bank m0 \<noteq> None"
    by (rule demo_ready)
  have "\<exists>m'. of_midi_play demo_song 44 False m0 = Some (OF_MIDI_OK, m') \<and> playing m' \<and> callback_hz m' = 50 \<and> tempo_ok m' \<and>
    performing m' (map (first_wait m') [demo_items])"
    by (rule midi_file_performs [OF demo_song_def demo_items_facts(1) _ demo_song_facts(1,2) _ _ _ _ _ demo_song_facts(5) m0])
      (simp_all add: demo_items_facts(2) MIDI_MAX_TRACKS_def)
  then show ?thesis using m0(1) by auto
qed

section \<open>A timer call\<close>

text \<open>
  C40: A timer call that keeps within its time plays exactly the events that are due: with the elapsed time
  (half a second at most) off every wait, the tracks and the calls into the voice engine are those of the
  plain semantics of the event lists, track by track, and every event still to come keeps its wait.
\<close>

theorem midi_pump_plays_due:
  assumes "midi_reach m" and "playing m" and "\<not> paused m" and "tempo_ok m" and "performing m qs"
    and "e = min 500000 (uint (clock m (clock_pos m) - last_pump_us m))" and "0 < e"
    and "\<And>k. k < 501 + items qs \<Longrightarrow> clock m (clock_pos m + 1 + k) - clock m (clock_pos m + 1) \<le> PUMP_BUDGET_US"
    and "0 < items qs" and "items qs < 10000" and "\<And>q. q \<in> set qs \<Longrightarrow> - (2 ^ 61) \<le> fst q"
  shows "\<exists>m'. of_midi_pump m = Some m' \<and> performing m' (fst (play_due (earlier e qs) (core m))) \<and>
    core m' = snd (play_due (earlier e qs) (core m))"
proof -
  let ?d = "clock m (clock_pos m) - last_pump_us m"
  let ?el = "if 500000 < ?d then 500000 else ?d"
  let ?m = "m\<lparr>clock_pos := clock_pos m + 1, last_pump_us := clock m (clock_pos m)\<rparr>"
  have uel: "uint ?el = e" using assms(6) by (auto simp: word_less_def)
  have el: "0 < ?el" "?el \<le> 500000"
  proof -
    show "?el \<le> 500000" by (simp add: not_less)
    have "?el \<noteq> 0"
    proof
      assume "?el = 0"
      then have "uint ?el = 0" by (simp only: unsigned_0)
      then show False using assms(7) unfolding uel by simp
    qed
    then show "0 < ?el" by (simp only: word_gt_0 not_False_eq_True)
  qed
  have ok: "song_ok ?m" using midi_reach_ok [OF assms(1)] assms(2) by (simp add: midi_ok_def song_ok_def)
  have same: "tempo_ok ?m" "performing ?m qs" "core ?m = core m"
    using assms(4,5) by (simp_all add: tempo_ok_def performing_def)
  have time: "prompt (clock ?m (clock_pos ?m)) (501 + items qs) ?m"
    using assms(8) by (simp add: prompt_def not_less)
  have "of_midi_pump m = pump_elapsed ?el ?m"
    using assms(2,3) el(1) by (auto simp: of_midi_pump_def timer_get_us_def Let_def)
  then show ?thesis using pump_due [OF ok el same(1,2) time assms(9-11)] unfolding same(3) uel by simp
qed

lemma demo_performing:
  obtains m where "midi_reach m" "playing m" "\<not> paused m" "tempo_ok m" "performing m [(0, demo_items)]" "delay m 96 = 499999"
    "last_pump_us m = 0" "clock m = (\<lambda>k. if k = 0 then 0 else 500000)" "clock_pos m = 1"
proof -
  let ?clk = "\<lambda>k. if k = 0 then 0 else 500000 :: u32"
  obtain m0 where m0: "midi_reach m0" "inited m0" "\<not> playing m0" "loaded_bank m0 \<noteq> None" and clk: "clock m0 = ?clk" "clock_pos m0 = 0"
    by (rule demo_ready)
  obtain m where p: "of_midi_play demo_song 44 False m0 = Some (OF_MIDI_OK, m)" "playing m" "unat (num_tracks m) = 1" "song_ok m"
      "song m = demo_song" "\<not> paused m"
    and t: "\<exists>t. track_ok demo_song t \<and> track_body demo_song t = demo_track \<and> read_next_delta m (rewound t) = Some (tracks m ! 0)"
    and tempo: "division m = word_of_nat 96" "us_per_tick_q16 m = push_bit 16 500000 div ucast (division m)"
    and c: "last_pump_us m = clock m0 (clock_pos m0)" "clock m = clock m0" "clock_pos m = clock_pos m0 + 1"
    by (rule play_midi_file_reads [OF demo_song_def demo_song_facts(1,2) _ _ _ demo_song_facts(3,4) demo_song_facts(5)
          midi_reach_ok [OF m0(1)] m0(2-4), of False]) (simp_all add: demo_bodies)
  have reach: "midi_reach m" by (rule midi_reach.play [OF m0(1) _ p(1)]) (simp add: demo_song_length)
  have ok: "tempo_ok m" by (rule tempo_ok_start [OF tempo]) simp_all
  have q: "us_per_tick_q16 m = 341333333" by (simp add: tempo push_bit_eq_mult)
  have d: "delay m 96 = 499999" "delay m 0 = 0" by (simp_all add: delay_def q)
  have "track_body demo_song t = demo_track \<Longrightarrow> track_body demo_song t = encode 0 demo_items" for t
    using demo_items_facts(1) by (simp add: demo_bodies)
  then have "stands_for demo_song (tracks m ! 0) (first_wait m demo_items)"
    using t reads_performs [OF _ _ demo_items_facts(2) _ p(5)] q by force
  then have "stands_for demo_song (tracks m ! 0) (0, demo_items)" by (simp add: first_wait_def demo_items_def d(2))
  moreover have "take 1 (tracks m) = [tracks m ! 0]" using p(4) by (simp add: song_ok_def MIDI_MAX_TRACKS_def take_Suc_conv_app_nth)
  ultimately have perf: "performing m [(0, demo_items)]" using p(3,5) by (simp add: performing_def)
  show ?thesis by (rule that [OF reach p(2) p(6) ok perf d(1)]) (use c clk in simp_all)
qed

lemma demo_due:
  assumes "delay m 96 = 499999"
  shows "play_due (earlier 500000 [(0, demo_items)]) m = ([(-1, [])], emit (Note_off 0 60) (note_on 0 60 100 m))"
proof -
  have "delay (note_on 0 60 100 m) 96 = 499999" using assms by (simp add: delay_def note_on_def Let_def fold_emit_frame)
  then show ?thesis by (simp add: earlier_def demo_items_def) (simp add: delay_def)
qed

theorem midi_pump_plays_due_witness:
  "\<exists>m m'. midi_reach m \<and> of_midi_pump m = Some m' \<and> Note_off 0 60 \<in> set (voice_log m') \<and> performing m' [(-1, [])]"
proof -
  obtain m where m: "midi_reach m" "playing m" "\<not> paused m" "tempo_ok m" "performing m [(0, demo_items)]" and d: "delay m 96 = 499999"
    and c: "last_pump_us m = 0" "clock m = (\<lambda>k. if k = 0 then 0 else 500000)" "clock_pos m = 1"
    by (rule demo_performing)
  have "\<exists>m'. of_midi_pump m = Some m' \<and> performing m' (fst (play_due (earlier 500000 [(0, demo_items)]) (core m))) \<and>
      core m' = snd (play_due (earlier 500000 [(0, demo_items)]) (core m))"
    by (rule midi_pump_plays_due [OF m]) (simp_all add: c items_def demo_items_def)
  then obtain m' where m': "of_midi_pump m = Some m'" "performing m' [(-1, [])]" "core m' = emit (Note_off 0 60) (note_on 0 60 100 (core m))"
    using demo_due [of "core m"] d by (auto simp: delay_core)
  have "Note_off 0 60 \<in> set (voice_log (core m'))" unfolding m'(3) by (simp add: emit_def)
  then have "Note_off 0 60 \<in> set (voice_log m')" by (auto simp: core_def)
  then show ?thesis using m(1) m' by blast
qed

end
