(* ===== verification/Spec2Isabelle.thy ===== *)
theory Spec2Isabelle
  imports Misaligned TextGuard TrapDump MmapSpec IoCacheInv PathsSpec SaveInv FilesClaims LzwSpec LoaderSpec
    HidMouse BootDiskSpec BootImageSpec Net ConfigSpec MidiPerform
begin

text \<open>
  A verification library for the OS firmware of openfpgaOS (\<^verbatim>\<open>src/firmware/os\<close>): the C code that runs
  on the RV32 soft core between boot and the apps, with the MIDI player and its instrument bank
  (\<^verbatim>\<open>src/firmware/api\<close>). Definitions are translations of the C functions
  of the same name; a C function that is too long for one definition is split at its branches or
  loops, and the pieces are composed as the code composes them.

  \<^bold>\<open>Conventions.\<close> C integers are machine words (\<open>u8\<close>, \<open>u16\<close>, \<open>u32\<close>) wherever wrap-around can
  matter and \<open>nat\<close> or \<open>int\<close> for counters that the code bounds. Memory is a function from 32-bit
  addresses to bytes; buffers the caller passes are lists or functions from offsets. Structures are
  records, error codes are values of a sum or the negative integers of the code. A loop is a
  structural recursion, a \<open>function\<close> with its measure, or \<open>partial_function (option)\<close> where the code
  could loop for ever: there \<open>None\<close> is a call that does not return (in the LZW utility also one that
  leaves its work buffers), and returning is proved. The memory maps of the three targets (Pocket,
  MiSTer, simulator) are values of one record, which operations take as a parameter.

  \<^bold>\<open>Shared theories.\<close> \<open>Prelude\<close> (integers, little-endian words, C strings), \<open>Memory\<close> (error numbers,
  ranges of memory, lists updated by index), \<open>Platform\<close> (\<^verbatim>\<open>targets/*/target_platform.h\<close>), \<open>BitFields\<close>
  (instruction fields), \<open>Crc\<close> (the locale \<open>checksum\<close>: what a CRC step promises and what follows for
  single changes; it is interpreted on the word-wise and byte-wise CRC-32 and on the CRC-16 of the debug
  link).

  \<^bold>\<open>Traps\<close> (\<^verbatim>\<open>kernel/misaligned.c\<close>). \<open>Misaligned\<close>: the emulation of misaligned loads and stores, compressed
  and standard encodings, against a decoder of the instruction set; stores stay in the app
  windows. \<open>TextGuard\<close>: the CRC table over the OS text and the check that finds a changed block (the
  simulator takes no baseline).
  \<open>TrapDump\<close>: the UART report of a fatal trap, which reads mapped RAM only and polls a bounded
  number of times.

  \<^bold>\<open>Address space\<close> (\<^verbatim>\<open>kernel/syscall.c\<close>: brk, mmap2, munmap). \<open>Mmap\<close> holds the slot table and its
  operations, \<open>MmapInv\<close> the arena invariant (slots and occupied regions tile the arena) and its
  preservation, \<open>MmapSpec\<close> the reachable states and what a caller gets: fresh zeroed regions,
  isolation of live regions, and success after enough has been unmapped.

  \<^bold>\<open>Disk\<close> (\<^verbatim>\<open>hal/disk.c\<close>, \<^verbatim>\<open>targets/pocket/file.c\<close>). \<open>Disk\<close>: the bus memory, which folds the uncached
  SDRAM window onto SDRAM; the dispatcher with its late probe and its fallback from the boot ROM's
  service to the bridge; the bridge backend, which moves every chunk through the scratch window of CRAM0
  (the MiSTer backend is a parameter that stores to the destination). The raw transfer and the boot
  service are parameters that may store anything before they fail; no asynchronous transfer is in flight.
  \<open>DiskSpec\<close>: a read that succeeds has delivered the bytes of the slot, and any read changes only its
  destination and the scratch window.

  \<^bold>\<open>Files.\<close> \<open>IoCache\<close> and \<open>IoCacheInv\<close>: the block cache over data slots refines direct reads of the
  slot; the locales \<open>slot_state\<close> and \<open>slot_reader\<close> state what its clients need and are interpreted on
  it. The invariant is stated up to a set of spoiled blocks: a driver that stores data before it fails
  spoils the one block its read was to replace, and no other. \<open>Paths\<close> and \<open>PathsSpec\<close>: path
  normalisation, mount matching and the ISO path form against component lists. \<open>Save\<close> and \<open>SaveInv\<close>
  (\<^verbatim>\<open>targets/pocket/save.c\<close>): the CRAM0 save window. \<open>Iso\<close>: the ISO 9660 layer over \<^verbatim>\<open>lib9660\<close>, which is
  vendored and a parameter. \<open>Files\<close> and \<open>Vfs\<close> (\<^verbatim>\<open>kernel/syscall.c\<close>): the descriptor table and every route
  of open, read, write, seek, close, getdents, stat and the mount calls; \<open>FilesInv\<close>, \<open>FilesOps\<close>,
  \<open>FilesOpen\<close>, \<open>FilesSpec\<close> and \<open>FilesSteps\<close> carry the invariant that ties descriptors, mounts, cached sizes
  and CRAM0 ownership together through every system call. It counts the holds on CRAM0 that no descriptor
  accounts for: a path size query without a mounted volume leaks at most one, every other call none; the
  counter is 32 bits wide, and the properties ask for fewer than 2^31 such queries. \<open>FilesProps\<close> holds
  the functional lemmas, \<open>FilesClaims\<close> the properties.

  \<^bold>\<open>Loader\<close> (\<^verbatim>\<open>kernel/loader.c\<close>). \<open>Loader\<close>: ELF headers, segments, relocations and the initial stack
  over the bus; the file is read through the disk layer. \<open>LoaderInv\<close>: the addresses every store touches.
  \<open>LoaderSpec\<close>: loads are confined to the app windows, the scratch window and one word that wraps at the
  end of the address space; executables linked at 0 are refused; the stack reads back.

  \<^bold>\<open>Boot ROM\<close> (\<^verbatim>\<open>shared/phdp_codec.inc.c\<close>, \<^verbatim>\<open>targets/pocket/boot/boot.c\<close>). \<open>Phdp\<close>: the codec of the debug
  link over a polled UART; what the hardware answers (clock readings, receive polls, full transmit FIFO)
  is a trace, and a result \<open>None\<close> means that the trace ends while the code polls. \<open>PhdpSpec\<close>: round trip,
  recovery from a changed byte, safety against arbitrary input. \<open>BootDisk\<close> and \<open>BootDiskSpec\<close>: the
  session with a host and the disk service that streams a slot, with up to 15 stale packets before the
  answer. \<open>BootImage\<close> and \<open>BootImageSpec\<close>: the transfers of the OS image, its trailer, entry block and
  memory-map checks, and the retry loop: the word-wise CRC is that of the bytes, one changed byte is
  always found, and the load recovers from fewer than eight corrupted passes; after eight it returns
  with the image unverified.

  \<^bold>\<open>Mouse\<close> (\<^verbatim>\<open>hal/hid_mouse.c\<close>). \<open>HidMouse\<close>: the decoder of report snapshots whose fields may be torn, and
  the motion an app reads: each report is counted once.

  \<^bold>\<open>Link cable\<close> (\<^verbatim>\<open>hal/link.c\<close>, \<^verbatim>\<open>hal/net.c\<close>). \<open>Link\<close>: the ring buffer of the interrupt handler; the locale
  \<open>fifo\<close> states the contract of a bounded queue and is interpreted on it. \<open>Net\<close>: the byte stream of a
  session over it, and the step relation in which the handler runs between any two accesses of a receive.

  \<^bold>\<open>Configuration\<close> (\<^verbatim>\<open>kernel/config.c\<close>). \<open>Config\<close>: the parser that cuts the buffer up in place, and the
  lookup calls. \<open>ConfigSpec\<close>: it computes the table of a parser over lines, well formed whatever the file
  holds. An error line is counted without blank lines, as the code counts it.

  \<^bold>\<open>Music\<close> (\<^verbatim>\<open>api/of_smp_bank.c\<close>, \<^verbatim>\<open>api/of_smp_bank_validate.h\<close>, \<^verbatim>\<open>api/of_midi.c\<close>). \<open>SmpBank\<close> and \<open>SmpBankSpec\<close>:
  validation, binding and lookup of an instrument bank. \<open>Midi\<close>: the file player with its timer callback;
  a byte read outside the file is \<open>None\<close>, the calls into the voice engine are a log, clock readings are a
  sequence, and the budgets of a call (500 envelope ticks, 10000 events) are those of the code. \<open>MidiInv\<close>
  and \<open>MidiSpec\<close>: every track stays in its window and every event consumes a byte, so a song ends. \<open>MidiPlay\<close>
  and \<open>MidiTime\<close>: a track means a list of timed events, and a timer call plays those that are due.
  \<open>MidiClaims\<close> and \<open>MidiPerform\<close> hold the properties.

  \<^bold>\<open>LZW\<close> (\<^verbatim>\<open>hal/lzw.c\<close>). \<open>Lzw\<close>: both entry points over the shared work buffers. \<open>LzwBits\<close>: areas as
  bits and the width of each code. \<open>LzwEncode\<close>: the links are a trie over a dictionary and the codes
  spell the input. \<open>LzwDecode\<close>: every chain of prefixes ends. \<open>LzwSpec\<close>: the round trip, the
  bounds of compression, and exactly when decompression returns. Blocks of up to 16384 bytes
  (\<open>LZWSIZE\<close>) use at most 16640 of the 17408 dictionary nodes.

  \<^bold>\<open>Not modelled.\<close> Vendored code (FatFs, dlmalloc, lib9660), the RTL, the SDK libraries and the host
  tools; register-level drivers (video, terminal, audio output, input scanning, SNAC, analogizer,
  timers), whose behaviour is in the hardware; the mixers and the sample voice engine; the MiSTer file,
  block device and save backends and its boot ROM; kernel start-up and interrupt set-up. The manifest
  lists them one by one.
\<close>

end
